(* ===== verification/Prelude.thy ===== *)
theory Prelude
  imports Main "HOL-Library.Word" "HOL-Library.Monad_Syntax"
begin

unbundle bit_operations_syntax

text \<open>
  Shared vocabulary of the development: names for the machine types of the C++ sources, the
  checked memory read through which every raw buffer is accessed, the collections of simplification
  facts the component theories extend, and generic lemmas on lists, options and words that more than
  one component uses.
\<close>

section \<open>Machine types\<close>

type_synonym u8 = "8 word"
type_synonym u16 = "16 word"
type_synonym u32 = "32 word"
type_synonym u64 = "64 word"

abbreviation int_max :: int where "int_max \<equiv> 2147483647"
abbreviation int_min :: int where "int_min \<equiv> - 2147483648"

section \<open>Collections\<close>

named_theorems bijection_simps "inverse laws of word operations"
named_theorems read_simps "reads that stay inside a buffer"

section \<open>Checked reads of a buffer\<close>

text \<open>
  \<open>rd m a\<close> is the C expression \<open>m[a]\<close> on a buffer \<open>m\<close>: reading outside the buffer is undefined
  behaviour in the source and \<open>None\<close> here, so that a result \<open>Some _\<close> says every read was in bounds.
\<close>

definition rd :: "'a list \<Rightarrow> nat \<Rightarrow> 'a option" where
  "rd m a = (if a < length m then Some (m ! a) else None)"

lemma rd_in [read_simps]: "a < length m \<Longrightarrow> rd m a = Some (m ! a)"
  by (simp add: rd_def)

lemma rd_out: "length m \<le> a \<Longrightarrow> rd m a = None"
  by (simp add: rd_def)

lemma rd_Some_iff: "rd m a = Some x \<longleftrightarrow> a < length m \<and> x = m ! a"
  by (auto simp: rd_def)

lemma drop_rd: "drop p b = c # t \<Longrightarrow> rd b p = Some c \<and> drop (p + 1) b = t"
  by (metis Cons_nth_drop_Suc Suc_eq_plus1 drop_all le_less_linear list.distinct(1) list.inject rd_in)

text \<open>The same with a signed index, as a pointer that is indexed backwards.\<close>

definition rdi :: "'a list \<Rightarrow> int \<Rightarrow> 'a option" where
  "rdi m a = (if 0 \<le> a then rd m (nat a) else None)"

lemma rdi_in [read_simps]: "0 \<le> a \<Longrightarrow> a < int (length m) \<Longrightarrow> rdi m a = Some (m ! nat a)"
  by (simp add: rdi_def rd_in)

lemma rdi_int [simp]: "rdi m (int a) = rd m a"
  by (simp add: rdi_def)

lemma rd_append_right: "rd (pre @ bs) (length pre + i) = rd bs i"
  by (simp add: rd_def)

lemma rdi_append_right: "0 \<le> i \<Longrightarrow> rdi (pre @ bs) (int (length pre) + i) = rdi bs i"
  by (simp add: rdi_def nat_add_distrib rd_append_right)

section \<open>C integer division\<close>

text \<open>C++ division truncates towards zero.\<close>

definition c_div :: "int \<Rightarrow> int \<Rightarrow> int" where
  "c_div a b = sgn a * sgn b * (\<bar>a\<bar> div \<bar>b\<bar>)"

lemma c_div_nonneg [simp]: "0 \<le> a \<Longrightarrow> 0 < b \<Longrightarrow> c_div a b = a div b"
  by (cases "a = 0") (auto simp: c_div_def)

lemma bind_Some_iff: "(m \<bind> f = Some y) \<longleftrightarrow> (\<exists>x. m = Some x \<and> f x = Some y)"
  by (cases m) auto

section \<open>Numbers as text\<close>

text \<open>\<^verbatim>\<open>std::to_string\<close> of an unsigned number.\<close>

fun to_string :: "nat \<Rightarrow> string" where
  "to_string n = (if n < 10 then [char_of (48 + n)] else to_string (n div 10) @ [char_of (48 + n mod 10)])"

declare to_string.simps [simp del]

end
