(* ===== verification/Murmur_Hash.thy ===== *)
theory Murmur_Hash
  imports Prelude
begin

unbundle bit_operations_syntax

text \<open>
  The hash functions of \<^verbatim>\<open>core/crypt/MurmurHash3.cpp\<close> and the wrapper \<^verbatim>\<open>hash_32\<close> of
  \<^verbatim>\<open>core/crypt/hash.cpp\<close>. A key is a list of bytes; every read goes through \<open>rdi\<close>, so a result
  \<open>Some h\<close> says no byte outside the key was read. Words keep their width and wrap around. Block
  reads are little endian, as on the x86 targets the functions are named after.
\<close>

section \<open>Primitive operations\<close>

definition rotl32 :: "u32 \<Rightarrow> nat \<Rightarrow> u32" where
  "rotl32 x r = push_bit r x OR drop_bit (32 - r) x"

definition rotl64 :: "u64 \<Rightarrow> nat \<Rightarrow> u64" where
  "rotl64 x r = push_bit r x OR drop_bit (64 - r) x"

definition getblock32 :: "u8 list \<Rightarrow> int \<Rightarrow> int \<Rightarrow> u32 option" where
  "getblock32 m p i = do {
     b0 \<leftarrow> rdi m (p + 4 * i);
     b1 \<leftarrow> rdi m (p + 4 * i + 1);
     b2 \<leftarrow> rdi m (p + 4 * i + 2);
     b3 \<leftarrow> rdi m (p + 4 * i + 3);
     Some (ucast b0 OR push_bit 8 (ucast b1) OR push_bit 16 (ucast b2) OR push_bit 24 (ucast b3)) }"

definition getblock64 :: "u8 list \<Rightarrow> int \<Rightarrow> int \<Rightarrow> u64 option" where
  "getblock64 m p i = do {
     b0 \<leftarrow> rdi m (p + 8 * i);
     b1 \<leftarrow> rdi m (p + 8 * i + 1);
     b2 \<leftarrow> rdi m (p + 8 * i + 2);
     b3 \<leftarrow> rdi m (p + 8 * i + 3);
     b4 \<leftarrow> rdi m (p + 8 * i + 4);
     b5 \<leftarrow> rdi m (p + 8 * i + 5);
     b6 \<leftarrow> rdi m (p + 8 * i + 6);
     b7 \<leftarrow> rdi m (p + 8 * i + 7);
     Some (ucast b0 OR push_bit 8 (ucast b1) OR push_bit 16 (ucast b2) OR push_bit 24 (ucast b3)
        OR push_bit 32 (ucast b4) OR push_bit 40 (ucast b5) OR push_bit 48 (ucast b6)
        OR push_bit 56 (ucast b7)) }"

definition fmix32 :: "u32 \<Rightarrow> u32" where
  "fmix32 h =
     (let h = h XOR drop_bit 16 h;
          h = h * 0x85ebca6b;
          h = h XOR drop_bit 13 h;
          h = h * 0xc2b2ae35;
          h = h XOR drop_bit 16 h
      in h)"

definition fmix64 :: "u64 \<Rightarrow> u64" where
  "fmix64 k =
     (let k = k XOR drop_bit 33 k;
          k = k * 0xff51afd7ed558ccd;
          k = k XOR drop_bit 33 k;
          k = k * 0xc4ceb9fe1a85ec53;
          k = k XOR drop_bit 33 k
      in k)"

section \<open>MurmurHash3_x86_32\<close>

text \<open>
  The two halves of the loop body: the scrambling of a block and its mixing into the state. The loop
  counter \<open>i\<close> of the source runs from \<open>-nblocks\<close> up to \<open>0\<close>; here \<open>n = -i\<close>.
\<close>

definition mur32_k :: "u32 \<Rightarrow> u32" where
  "mur32_k k1 = rotl32 (k1 * 0xcc9e2d51) 15 * 0x1b873593"

definition mur32_h :: "u32 \<Rightarrow> u32 \<Rightarrow> u32" where
  "mur32_h h1 k1 = rotl32 (h1 XOR k1) 13 * 5 + 0xe6546b64"

fun mur32_body :: "u8 list \<Rightarrow> int \<Rightarrow> nat \<Rightarrow> u32 \<Rightarrow> u32 option" where
  "mur32_body m p 0 h1 = Some h1"
| "mur32_body m p (Suc n) h1 = do {
     k1 \<leftarrow> getblock32 m p (- int (Suc n));
     mur32_body m p n (mur32_h h1 (mur32_k k1)) }"

text \<open>One case label of a tail switch: it runs when the number of tail bytes reaches it.\<close>

definition xor_byte :: "u8 list \<Rightarrow> int \<Rightarrow> nat \<Rightarrow> nat \<Rightarrow> int \<Rightarrow> 'a::len word \<Rightarrow> 'a word option" where
  "xor_byte m t r c s k =
     (if c \<le> r then do { b \<leftarrow> rdi m (t + int c - 1); Some (k XOR push_bit (nat s) (ucast b)) }
      else Some k)"

definition mur32_tail :: "u8 list \<Rightarrow> int \<Rightarrow> nat \<Rightarrow> u32 \<Rightarrow> u32 option" where
  "mur32_tail m t r h1 = do {
     k1 \<leftarrow> xor_byte m t r 3 16 0;
     k1 \<leftarrow> xor_byte m t r 2 8 k1;
     k1 \<leftarrow> xor_byte m t r 1 0 k1;
     Some (if 1 \<le> r then h1 XOR mur32_k k1 else h1) }"

definition MurmurHash3_x86_32 :: "u8 list \<Rightarrow> int \<Rightarrow> u32 \<Rightarrow> u32 option" where
  "MurmurHash3_x86_32 key len seed =
     (let nblocks = c_div len 4; p = nblocks * 4 in
      if nblocks < 0 then None
      else do {
        h1 \<leftarrow> mur32_body key p (nat nblocks) seed;
        h1 \<leftarrow> mur32_tail key p (nat (len mod 4)) h1;
        Some (fmix32 (h1 XOR word_of_int len)) })"

text \<open>\<^verbatim>\<open>hash_32\<close> passes its \<^verbatim>\<open>size_t\<close> length through the \<^verbatim>\<open>int\<close> parameter.\<close>

definition hash_32 :: "u8 list \<Rightarrow> nat \<Rightarrow> u32 option" where
  "hash_32 src len = MurmurHash3_x86_32 src (sint (word_of_nat len :: u32)) 4"

section \<open>MurmurHash3_x86_128\<close>

definition mur128_k :: "u32 \<Rightarrow> nat \<Rightarrow> u32 \<Rightarrow> u32 \<Rightarrow> u32" where
  "mur128_k c r c' k = rotl32 (k * c) r * c'"

type_synonym mur128_state = "u32 \<times> u32 \<times> u32 \<times> u32"

definition mur128_block :: "mur128_state \<Rightarrow> u32 \<Rightarrow> u32 \<Rightarrow> u32 \<Rightarrow> u32 \<Rightarrow> mur128_state" where
  "mur128_block s k1 k2 k3 k4 = (case s of (h1, h2, h3, h4) \<Rightarrow>
     (let h1 = h1 XOR mur128_k 0x239b961b 15 0xab0e9789 k1;
          h1 = rotl32 h1 19; h1 = h1 + h2; h1 = h1 * 5 + 0x561ccd1b;
          h2 = h2 XOR mur128_k 0xab0e9789 16 0x38b34ae5 k2;
          h2 = rotl32 h2 17; h2 = h2 + h3; h2 = h2 * 5 + 0x0bcaa747;
          h3 = h3 XOR mur128_k 0x38b34ae5 17 0xa1e38b93 k3;
          h3 = rotl32 h3 15; h3 = h3 + h4; h3 = h3 * 5 + 0x96cd1c35;
          h4 = h4 XOR mur128_k 0xa1e38b93 18 0x239b961b k4;
          h4 = rotl32 h4 13; h4 = h4 + h1; h4 = h4 * 5 + 0x32ac3b17
      in (h1, h2, h3, h4)))"

fun mur128_body :: "u8 list \<Rightarrow> int \<Rightarrow> nat \<Rightarrow> mur128_state \<Rightarrow> mur128_state option" where
  "mur128_body m p 0 s = Some s"
| "mur128_body m p (Suc n) s = do {
     k1 \<leftarrow> getblock32 m p (- int (Suc n) * 4 + 0);
     k2 \<leftarrow> getblock32 m p (- int (Suc n) * 4 + 1);
     k3 \<leftarrow> getblock32 m p (- int (Suc n) * 4 + 2);
     k4 \<leftarrow> getblock32 m p (- int (Suc n) * 4 + 3);
     mur128_body m p n (mur128_block s k1 k2 k3 k4) }"

definition mur128_tail :: "u8 list \<Rightarrow> int \<Rightarrow> nat \<Rightarrow> mur128_state \<Rightarrow> mur128_state option" where
  "mur128_tail m t r s = (case s of (h1, h2, h3, h4) \<Rightarrow> do {
     k4 \<leftarrow> xor_byte m t r 15 16 0;
     k4 \<leftarrow> xor_byte m t r 14 8 k4;
     k4 \<leftarrow> xor_byte m t r 13 0 k4;
     let h4 = (if 13 \<le> r then h4 XOR mur128_k 0xa1e38b93 18 0x239b961b k4 else h4);
     k3 \<leftarrow> xor_byte m t r 12 24 0;
     k3 \<leftarrow> xor_byte m t r 11 16 k3;
     k3 \<leftarrow> xor_byte m t r 10 8 k3;
     k3 \<leftarrow> xor_byte m t r 9 0 k3;
     let h3 = (if 9 \<le> r then h3 XOR mur128_k 0x38b34ae5 17 0xa1e38b93 k3 else h3);
     k2 \<leftarrow> xor_byte m t r 8 24 0;
     k2 \<leftarrow> xor_byte m t r 7 16 k2;
     k2 \<leftarrow> xor_byte m t r 6 8 k2;
     k2 \<leftarrow> xor_byte m t r 5 0 k2;
     let h2 = (if 5 \<le> r then h2 XOR mur128_k 0xab0e9789 16 0x38b34ae5 k2 else h2);
     k1 \<leftarrow> xor_byte m t r 4 24 0;
     k1 \<leftarrow> xor_byte m t r 3 16 k1;
     k1 \<leftarrow> xor_byte m t r 2 8 k1;
     k1 \<leftarrow> xor_byte m t r 1 0 k1;
     let h1 = (if 1 \<le> r then h1 XOR mur128_k 0x239b961b 15 0xab0e9789 k1 else h1);
     Some (h1, h2, h3, h4) })"

definition mur128_final :: "int \<Rightarrow> mur128_state \<Rightarrow> mur128_state" where
  "mur128_final len s = (case s of (h1, h2, h3, h4) \<Rightarrow>
     (let l = word_of_int len;
          h1 = h1 XOR l; h2 = h2 XOR l; h3 = h3 XOR l; h4 = h4 XOR l;
          h1 = h1 + h2; h1 = h1 + h3; h1 = h1 + h4;
          h2 = h2 + h1; h3 = h3 + h1; h4 = h4 + h1;
          h1 = fmix32 h1; h2 = fmix32 h2; h3 = fmix32 h3; h4 = fmix32 h4;
          h1 = h1 + h2; h1 = h1 + h3; h1 = h1 + h4;
          h2 = h2 + h1; h3 = h3 + h1; h4 = h4 + h1
      in (h1, h2, h3, h4)))"

definition MurmurHash3_x86_128 :: "u8 list \<Rightarrow> int \<Rightarrow> u32 \<Rightarrow> mur128_state option" where
  "MurmurHash3_x86_128 key len seed =
     (let nblocks = c_div len 16; p = nblocks * 16 in
      if nblocks < 0 then None
      else do {
        s \<leftarrow> mur128_body key p (nat nblocks) (seed, seed, seed, seed);
        s \<leftarrow> mur128_tail key p (nat (len mod 16)) s;
        Some (mur128_final len s) })"

section \<open>MurmurHash3_x64_128\<close>

definition mur64_k :: "u64 \<Rightarrow> nat \<Rightarrow> u64 \<Rightarrow> u64 \<Rightarrow> u64" where
  "mur64_k c r c' k = rotl64 (k * c) r * c'"

definition mur64_block :: "u64 \<times> u64 \<Rightarrow> u64 \<Rightarrow> u64 \<Rightarrow> u64 \<times> u64" where
  "mur64_block s k1 k2 = (case s of (h1, h2) \<Rightarrow>
     (let h1 = h1 XOR mur64_k 0x87c37b91114253d5 31 0x4cf5ad432745937f k1;
          h1 = rotl64 h1 27; h1 = h1 + h2; h1 = h1 * 5 + 0x52dce729;
          h2 = h2 XOR mur64_k 0x4cf5ad432745937f 33 0x87c37b91114253d5 k2;
          h2 = rotl64 h2 31; h2 = h2 + h1; h2 = h2 * 5 + 0x38495ab5
      in (h1, h2)))"

text \<open>This loop counts upwards: \<open>i\<close> is the block and \<open>n\<close> the number of blocks still to come.\<close>

fun mur64_body :: "u8 list \<Rightarrow> int \<Rightarrow> nat \<Rightarrow> u64 \<times> u64 \<Rightarrow> (u64 \<times> u64) option" where
  "mur64_body m i 0 s = Some s"
| "mur64_body m i (Suc n) s = do {
     k1 \<leftarrow> getblock64 m 0 (i * 2 + 0);
     k2 \<leftarrow> getblock64 m 0 (i * 2 + 1);
     mur64_body m (i + 1) n (mur64_block s k1 k2) }"

definition mur64_tail :: "u8 list \<Rightarrow> int \<Rightarrow> nat \<Rightarrow> u64 \<times> u64 \<Rightarrow> (u64 \<times> u64) option" where
  "mur64_tail m t r s = (case s of (h1, h2) \<Rightarrow> do {
     k2 \<leftarrow> xor_byte m t r 15 48 0;
     k2 \<leftarrow> xor_byte m t r 14 40 k2;
     k2 \<leftarrow> xor_byte m t r 13 32 k2;
     k2 \<leftarrow> xor_byte m t r 12 24 k2;
     k2 \<leftarrow> xor_byte m t r 11 16 k2;
     k2 \<leftarrow> xor_byte m t r 10 8 k2;
     k2 \<leftarrow> xor_byte m t r 9 0 k2;
     let h2 = (if 9 \<le> r then h2 XOR mur64_k 0x4cf5ad432745937f 33 0x87c37b91114253d5 k2 else h2);
     k1 \<leftarrow> xor_byte m t r 8 56 0;
     k1 \<leftarrow> xor_byte m t r 7 48 k1;
     k1 \<leftarrow> xor_byte m t r 6 40 k1;
     k1 \<leftarrow> xor_byte m t r 5 32 k1;
     k1 \<leftarrow> xor_byte m t r 4 24 k1;
     k1 \<leftarrow> xor_byte m t r 3 16 k1;
     k1 \<leftarrow> xor_byte m t r 2 8 k1;
     k1 \<leftarrow> xor_byte m t r 1 0 k1;
     let h1 = (if 1 \<le> r then h1 XOR mur64_k 0x87c37b91114253d5 31 0x4cf5ad432745937f k1 else h1);
     Some (h1, h2) })"

definition mur64_final :: "int \<Rightarrow> u64 \<times> u64 \<Rightarrow> u64 \<times> u64" where
  "mur64_final len s = (case s of (h1, h2) \<Rightarrow>
     (let h1 = h1 XOR word_of_int len; h2 = h2 XOR word_of_int len;
          h1 = h1 + h2; h2 = h2 + h1;
          h1 = fmix64 h1; h2 = fmix64 h2;
          h1 = h1 + h2; h2 = h2 + h1
      in (h1, h2)))"

definition MurmurHash3_x64_128 :: "u8 list \<Rightarrow> int \<Rightarrow> u32 \<Rightarrow> (u64 \<times> u64) option" where
  "MurmurHash3_x64_128 key len seed =
     (let nblocks = c_div len 16 in
      if nblocks < 0 then None
      else do {
        s \<leftarrow> mur64_body key 0 (nat nblocks) (ucast seed, ucast seed);
        s \<leftarrow> mur64_tail key (nblocks * 16) (nat (len mod 16)) s;
        Some (mur64_final len s) })"


section \<open>Bijectivity of the mixing steps\<close>

lemma rotl32_eq: "0 < r \<Longrightarrow> r < 32 \<Longrightarrow> rotl32 x r = word_rotl r x"
proof (rule bit_word_eqI)
  fix n assume r: "0 < r" "r < 32" and n: "n < LENGTH(32)"
  have "(n + (32 - r mod 32)) mod 32 = (if r \<le> n then n - r else 32 - r + n)"
    using r n by (auto simp: mod_if)
  then show "bit (rotl32 x r) n = bit (word_rotl r x) n"
    using r n by (auto simp: rotl32_def bit_simps not_less dest: bit_imp_le_length)
qed

lemma rotl32_cancel: "0 < r \<Longrightarrow> r < 32 \<Longrightarrow> rotl32 x r = rotl32 y r \<longleftrightarrow> x = y"
  by (metis rotl32_eq word_rot_lr)

lemma mul_inverse: "c * d = (1 :: 'a::len word) \<Longrightarrow> x * c * d = x"
  by (simp add: mult.assoc)

lemma mul_cancel: "c * d = (1 :: 'a::len word) \<Longrightarrow> x * c = y * c \<longleftrightarrow> x = y"
  by (metis mul_inverse)

lemma xorshift_16 [bijection_simps]:
  "((x::u32) XOR drop_bit 16 x) XOR drop_bit 16 (x XOR drop_bit 16 x) = x"
  by (rule bit_word_eqI) (auto simp: bit_simps)

lemma xorshift_13 [bijection_simps]:
  "((x::u32) XOR drop_bit 13 x) XOR drop_bit 13 (x XOR drop_bit 13 x)
     XOR drop_bit 26 (x XOR drop_bit 13 x) = x"
  by (rule bit_word_eqI) (auto simp: bit_simps)

lemma xorshift_13_inv [bijection_simps]:
  "((x::u32) XOR drop_bit 13 x XOR drop_bit 26 x)
     XOR drop_bit 13 (x XOR drop_bit 13 x XOR drop_bit 26 x) = x"
  by (rule bit_word_eqI) (auto simp: bit_simps)

lemma xorshift_33 [bijection_simps]:
  "((x::u64) XOR drop_bit 33 x) XOR drop_bit 33 (x XOR drop_bit 33 x) = x"
  by (rule bit_word_eqI) (auto simp: bit_simps)

lemma fmix32_factors [bijection_simps]:
  "(x::u32) * 0x85ebca6b * 0xa5cb9243 = x" "(x::u32) * 0xa5cb9243 * 0x85ebca6b = x"
  "(x::u32) * 0xc2b2ae35 * 0x7ed1b41d = x" "(x::u32) * 0x7ed1b41d * 0xc2b2ae35 = x"
  by (rule mul_inverse, simp)+

lemma fmix64_factors [bijection_simps]:
  "(x::u64) * 0xff51afd7ed558ccd * 0x4f74430c22a54005 = x"
  "(x::u64) * 0x4f74430c22a54005 * 0xff51afd7ed558ccd = x"
  "(x::u64) * 0xc4ceb9fe1a85ec53 * 0x9cb4b2f8129337db = x"
  "(x::u64) * 0x9cb4b2f8129337db * 0xc4ceb9fe1a85ec53 = x"
  by (rule mul_inverse, simp)+

text \<open>The finalisers undone step by step.\<close>

definition fmix32_inv :: "u32 \<Rightarrow> u32" where
  "fmix32_inv h =
     (let h = h XOR drop_bit 16 h;
          h = h * 0x7ed1b41d;
          h = h XOR drop_bit 13 h XOR drop_bit 26 h;
          h = h * 0xa5cb9243
      in h XOR drop_bit 16 h)"

definition fmix64_inv :: "u64 \<Rightarrow> u64" where
  "fmix64_inv k =
     (let k = k XOR drop_bit 33 k;
          k = k * 0x9cb4b2f8129337db;
          k = k XOR drop_bit 33 k;
          k = k * 0x4f74430c22a54005
      in k XOR drop_bit 33 k)"

lemma fmix32_inverse [simp]: "fmix32_inv (fmix32 h) = h" "fmix32 (fmix32_inv h) = h"
  by (simp_all only: fmix32_inv_def fmix32_def Let_def bijection_simps)

lemma fmix64_inverse [simp]: "fmix64_inv (fmix64 k) = k" "fmix64 (fmix64_inv k) = k"
  by (simp_all only: fmix64_inv_def fmix64_def Let_def bijection_simps)

lemma fmix32_cancel [simp]: "fmix32 x = fmix32 y \<longleftrightarrow> x = y"
  by (metis fmix32_inverse(1))

lemma mur32_k_cancel [simp]: "mur32_k x = mur32_k y \<longleftrightarrow> x = y"
  by (simp add: mur32_k_def rotl32_cancel
      mul_cancel[of "0x1b873593" "0x56ed309b"] mul_cancel[of "0xcc9e2d51" "0xdee13bb1"])

lemma xor_cancel [simp]:
  "a XOR c = b XOR c \<longleftrightarrow> a = (b :: 'a::len word)"
  "c XOR a = c XOR b \<longleftrightarrow> a = (b :: 'a::len word)"
  by (metis xor.assoc xor.commute xor.right_neutral xor_self_eq)+

lemma mur32_h_cancel [simp]:
  "mur32_h h k = mur32_h h' k \<longleftrightarrow> h = h'" "mur32_h h k = mur32_h h k' \<longleftrightarrow> k = k'"
  by (simp_all add: mur32_h_def rotl32_cancel mul_cancel[of 5 "0xcccccccd"])

section \<open>A reference definition of the 32-bit hash\<close>

text \<open>
  The reference reads the key as a list: complete groups of four bytes are mixed in as little-endian
  numbers, what is left over is scrambled and xored.
\<close>

fun le_word :: "u8 list \<Rightarrow> u32" where
  "le_word [] = 0"
| "le_word (b # bs) = ucast b OR push_bit 8 (le_word bs)"

fun mur32_spec :: "u32 \<Rightarrow> u8 list \<Rightarrow> u32" where
  "mur32_spec h (b0 # b1 # b2 # b3 # bs) =
     mur32_spec (mur32_h h (mur32_k (le_word [b0, b1, b2, b3]))) bs"
| "mur32_spec h [] = h"
| "mur32_spec h bs = h XOR mur32_k (le_word bs)"

lemma getblock32_append:
  "p + 4 * i = int (length pre) \<Longrightarrow>
   getblock32 (pre @ b0 # b1 # b2 # b3 # bs) p i = Some (le_word [b0, b1, b2, b3])"
  using rdi_append_right[of 0 pre "b0 # b1 # b2 # b3 # bs"]
  by (simp add: getblock32_def rdi_append_right push_bit_or add.assoc)
     (simp add: rdi_def rd_def or.assoc)

lemma length_four:
  "length ks = Suc (Suc (Suc (Suc n))) \<longleftrightarrow> (\<exists>a b c d ks'. ks = a # b # c # d # ks' \<and> length ks' = n)"
  by (auto simp: length_Suc_conv)

lemma mur32_body_spec:
  "length ks = 4 * n \<Longrightarrow> length r < 4 \<Longrightarrow>
   \<exists>h'. mur32_body (pre @ ks @ r @ post) (int (length pre + 4 * n)) n h = Some h' \<and>
       mur32_spec h (ks @ r) = mur32_spec h' r"
proof (induction n arbitrary: pre ks h)
  case 0
  then show ?case by simp
next
  case (Suc n)
  then obtain a b c d ks' where ks: "ks = a # b # c # d # ks'" "length ks' = 4 * n"
    using length_four[of ks "4 * n"] by (auto simp: numeral_eq_Suc)
  have "getblock32 (pre @ ks @ r @ post) (int (length pre + 4 * Suc n)) (- int (Suc n))
      = Some (le_word [a, b, c, d])"
    using getblock32_append[of "int (length pre + 4 * Suc n)" "- int (Suc n)" pre a b c d "ks' @ r @ post"]
    by (simp add: ks)
  with Suc.IH[of ks' "pre @ [a, b, c, d]" "mur32_h h (mur32_k (le_word [a, b, c, d]))"] Suc.prems ks
  show ?case by (simp del: le_word.simps add: algebra_simps)
qed

lemma rdi_tail:
  assumes "1 \<le> c" and "c \<le> length r"
  shows "rdi (pre @ r @ post) (int (length pre) + int c - 1) = Some (r ! (c - 1))"
proof -
  have "int (length pre) + int c - 1 = int (length pre + (c - 1))"
    using assms by simp
  then have "rdi (pre @ r @ post) (int (length pre) + int c - 1) = rd (r @ post) (c - 1)"
    by (simp only: rdi_int rd_append_right)
  moreover have "c - 1 < length r"
    using assms by simp
  ultimately show ?thesis
    by (simp add: rd_def nth_append)
qed

lemma short_list:
  assumes "length r < 4"
  obtains "r = []" | a where "r = [a]" | a b where "r = [a, b]" | a b c where "r = [a, b, c]"
  using assms by (cases r; cases "tl r"; cases "tl (tl r)") (auto simp: neq_Nil_conv)

lemma xor_bytes:
  fixes a b c :: u8
  shows "push_bit 8 (ucast b) XOR ucast a = (ucast a OR push_bit 8 (ucast b) :: u32)"
    and "push_bit 16 (ucast c) XOR (ucast a OR push_bit 8 (ucast b))
      = (ucast a OR push_bit 8 (ucast b) OR push_bit 16 (ucast c) :: u32)"
  by (rule bit_word_eqI; auto simp: bit_simps dest: bit_imp_le_length)+

lemma mur32_tail_spec:
  assumes "length r < 4"
  shows "mur32_tail (pre @ r @ post) (int (length pre)) (length r) h = Some (mur32_spec h r)"
  by (insert rdi_tail[of 1 r pre post] rdi_tail[of 2 r pre post] rdi_tail[of 3 r pre post],
      rule short_list[OF assms])
    (simp_all add: mur32_tail_def xor_byte_def push_bit_or xor_bytes xor.assoc)

lemma murmur32_eq_spec:
  assumes "length key < 2 ^ 31"
  shows "MurmurHash3_x86_32 (key @ post) (int (length key)) seed
           = Some (fmix32 (mur32_spec seed key XOR word_of_nat (length key)))"
proof -
  let ?n = "length key div 4"
  let ?ks = "take (4 * ?n) key" and ?r = "drop (4 * ?n) key"
  have len: "length ?ks = 4 * ?n" "length ?r = length key mod 4" "?ks @ ?r = key"
    by (simp_all add: minus_mult_div_eq_mod min.absorb2)
  obtain h' where body: "mur32_body (?ks @ ?r @ post) (int (4 * ?n)) ?n seed = Some h'"
    and spec: "mur32_spec seed key = mur32_spec h' ?r"
    using mur32_body_spec[of ?ks ?n ?r "[]" post seed] len by auto
  have "mur32_tail (?ks @ ?r @ post) (int (4 * ?n)) (length key mod 4) h' = Some (mur32_spec h' ?r)"
    using mur32_tail_spec[of ?r ?ks post h'] len by simp
  moreover have "int (length key) div 4 = int ?n" "int (length key) mod 4 = int (length key mod 4)"
    by (simp_all add: zdiv_int zmod_int)
  ultimately show ?thesis
    using body spec by (simp add: MurmurHash3_x86_32_def Let_def mult.commute flip: append_assoc)
qed

text \<open>
  C17: The 32-bit hash terminates, reads only the first \<open>len\<close> bytes of its key (whatever follows them
  in memory), and computes the reference function on those bytes, for every length an \<^verbatim>\<open>int\<close> can hold.
\<close>

theorem murmur32_refines_spec:
  assumes "length key < 2 ^ 31"
  shows "MurmurHash3_x86_32 (key @ post) (int (length key)) seed
           = Some (fmix32 (mur32_spec seed key XOR word_of_nat (length key)))"
  using assms by (rule murmur32_eq_spec)


text \<open>A key and what follows it in memory, of which the hash of the first five bytes takes no note.\<close>

lemma murmur32_refines_spec_witness:
  "length [104, 101, 108, 108, 111 :: u8] < 2 ^ 31 \<and>
   MurmurHash3_x86_32 ([104, 101, 108, 108, 111] @ [33]) 5 0 = Some 0x248bfa47"
proof -
  have "MurmurHash3_x86_32 ([104, 101, 108, 108, 111] @ [33]) (int (length [104, 101, 108, 108, 111 :: u8])) 0
      = Some (fmix32 (mur32_spec 0 [104, 101, 108, 108, 111] XOR word_of_nat (length [104, 101, 108, 108, 111 :: u8])))"
    by (rule murmur32_refines_spec) simp
  also have "\<dots> = Some 0x248bfa47"
    by code_simp
  finally show ?thesis by simp
qed

section \<open>Collision freedom on four-byte keys, dependence on the seed\<close>

lemma le_word_bit:
  "bit (le_word bs) n \<longleftrightarrow> n < 32 \<and> n div 8 < length bs \<and> bit (bs ! (n div 8)) (n mod 8)"
proof (induction bs arbitrary: n)
  case Nil
  then show ?case by simp
next
  case (Cons b bs)
  show ?case
  proof (cases "n < 8")
    case True
    then show ?thesis by (auto simp: bit_simps)
  next
    case False
    then obtain m where m: "n = m + 8" by (metis add.commute le_Suc_ex not_less)
    have "(m + 8) div 8 = Suc (m div 8)" by simp
    then show ?thesis
      unfolding m by (auto simp only: nth_Cons_Suc) (auto simp: bit_simps Cons.IH dest: bit_imp_le_length)
  qed
qed

lemma le_word_inj:
  assumes "length xs = 4" "length ys = 4" "le_word xs = le_word ys"
  shows "xs = ys"
proof (rule nth_equalityI)
  show "length xs = length ys" using assms by simp
next
  fix i assume i: "i < length xs"
  show "xs ! i = ys ! i"
  proof (rule bit_word_eqI)
    fix n assume "n < LENGTH(8)"
    then have "bit (le_word zs) (8 * i + n) = bit (zs ! i) n" if "length zs = 4" for zs
      using i assms(1) that by (auto simp: le_word_bit)
    then show "bit (xs ! i) n = bit (ys ! i) n"
      using assms by metis
  qed
qed

lemma mur32_spec_four: "length xs = 4 \<Longrightarrow> mur32_spec h xs = mur32_h h (mur32_k (le_word xs))"
  using length_four[of xs 0] by (auto simp: numeral_eq_Suc)

lemma mur32_spec_cancel [simp]: "mur32_spec h bs = mur32_spec h' bs \<longleftrightarrow> h = h'"
  by (induction h bs arbitrary: h' rule: mur32_spec.induct) auto

lemma sint_of_small_nat: "n < 2 ^ 31 \<Longrightarrow> sint (word_of_nat n :: u32) = int n"
proof -
  assume "n < 2 ^ 31"
  then have "signed_take_bit 31 (int n) = int n"
    by (simp add: signed_take_bit_int_eq_self)
  moreover have "sint (word_of_int (int n) :: u32) = signed_take_bit 31 (int n)"
    by (simp only: sint_sbintrunc') simp
  ultimately show ?thesis by simp
qed

lemma hash_32_spec:
  "length key < 2 ^ 31 \<Longrightarrow>
   hash_32 key (length key) = Some (fmix32 (mur32_spec 4 key XOR word_of_nat (length key)))"
  using murmur32_eq_spec[of key "[]" 4]
  by (simp add: hash_32_def sint_of_small_nat)

text \<open>
  \<^verbatim>\<open>hash_32\<close> never collides on keys of four bytes: two different four-byte keys have different
  hashes, because every step from block to result is a bijection of the 32-bit words.
\<close>

theorem hash_32_injective_on_words:
  assumes "length xs = 4" and "length ys = 4" and "xs \<noteq> ys"
  shows "hash_32 xs 4 \<noteq> hash_32 ys 4"
proof
  assume "hash_32 xs 4 = hash_32 ys 4"
  then have "le_word xs = le_word ys"
    using assms hash_32_spec[of xs] hash_32_spec[of ys] by (simp add: mur32_spec_four)
  then show False
    using assms le_word_inj by blast
qed

lemma hash_32_injective_on_words_witness:
  "hash_32 [1, 2, 3, 4] 4 \<noteq> hash_32 [1, 2, 4, 3] 4"
  by (rule hash_32_injective_on_words) simp_all

text \<open>
  For one key of any length, the 32-bit hash is injective in the seed: two seeds never give the
  same hash of the same key.
\<close>

theorem murmur32_injective_in_seed:
  assumes "length key < 2 ^ 31" and "s1 \<noteq> s2"
  shows "MurmurHash3_x86_32 key (int (length key)) s1 \<noteq> MurmurHash3_x86_32 key (int (length key)) s2"
  using assms murmur32_eq_spec[of key "[]" s1] murmur32_eq_spec[of key "[]" s2] by simp

lemma murmur32_injective_in_seed_witness:
  "MurmurHash3_x86_32 [7, 8, 9] (int (length [7, 8, 9 :: u8])) 1
     \<noteq> MurmurHash3_x86_32 [7, 8, 9] (int (length [7, 8, 9 :: u8])) 2"
  by (rule murmur32_injective_in_seed) simp_all

section \<open>Memory safety of the 128-bit hashes\<close>

lemma bind_not_None: "m \<noteq> None \<Longrightarrow> (\<And>x. m = Some x \<Longrightarrow> f x \<noteq> None) \<Longrightarrow> m \<bind> f \<noteq> None"
  by (cases m) auto

lemma xor_byte_safe:
  "1 \<le> c \<Longrightarrow> 0 \<le> t \<Longrightarrow> t + int r \<le> int (length m) \<Longrightarrow> xor_byte m t r c s k \<noteq> None"
  by (auto simp: xor_byte_def read_simps)

lemma getblock32_safe:
  "0 \<le> p + 4 * i \<Longrightarrow> p + 4 * i + 4 \<le> int (length m) \<Longrightarrow> getblock32 m p i \<noteq> None"
  by (simp add: getblock32_def read_simps)

lemma getblock64_safe:
  "0 \<le> p + 8 * i \<Longrightarrow> p + 8 * i + 8 \<le> int (length m) \<Longrightarrow> getblock64 m p i \<noteq> None"
  by (simp add: getblock64_def read_simps)

lemma mur128_tail_safe:
  "0 \<le> t \<Longrightarrow> t + int r \<le> int (length m) \<Longrightarrow> mur128_tail m t r s \<noteq> None"
  unfolding mur128_tail_def Let_def
  by (cases s) (simp only: prod.case, intro bind_not_None xor_byte_safe; simp)

lemma mur64_tail_safe:
  "0 \<le> t \<Longrightarrow> t + int r \<le> int (length m) \<Longrightarrow> mur64_tail m t r s \<noteq> None"
  unfolding mur64_tail_def Let_def
  by (cases s) (simp only: prod.case, intro bind_not_None xor_byte_safe; simp)

lemma mur128_body_safe:
  "16 * int n \<le> p \<Longrightarrow> p \<le> int (length m) \<Longrightarrow> mur128_body m p n s \<noteq> None"
proof (induction n arbitrary: s)
  case (Suc n)
  show ?case
    unfolding mur128_body.simps
    by (intro bind_not_None getblock32_safe Suc.IH) (use Suc.prems in simp_all)
qed simp

lemma mur64_body_safe:
  "0 \<le> i \<Longrightarrow> 16 * (i + int n) \<le> int (length m) \<Longrightarrow> mur64_body m i n s \<noteq> None"
proof (induction n arbitrary: i s)
  case (Suc n)
  show ?case
    unfolding mur64_body.simps
    by (intro bind_not_None getblock64_safe Suc.IH) (use Suc.prems in simp_all)
qed simp

lemma block_split:
  fixes len :: int
  assumes "0 \<le> len"
  shows "0 \<le> len div 16" "16 * int (nat (len div 16)) = len div 16 * 16"
    "0 \<le> len div 16 * 16" "len div 16 * 16 + int (nat (len mod 16)) = len"
  using assms by simp_all

text \<open>
  C27: Both 128-bit hashes return a result for every length between zero and the size of the key: no
  block read and no tail case reads outside the key, and the loops end.
\<close>

theorem murmur128_in_bounds:
  assumes "0 \<le> len" and "len \<le> int (length key)"
  shows "MurmurHash3_x86_128 key len seed \<noteq> None \<and> MurmurHash3_x64_128 key len seed \<noteq> None"
proof -
  note b = block_split[OF assms(1)]
  have n: "c_div len 16 = len div 16" "\<not> len div 16 < 0"
    using b(1) assms(1) by simp_all
  have le: "16 * (len div 16) \<le> int (length key)"
    using assms(2) by simp
  have "MurmurHash3_x86_128 key len seed \<noteq> None"
    unfolding MurmurHash3_x86_128_def Let_def n if_not_P[OF n(2)]
    by (intro bind_not_None mur128_body_safe mur128_tail_safe) (use b le assms in simp_all)
  moreover have "MurmurHash3_x64_128 key len seed \<noteq> None"
    unfolding MurmurHash3_x64_128_def Let_def n if_not_P[OF n(2)]
    by (intro bind_not_None mur64_body_safe mur64_tail_safe) (use b le assms in simp_all)
  ultimately show ?thesis by simp
qed

lemma murmur128_in_bounds_witness:
  "MurmurHash3_x86_128 (replicate 17 1) 17 0 \<noteq> None \<and> MurmurHash3_x64_128 (replicate 17 1) 17 0 \<noteq> None"
  by (rule murmur128_in_bounds) simp_all

end
