(* ===== verification/Task_Queues.thy ===== *)
theory Task_Queues
  imports Prelude "HOL-Library.Multiset"
begin

text \<open>
  The task queues of \<^verbatim>\<open>core/threadpool/thread_pool.h\<close>: the FIFO \<^verbatim>\<open>queue_wrap\<close>, the
  \<^verbatim>\<open>stable_priority_queue\<close> (a \<^verbatim>\<open>std::map\<close> of deques, greatest score first) and the
  \<^verbatim>\<open>static_stable_priority_queue\<close> (an array of deques indexed by score), with the blocking pop of the
  wrapper classes. Each of the two priority queues is shown to hold its items in the order of a stable
  descending insertion, so that both drain to the same stable sort of what was put in. The locale
  \<open>task_queue\<close> is the contract the thread pool relies on; it is interpreted for all three queues.
\<close>

section \<open>Errors and items\<close>

datatype queue_error = Empty_Queue | Pop_In_Empty_Queue | Score_Out_Of_Range

datatype ('f, 's) priority_queue_item = Item (m_func: 'f) (m_score: 's)

text \<open>\<^verbatim>\<open>operator<\<close> of an item, with the default \<^verbatim>\<open>std::less\<close>.\<close>

definition item_less :: "('f, 's::linorder) priority_queue_item \<Rightarrow> ('f, 's) priority_queue_item \<Rightarrow> bool" where
  "item_less a b \<longleftrightarrow> m_score a < m_score b"

section \<open>The FIFO queue\<close>

text \<open>
  \<^verbatim>\<open>std::queue\<close> as a list, front first. \<open>push_item\<close> and \<open>block_pop_item\<close> run under the queue's
  mutex, so each is one step on the list; \<open>block_pop_item\<close> gives \<open>Inr None\<close> where the source returns
  \<^verbatim>\<open>false\<close>, that is when the wait ends with the queue still empty.
\<close>

definition fifo_push_item :: "'a \<Rightarrow> 'a list \<Rightarrow> queue_error + 'a list" where
  "fifo_push_item t q = Inr (q @ [t])"

fun fifo_block_pop_item :: "'a list \<Rightarrow> queue_error + ('a \<times> 'a list) option" where
  "fifo_block_pop_item [] = Inr None"
| "fifo_block_pop_item (t # q) = Inr (Some (t, q))"

section \<open>The stable priority queue\<close>

text \<open>
  The \<^verbatim>\<open>std::map\<close> ordered by \<^verbatim>\<open>comp_more\<close> is an association list with strictly descending keys, so
  \<^verbatim>\<open>begin()\<close> is its head. \<open>map_count\<close> is \<^verbatim>\<open>count\<close>, \<open>map_set\<close> the assignment through \<^verbatim>\<open>operator[]\<close>.
\<close>

definition comp_more :: "'s::linorder \<Rightarrow> 's \<Rightarrow> bool" where
  "comp_more lhs rhs \<longleftrightarrow> lhs > rhs"

fun map_count :: "'s::linorder \<Rightarrow> ('s \<times> 'v) list \<Rightarrow> nat" where
  "map_count k [] = 0"
| "map_count k ((k', v) # m) = (if k' = k then 1 else map_count k m)"

fun map_get :: "'s::linorder \<Rightarrow> ('s \<times> 'v list) list \<Rightarrow> 'v list" where
  "map_get k [] = []"
| "map_get k ((k', v) # m) = (if k' = k then v else map_get k m)"

fun map_set :: "'s::linorder \<Rightarrow> 'v \<Rightarrow> ('s \<times> 'v) list \<Rightarrow> ('s \<times> 'v) list" where
  "map_set k v [] = [(k, v)]"
| "map_set k v ((k', v') # m) =
     (if comp_more k k' then (k, v) # (k', v') # m
      else if k' = k then (k, v) # m
      else (k', v') # map_set k v m)"

record ('f, 's) stable_priority_queue =
  spq_size :: nat
  spq_map :: "('s \<times> ('f, 's) priority_queue_item list) list"

definition spq_new :: "('f, 's) stable_priority_queue" where
  "spq_new = \<lparr>spq_size = 0, spq_map = []\<rparr>"

definition spq_top ::
  "('f, 's::linorder) stable_priority_queue \<Rightarrow> queue_error + ('f, 's) priority_queue_item" where
  "spq_top q = (case spq_map q of [] \<Rightarrow> Inl Empty_Queue | (k, d) # m \<Rightarrow> Inr (hd d))"

definition spq_pop ::
  "('f, 's::linorder) stable_priority_queue \<Rightarrow> queue_error + ('f, 's) stable_priority_queue" where
  "spq_pop q = (case spq_map q of
     [] \<Rightarrow> Inl Pop_In_Empty_Queue
   | (k, d) # m \<Rightarrow>
       (let d = tl d;
            m = (if d = [] then m else (k, d) # m)
        in Inr (q\<lparr>spq_map := m, spq_size := spq_size q - 1\<rparr>)))"

definition spq_empty :: "('f, 's) stable_priority_queue \<Rightarrow> bool" where
  "spq_empty q \<longleftrightarrow> spq_size q = 0"

definition spq_emplace ::
  "('f, 's::linorder) priority_queue_item \<Rightarrow> ('f, 's) stable_priority_queue \<Rightarrow> ('f, 's) stable_priority_queue" where
  "spq_emplace item q =
     (let m = spq_map q; s = m_score item;
          m = (if map_count s m \<noteq> 0 then map_set s (map_get s m @ [item]) m
               else map_set s [item] m)
      in q\<lparr>spq_map := m, spq_size := spq_size q + 1\<rparr>)"

text \<open>
  \<^verbatim>\<open>priority_queue_wrap::block_pop_item\<close>: the wait ends, and the item is taken with \<^verbatim>\<open>top\<close> and
  \<^verbatim>\<open>pop\<close> unless the queue is empty.
\<close>

definition spq_block_pop_item ::
  "('f, 's::linorder) stable_priority_queue
     \<Rightarrow> queue_error + (('f, 's) priority_queue_item \<times> ('f, 's) stable_priority_queue) option" where
  "spq_block_pop_item q =
     (if spq_empty q then Inr None
      else case spq_top q of Inl e \<Rightarrow> Inl e
      | Inr t \<Rightarrow> (case spq_pop q of Inl e \<Rightarrow> Inl e | Inr q' \<Rightarrow> Inr (Some (t, q'))))"

section \<open>The static stable priority queue\<close>

text \<open>
  \<^verbatim>\<open>std::array<std::deque<Item>, Size>\<close> as a list of \<open>Size\<close> lists. \<^verbatim>\<open>operator[]\<close> of an array is
  unchecked: a score that is no index is undefined behaviour in the source and an error here. The
  search from \<^verbatim>\<open>rbegin()\<close> tries the greatest index first: \<open>n\<close> is the number of slots left to try.
\<close>

record 'f static_queue =
  ssq_size :: nat
  ssq_slots :: "('f, nat) priority_queue_item list list"

definition ssq_new :: "nat \<Rightarrow> 'f static_queue" where
  "ssq_new n = \<lparr>ssq_size = 0, ssq_slots = replicate n []\<rparr>"

fun last_slot :: "nat \<Rightarrow> 'a list list \<Rightarrow> nat option" where
  "last_slot 0 a = None"
| "last_slot (Suc n) a = (if a ! n \<noteq> [] then Some n else last_slot n a)"

definition ssq_top :: "'f static_queue \<Rightarrow> queue_error + ('f, nat) priority_queue_item" where
  "ssq_top q = (case last_slot (length (ssq_slots q)) (ssq_slots q) of
     None \<Rightarrow> Inl Empty_Queue | Some i \<Rightarrow> Inr (hd (ssq_slots q ! i)))"

definition ssq_pop :: "'f static_queue \<Rightarrow> queue_error + 'f static_queue" where
  "ssq_pop q = (case last_slot (length (ssq_slots q)) (ssq_slots q) of
     None \<Rightarrow> Inl Empty_Queue
   | Some i \<Rightarrow> Inr (q\<lparr>ssq_slots := (ssq_slots q)[i := tl (ssq_slots q ! i)], ssq_size := ssq_size q - 1\<rparr>))"

definition ssq_empty :: "'f static_queue \<Rightarrow> bool" where
  "ssq_empty q \<longleftrightarrow> ssq_size q = 0"

definition ssq_emplace ::
  "('f, nat) priority_queue_item \<Rightarrow> 'f static_queue \<Rightarrow> queue_error + 'f static_queue" where
  "ssq_emplace item q =
     (let i = m_score item in
      if i < length (ssq_slots q)
      then Inr (q\<lparr>ssq_slots := (ssq_slots q)[i := ssq_slots q ! i @ [item]], ssq_size := ssq_size q + 1\<rparr>)
      else Inl Score_Out_Of_Range)"

definition ssq_block_pop_item ::
  "'f static_queue \<Rightarrow> queue_error + (('f, nat) priority_queue_item \<times> 'f static_queue) option" where
  "ssq_block_pop_item q =
     (if ssq_empty q then Inr None
      else case ssq_top q of Inl e \<Rightarrow> Inl e
      | Inr t \<Rightarrow> (case ssq_pop q of Inl e \<Rightarrow> Inl e | Inr q' \<Rightarrow> Inr (Some (t, q'))))"

section \<open>The contract of a task queue\<close>

text \<open>
  What a thread pool needs of its \<^verbatim>\<open>Queue\<close> parameter: \<open>items\<close> lists the content in the order in which
  it will be popped, \<open>ins\<close> is where a push puts an item in that order, and \<open>ok\<close> the items a push takes.
\<close>

locale task_queue =
  fixes push :: "'a \<Rightarrow> 'q \<Rightarrow> queue_error + 'q"
    and pop :: "'q \<Rightarrow> queue_error + ('a \<times> 'q) option"
    and items :: "'q \<Rightarrow> 'a list"
    and invar :: "'q \<Rightarrow> bool"
    and ok :: "'a \<Rightarrow> bool"
    and ins :: "'a \<Rightarrow> 'a list \<Rightarrow> 'a list"
  assumes push_ok: "invar q \<Longrightarrow> ok x \<Longrightarrow> \<exists>q'. push x q = Inr q' \<and> invar q' \<and> items q' = ins x (items q)"
    and pop_none: "invar q \<Longrightarrow> items q = [] \<Longrightarrow> pop q = Inr None"
    and pop_some: "invar q \<Longrightarrow> items q = x # xs \<Longrightarrow> \<exists>q'. pop q = Inr (Some (x, q')) \<and> invar q' \<and> items q' = xs"
    and mset_ins: "mset (ins x xs) = add_mset x (mset xs)"

text \<open>Clients of the contract: pushing a list of items, and popping until the queue reports empty.\<close>

fun push_all :: "('a \<Rightarrow> 'q \<Rightarrow> queue_error + 'q) \<Rightarrow> 'a list \<Rightarrow> 'q \<Rightarrow> queue_error + 'q" where
  "push_all push [] q = Inr q"
| "push_all push (x # xs) q = (case push x q of Inl e \<Rightarrow> Inl e | Inr q' \<Rightarrow> push_all push xs q')"

fun drain :: "('q \<Rightarrow> queue_error + ('a \<times> 'q) option) \<Rightarrow> nat \<Rightarrow> 'q \<Rightarrow> 'a list option" where
  "drain pop 0 q = None"
| "drain pop (Suc n) q = (case pop q of
     Inl e \<Rightarrow> None
   | Inr None \<Rightarrow> Some []
   | Inr (Some (x, q')) \<Rightarrow> map_option ((#) x) (drain pop n q'))"

text \<open>Any sequence of pushes and pops, with the results of the pops; and the same on the list of items.\<close>

datatype 'a queue_op = Push 'a | Pop

fun queue_run :: "('a \<Rightarrow> 'q \<Rightarrow> queue_error + 'q) \<Rightarrow> ('q \<Rightarrow> queue_error + ('a \<times> 'q) option) \<Rightarrow> 'a queue_op list \<Rightarrow> 'q
    \<Rightarrow> queue_error + 'a option list \<times> 'q" where
  "queue_run push pop [] q = Inr ([], q)"
| "queue_run push pop (Push x # ops) q = (case push x q of Inl e \<Rightarrow> Inl e | Inr q' \<Rightarrow> queue_run push pop ops q')"
| "queue_run push pop (Pop # ops) q = (case pop q of
     Inl e \<Rightarrow> Inl e
   | Inr None \<Rightarrow> map_sum id (map_prod ((#) None) id) (queue_run push pop ops q)
   | Inr (Some (x, q')) \<Rightarrow> map_sum id (map_prod ((#) (Some x)) id) (queue_run push pop ops q'))"

fun list_run :: "('a \<Rightarrow> 'a list \<Rightarrow> 'a list) \<Rightarrow> 'a queue_op list \<Rightarrow> 'a list \<Rightarrow> 'a option list \<times> 'a list" where
  "list_run ins [] xs = ([], xs)"
| "list_run ins (Push x # ops) xs = list_run ins ops (ins x xs)"
| "list_run ins (Pop # ops) [] = map_prod ((#) None) id (list_run ins ops [])"
| "list_run ins (Pop # ops) (x # xs) = map_prod ((#) (Some x)) id (list_run ins ops xs)"

context task_queue
begin

lemma push_all_ok:
  "invar q \<Longrightarrow> \<forall>x\<in>set xs. ok x \<Longrightarrow>
   \<exists>q'. push_all push xs q = Inr q' \<and> invar q' \<and> items q' = fold ins xs (items q)"
proof (induction xs arbitrary: q)
  case (Cons x xs)
  then obtain q1 where "push x q = Inr q1" "invar q1" "items q1 = ins x (items q)"
    using push_ok by force
  with Cons show ?case by fastforce
qed simp

lemma drain_items: "invar q \<Longrightarrow> length (items q) < n \<Longrightarrow> drain pop n q = Some (items q)"
proof (induction n arbitrary: q)
  case (Suc n)
  show ?case
  proof (cases "items q")
    case Nil
    with Suc.prems show ?thesis by (simp add: pop_none)
  next
    case (Cons x xs)
    then obtain q' where "pop q = Inr (Some (x, q'))" "invar q'" "items q' = xs"
      using pop_some Suc.prems by blast
    with Cons Suc show ?thesis by simp
  qed
qed simp

lemma length_fold_ins: "length (fold ins xs ys) = length xs + length ys"
  by (induction xs arbitrary: ys) (simp_all add: mset_ins flip: size_mset)

lemma push_then_drain:
  assumes "invar q" "items q = []" "\<forall>x\<in>set xs. ok x"
  shows "\<exists>q'. push_all push xs q = Inr q' \<and> drain pop (Suc (length xs)) q' = Some (fold ins xs [])"
  using push_all_ok[OF assms(1,3)] drain_items length_fold_ins[of xs "[]"] assms(2) by fastforce

lemma queue_run_list:
  "invar q \<Longrightarrow> \<forall>x. Push x \<in> set ops \<longrightarrow> ok x \<Longrightarrow>
   \<exists>q'. queue_run push pop ops q = Inr (fst (list_run ins ops (items q)), q') \<and> invar q' \<and>
     items q' = snd (list_run ins ops (items q))"
proof (induction ops arbitrary: q)
  case Nil
  then show ?case by simp
next
  case (Cons op ops)
  note IH = Cons.IH and ok = Cons.prems(2)
  show ?case
  proof (cases op)
    case (Push x)
    then obtain q1 where q1: "push x q = Inr q1" "invar q1" "items q1 = ins x (items q)"
      using push_ok[OF Cons.prems(1)] ok by auto
    with IH[OF q1(2)] ok Push show ?thesis by auto
  next
    case Pop
    show ?thesis
    proof (cases "items q")
      case Nil
      with IH[OF Cons.prems(1)] ok Pop pop_none[OF Cons.prems(1) Nil] show ?thesis by auto
    next
      case (Cons x xs)
      then obtain q1 where q1: "pop q = Inr (Some (x, q1))" "invar q1" "items q1 = xs"
        using pop_some \<open>invar q\<close> by blast
      with IH[OF q1(2)] ok Pop Cons show ?thesis by auto
    qed
  qed
qed

end

interpretation fifo: task_queue fifo_push_item fifo_block_pop_item id "\<lambda>_. True" "\<lambda>_. True" "\<lambda>x xs. xs @ [x]"
  by unfold_locales (simp_all add: fifo_push_item_def)

section \<open>The stable priority queue holds a stable descending order\<close>

fun stable_insert ::
  "('f, 's::linorder) priority_queue_item \<Rightarrow> ('f, 's) priority_queue_item list
     \<Rightarrow> ('f, 's) priority_queue_item list" where
  "stable_insert x [] = [x]"
| "stable_insert x (y # ys) = (if item_less y x then x # y # ys else y # stable_insert x ys)"

lemma mset_stable_insert [simp]: "mset (stable_insert x xs) = add_mset x (mset xs)"
  by (induction xs) auto

definition spq_items :: "('f, 's) stable_priority_queue \<Rightarrow> ('f, 's) priority_queue_item list" where
  "spq_items q = concat (map snd (spq_map q))"

definition bucket_ok :: "'s \<times> ('f, 's) priority_queue_item list \<Rightarrow> bool" where
  "bucket_ok b \<longleftrightarrow> snd b \<noteq> [] \<and> (\<forall>i\<in>set (snd b). m_score i = fst b)"

definition spq_inv :: "('f, 's::linorder) stable_priority_queue \<Rightarrow> bool" where
  "spq_inv q \<longleftrightarrow> sorted_wrt comp_more (map fst (spq_map q)) \<and> list_all bucket_ok (spq_map q)
     \<and> spq_size q = length (spq_items q)"

abbreviation bucket_add ::
  "('f, 's::linorder) priority_queue_item \<Rightarrow> ('s \<times> ('f, 's) priority_queue_item list) list
     \<Rightarrow> ('s \<times> ('f, 's) priority_queue_item list) list" where
  "bucket_add x m \<equiv> (if map_count (m_score x) m \<noteq> 0
     then map_set (m_score x) (map_get (m_score x) m @ [x]) m else map_set (m_score x) [x] m)"

lemma stable_insert_below:
  "\<forall>y\<in>set ys. m_score y < m_score x \<Longrightarrow> stable_insert x ys = x # ys"
  by (cases ys) (auto simp: item_less_def)

lemma stable_insert_append:
  "\<forall>y\<in>set xs. m_score x \<le> m_score y \<Longrightarrow> stable_insert x (xs @ ys) = xs @ stable_insert x ys"
  by (induction xs) (auto simp: item_less_def)

lemma items_below:
  "list_all bucket_ok m \<Longrightarrow> \<forall>b\<in>set m. fst b < s \<Longrightarrow> y \<in> set (concat (map snd m)) \<Longrightarrow> m_score y < s"
  by (auto simp: bucket_ok_def list_all_iff)

lemma map_count_below: "\<forall>b\<in>set m. fst b < s \<Longrightarrow> map_count s m = 0"
  by (induction m) auto

lemma bucket_add_Cons:
  assumes "\<forall>b\<in>set m. fst b < k"
  shows "k < m_score x \<Longrightarrow> bucket_add x ((k, d) # m) = (m_score x, [x]) # (k, d) # m"
    and "k = m_score x \<Longrightarrow> bucket_add x ((k, d) # m) = (k, d @ [x]) # m"
    and "m_score x < k \<Longrightarrow> bucket_add x ((k, d) # m) = (k, d) # bucket_add x m"
proof -
  assume "k < m_score x"
  then have "map_count (m_score x) m = 0"
    using assms by (intro map_count_below) auto
  with \<open>k < m_score x\<close> show "bucket_add x ((k, d) # m) = (m_score x, [x]) # (k, d) # m"
    by (auto simp: comp_more_def)
qed (auto simp: comp_more_def)

lemma bucket_add_correct:
  assumes "sorted_wrt comp_more (map fst m)" and "list_all bucket_ok m"
  shows "sorted_wrt comp_more (map fst (bucket_add x m)) \<and> list_all bucket_ok (bucket_add x m)
    \<and> fst ` set (bucket_add x m) = insert (m_score x) (fst ` set m)
    \<and> concat (map snd (bucket_add x m)) = stable_insert x (concat (map snd m))"
    (is "?P m (bucket_add x m)")
  using assms
proof (induction m)
  case Nil
  then show ?case by (simp add: bucket_ok_def)
next
  case (Cons b m)
  obtain k d where b: "b = (k, d)" by fastforce
  have d: "\<forall>i\<in>set d. m_score i = k" "d \<noteq> []" and below: "\<forall>b\<in>set m. fst b < k"
    using Cons.prems by (simp_all add: b bucket_ok_def comp_more_def)
  have m: "m_score y < k" if "y \<in> set (concat (map snd m))" for y
    using items_below[of m k y] Cons.prems(2) below that by (simp only: list.pred_inject)
  note add = bucket_add_Cons[OF below, of x d]
  consider (above) "k < m_score x" | (same) "k = m_score x" | (below) "m_score x < k"
    by fastforce
  then show ?case
  proof cases
    case above
    have "stable_insert x (d @ concat (map snd m)) = x # d @ concat (map snd m)"
      by (rule stable_insert_below) (use above d m in \<open>fastforce simp del: set_concat\<close>)
    moreover have "\<forall>b\<in>set m. fst b < m_score x"
      using above below by auto
    ultimately show ?thesis
      using above Cons.prems unfolding b add(1)[OF above]
      by (simp add: comp_more_def) (simp add: bucket_ok_def)
  next
    case same
    have "stable_insert x (d @ concat (map snd m)) = d @ x # concat (map snd m)"
      using same d m by (subst stable_insert_append) (simp_all add: stable_insert_below del: set_concat)
    then show ?thesis
      using same Cons.prems unfolding b add(2)[OF same]
      by (auto simp: bucket_ok_def)
  next
    case below
    have "stable_insert x (d @ concat (map snd m)) = d @ stable_insert x (concat (map snd m))"
      using below d by (intro stable_insert_append) auto
    moreover have "?P m (bucket_add x m)"
      using Cons by (simp only: list.pred_inject list.map sorted_wrt.simps)
    ultimately show ?thesis
      using below Cons.prems unfolding b add(3)[OF below]
      by (auto simp: comp_more_def)
  qed
qed

lemma spq_emplace_correct:
  "spq_inv q \<Longrightarrow> spq_inv (spq_emplace x q) \<and> spq_items (spq_emplace x q) = stable_insert x (spq_items q)"
  using bucket_add_correct[of "spq_map q" x]
  by (simp add: spq_inv_def spq_emplace_def spq_items_def Let_def flip: size_mset)

lemma spq_empty_iff: "spq_inv q \<Longrightarrow> spq_empty q \<longleftrightarrow> spq_items q = []"
  by (simp add: spq_inv_def spq_empty_def)

lemma spq_pop_correct:
  assumes "spq_inv q" and "spq_items q = x # xs"
  shows "spq_top q = Inr x \<and> (\<exists>q'. spq_pop q = Inr q' \<and> spq_inv q' \<and> spq_items q' = xs)"
proof -
  obtain k d m where m: "spq_map q = (k, d) # m" and d: "d \<noteq> []"
    using assms by (cases "spq_map q") (auto simp: spq_items_def spq_inv_def bucket_ok_def)
  then obtain d' where d': "d = x # d'" "xs = d' @ concat (map snd m)"
    using assms by (cases d) (auto simp: spq_items_def)
  with assms m show ?thesis
    by (auto simp: spq_top_def spq_pop_def spq_inv_def spq_items_def bucket_ok_def Let_def)
qed

interpretation spq: task_queue "\<lambda>x q. Inr (spq_emplace x q)" spq_block_pop_item spq_items spq_inv
    "\<lambda>_. True" stable_insert
proof unfold_locales
  fix q :: "('a, 'b) stable_priority_queue" and x xs
  assume "spq_inv q" and "spq_items q = x # xs"
  then show "\<exists>q'. spq_block_pop_item q = Inr (Some (x, q')) \<and> spq_inv q' \<and> spq_items q' = xs"
    using spq_pop_correct[of q x xs] by (auto simp: spq_block_pop_item_def spq_empty_iff)
qed (auto simp: spq_emplace_correct spq_block_pop_item_def spq_empty_iff)

section \<open>The static queue holds the same order\<close>

definition ssq_items :: "'f static_queue \<Rightarrow> ('f, nat) priority_queue_item list" where
  "ssq_items q = concat (rev (ssq_slots q))"

definition ssq_inv :: "nat \<Rightarrow> 'f static_queue \<Rightarrow> bool" where
  "ssq_inv n q \<longleftrightarrow> length (ssq_slots q) = n \<and> ssq_size q = length (ssq_items q)
     \<and> (\<forall>i<n. \<forall>x\<in>set (ssq_slots q ! i). m_score x = i)"

lemma last_slot_None: "n \<le> length a \<Longrightarrow> last_slot n a = None \<longleftrightarrow> concat (rev (take n a)) = []"
  by (induction n) (auto simp: take_Suc_conv_app_nth)

lemma last_slot_Some:
  "n \<le> length a \<Longrightarrow> last_slot n a = Some i \<Longrightarrow>
   i < n \<and> a ! i \<noteq> [] \<and> concat (rev (take n a)) = a ! i @ concat (rev (take i a))"
  by (induction n) (auto simp: take_Suc_conv_app_nth split: if_splits)

lemma last_slot_drop:
  assumes "last_slot (length a) a = Some i"
  shows "concat (rev a) = a ! i @ concat (rev (take i a))" "concat (rev (drop (Suc i) a)) = []" "i < length a"
proof -
  have *: "i < length a" "concat (rev a) = a ! i @ concat (rev (take i a))"
    using last_slot_Some[OF order.refl assms] by simp_all
  moreover have "concat (rev a) = concat (rev (drop (Suc i) a)) @ a ! i @ concat (rev (take i a))"
    using *(1) by (subst id_take_nth_drop[of i a]) simp_all
  ultimately show "concat (rev a) = a ! i @ concat (rev (take i a))" "concat (rev (drop (Suc i) a)) = []"
    "i < length a" by simp_all
qed

lemma concat_rev_update:
  "i < length a \<Longrightarrow>
   concat (rev (a[i := v])) = concat (rev (drop (Suc i) a)) @ v @ concat (rev (take i a))"
  by (simp add: upd_conv_take_nth_drop)

lemma ssq_inv_update:
  assumes "ssq_inv n q" "i < n" "\<forall>x\<in>set v. m_score x = i"
    and "ssq_items q' = xs" "ssq_slots q' = (ssq_slots q)[i := v]" "ssq_size q' = length xs"
  shows "ssq_inv n q'"
  using assms by (simp add: ssq_inv_def nth_list_update)

lemma ssq_pop_correct:
  assumes invar: "ssq_inv n q" and items: "ssq_items q = x # xs"
  shows "ssq_top q = Inr x \<and> (\<exists>q'. ssq_pop q = Inr q' \<and> ssq_inv n q' \<and> ssq_items q' = xs)"
proof -
  let ?a = "ssq_slots q"
  obtain i where i: "last_slot (length ?a) ?a = Some i"
    using items last_slot_None[of "length ?a" ?a] by (auto simp: ssq_items_def)
  note s = last_slot_drop[OF i]
  have n: "i < n" "length ?a = n" using s(3) invar by (simp_all add: ssq_inv_def)
  obtain y d where yd: "?a ! i = y # d"
    using last_slot_Some[OF order.refl i] by (cases "?a ! i") simp_all
  then have d: "?a ! i = x # d" "xs = d @ concat (rev (take i ?a))"
    using items s(1) by (simp_all add: ssq_items_def)
  let ?q = "q\<lparr>ssq_slots := ?a[i := tl (?a ! i)], ssq_size := ssq_size q - 1\<rparr>"
  have new: "ssq_items ?q = xs"
    using s(2,3) d by (simp add: ssq_items_def concat_rev_update del: concat_eq_Nil_conv)
  have "\<forall>z\<in>set d. m_score z = i" "ssq_size q - 1 = length xs"
    using invar n d(1) items by (auto simp: ssq_inv_def)
  then have "ssq_inv n ?q"
    using invar n d(1) new by (intro ssq_inv_update[of n q i d ?q xs]) simp_all
  with new d(1) i show ?thesis
    by (simp add: ssq_top_def ssq_pop_def)
qed

lemma take_below:
  assumes "ssq_inv n q" "i \<le> n" "y \<in> set (concat (rev (take i (ssq_slots q))))"
  shows "m_score y < i"
proof -
  obtain d where "d \<in> set (take i (ssq_slots q))" "y \<in> set d"
    using assms(3) by auto
  then obtain j where "j < i" "j < n" "y \<in> set (ssq_slots q ! j)"
    using assms(1,2) unfolding in_set_conv_nth[of d] by (auto simp: ssq_inv_def)
  then show ?thesis using assms(1) by (simp add: ssq_inv_def)
qed

lemma drop_above:
  assumes "ssq_inv n q" "y \<in> set (concat (rev (drop i (ssq_slots q))))"
  shows "i \<le> m_score y"
proof -
  obtain d where "d \<in> set (drop i (ssq_slots q))" "y \<in> set d"
    using assms(2) by auto
  then obtain j where "i + j < n" "y \<in> set (ssq_slots q ! (i + j))"
    using assms(1) unfolding in_set_conv_nth[of d] by (auto simp: ssq_inv_def less_diff_conv add.commute)
  then show ?thesis using assms(1) by (auto simp: ssq_inv_def)
qed

lemma ssq_emplace_correct:
  assumes invar: "ssq_inv n q" and x: "m_score x < n"
  shows "\<exists>q'. ssq_emplace x q = Inr q' \<and> ssq_inv n q' \<and> ssq_items q' = stable_insert x (ssq_items q)"
proof -
  let ?a = "ssq_slots q" and ?i = "m_score x"
  let ?hi = "concat (rev (drop (Suc ?i) ?a))" and ?lo = "concat (rev (take ?i ?a))"
  have i: "?i < length ?a" and at_i: "\<forall>z\<in>set (?a ! ?i). m_score z = ?i"
    using assms by (simp_all add: ssq_inv_def)
  have old: "ssq_items q = (?hi @ ?a ! ?i) @ ?lo"
    unfolding ssq_items_def using i by (subst id_take_nth_drop[of ?i ?a]) simp_all
  have "\<forall>y\<in>set (?hi @ ?a ! ?i). ?i \<le> m_score y"
    using drop_above[OF invar, of _ "Suc ?i"] at_i by (auto simp del: set_concat dest: Suc_leD)
  moreover have "\<forall>y\<in>set ?lo. m_score y < ?i"
    using take_below[OF invar] x by (auto simp del: set_concat)
  ultimately have ins: "stable_insert x ((?hi @ ?a ! ?i) @ ?lo) = (?hi @ ?a ! ?i) @ x # ?lo"
    by (simp only: stable_insert_append stable_insert_below)
  let ?q = "q\<lparr>ssq_slots := ?a[?i := ?a ! ?i @ [x]], ssq_size := ssq_size q + 1\<rparr>"
  have new: "ssq_items ?q = stable_insert x (ssq_items q)"
    using ins i unfolding old by (simp add: ssq_items_def concat_rev_update)
  have "length (stable_insert x (ssq_items q)) = Suc (length (ssq_items q))"
    by (simp flip: size_mset)
  then have "ssq_inv n ?q"
    using invar x at_i new
    by (intro ssq_inv_update[of n q ?i "?a ! ?i @ [x]" ?q "stable_insert x (ssq_items q)"])
      (auto simp: ssq_inv_def)
  with new i show ?thesis
    by (simp add: ssq_emplace_def Let_def)
qed

lemma ssq_empty_iff: "ssq_inv n q \<Longrightarrow> ssq_empty q \<longleftrightarrow> ssq_items q = []"
  by (simp add: ssq_inv_def ssq_empty_def)

interpretation ssq: task_queue ssq_emplace ssq_block_pop_item ssq_items "ssq_inv n"
    "\<lambda>x. m_score x < n" stable_insert for n
proof unfold_locales
  fix q :: "'a static_queue" and x xs
  assume "ssq_inv n q" and "ssq_items q = x # xs"
  then show "\<exists>q'. ssq_block_pop_item q = Inr (Some (x, q')) \<and> ssq_inv n q' \<and> ssq_items q' = xs"
    using ssq_pop_correct[of n q x xs] by (auto simp: ssq_block_pop_item_def ssq_empty_iff)
qed (auto simp: ssq_emplace_correct ssq_block_pop_item_def ssq_empty_iff)

section \<open>Both queues sort\<close>

text \<open>The order of a descending stable sort, from the library's ascending one.\<close>

definition sort_desc :: "('f, 's::linorder) priority_queue_item list \<Rightarrow> ('f, 's) priority_queue_item list" where
  "sort_desc xs = rev (sort_key m_score (rev xs))"

lemma stable_insert_rev:
  "sorted (map m_score ys) \<Longrightarrow> stable_insert x (rev ys) = rev (insort_key m_score x ys)"
proof (induction ys)
  case (Cons y ys)
  show ?case
  proof (cases "m_score x \<le> m_score y")
    case True
    with Cons.prems have "\<forall>z\<in>set (rev (y # ys)). m_score x \<le> m_score z" by auto
    from stable_insert_append[OF this, of "[]"] True show ?thesis by simp
  next
    case False
    have "stable_insert x (zs @ [y]) = stable_insert x zs @ [y]" for zs
      using False by (induction zs) (auto simp: item_less_def)
    with False Cons show ?thesis by simp
  qed
qed simp

lemma fold_stable_insert: "fold stable_insert xs [] = sort_desc xs"
proof -
  have "fold stable_insert xs (rev ys) = rev (fold (insort_key m_score) xs ys)"
    if "sorted (map m_score ys)" for ys
    using that by (induction xs arbitrary: ys) (simp_all add: stable_insert_rev sorted_insort_key)
  from this[of "[]"] show ?thesis
    by (simp add: sort_desc_def sort_key_def foldr_conv_fold)
qed

lemma spq_new_inv: "spq_inv spq_new" "spq_items spq_new = []"
  by (simp_all add: spq_inv_def spq_new_def spq_items_def)

lemma ssq_new_inv: "ssq_inv n (ssq_new n)" "ssq_items (ssq_new n) = []"
  by (simp_all add: ssq_inv_def ssq_new_def ssq_items_def)

text \<open>
  C3: Whatever list of items is emplaced into a new \<^verbatim>\<open>stable_priority_queue\<close>, popping until it is empty
  gives exactly the stable sort of the list by descending score: higher scores first, and items of one
  score in the order they were put in.
\<close>

theorem stable_priority_queue_sorts:
  "\<exists>q. push_all (\<lambda>x q. Inr (spq_emplace x q)) xs spq_new = Inr q
     \<and> drain spq_block_pop_item (Suc (length xs)) q = Some (sort_desc xs)"
  using spq.push_then_drain[OF spq_new_inv, of xs] by (simp add: fold_stable_insert)

text \<open>
  C4: The \<^verbatim>\<open>static_stable_priority_queue\<close> of size \<open>n\<close> does the same for every list of items whose
  scores are below \<open>n\<close>, so the two implementations are interchangeable there.
\<close>

theorem static_queue_agrees_with_stable_queue:
  assumes "\<forall>x\<in>set xs. m_score x < n"
  shows "\<exists>q q'. push_all ssq_emplace xs (ssq_new n) = Inr q
     \<and> push_all (\<lambda>x q. Inr (spq_emplace x q)) xs spq_new = Inr q'
     \<and> drain ssq_block_pop_item (Suc (length xs)) q = Some (sort_desc xs)
     \<and> drain spq_block_pop_item (Suc (length xs)) q' = drain ssq_block_pop_item (Suc (length xs)) q"
  using spq.push_then_drain[OF spq_new_inv, of xs] ssq.push_then_drain[OF ssq_new_inv assms]
  by (auto simp: fold_stable_insert)

lemma static_queue_agrees_with_stable_queue_witness:
  "\<exists>q q'. push_all ssq_emplace [Item ''a'' 1, Item ''b'' 2, Item ''c'' 1] (ssq_new 3) = Inr q
     \<and> push_all (\<lambda>x q. Inr (spq_emplace x q)) [Item ''a'' 1, Item ''b'' 2, Item ''c'' 1] spq_new = Inr q'
     \<and> drain ssq_block_pop_item 4 q = Some [Item ''b'' 2, Item ''a'' 1, Item ''c'' 1]
     \<and> drain spq_block_pop_item 4 q' = drain ssq_block_pop_item 4 q"
  using static_queue_agrees_with_stable_queue[of "[Item ''a'' 1, Item ''b'' 2, Item ''c'' 1]" 3]
  by (simp add: sort_desc_def numeral_eq_Suc del: push_all.simps drain.simps)

end
