(* ===== verification/Thread_Pool.thy ===== *)
theory Thread_Pool
  imports Task_Queues
begin

text \<open>
  The class template \<^verbatim>\<open>thread_pool_base\<close> of \<^verbatim>\<open>core/threadpool/thread_pool.h\<close> over any task queue,
  as a step relation in which the worker threads, the threads that call \<^verbatim>\<open>insert\<close> and a call of
  \<^verbatim>\<open>stop\<close> interleave freely. The queue is the pair of operations of the \<open>task_queue\<close> contract; its
  laws are used only inside the locale, and the properties of the concrete pools are obtained from its
  interpretations.
\<close>

section \<open>State\<close>

text \<open>
  A worker is at the test of its \<^verbatim>\<open>while\<close>, inside \<^verbatim>\<open>block_pop_item\<close>, holding a popped task before the
  second test of \<^verbatim>\<open>m_stop\<close>, between that test and the call of the task, running the task, or has left the
  loop.
\<close>

datatype 't worker = At_Loop | At_Pop | Got 't | Passed 't | Running 't | Exited

text \<open>
  How the user's task ends: normally, with a \<^verbatim>\<open>std::exception\<close>, which the worker catches, or with
  anything else, which leaves the thread function and terminates the process.
\<close>

datatype outcome = Returns | Throws_Exception | Throws_Other

datatype pool_error = Insert_Into_Stopped

text \<open>
  The fields with the prefix \<open>m_\<close> are the members of the class. \<open>inserting\<close> holds the tasks of the
  calls of \<^verbatim>\<open>insert\<close> that have passed the test of \<^verbatim>\<open>m_stop\<close> and not yet pushed. The other fields are
  history: what was accepted by \<^verbatim>\<open>insert\<close>, pushed, executed to its end, and destroyed without being
  run, and whether the process was terminated.
\<close>

record ('t, 'q) thread_pool =
  m_tasks :: 'q
  m_stop :: bool
  m_workers :: "'t worker list"
  inserting :: "'t list"
  inserted :: "'t list"
  pushed :: "'t list"
  executed :: "'t list"
  dropped :: "'t list"
  terminated :: bool

definition new_pool :: "nat \<Rightarrow> 'q \<Rightarrow> ('t, 'q) thread_pool" where
  "new_pool pool_size q =
     \<lparr>m_tasks = q, m_stop = False, m_workers = replicate pool_size At_Loop,
      inserting = [], inserted = [], pushed = [], executed = [], dropped = [], terminated = False\<rparr>"

section \<open>Operations\<close>

text \<open>\<^verbatim>\<open>insert\<close> up to the test, and its push.\<close>

definition insert_begin :: "'t \<Rightarrow> ('t, 'q) thread_pool \<Rightarrow> pool_error + ('t, 'q) thread_pool" where
  "insert_begin t s =
     (if m_stop s then Inl Insert_Into_Stopped
      else Inr (s\<lparr>inserting := t # inserting s, inserted := inserted s @ [t]\<rparr>))"

definition insert_push ::
  "('t \<Rightarrow> 'q \<Rightarrow> queue_error + 'q) \<Rightarrow> 't \<Rightarrow> ('t, 'q) thread_pool \<Rightarrow> ('t, 'q) thread_pool option" where
  "insert_push push t s =
     (if t \<in> set (inserting s)
      then case push t (m_tasks s) of
          Inl e \<Rightarrow> None
        | Inr q \<Rightarrow> Some (s\<lparr>m_tasks := q, inserting := remove1 t (inserting s), pushed := pushed s @ [t]\<rparr>)
      else None)"

definition stop :: "('t, 'q) thread_pool \<Rightarrow> ('t, 'q) thread_pool" where
  "stop s = (if \<not> m_stop s then s\<lparr>m_stop := True\<rparr> else s)"

definition set_worker :: "nat \<Rightarrow> 't worker \<Rightarrow> ('t, 'q) thread_pool \<Rightarrow> ('t, 'q) thread_pool" where
  "set_worker i w s = s\<lparr>m_workers := (m_workers s)[i := w]\<rparr>"

text \<open>
  One step of worker \<open>i\<close>. \<^verbatim>\<open>block_pop_item\<close> returns \<^verbatim>\<open>false\<close> when its wait times out on an empty
  queue; an exception out of it is not caught and terminates the process.
\<close>

definition worker_step ::
  "('q \<Rightarrow> queue_error + ('t \<times> 'q) option) \<Rightarrow> ('t \<Rightarrow> outcome) \<Rightarrow> nat
     \<Rightarrow> ('t, 'q) thread_pool \<Rightarrow> ('t, 'q) thread_pool option" where
  "worker_step pop outcome i s =
     (if terminated s \<or> length (m_workers s) \<le> i then None
      else case m_workers s ! i of
        At_Loop \<Rightarrow> Some (if m_stop s then set_worker i Exited s else set_worker i At_Pop s)
      | At_Pop \<Rightarrow> (case pop (m_tasks s) of
            Inl e \<Rightarrow> Some (s\<lparr>terminated := True\<rparr>)
          | Inr None \<Rightarrow> Some (set_worker i At_Loop s)
          | Inr (Some (t, q)) \<Rightarrow> Some (set_worker i (Got t) (s\<lparr>m_tasks := q\<rparr>)))
      | Got t \<Rightarrow> Some (if m_stop s then set_worker i At_Loop (s\<lparr>dropped := dropped s @ [t]\<rparr>)
                      else set_worker i (Passed t) s)
      | Passed t \<Rightarrow> Some (set_worker i (Running t) s)
      | Running t \<Rightarrow> (case outcome t of
            Throws_Other \<Rightarrow> Some (s\<lparr>terminated := True\<rparr>)
          | _ \<Rightarrow> Some (set_worker i At_Loop (s\<lparr>executed := executed s @ [t]\<rparr>)))
      | Exited \<Rightarrow> None)"

definition task_size :: "('q \<Rightarrow> nat) \<Rightarrow> ('t, 'q) thread_pool \<Rightarrow> nat" where
  "task_size qsize s = qsize (m_tasks s)"

definition worker_size :: "('t, 'q) thread_pool \<Rightarrow> nat" where
  "worker_size s = length (m_workers s)"

definition is_stop :: "('t, 'q) thread_pool \<Rightarrow> bool" where
  "is_stop s = m_stop s"

section \<open>Interleaved steps\<close>

inductive pool_step ::
  "('t \<Rightarrow> 'q \<Rightarrow> queue_error + 'q) \<Rightarrow> ('q \<Rightarrow> queue_error + ('t \<times> 'q) option) \<Rightarrow> ('t \<Rightarrow> outcome)
     \<Rightarrow> ('t \<Rightarrow> bool) \<Rightarrow> ('t, 'q) thread_pool \<Rightarrow> ('t, 'q) thread_pool \<Rightarrow> bool"
  for push pop outcome ok where
  begin_insert: "ok t \<Longrightarrow> insert_begin t s = Inr s' \<Longrightarrow> pool_step push pop outcome ok s s'"
| end_insert: "insert_push push t s = Some s' \<Longrightarrow> pool_step push pop outcome ok s s'"
| call_stop: "pool_step push pop outcome ok s (stop s)"
| work: "worker_step pop outcome i s = Some s' \<Longrightarrow> pool_step push pop outcome ok s s'"

inductive pool_reachable ::
  "('t \<Rightarrow> 'q \<Rightarrow> queue_error + 'q) \<Rightarrow> ('q \<Rightarrow> queue_error + ('t \<times> 'q) option) \<Rightarrow> ('t \<Rightarrow> outcome)
     \<Rightarrow> ('t \<Rightarrow> bool) \<Rightarrow> nat \<Rightarrow> 'q \<Rightarrow> ('t, 'q) thread_pool \<Rightarrow> bool"
  for push pop outcome ok n q where
  init: "pool_reachable push pop outcome ok n q (new_pool n q)"
| step: "pool_reachable push pop outcome ok n q s \<Longrightarrow> pool_step push pop outcome ok s s'
    \<Longrightarrow> pool_reachable push pop outcome ok n q s'"

text \<open>The task a worker holds, and the tasks of all workers.\<close>

fun hand :: "'t worker \<Rightarrow> 't list" where
  "hand (Got t) = [t]"
| "hand (Passed t) = [t]"
| "hand (Running t) = [t]"
| "hand _ = []"

definition hands :: "('t, 'q) thread_pool \<Rightarrow> 't multiset" where
  "hands s = mset (concat (map hand (m_workers s)))"

lemma hands_update:
  assumes "i < length ws"
  shows "mset (concat (map hand (ws[i := w]))) + mset (hand (ws ! i))
    = mset (concat (map hand ws)) + mset (hand w)"
proof -
  have "mset (concat (map hand ws)) = mset (concat (map hand (take i ws @ ws ! i # drop (Suc i) ws)))"
    using assms by (simp add: id_take_nth_drop[symmetric])
  then show ?thesis
    using assms by (simp add: upd_conv_take_nth_drop)
qed

lemma hands_set_worker:
  "i < length (m_workers s) \<Longrightarrow>
   hands (set_worker i w s) + mset (hand (m_workers s ! i)) = hands s + mset (hand w)"
  using hands_update by (simp add: hands_def set_worker_def)

lemma set_worker_simps [simp]:
  "m_tasks (set_worker i w s) = m_tasks s" "m_stop (set_worker i w s) = m_stop s"
  "inserting (set_worker i w s) = inserting s" "inserted (set_worker i w s) = inserted s"
  "pushed (set_worker i w s) = pushed s" "executed (set_worker i w s) = executed s"
  "dropped (set_worker i w s) = dropped s" "terminated (set_worker i w s) = terminated s"
  "m_workers (set_worker i w s) = (m_workers s)[i := w]"
  by (simp_all add: set_worker_def)

lemma hands_frame [simp]:
  "hands (s\<lparr>m_tasks := q\<rparr>) = hands s" "hands (s\<lparr>m_stop := b\<rparr>) = hands s"
  "hands (s\<lparr>inserting := x\<rparr>) = hands s" "hands (s\<lparr>inserted := x\<rparr>) = hands s"
  "hands (s\<lparr>pushed := x\<rparr>) = hands s" "hands (s\<lparr>executed := x\<rparr>) = hands s"
  "hands (s\<lparr>dropped := x\<rparr>) = hands s" "hands (s\<lparr>terminated := b\<rparr>) = hands s"
  by (simp_all add: hands_def)

section \<open>No task is lost or run twice\<close>

definition conserved :: "('q \<Rightarrow> 't list) \<Rightarrow> ('t, 'q) thread_pool \<Rightarrow> bool" where
  "conserved items s \<longleftrightarrow> mset (inserted s)
     = mset (inserting s) + mset (items (m_tasks s)) + hands s + mset (executed s) + mset (dropped s)"

definition pool_inv ::
  "('q \<Rightarrow> 't list) \<Rightarrow> ('q \<Rightarrow> bool) \<Rightarrow> ('t \<Rightarrow> bool) \<Rightarrow> ('t, 'q) thread_pool \<Rightarrow> bool" where
  "pool_inv items invar ok s \<longleftrightarrow> invar (m_tasks s) \<and> (\<forall>t\<in>set (inserting s). ok t) \<and> conserved items s
     \<and> (dropped s \<noteq> [] \<or> Exited \<in> set (m_workers s) \<longrightarrow> m_stop s)"

lemma exited_update: "Exited \<in> set (ws[i := w]) \<Longrightarrow> w = Exited \<or> Exited \<in> set ws"
  using set_update_subset_insert by fastforce

context task_queue
begin

lemma worker_step_inv:
  assumes w: "worker_step pop outcome i s = Some s'" and s: "pool_inv items invar ok s"
  shows "pool_inv items invar ok s'"
proof -
  have i: "i < length (m_workers s)"
    using w by (auto simp: worker_step_def split: if_splits)
  note h = hands_set_worker[OF i]
  show ?thesis
  proof (cases "m_workers s ! i")
    case At_Loop
    with w s h[of Exited] h[of At_Pop] show ?thesis
      by (auto simp: worker_step_def pool_inv_def conserved_def dest: exited_update split: if_splits)
  next
    case At_Pop
    show ?thesis
    proof (cases "items (m_tasks s)")
      case Nil
      with At_Pop w s h[of At_Loop] pop_none show ?thesis
        by (auto simp: worker_step_def pool_inv_def conserved_def dest: exited_update split: if_splits)
    next
      case (Cons t ts)
      then obtain q where "pop (m_tasks s) = Inr (Some (t, q))" "invar q" "items q = ts"
        using pop_some[of "m_tasks s" t ts] s by (auto simp: pool_inv_def)
      with At_Pop Cons w s hands_set_worker[of i "s\<lparr>m_tasks := q\<rparr>" "Got t"] i show ?thesis
        by (auto simp: worker_step_def pool_inv_def conserved_def dest: exited_update split: if_splits)
    qed
  next
    case (Got t)
    with w s h[of "Passed t"] hands_set_worker[of i "s\<lparr>dropped := dropped s @ [t]\<rparr>" At_Loop] i show ?thesis
      by (auto simp: worker_step_def pool_inv_def conserved_def dest: exited_update split: if_splits)
  next
    case (Passed t)
    with w s h[of "Running t"] show ?thesis
      by (auto simp: worker_step_def pool_inv_def conserved_def dest: exited_update split: if_splits)
  next
    case (Running t)
    with w s hands_set_worker[of i "s\<lparr>executed := executed s @ [t]\<rparr>" At_Loop] i show ?thesis
      by (auto simp: worker_step_def pool_inv_def conserved_def dest: exited_update split: if_splits outcome.splits)
  next
    case Exited
    with w show ?thesis by (auto simp: worker_step_def split: if_splits)
  qed
qed

lemma pool_step_inv: "pool_step push pop outcome ok s s' \<Longrightarrow> pool_inv items invar ok s \<Longrightarrow> pool_inv items invar ok s'"
proof (induction rule: pool_step.induct)
  case (begin_insert t s s')
  then show ?case
    by (auto simp: insert_begin_def pool_inv_def conserved_def split: if_splits)
next
  case (end_insert t s s')
  then obtain q where q: "push t (m_tasks s) = Inr q" and t: "t \<in> set (inserting s)"
    and s': "s' = s\<lparr>m_tasks := q, inserting := remove1 t (inserting s), pushed := pushed s @ [t]\<rparr>"
    by (auto simp: insert_push_def split: if_splits sum.splits)
  have "invar q" "items q = ins t (items (m_tasks s))"
    using push_ok[of "m_tasks s" t] q t end_insert.prems by (auto simp: pool_inv_def)
  with s' t end_insert.prems show ?case
    by (auto simp: pool_inv_def conserved_def mset_ins dest: notin_set_remove1)
next
  case (call_stop s)
  then show ?case by (auto simp: stop_def pool_inv_def conserved_def)
next
  case (work i s s')
  then show ?case by (simp add: worker_step_inv)
qed

lemma new_pool_inv: "invar q \<Longrightarrow> items q = [] \<Longrightarrow> pool_inv items invar ok (new_pool n q)"
  by (auto simp: pool_inv_def new_pool_def conserved_def hands_def)

lemma reachable_inv:
  "pool_reachable push pop outcome ok n q s \<Longrightarrow> invar q \<Longrightarrow> items q = [] \<Longrightarrow> pool_inv items invar ok s"
  by (induction rule: pool_reachable.induct) (auto intro: new_pool_inv pool_step_inv)

end

section \<open>Stopping\<close>

text \<open>
  Once \<^verbatim>\<open>m_stop\<close> is set, each step of a worker lowers its distance from the end of its loop, so the
  joins of the destructor come to an end.
\<close>

fun exit_rank :: "'t worker \<Rightarrow> nat" where
  "exit_rank At_Pop = 3"
| "exit_rank (Got t) = 2"
| "exit_rank (Passed t) = 3"
| "exit_rank (Running t) = 2"
| "exit_rank At_Loop = 1"
| "exit_rank Exited = 0"

definition pool_rank :: "('t, 'q) thread_pool \<Rightarrow> nat" where
  "pool_rank s = sum_list (map exit_rank (m_workers s)) + (if terminated s then 0 else 1)"

text \<open>A run of the workers alone, in the order a scheduler picks them.\<close>

fun run_workers ::
  "('q \<Rightarrow> queue_error + ('t \<times> 'q) option) \<Rightarrow> ('t \<Rightarrow> outcome) \<Rightarrow> nat list
     \<Rightarrow> ('t, 'q) thread_pool \<Rightarrow> ('t, 'q) thread_pool option" where
  "run_workers pop outcome [] s = Some s"
| "run_workers pop outcome (i # is) s = do {
     s' \<leftarrow> worker_step pop outcome i s; run_workers pop outcome is s' }"

lemma sum_rank_update:
  "i < length ws \<Longrightarrow> sum_list (map exit_rank (ws[i := w])) + exit_rank (ws ! i)
     = sum_list (map exit_rank ws) + exit_rank w"
  by (induction ws arbitrary: i) (auto split: nat.splits)

lemma pool_rank_frame [simp]:
  "pool_rank (s\<lparr>m_tasks := q\<rparr>) = pool_rank s" "pool_rank (s\<lparr>executed := x\<rparr>) = pool_rank s"
  "pool_rank (s\<lparr>dropped := x\<rparr>) = pool_rank s"
  "\<not> terminated s \<Longrightarrow> pool_rank (s\<lparr>terminated := True\<rparr>) < pool_rank s"
  by (simp_all add: pool_rank_def)

lemma pool_rank_set_worker:
  "i < length (m_workers s) \<Longrightarrow> exit_rank w < exit_rank (m_workers s ! i) \<Longrightarrow>
   pool_rank (set_worker i w s) < pool_rank s"
  using sum_rank_update[of i "m_workers s" w] by (simp add: pool_rank_def)

lemma worker_step_rank:
  assumes w: "worker_step pop outcome i s = Some s'" and "m_stop s"
  shows "pool_rank s' < pool_rank s \<and> m_stop s'"
proof -
  have i: "i < length (m_workers s)" and run: "\<not> terminated s"
    using w by (auto simp: worker_step_def split: if_splits)
  have below: "pool_rank (set_worker i w s1) < pool_rank s"
    if "exit_rank w < exit_rank (m_workers s ! i)" "m_workers s1 = m_workers s" "pool_rank s1 = pool_rank s"
    for w s1 using pool_rank_set_worker[of i s1 w] that i by simp
  show ?thesis
    using w \<open>m_stop s\<close> run i
    by (auto simp: worker_step_def split: worker.splits sum.splits option.splits outcome.splits
        intro!: below)
qed

lemma run_workers_rank:
  "run_workers pop outcome is s = Some s' \<Longrightarrow> m_stop s \<Longrightarrow> length is + pool_rank s' \<le> pool_rank s"
proof (induction "is" arbitrary: s)
  case (Cons i "is")
  then obtain s1 where s1: "worker_step pop outcome i s = Some s1" "run_workers pop outcome is s1 = Some s'"
    by (auto simp: bind_Some_iff)
  with Cons.IH[of s1] worker_step_rank[OF s1(1) Cons.prems(2)] show ?case by simp
qed simp

lemma sum_rank_bound: "sum_list (map exit_rank ws) \<le> 3 * length ws"
proof (induction ws)
  case (Cons w ws)
  have "exit_rank w \<le> 3" by (cases w) auto
  with Cons show ?case by simp
qed simp

section \<open>Every task is reached\<close>

fun work_rank :: "'t worker \<Rightarrow> nat" where
  "work_rank (Got t) = 4"
| "work_rank (Passed t) = 3"
| "work_rank (Running t) = 2"
| "work_rank At_Loop = 1"
| "work_rank _ = 0"

definition backlog :: "('q \<Rightarrow> 't list) \<Rightarrow> ('t, 'q) thread_pool \<Rightarrow> nat" where
  "backlog items s = 7 * length (inserting s) + 6 * length (items (m_tasks s))
     + sum_list (map work_rank (m_workers s))"

definition live :: "('t, 'q) thread_pool \<Rightarrow> bool" where
  "live s \<longleftrightarrow> \<not> m_stop s \<and> \<not> terminated s \<and> m_workers s \<noteq> []"

definition finished :: "('q \<Rightarrow> 't list) \<Rightarrow> ('t, 'q) thread_pool \<Rightarrow> bool" where
  "finished items s \<longleftrightarrow> inserting s = [] \<and> items (m_tasks s) = [] \<and> hands s = {#}"

lemma sum_work_update:
  "i < length ws \<Longrightarrow> sum_list (map work_rank (ws[i := w])) + work_rank (ws ! i)
     = sum_list (map work_rank ws) + work_rank w"
  by (induction ws arbitrary: i) (auto split: nat.splits)

lemma backlog_set_worker:
  "i < length (m_workers s) \<Longrightarrow>
   backlog items (set_worker i w s) + work_rank (m_workers s ! i) = backlog items s + work_rank w"
  using sum_work_update[of i "m_workers s" w] by (simp add: backlog_def)

lemma backlog_executed [simp]: "backlog items (s\<lparr>executed := x\<rparr>) = backlog items s"
  by (simp add: backlog_def)

lemma live_set_worker [simp]: "live (set_worker i w s) = live s"
  by (simp add: live_def)

text \<open>A step of a worker that holds a task, while nothing is stopped.\<close>

fun busy_step :: "nat \<Rightarrow> 't worker \<Rightarrow> ('t, 'q) thread_pool \<Rightarrow> ('t, 'q) thread_pool" where
  "busy_step i (Got t) s = set_worker i (Passed t) s"
| "busy_step i (Passed t) s = set_worker i (Running t) s"
| "busy_step i (Running t) s = set_worker i At_Loop (s\<lparr>executed := executed s @ [t]\<rparr>)"
| "busy_step i w s = s"

lemma busy_worker:
  assumes "hands s \<noteq> {#}"
  obtains i where "i < length (m_workers s)" "hand (m_workers s ! i) \<noteq> []"
proof -
  from assms obtain w where "w \<in> set (m_workers s)" "hand w \<noteq> []"
    by (auto simp: hands_def)
  then show ?thesis using that by (metis in_set_conv_nth)
qed

lemma busy_step_works:
  assumes "hand (m_workers s ! i) \<noteq> []" and "i < length (m_workers s)" and "live s" and "\<forall>t. outcome t \<noteq> Throws_Other"
  defines "s' \<equiv> busy_step i (m_workers s ! i) s"
  shows "worker_step pop outcome i s = Some s' \<and> live s' \<and> inserted s' = inserted s \<and> backlog items s' < backlog items s"
proof (cases "m_workers s ! i")
  case (Got t)
  with assms(2,3) backlog_set_worker[of i s items "Passed t"] show ?thesis
    by (auto simp: s'_def worker_step_def live_def)
next
  case (Passed t)
  with assms(2,3) backlog_set_worker[of i s items "Running t"] show ?thesis
    by (auto simp: s'_def worker_step_def live_def)
next
  case (Running t)
  with assms(2-4) backlog_set_worker[of i "s\<lparr>executed := executed s @ [t]\<rparr>" items At_Loop] show ?thesis
    by (auto simp: s'_def worker_step_def live_def split: outcome.splits)
qed (use assms(1) in auto)

context task_queue
begin

lemma unfinished_step:
  assumes s: "pool_inv items invar ok s" "live s" "\<not> finished items s" and o: "\<forall>t. outcome t \<noteq> Throws_Other"
  shows "\<exists>s'. pool_step push pop outcome ok s s' \<and> live s' \<and> inserted s' = inserted s
     \<and> backlog items s' < backlog items s"
proof -
  consider (insert) t ts where "inserting s = t # ts" | (busy) "hands s \<noteq> {#}"
    | (waiting) t ts where "items (m_tasks s) = t # ts" "hands s = {#}"
    using s(3) by (auto simp: finished_def neq_Nil_conv)
  then show ?thesis
  proof cases
    case insert
    then obtain q where q: "push t (m_tasks s) = Inr q" "items q = ins t (items (m_tasks s))"
      using push_ok[of "m_tasks s" t] s(1) by (auto simp: pool_inv_def)
    let ?s = "s\<lparr>m_tasks := q, inserting := ts, pushed := pushed s @ [t]\<rparr>"
    have "insert_push push t s = Some ?s" using insert q by (simp add: insert_push_def)
    moreover have "length (items q) = Suc (length (items (m_tasks s)))"
      using q(2) by (simp add: mset_ins flip: size_mset)
    ultimately show ?thesis
      using insert s(2) by (intro exI[of _ ?s]) (auto simp: backlog_def live_def intro: end_insert)
  next
    case busy
    then obtain i where i: "i < length (m_workers s)" "hand (m_workers s ! i) \<noteq> []" by (rule busy_worker)
    from busy_step_works[OF i(2,1) s(2) o] show ?thesis by (blast intro: work)
  next
    case waiting
    have i: "0 < length (m_workers s)" using s(2) by (simp add: live_def)
    then have "m_workers s ! 0 \<in> set (m_workers s)" by (rule nth_mem)
    with s(1,2) have ne: "m_workers s ! 0 \<noteq> Exited" by (metis live_def pool_inv_def)
    have idle: "hand (m_workers s ! 0) = []"
      using waiting(2) i by (auto simp: hands_def)
    obtain q where q: "pop (m_tasks s) = Inr (Some (t, q))" "items q = ts"
      using pop_some[of "m_tasks s" t ts] s(1) waiting by (auto simp: pool_inv_def)
    let ?s = "if m_workers s ! 0 = At_Loop then set_worker 0 At_Pop s
      else set_worker 0 (Got t) (s\<lparr>m_tasks := q\<rparr>)"
    have "worker_step pop outcome 0 s = Some ?s"
      using idle i ne q s(2) by (cases "m_workers s ! 0") (auto simp: worker_step_def live_def)
    moreover have "backlog items ?s < backlog items s"
      using idle ne i q waiting sum_work_update[of 0 "m_workers s" At_Pop]
        sum_work_update[of 0 "m_workers s" "Got t"]
      by (cases "m_workers s ! 0") (auto simp: backlog_def)
    ultimately show ?thesis
      using s(2) by (intro exI[of _ ?s]) (auto simp: live_def intro: work)
  qed
qed

lemma all_executed:
  assumes "pool_inv items invar ok s" "live s" "\<forall>t. outcome t \<noteq> Throws_Other"
  shows "\<exists>s'. (pool_step push pop outcome ok)\<^sup>*\<^sup>* s s' \<and> inserted s' = inserted s
     \<and> mset (executed s') = mset (inserted s)"
  using assms
proof (induction "backlog items s" arbitrary: s rule: less_induct)
  case less
  show ?case
  proof (cases "finished items s")
    case True
    with less.prems show ?thesis
      by (intro exI[of _ s]) (auto simp: pool_inv_def conserved_def finished_def live_def)
  next
    case False
    then obtain s1 where s1: "pool_step push pop outcome ok s s1" "live s1" "inserted s1 = inserted s"
      "backlog items s1 < backlog items s" using unfinished_step less.prems by blast
    moreover have "pool_inv items invar ok s1"
      using pool_step_inv s1(1) less.prems(1) by blast
    ultimately obtain s' where "(pool_step push pop outcome ok)\<^sup>*\<^sup>* s1 s'" "inserted s' = inserted s"
      "mset (executed s') = mset (inserted s)" using less.hyps[of s1] less.prems(3) by auto
    with s1(1) show ?thesis by (meson converse_rtranclp_into_rtranclp)
  qed
qed

end

section \<open>A single worker keeps the order\<close>

text \<open>
  The pool behind \<^verbatim>\<open>safe_thread\<close> has one worker. What was pushed is, in this order: what has been
  executed, what was destroyed after a stop, what the worker holds, and what is still queued.
\<close>

definition in_order :: "('t, 't list) thread_pool \<Rightarrow> bool" where
  "in_order s \<longleftrightarrow> (\<exists>w. m_workers s = [w]
     \<and> pushed s = executed s @ dropped s @ hand w @ m_tasks s
     \<and> (dropped s \<noteq> [] \<longrightarrow> m_stop s \<and> (w = At_Loop \<or> w = Exited)))"

lemma worker_step_in_order:
  assumes "worker_step fifo_block_pop_item outcome i s = Some s'" and "in_order s"
  shows "in_order s'"
proof -
  obtain w where w: "m_workers s = [w]" "pushed s = executed s @ dropped s @ hand w @ m_tasks s"
    "dropped s \<noteq> [] \<longrightarrow> m_stop s \<and> (w = At_Loop \<or> w = Exited)"
    using assms(2) by (auto simp: in_order_def)
  then have "i = 0" using assms(1) by (auto simp: worker_step_def split: if_splits)
  with assms w show ?thesis
    by (cases w; cases "m_tasks s")
      (auto simp: worker_step_def in_order_def set_worker_def split: if_splits outcome.splits)
qed

lemma pool_step_in_order:
  "pool_step fifo_push_item fifo_block_pop_item outcome ok s s' \<Longrightarrow> in_order s \<Longrightarrow> in_order s'"
proof (induction rule: pool_step.induct)
  case (work i s s')
  then show ?case by (rule worker_step_in_order)
qed (auto simp: insert_begin_def insert_push_def stop_def fifo_push_item_def in_order_def
    split: if_splits)

section \<open>What still runs after a stop\<close>

text \<open>The tasks that are run whatever happens to \<^verbatim>\<open>m_stop\<close>.\<close>

fun committed :: "'t worker \<Rightarrow> 't list" where
  "committed (Passed t) = [t]"
| "committed (Running t) = [t]"
| "committed _ = []"

definition bound_to_run :: "('t, 'q) thread_pool \<Rightarrow> 't multiset" where
  "bound_to_run s = mset (executed s) + mset (concat (map committed (m_workers s)))"

lemma length_committed: "length (concat (map committed ws)) \<le> length ws"
proof (induction ws)
  case (Cons w ws)
  then show ?case by (cases w) auto
qed simp

lemma committed_update:
  assumes "i < length ws"
  shows "mset (concat (map committed (ws[i := w]))) + mset (committed (ws ! i))
    = mset (concat (map committed ws)) + mset (committed w)"
proof -
  have "mset (concat (map committed ws)) = mset (concat (map committed (take i ws @ ws ! i # drop (Suc i) ws)))"
    using assms by (simp add: id_take_nth_drop[symmetric])
  then show ?thesis
    using assms by (simp add: upd_conv_take_nth_drop)
qed

lemma bound_to_run_worker:
  "i < length (m_workers s) \<Longrightarrow>
   bound_to_run (set_worker i w s) + mset (committed (m_workers s ! i)) = bound_to_run s + mset (committed w)"
  using committed_update[of i "m_workers s" w] by (simp add: bound_to_run_def ac_simps)

lemma bound_to_run_frame [simp]:
  "bound_to_run (s\<lparr>m_tasks := q\<rparr>) = bound_to_run s" "bound_to_run (s\<lparr>m_stop := b\<rparr>) = bound_to_run s"
  "bound_to_run (s\<lparr>inserting := x\<rparr>) = bound_to_run s" "bound_to_run (s\<lparr>inserted := x\<rparr>) = bound_to_run s"
  "bound_to_run (s\<lparr>pushed := x\<rparr>) = bound_to_run s" "bound_to_run (s\<lparr>dropped := x\<rparr>) = bound_to_run s"
  "bound_to_run (s\<lparr>terminated := b\<rparr>) = bound_to_run s"
  "bound_to_run (s\<lparr>executed := executed s @ [t]\<rparr>) = bound_to_run s + {#t#}"
  by (simp_all add: bound_to_run_def)

lemma stopped_worker_step:
  assumes w: "worker_step pop outcome i s = Some s'" and "m_stop s"
  shows "length (m_workers s') = length (m_workers s) \<and> m_stop s' \<and> bound_to_run s' \<subseteq># bound_to_run s"
proof -
  have i: "i < length (m_workers s)" using w by (auto simp: worker_step_def split: if_splits)
  show ?thesis
  proof (cases "m_workers s ! i")
    case (Running t)
    have "bound_to_run (set_worker i At_Loop (s\<lparr>executed := executed s @ [t]\<rparr>)) = bound_to_run s"
      using bound_to_run_worker[of i "s\<lparr>executed := executed s @ [t]\<rparr>" At_Loop] i Running by simp
    with w Running show ?thesis using assms(2)
      by (auto simp: worker_step_def split: if_splits outcome.splits)
  next
    case (Passed t)
    with w assms(2) i bound_to_run_worker[of i s "Running t"] show ?thesis
      by (auto simp: worker_step_def split: if_splits)
  next
    case (Got t)
    with w assms(2) i bound_to_run_worker[of i "s\<lparr>dropped := dropped s @ [t]\<rparr>" At_Loop] show ?thesis
      by (auto simp: worker_step_def split: if_splits)
  next
    case At_Loop
    with w assms(2) i bound_to_run_worker[of i s Exited] show ?thesis
      by (auto simp: worker_step_def split: if_splits)
  next
    case At_Pop
    have g: "bound_to_run (set_worker i (Got t) (s\<lparr>m_tasks := q\<rparr>)) = bound_to_run s" for t q
      using bound_to_run_worker[of i "s\<lparr>m_tasks := q\<rparr>" "Got t"] i At_Pop by simp
    have "bound_to_run (set_worker i At_Loop s) = bound_to_run s"
      using bound_to_run_worker[of i s At_Loop] i At_Pop by simp
    with w assms(2) g At_Pop show ?thesis
      by (auto simp: worker_step_def split: if_splits sum.splits option.splits)
  next
    case Exited
    with w show ?thesis by (auto simp: worker_step_def split: if_splits)
  qed
qed

lemma stopped_step:
  "pool_step push pop outcome ok s s' \<Longrightarrow> m_stop s \<Longrightarrow>
   m_stop s' \<and> length (m_workers s') = length (m_workers s) \<and> bound_to_run s' \<subseteq># bound_to_run s"
proof (induction rule: pool_step.induct)
  case (work i s s')
  then show ?case using stopped_worker_step by blast
qed (auto simp: insert_begin_def insert_push_def stop_def bound_to_run_def split: if_splits sum.splits)

lemma stopped_steps:
  "(pool_step push pop outcome ok)\<^sup>*\<^sup>* s s' \<Longrightarrow> m_stop s \<Longrightarrow>
   m_stop s' \<and> length (m_workers s') = length (m_workers s) \<and> bound_to_run s' \<subseteq># bound_to_run s"
proof (induction rule: rtranclp_induct)
  case (step s1 s2)
  then show ?case using stopped_step by (metis subset_mset.order_trans)
qed simp

section \<open>Properties of the pools\<close>

text \<open>
  C1: In every reachable state of a \<^verbatim>\<open>stable_priority_thread_pool\<close>, under every interleaving of
  inserting threads, workers and a stop, every accepted task is exactly once either still being
  inserted, queued, held by a worker, executed or discarded, and nothing is discarded before a stop.
\<close>

theorem stable_pool_conserves_tasks:
  assumes "pool_reachable (\<lambda>x q. Inr (spq_emplace x q)) spq_block_pop_item outcome (\<lambda>_. True) n spq_new s"
  shows "mset (inserted s) = mset (inserting s) + mset (spq_items (m_tasks s)) + hands s
       + mset (executed s) + mset (dropped s)
     \<and> (\<not> m_stop s \<longrightarrow> dropped s = [])"
  using spq.reachable_inv[OF assms spq_new_inv] by (auto simp: pool_inv_def conserved_def)

text \<open>
  C2: A \<^verbatim>\<open>stable_priority_thread_pool\<close> with at least one worker never strands a task: from every
  reachable state that is not stopped there is a continuation after which all accepted tasks have been
  executed, provided no task ends the process by throwing something that is no \<^verbatim>\<open>std::exception\<close>.
\<close>

theorem stable_pool_executes_all:
  assumes "pool_reachable (\<lambda>x q. Inr (spq_emplace x q)) spq_block_pop_item outcome (\<lambda>_. True) n spq_new s"
    and "live s" and "\<forall>t. outcome t \<noteq> Throws_Other"
  shows "\<exists>s'. (pool_step (\<lambda>x q. Inr (spq_emplace x q)) spq_block_pop_item outcome (\<lambda>_. True))\<^sup>*\<^sup>* s s'
     \<and> inserted s' = inserted s \<and> mset (executed s') = mset (inserted s)"
  using spq.all_executed[OF spq.reachable_inv[OF assms(1) spq_new_inv] assms(2,3)] .

text \<open>
  C8: \<^verbatim>\<open>safe_thread\<close> (one worker over the FIFO queue) executes tasks in the order they were pushed: in
  every reachable state the executed tasks, what was discarded, the task in hand and the queue make up
  the sequence of pushes.
\<close>

theorem safe_thread_fifo:
  assumes "pool_reachable fifo_push_item fifo_block_pop_item outcome ok 1 [] s"
  shows "\<exists>w. m_workers s = [w] \<and> pushed s = executed s @ dropped s @ hand w @ m_tasks s"
proof -
  from assms have "in_order s"
  proof (induction rule: pool_reachable.induct)
    case init
    show ?case by (simp add: new_pool_def in_order_def)
  qed (rule pool_step_in_order)
  then show ?thesis by (auto simp: in_order_def)
qed

text \<open>
  C26: After a stop the workers always come to an end: whatever order they are scheduled in, they take
  at most three steps each (and one that ends the process), and a worker that has not left its loop can
  always step; so the joins of the destructor return.
\<close>

theorem stopped_workers_exit:
  assumes "m_stop s"
  shows "(run_workers pop outcome is s = Some s' \<longrightarrow> length is \<le> 3 * length (m_workers s) + 1)
    \<and> (i < length (m_workers s) \<and> m_workers s ! i \<noteq> Exited \<and> \<not> terminated s
        \<longrightarrow> worker_step pop outcome i s \<noteq> None)"
proof
  show "run_workers pop outcome is s = Some s' \<longrightarrow> length is \<le> 3 * length (m_workers s) + 1"
    using run_workers_rank[of pop outcome "is" s s'] assms sum_rank_bound[of "m_workers s"]
    by (auto simp: pool_rank_def split: if_splits)
  show "i < length (m_workers s) \<and> m_workers s ! i \<noteq> Exited \<and> \<not> terminated s
        \<longrightarrow> worker_step pop outcome i s \<noteq> None"
    by (cases "m_workers s ! i") (auto simp: worker_step_def split: sum.splits option.splits outcome.splits)
qed

text \<open>
  C25: After a stop nothing new is started: of all the tasks of the pool, queued, being inserted or in the
  hand of a worker before its second test of \<^verbatim>\<open>m_stop\<close>, none is run any more, in no continuation.  What is
  executed from then on are the tasks that had passed that test before: at most one for each worker, which
  may well be called only after \<^verbatim>\<open>stop\<close> has returned.  And \<^verbatim>\<open>insert\<close> is refused.
\<close>

theorem no_task_starts_after_stop:
  assumes "(pool_step push pop outcome ok)\<^sup>*\<^sup>* s s'" and "m_stop s"
  shows "mset (executed s') + mset (concat (map committed (m_workers s')))
      \<subseteq># mset (executed s) + mset (concat (map committed (m_workers s)))
    \<and> length (executed s') \<le> length (executed s) + length (m_workers s)
    \<and> m_stop s' \<and> insert_begin t s' = Inl Insert_Into_Stopped"
proof -
  have c: "m_stop s' \<and> length (m_workers s') = length (m_workers s) \<and> bound_to_run s' \<subseteq># bound_to_run s"
    using assms by (rule stopped_steps)
  have "size (mset (executed s')) \<le> size (bound_to_run s')" by (simp add: bound_to_run_def)
  also have "\<dots> \<le> size (bound_to_run s)" using c by (simp add: size_mset_mono)
  also have "\<dots> \<le> length (executed s) + length (m_workers s)"
    using length_committed[of "m_workers s"] by (simp add: bound_to_run_def)
  finally show ?thesis using c by (simp add: bound_to_run_def insert_begin_def)
qed

section \<open>Concrete runs\<close>

text \<open>A schedule as a list of actions, executed one by one; every state it passes is reachable.\<close>

datatype 't pool_action = Begin_Insert 't | End_Insert 't | Call_Stop | Work nat

fun pool_act ::
  "('t \<Rightarrow> 'q \<Rightarrow> queue_error + 'q) \<Rightarrow> ('q \<Rightarrow> queue_error + ('t \<times> 'q) option) \<Rightarrow> ('t \<Rightarrow> outcome)
     \<Rightarrow> 't pool_action \<Rightarrow> ('t, 'q) thread_pool \<Rightarrow> ('t, 'q) thread_pool option" where
  "pool_act push pop outcome (Begin_Insert t) s = (case insert_begin t s of Inl e \<Rightarrow> None | Inr s' \<Rightarrow> Some s')"
| "pool_act push pop outcome (End_Insert t) s = insert_push push t s"
| "pool_act push pop outcome Call_Stop s = Some (stop s)"
| "pool_act push pop outcome (Work i) s = worker_step pop outcome i s"

fun pool_run ::
  "('t \<Rightarrow> 'q \<Rightarrow> queue_error + 'q) \<Rightarrow> ('q \<Rightarrow> queue_error + ('t \<times> 'q) option) \<Rightarrow> ('t \<Rightarrow> outcome)
     \<Rightarrow> 't pool_action list \<Rightarrow> ('t, 'q) thread_pool \<Rightarrow> ('t, 'q) thread_pool option" where
  "pool_run push pop outcome [] s = Some s"
| "pool_run push pop outcome (a # as) s = do {
     s' \<leftarrow> pool_act push pop outcome a s; pool_run push pop outcome as s' }"

lemma pool_act_step:
  "pool_act push pop outcome a s = Some s' \<Longrightarrow> pool_step push pop outcome (\<lambda>_. True) s s'"
  by (cases a) (auto split: sum.splits intro: pool_step.intros)

lemma pool_run_reachable:
  "pool_run push pop outcome as s = Some s' \<Longrightarrow> pool_reachable push pop outcome (\<lambda>_. True) n q s \<Longrightarrow>
   pool_reachable push pop outcome (\<lambda>_. True) n q s'"
  by (induction as arbitrary: s) (auto simp: bind_Some_iff dest: pool_act_step intro: pool_reachable.step)

lemmas pool_eval = new_pool_def insert_begin_def insert_push_def worker_step_def set_worker_def stop_def
  spq_emplace_def spq_new_def spq_block_pop_item_def spq_empty_def spq_top_def spq_pop_def
  fifo_push_item_def

text \<open>A task is inserted into a pool of one worker and run, and a second task is accepted.\<close>

definition sample_pool ::
  "((nat, int) priority_queue_item, (nat, int) stable_priority_queue) thread_pool" where
  "sample_pool =
     \<lparr>m_tasks = spq_new, m_stop = False, m_workers = [At_Loop],
      inserting = [Item 8 1], inserted = [Item 7 5, Item 8 1], pushed = [Item 7 5],
      executed = [Item 7 5], dropped = [], terminated = False\<rparr>"

lemma sample_pool_reachable:
  "pool_reachable (\<lambda>x q. Inr (spq_emplace x q)) spq_block_pop_item (\<lambda>_. Returns) (\<lambda>_. True) 1 spq_new sample_pool"
  by (rule pool_run_reachable[OF _ pool_reachable.init, where as =
        "[Begin_Insert (Item 7 5), End_Insert (Item 7 5), Work 0, Work 0, Work 0, Work 0, Work 0, Begin_Insert (Item 8 1)]"])
    (simp add: pool_eval sample_pool_def)

lemma stable_pool_conserves_tasks_witness:
  "mset (inserted sample_pool) = mset (inserting sample_pool) + mset (spq_items (m_tasks sample_pool))
     + hands sample_pool + mset (executed sample_pool) + mset (dropped sample_pool)
   \<and> dropped sample_pool = []"
  using stable_pool_conserves_tasks[OF sample_pool_reachable] by (auto simp: sample_pool_def)

lemma stable_pool_executes_all_witness:
  "\<exists>s'. (pool_step (\<lambda>x q. Inr (spq_emplace x q)) spq_block_pop_item (\<lambda>_. Returns) (\<lambda>_. True))\<^sup>*\<^sup>* sample_pool s'
     \<and> inserted s' = inserted sample_pool \<and> mset (executed s') = mset (inserted sample_pool)"
  by (rule stable_pool_executes_all[OF sample_pool_reachable]) (simp_all add: live_def sample_pool_def)

text \<open>A \<^verbatim>\<open>safe_thread\<close> that has pushed two tasks and is running the first.\<close>

definition sample_thread :: "(nat, nat list) thread_pool" where
  "sample_thread =
     \<lparr>m_tasks = [2], m_stop = False, m_workers = [Running 1], inserting = [], inserted = [1, 2],
      pushed = [1, 2], executed = [], dropped = [], terminated = False\<rparr>"

lemma sample_thread_reachable:
  "pool_reachable fifo_push_item fifo_block_pop_item (\<lambda>_. Returns) (\<lambda>_. True) 1 [] sample_thread"
  by (rule pool_run_reachable[OF _ pool_reachable.init, where as =
        "[Begin_Insert 1, Begin_Insert 2, End_Insert 1, End_Insert 2, Work 0, Work 0, Work 0, Work 0]"])
    (simp add: pool_eval sample_thread_def)

lemma safe_thread_fifo_witness:
  "\<exists>w. m_workers sample_thread = [w] \<and>
     pushed sample_thread = executed sample_thread @ dropped sample_thread @ hand w @ m_tasks sample_thread"
  by (rule safe_thread_fifo[OF sample_thread_reachable])

lemma stopped_workers_exit_witness:
  "length [0, 0 :: nat] \<le> 3 * length (m_workers (stop sample_thread)) + 1
   \<and> worker_step fifo_block_pop_item (\<lambda>_. Returns) 0 (stop sample_thread) \<noteq> None"
  using stopped_workers_exit[of "stop sample_thread" fifo_block_pop_item "\<lambda>_. Returns" "[0, 0]"
      "(stop sample_thread)\<lparr>m_workers := [Exited], executed := [1]\<rparr>" 0]
  by (simp add: stop_def sample_thread_def worker_step_def set_worker_def)

text \<open>A \<^verbatim>\<open>safe_thread\<close> that is stopped when its worker has passed the test.\<close>

definition stopped_thread :: "(nat, nat list) thread_pool" where
  "stopped_thread =
     \<lparr>m_tasks = [], m_stop = True, m_workers = [Passed 1], inserting = [], inserted = [1],
      pushed = [1], executed = [], dropped = [], terminated = False\<rparr>"

lemma stopped_thread_reachable:
  "pool_reachable fifo_push_item fifo_block_pop_item (\<lambda>_. Returns) (\<lambda>_. True) 1 [] stopped_thread"
  by (rule pool_run_reachable[OF _ pool_reachable.init, where as =
        "[Begin_Insert 1, End_Insert 1, Work 0, Work 0, Work 0, Call_Stop]"])
    (simp add: pool_eval stopped_thread_def)

definition late_thread :: "(nat, nat list) thread_pool" where
  "late_thread = stopped_thread\<lparr>m_workers := [At_Loop], executed := [1]\<rparr>"

lemma stopped_thread_runs:
  "(pool_step fifo_push_item fifo_block_pop_item (\<lambda>_. Returns) (\<lambda>_. True))\<^sup>*\<^sup>* stopped_thread late_thread"
proof -
  let ?s = "set_worker 0 (Running 1) stopped_thread"
  have "pool_step fifo_push_item fifo_block_pop_item (\<lambda>_. Returns) (\<lambda>_. True) stopped_thread ?s"
    "pool_step fifo_push_item fifo_block_pop_item (\<lambda>_. Returns) (\<lambda>_. True) ?s late_thread"
    by (rule work[where i = 0]; simp add: worker_step_def set_worker_def stopped_thread_def late_thread_def)+
  then show ?thesis by simp
qed

text \<open>
  The test and the call are two steps: here the worker has passed the test, the pool is stopped, and then
  the task is called and run to its end.
\<close>

theorem passed_task_runs_after_stop:
  "m_stop stopped_thread \<and> executed stopped_thread = [] \<and> executed late_thread = [1] \<and>
   pool_reachable fifo_push_item fifo_block_pop_item (\<lambda>_. Returns) (\<lambda>_. True) 1 [] stopped_thread \<and>
   (pool_step fifo_push_item fifo_block_pop_item (\<lambda>_. Returns) (\<lambda>_. True))\<^sup>*\<^sup>* stopped_thread late_thread"
  using stopped_thread_reachable stopped_thread_runs by (simp add: stopped_thread_def late_thread_def)

lemma no_task_starts_after_stop_witness:
  "mset (executed late_thread) + mset (concat (map committed (m_workers late_thread)))
      \<subseteq># mset (executed stopped_thread) + mset (concat (map committed (m_workers stopped_thread)))
    \<and> length (executed late_thread) \<le> length (executed stopped_thread) + length (m_workers stopped_thread)
    \<and> m_stop late_thread \<and> insert_begin (3 :: nat) late_thread = Inl Insert_Into_Stopped"
  by (rule no_task_starts_after_stop[OF stopped_thread_runs]) (simp add: stopped_thread_def)

end
