(* ===== verification/Tagged_Ptr.thy ===== *)
theory Tagged_Ptr
  imports Prelude
begin

unbundle bit_operations_syntax

text \<open>
  The two representations of \<^verbatim>\<open>tagged_ptr\<close> under \<^verbatim>\<open>core/threadpool/lockfree\<close>: the pair of
  \<^verbatim>\<open>tagged_ptr_dcas.h\<close>, swapped by a double-width compare-and-exchange, and the single word of
  \<^verbatim>\<open>tagged_ptr_compress.h\<close>, with the tag in the sixteen bits above a 48-bit address. The locale
  \<open>tagged_pointer\<close> states what the lock-free structures rely on; both representations are interpreted.
\<close>

section \<open>The double-width pair\<close>

text \<open>A pointer is the address of a node, \<open>None\<close> for \<^verbatim>\<open>nullptr\<close>; the tag is a \<^verbatim>\<open>size_t\<close>.\<close>

datatype tagged_ptr = Tagged (get_ptr: "nat option") (get_tag: u64)

definition tp_equal :: "tagged_ptr \<Rightarrow> tagged_ptr \<Rightarrow> bool" where
  "tp_equal a b \<longleftrightarrow> get_ptr a = get_ptr b \<and> get_tag a = get_tag b"

definition set_ptr :: "nat option \<Rightarrow> tagged_ptr \<Rightarrow> tagged_ptr" where
  "set_ptr p a = Tagged p (get_tag a)"

definition get_next_tag :: "tagged_ptr \<Rightarrow> u64" where
  "get_next_tag a = (get_tag a + 1) AND (- 1)"

section \<open>The compressed word\<close>

text \<open>
  The union of the source overlays the word with four 16-bit lanes; lane 3 is the most significant
  on a little-endian machine. \<open>pack_ptr\<close> overwrites that lane whatever the address held there.
\<close>

definition ptr_mask :: u64 where
  "ptr_mask = push_bit 48 1 - 1"

definition pack_ptr :: "u64 \<Rightarrow> u16 \<Rightarrow> u64" where
  "pack_ptr p t = (p AND ptr_mask) OR push_bit 48 (ucast t)"

definition extract_ptr :: "u64 \<Rightarrow> u64" where
  "extract_ptr p = p AND ptr_mask"

definition extract_tag :: "u64 \<Rightarrow> u16" where
  "extract_tag p = ucast (drop_bit 48 p)"

definition compressed_set_ptr :: "u64 \<Rightarrow> u64 \<Rightarrow> u64" where
  "compressed_set_ptr p a = pack_ptr p (extract_tag a)"

definition compressed_next_tag :: "u64 \<Rightarrow> u16" where
  "compressed_next_tag a = (extract_tag a + 1) AND (- 1)"

section \<open>The interface\<close>

locale tagged_pointer =
  fixes mk :: "'p \<Rightarrow> 't::len word \<Rightarrow> 'v"
    and ptr :: "'v \<Rightarrow> 'p"
    and tag :: "'v \<Rightarrow> 't word"
    and store_ptr :: "'p \<Rightarrow> 'v \<Rightarrow> 'v"
    and next_tag :: "'v \<Rightarrow> 't word"
    and valid :: "'p \<Rightarrow> bool"
  assumes ptr_mk: "valid p \<Longrightarrow> ptr (mk p t) = p"
    and tag_mk: "tag (mk p t) = t"
    and store_mk: "store_ptr p v = mk p (tag v)"
    and next_tag: "next_tag v = tag v + 1"
begin

lemma mk_eq: "valid p \<Longrightarrow> valid q \<Longrightarrow> mk p t = mk q u \<longleftrightarrow> p = q \<and> t = u"
  using ptr_mk tag_mk by metis

lemma tag_store: "tag (store_ptr p v) = tag v"
  by (simp add: store_mk tag_mk)

text \<open>
  The compare-and-exchange that follows a change of the pointer and an increment of the tag can only
  succeed against the old value if the tag has gone round all of its values.
\<close>

lemma bump_distinct: "valid p \<Longrightarrow> valid q \<Longrightarrow> mk q (next_tag (mk p t)) \<noteq> mk p t"
  by (simp add: mk_eq next_tag tag_mk)

lemma tag_after: "((\<lambda>v. mk p (next_tag v)) ^^ n) (mk p t) = mk p (t + of_nat n)"
  by (induction n) (simp_all add: next_tag tag_mk add_ac)

lemma bumps_return:
  "valid p \<Longrightarrow> ((\<lambda>v. mk p (next_tag v)) ^^ n) (mk p t) = mk p t \<longleftrightarrow> 2 ^ LENGTH('t) dvd n"
  by (simp add: tag_after mk_eq word_of_nat_eq_0_iff)

end

interpretation dcas: tagged_pointer Tagged get_ptr get_tag set_ptr get_next_tag "\<lambda>_. True"
  by unfold_locales (simp_all add: set_ptr_def get_next_tag_def)

lemma ptr_mask_eq: "ptr_mask = mask 48"
  by (simp add: ptr_mask_def mask_eq_decr_exp push_bit_eq_mult)

text \<open>An address that fits in 48 bits, as user-space addresses do.\<close>

definition canonical :: "u64 \<Rightarrow> bool" where
  "canonical p \<longleftrightarrow> p AND ptr_mask = p"

lemma extract_ptr_pack: "canonical p \<Longrightarrow> extract_ptr (pack_ptr p t) = p"
proof -
  have "extract_ptr (pack_ptr p t) = p AND ptr_mask"
    by (rule bit_word_eqI) (auto simp: extract_ptr_def pack_ptr_def ptr_mask_eq bit_simps)
  then show "canonical p \<Longrightarrow> ?thesis" by (simp add: canonical_def)
qed

lemma extract_tag_pack: "extract_tag (pack_ptr p t) = t"
  by (rule bit_word_eqI) (auto simp: extract_tag_def pack_ptr_def ptr_mask_eq bit_simps dest: bit_imp_le_length)

interpretation compressed: tagged_pointer pack_ptr extract_ptr extract_tag compressed_set_ptr
    compressed_next_tag canonical
  by unfold_locales
    (simp_all add: extract_ptr_pack extract_tag_pack compressed_set_ptr_def compressed_next_tag_def)

section \<open>Properties\<close>

text \<open>
  The compressed pointer loses nothing for addresses of 48 bits: address and tag are read back as
  they were packed, \<^verbatim>\<open>set_ptr\<close> keeps the tag, and two packed words are equal, which is all that
  \<^verbatim>\<open>operator==\<close> and a compare-and-exchange see, exactly when both parts are.
\<close>

theorem compressed_ptr_roundtrip:
  assumes "canonical p" and "canonical q"
  shows "extract_ptr (pack_ptr p t) = p \<and> extract_tag (pack_ptr p t) = t
    \<and> compressed_set_ptr q (pack_ptr p t) = pack_ptr q t
    \<and> (pack_ptr p t = pack_ptr q u \<longleftrightarrow> p = q \<and> t = u)"
  using assms
  by (simp add: compressed.mk_eq extract_ptr_pack extract_tag_pack compressed.store_mk)

lemma compressed_ptr_roundtrip_witness:
  "extract_ptr (pack_ptr 0x7fffdeadbee0 65535) = 0x7fffdeadbee0
    \<and> extract_tag (pack_ptr 0x7fffdeadbee0 65535) = 65535
    \<and> compressed_set_ptr 16 (pack_ptr 0x7fffdeadbee0 65535) = pack_ptr 16 65535
    \<and> (pack_ptr 0x7fffdeadbee0 65535 = pack_ptr 16 0 \<longleftrightarrow> (0x7fffdeadbee0 :: u64) = 16 \<and> (65535 :: u16) = 0)"
  by (rule compressed_ptr_roundtrip) (simp_all add: canonical_def ptr_mask_def)

text \<open>
  The protection the tags give is bounded by their width: a compressed pointer that is swapped back
  to the same address with \<^verbatim>\<open>get_next_tag\<close> each time is indistinguishable from its old value exactly
  after every multiple of 65536 swaps, the double-width pair after every multiple of 2^64.
\<close>

theorem tag_reuse_distance:
  assumes "canonical p"
  shows "(((\<lambda>v. pack_ptr p (compressed_next_tag v)) ^^ n) (pack_ptr p t) = pack_ptr p t \<longleftrightarrow> 65536 dvd n)
    \<and> (((\<lambda>v. Tagged a (get_next_tag v)) ^^ n) (Tagged a t') = Tagged a t' \<longleftrightarrow> 2 ^ 64 dvd n)"
  using compressed.bumps_return[OF assms, where n = n and t = t]
    dcas.bumps_return[where p = a and n = n and t = t'] by simp_all

lemma tag_reuse_distance_witness:
  "(((\<lambda>v. pack_ptr 64 (compressed_next_tag v)) ^^ 65536) (pack_ptr 64 3) = pack_ptr 64 3
      \<longleftrightarrow> 65536 dvd (65536 :: nat))
    \<and> (((\<lambda>v. Tagged (Some 4) (get_next_tag v)) ^^ 65536) (Tagged (Some 4) 0) = Tagged (Some 4) 0
      \<longleftrightarrow> 2 ^ 64 dvd (65536 :: nat))"
  by (rule tag_reuse_distance) (simp add: canonical_def ptr_mask_def)

end
