(* ===== verification/Lockfree_Queue.thy ===== *)
theory Lockfree_Queue
  imports Task_Queues Tagged_Ptr
begin

text \<open>
  The lock-free queue and its free list, \<^verbatim>\<open>lockfree_queue.h\<close> and \<^verbatim>\<open>freelist.h\<close> under
  \<^verbatim>\<open>core/threadpool/lockfree\<close>. Each atomic access is one step of a thread, so that threads may
  interleave at every access; a thread's program counter carries its local variables.

  Memory is a store of nodes. A node of the free list is the same memory as a node of the queue: its
  \<^verbatim>\<open>next\<close> overlays the queue node's \<^verbatim>\<open>next\<close> (\<^verbatim>\<open>reinterpret_cast\<close>), and \<^verbatim>\<open>destruct\<close> runs no
  destructor, so a node keeps its fields until it is constructed again.
\<close>

section \<open>State\<close>

text \<open>The payload of the dummy node and of zeroed memory is \<open>None\<close>.\<close>

record 'a node =
  nd_next :: tagged_ptr
  nd_data :: "'a option"

text \<open>\<open>lq_brk\<close> is the address the allocator hands out next; addresses below it have been allocated.\<close>

record 'a lockfree_queue =
  lq_heap :: "nat \<Rightarrow> 'a node"
  lq_brk :: nat
  lq_head :: tagged_ptr
  lq_tail :: tagged_ptr
  lq_size :: u64
  lq_pool :: tagged_ptr

definition null_node :: "'a node" where
  "null_node = \<lparr>nd_next = Tagged None 0, nd_data = None\<rparr>"

section \<open>Threads\<close>

datatype 'a pc =
    Idle
  \<comment> \<open>\<^verbatim>\<open>freelist::allocate_safe\<close> and \<^verbatim>\<open>construct\<close>, called by \<^verbatim>\<open>emplace\<close>\<close>
  | Alloc_Load 'a
  | Alloc_Test 'a tagged_ptr
  | Alloc_Cas 'a tagged_ptr tagged_ptr
  | Construct 'a nat
  \<comment> \<open>\<^verbatim>\<open>push_back\<close>\<close>
  | Push_Tail nat
  | Push_Next nat tagged_ptr
  | Push_Link nat tagged_ptr tagged_ptr
  | Push_Swing nat tagged_ptr
  | Push_Help nat tagged_ptr tagged_ptr
  | Push_Size
  | Pushed
  \<comment> \<open>\<^verbatim>\<open>pop_front\<close>\<close>
  | Pop_Head
  | Pop_Tail tagged_ptr
  | Pop_Next tagged_ptr tagged_ptr
  | Pop_Help tagged_ptr tagged_ptr
  | Pop_Read tagged_ptr tagged_ptr
  | Pop_Cas tagged_ptr tagged_ptr "'a option"
  \<comment> \<open>\<^verbatim>\<open>freelist::deallocate_safe\<close>, called by \<^verbatim>\<open>pop_front\<close>\<close>
  | Free_Load nat "'a option"
  | Free_Link nat tagged_ptr "'a option"
  | Free_Cas nat tagged_ptr tagged_ptr "'a option"
  | Pop_Size "'a option"
  | Popped "'a option"
  | Pop_Empty

definition store_node :: "nat \<Rightarrow> 'a node \<Rightarrow> 'a lockfree_queue \<Rightarrow> 'a lockfree_queue" where
  "store_node a n s = s\<lparr>lq_heap := (lq_heap s)(a := n)\<rparr>"

text \<open>
  One step of a thread. The flag says whether a weak compare-and-exchange whose operands are equal
  succeeds; it may also fail. A dereference of \<^verbatim>\<open>nullptr\<close> is undefined behaviour: \<open>None\<close>.
\<close>

fun alloc_step :: "bool \<Rightarrow> 'a pc \<Rightarrow> 'a lockfree_queue \<Rightarrow> ('a pc \<times> 'a lockfree_queue) option" where
  "alloc_step ok (Alloc_Load x) s = Some (Alloc_Test x (lq_pool s), s)"
| "alloc_step ok (Alloc_Test x old) s =
     (case get_ptr old of
        None \<Rightarrow> Some (Construct x (lq_brk s), store_node (lq_brk s) null_node (s\<lparr>lq_brk := lq_brk s + 1\<rparr>))
      | Some p \<Rightarrow> Some (Alloc_Cas x old (Tagged (get_ptr (nd_next (lq_heap s p))) (get_next_tag old)), s))"
| "alloc_step ok (Alloc_Cas x old next_pool) s =
     (if lq_pool s = old \<and> ok
      then (case get_ptr old of None \<Rightarrow> None | Some p \<Rightarrow> Some (Construct x p, s\<lparr>lq_pool := next_pool\<rparr>))
      else Some (Alloc_Test x (lq_pool s), s))"
| "alloc_step ok (Construct x n) s =
     Some (Push_Tail n, store_node n \<lparr>nd_next = Tagged None 0, nd_data = Some x\<rparr> s)"
| "alloc_step ok _ s = None"

fun push_step :: "bool \<Rightarrow> 'a pc \<Rightarrow> 'a lockfree_queue \<Rightarrow> ('a pc \<times> 'a lockfree_queue) option" where
  "push_step ok (Push_Tail n) s = Some (Push_Next n (lq_tail s), s)"
| "push_step ok (Push_Next n tail) s =
     (case get_ptr tail of
        None \<Rightarrow> None
      | Some p \<Rightarrow> (let next = nd_next (lq_heap s p) in
          Some (if get_ptr next = None then Push_Link n tail next else Push_Help n tail next, s)))"
| "push_step ok (Push_Link n tail next) s =
     (case get_ptr tail of
        None \<Rightarrow> None
      | Some p \<Rightarrow>
          if nd_next (lq_heap s p) = next \<and> ok
          then Some (Push_Swing n tail,
            store_node p ((lq_heap s p)\<lparr>nd_next := Tagged (Some n) (get_next_tag next)\<rparr>) s)
          else Some (Push_Tail n, s))"
| "push_step ok (Push_Swing n tail) s =
     Some (Push_Size, if lq_tail s = tail then s\<lparr>lq_tail := Tagged (Some n) (get_next_tag tail)\<rparr> else s)"
| "push_step ok (Push_Help n tail next) s =
     Some (Push_Tail n,
       if lq_tail s = tail then s\<lparr>lq_tail := Tagged (get_ptr next) (get_next_tag tail)\<rparr> else s)"
| "push_step ok Push_Size s = Some (Pushed, s\<lparr>lq_size := lq_size s + 1\<rparr>)"
| "push_step ok _ s = None"

fun pop_step :: "bool \<Rightarrow> 'a pc \<Rightarrow> 'a lockfree_queue \<Rightarrow> ('a pc \<times> 'a lockfree_queue) option" where
  "pop_step ok Pop_Head s = Some (Pop_Tail (lq_head s), s)"
| "pop_step ok (Pop_Tail head) s = Some (Pop_Next head (lq_tail s), s)"
| "pop_step ok (Pop_Next head tail) s =
     (case get_ptr head of
        None \<Rightarrow> None
      | Some p \<Rightarrow> (let next = nd_next (lq_heap s p) in
          Some (if head = tail
                then if get_ptr next = None then Pop_Empty else Pop_Help tail next
                else if get_ptr next = None then Pop_Head else Pop_Read head next, s)))"
| "pop_step ok (Pop_Help tail next) s =
     Some (Pop_Head,
       if lq_tail s = tail then s\<lparr>lq_tail := Tagged (get_ptr next) (get_next_tag tail)\<rparr> else s)"
| "pop_step ok (Pop_Read head next) s =
     (case get_ptr next of None \<Rightarrow> None
      | Some q \<Rightarrow> Some (Pop_Cas head next (nd_data (lq_heap s q)), s))"
| "pop_step ok (Pop_Cas head next ret) s =
     (if lq_head s = head \<and> ok
      then (case get_ptr head of None \<Rightarrow> None
        | Some p \<Rightarrow> Some (Free_Load p ret, s\<lparr>lq_head := Tagged (get_ptr next) (get_next_tag head)\<rparr>))
      else Some (Pop_Head, s))"
| "pop_step ok (Pop_Size ret) s = Some (Popped ret, s\<lparr>lq_size := lq_size s - 1\<rparr>)"
| "pop_step ok _ s = None"

fun free_step :: "bool \<Rightarrow> 'a pc \<Rightarrow> 'a lockfree_queue \<Rightarrow> ('a pc \<times> 'a lockfree_queue) option" where
  "free_step ok (Free_Load n ret) s = Some (Free_Link n (lq_pool s) ret, s)"
| "free_step ok (Free_Link n old ret) s =
     Some (Free_Cas n old (Tagged (Some n) (get_tag old)) ret,
       store_node n ((lq_heap s n)\<lparr>nd_next := set_ptr (get_ptr old) (nd_next (lq_heap s n))\<rparr>) s)"
| "free_step ok (Free_Cas n old new_pool ret) s =
     (if lq_pool s = old \<and> ok then Some (Pop_Size ret, s\<lparr>lq_pool := new_pool\<rparr>)
      else Some (Free_Link n (lq_pool s) ret, s))"
| "free_step ok _ s = None"

definition thread_step :: "bool \<Rightarrow> 'a pc \<Rightarrow> 'a lockfree_queue \<Rightarrow> ('a pc \<times> 'a lockfree_queue) option" where
  "thread_step ok pc s = (case pc of
       Alloc_Load x \<Rightarrow> alloc_step ok pc s | Alloc_Test x old \<Rightarrow> alloc_step ok pc s
     | Alloc_Cas x old np \<Rightarrow> alloc_step ok pc s | Construct x n \<Rightarrow> alloc_step ok pc s
     | Push_Tail n \<Rightarrow> push_step ok pc s | Push_Next n t \<Rightarrow> push_step ok pc s
     | Push_Link n t nx \<Rightarrow> push_step ok pc s | Push_Swing n t \<Rightarrow> push_step ok pc s
     | Push_Help n t nx \<Rightarrow> push_step ok pc s | Push_Size \<Rightarrow> push_step ok pc s
     | Free_Load n r \<Rightarrow> free_step ok pc s | Free_Link n old r \<Rightarrow> free_step ok pc s
     | Free_Cas n old np r \<Rightarrow> free_step ok pc s
     | _ \<Rightarrow> pop_step ok pc s)"

section \<open>Construction\<close>

text \<open>
  \<^verbatim>\<open>freelist()\<close> allocates \<^verbatim>\<open>PoolSize\<close> zeroed nodes and destructs each; \<^verbatim>\<open>lockfree_queue()\<close> then
  takes one as the dummy node. No other thread runs yet, so each step is taken whole.
\<close>

fun fill_pool :: "nat \<Rightarrow> 'a lockfree_queue \<Rightarrow> 'a lockfree_queue" where
  "fill_pool 0 s = s"
| "fill_pool (Suc n) s = fill_pool n
     ((store_node (lq_brk s) (null_node\<lparr>nd_next := set_ptr (get_ptr (lq_pool s)) (Tagged None 0)\<rparr>) s)
       \<lparr>lq_brk := lq_brk s + 1, lq_pool := Tagged (Some (lq_brk s)) (get_tag (lq_pool s))\<rparr>)"

definition lq_raw :: "'a lockfree_queue" where
  "lq_raw = \<lparr>lq_heap = (\<lambda>_. null_node), lq_brk = 0, lq_head = Tagged None 0, lq_tail = Tagged None 0,
     lq_size = 0, lq_pool = Tagged None 0\<rparr>"

definition lq_new :: "nat \<Rightarrow> 'a lockfree_queue" where
  "lq_new pool_size =
     (let s = fill_pool pool_size lq_raw in
      case get_ptr (lq_pool s) of
        None \<Rightarrow> (store_node (lq_brk s) null_node s)
          \<lparr>lq_brk := lq_brk s + 1, lq_head := Tagged (Some (lq_brk s)) 0, lq_tail := Tagged (Some (lq_brk s)) 0\<rparr>
      | Some p \<Rightarrow> (store_node p null_node s)
          \<lparr>lq_pool := Tagged (get_ptr (nd_next (lq_heap s p))) (get_next_tag (lq_pool s)),
           lq_head := Tagged (Some p) 0, lq_tail := Tagged (Some p) 0\<rparr>)"

section \<open>A thread that runs alone\<close>

fun finished_pc :: "'a pc \<Rightarrow> bool" where
  "finished_pc Idle = True"
| "finished_pc Pushed = True"
| "finished_pc (Popped r) = True"
| "finished_pc Pop_Empty = True"
| "finished_pc _ = False"

fun run_alone :: "nat \<Rightarrow> 'a pc \<Rightarrow> 'a lockfree_queue \<Rightarrow> ('a pc \<times> 'a lockfree_queue) option" where
  "run_alone 0 pc s = None"
| "run_alone (Suc n) pc s =
     (if finished_pc pc then Some (pc, s)
      else case thread_step True pc s of None \<Rightarrow> None | Some (pc', s') \<Rightarrow> run_alone n pc' s')"

definition lq_emplace :: "'a \<Rightarrow> 'a lockfree_queue \<Rightarrow> 'a lockfree_queue option" where
  "lq_emplace x s = map_option snd (run_alone 12 (Alloc_Load x) s)"

definition lq_pop_front :: "'a lockfree_queue \<Rightarrow> ('a option option \<times> 'a lockfree_queue) option" where
  "lq_pop_front s = (case run_alone 12 Pop_Head s of
     Some (Popped r, s') \<Rightarrow> Some (Some r, s')
   | Some (Pop_Empty, s') \<Rightarrow> Some (None, s')
   | _ \<Rightarrow> None)"

definition lq_empty :: "'a lockfree_queue \<Rightarrow> bool" where
  "lq_empty s \<longleftrightarrow> tp_equal (lq_head s) (lq_tail s)"

text \<open>
  \<^verbatim>\<open>lockfree_queue_wrap::block_pop_item\<close>: the wait ends, then the item is popped without the lock.
\<close>

definition lqw_block_pop_item :: "'a lockfree_queue \<Rightarrow> queue_error + ('a \<times> 'a lockfree_queue) option" where
  "lqw_block_pop_item s = (case lq_pop_front s of
     Some (Some (Some x), s') \<Rightarrow> Inr (Some (x, s'))
   | Some (None, s') \<Rightarrow> Inr None
   | _ \<Rightarrow> Inl Empty_Queue)"

definition lqw_push_item :: "'a \<Rightarrow> 'a lockfree_queue \<Rightarrow> queue_error + 'a lockfree_queue" where
  "lqw_push_item x s = (case lq_emplace x s of Some s' \<Rightarrow> Inr s' | None \<Rightarrow> Inl Empty_Queue)"

section \<open>The queue between operations\<close>

text \<open>\<open>chain h p as\<close>: the nodes linked from \<open>p\<close> are exactly \<open>as\<close>, and the last one links to \<^verbatim>\<open>nullptr\<close>.\<close>

fun chain :: "(nat \<Rightarrow> 'a node) \<Rightarrow> nat option \<Rightarrow> nat list \<Rightarrow> bool" where
  "chain h p [] \<longleftrightarrow> p = None"
| "chain h p (a # as) \<longleftrightarrow> p = Some a \<and> chain h (get_ptr (nd_next (h a))) as"

fun walk :: "nat \<Rightarrow> (nat \<Rightarrow> 'a node) \<Rightarrow> nat option \<Rightarrow> nat list" where
  "walk 0 h p = []"
| "walk (Suc n) h p = (case p of None \<Rightarrow> [] | Some a \<Rightarrow> a # walk n h (get_ptr (nd_next (h a))))"

definition lq_items :: "'a lockfree_queue \<Rightarrow> 'a list" where
  "lq_items s = map (\<lambda>a. the (nd_data (lq_heap s a))) (tl (walk (lq_brk s) (lq_heap s) (get_ptr (lq_head s))))"

text \<open>
  The queue owns \<open>ns\<close>, the dummy first, and the free list owns \<open>fl\<close>; they are disjoint, and the tags
  of head and tail differ by the number of items, so that they agree when the queue is empty.
\<close>

definition lq_rep :: "nat list \<Rightarrow> nat list \<Rightarrow> 'a lockfree_queue \<Rightarrow> bool" where
  "lq_rep ns fl s \<longleftrightarrow> ns \<noteq> []
     \<and> get_ptr (lq_head s) = Some (hd ns) \<and> get_ptr (lq_tail s) = Some (last ns)
     \<and> chain (lq_heap s) (Some (hd ns)) ns \<and> chain (lq_heap s) (get_ptr (lq_pool s)) fl
     \<and> distinct (ns @ fl) \<and> (\<forall>a\<in>set ns \<union> set fl. a < lq_brk s)
     \<and> (\<forall>a\<in>set (tl ns). nd_data (lq_heap s a) \<noteq> None)
     \<and> get_tag (lq_tail s) = get_tag (lq_head s) + of_nat (length (tl ns))
     \<and> lq_size s = of_nat (length (tl ns))"

definition lq_inv :: "'a lockfree_queue \<Rightarrow> bool" where
  "lq_inv s \<longleftrightarrow> (\<exists>ns fl. lq_rep ns fl s)"

lemma chain_cong:
  "(\<And>a. a \<in> set as \<Longrightarrow> get_ptr (nd_next (h a)) = get_ptr (nd_next (h' a))) \<Longrightarrow> chain h p as = chain h' p as"
  by (induction as arbitrary: p) auto

lemma chain_upd: "a \<notin> set as \<Longrightarrow> chain (h(a := n)) p as = chain h p as"
  by (rule chain_cong) auto

lemma chain_last: "chain h p as \<Longrightarrow> as \<noteq> [] \<Longrightarrow> get_ptr (nd_next (h (last as))) = None"
  by (induction as arbitrary: p) (auto split: if_splits)

lemma chain_snoc:
  "chain h p as \<Longrightarrow> as \<noteq> [] \<Longrightarrow> distinct as \<Longrightarrow> n \<notin> set as
   \<Longrightarrow> get_ptr (nd_next (h n)) = None \<Longrightarrow> get_ptr (nd_next nd) = Some n
   \<Longrightarrow> chain (h(last as := nd)) p (as @ [n])"
proof (induction as arbitrary: p)
  case (Cons a as)
  show ?case
  proof (cases as)
    case Nil
    with Cons.prems show ?thesis by simp
  next
    case (Cons b bs)
    with Cons.prems have "last (a # as) \<noteq> a" by (auto dest: last_in_set)
    with Cons.IH[of "get_ptr (nd_next (h a))"] Cons.prems Cons show ?thesis by simp
  qed
qed simp

lemma walk_chain: "chain h p as \<Longrightarrow> length as \<le> n \<Longrightarrow> walk n h p = as"
proof (induction as arbitrary: p n)
  case Nil
  then show ?case by (cases n) auto
next
  case (Cons a as)
  then show ?case by (cases n) auto
qed

lemma items_rep: "lq_rep ns fl s \<Longrightarrow> lq_items s = map (\<lambda>a. the (nd_data (lq_heap s a))) (tl ns)"
proof -
  assume r: "lq_rep ns fl s"
  then have "set ns \<subseteq> {..<lq_brk s}" and "distinct ns" by (auto simp: lq_rep_def)
  then have "length ns \<le> lq_brk s"
    using card_mono[of "{..<lq_brk s}" "set ns"] by (simp add: distinct_card)
  moreover have "chain (lq_heap s) (get_ptr (lq_head s)) ns" using r by (simp add: lq_rep_def)
  ultimately show ?thesis by (simp add: lq_items_def walk_chain)
qed

lemma lq_empty_iff: "lq_rep ns fl s \<Longrightarrow> lq_empty s \<longleftrightarrow> tl ns = []"
  by (cases ns) (auto simp: lq_empty_def tp_equal_def lq_rep_def dest: last_in_set split: if_splits)

subsection \<open>Push\<close>

text \<open>What \<^verbatim>\<open>allocate_safe\<close> leaves: a node of the pool, or a new one.\<close>

definition lq_alloc :: "'a lockfree_queue \<Rightarrow> nat \<times> 'a lockfree_queue" where
  "lq_alloc s = (case get_ptr (lq_pool s) of
     None \<Rightarrow> (lq_brk s, store_node (lq_brk s) null_node (s\<lparr>lq_brk := lq_brk s + 1\<rparr>))
   | Some p \<Rightarrow> (p, s\<lparr>lq_pool := Tagged (get_ptr (nd_next (lq_heap s p))) (get_next_tag (lq_pool s))\<rparr>))"

lemma run_alloc:
  "\<exists>k\<le>3. \<forall>m. run_alone (k + m) (Alloc_Load x) s = run_alone m (Construct x (fst (lq_alloc s))) (snd (lq_alloc s))"
proof (cases "get_ptr (lq_pool s)")
  case None
  then have "\<forall>m. run_alone (2 + m) (Alloc_Load x) s = run_alone m (Construct x (fst (lq_alloc s))) (snd (lq_alloc s))"
    by (simp add: thread_step_def lq_alloc_def numeral_2_eq_2)
  then show ?thesis by (intro exI[of _ 2]) simp
next
  case (Some p)
  then have "\<forall>m. run_alone (3 + m) (Alloc_Load x) s = run_alone m (Construct x (fst (lq_alloc s))) (snd (lq_alloc s))"
    by (simp add: thread_step_def lq_alloc_def numeral_3_eq_3)
  then show ?thesis by (intro exI[of _ 3]) simp
qed

lemma alloc_rep:
  assumes "lq_rep ns fl s"
  shows "\<exists>fl'. lq_rep ns fl' (snd (lq_alloc s)) \<and> fst (lq_alloc s) \<notin> set ns \<union> set fl'
    \<and> fst (lq_alloc s) < lq_brk (snd (lq_alloc s)) \<and> lq_items (snd (lq_alloc s)) = lq_items s"
proof (cases fl)
  case Nil
  have n: "lq_brk s \<notin> set ns" "lq_brk s \<notin> set (tl ns)"
    using assms by (cases ns; force simp: lq_rep_def)+
  let ?s = "snd (lq_alloc s)"
  have "lq_rep ns [] ?s"
    using assms n Nil
    by (auto simp: lq_rep_def lq_alloc_def store_node_def chain_upd less_Suc_eq)
  moreover have "lq_items ?s = lq_items s"
    using items_rep[OF calculation] items_rep[OF assms] n Nil assms
    by (auto simp: lq_alloc_def lq_rep_def store_node_def)
  ultimately show ?thesis using Nil assms n
    by (intro exI[of _ "[]"]) (auto simp: lq_alloc_def lq_rep_def store_node_def)
next
  case (Cons f fl')
  let ?s = "snd (lq_alloc s)"
  have "lq_rep ns fl' ?s" using assms Cons by (auto simp: lq_rep_def lq_alloc_def)
  moreover have "lq_items ?s = lq_items s"
    using items_rep[OF calculation] items_rep[OF assms] Cons assms
    by (auto simp: lq_alloc_def lq_rep_def)
  ultimately show ?thesis using Cons assms
    by (intro exI[of _ fl']) (auto simp: lq_alloc_def lq_rep_def)
qed

definition lq_linked :: "'a \<Rightarrow> nat \<Rightarrow> nat \<Rightarrow> 'a lockfree_queue \<Rightarrow> 'a lockfree_queue" where
  "lq_linked x n p s = s\<lparr>
     lq_heap := (let h = (lq_heap s)(n := \<lparr>nd_next = Tagged None 0, nd_data = Some x\<rparr>) in
       h(p := (h p)\<lparr>nd_next := Tagged (Some n) (get_next_tag (nd_next (h p)))\<rparr>)),
     lq_tail := Tagged (Some n) (get_next_tag (lq_tail s)),
     lq_size := lq_size s + 1\<rparr>"

lemma run_push:
  assumes "get_ptr (lq_tail s) = Some p" "p \<noteq> n" "get_ptr (nd_next (lq_heap s p)) = None" "7 \<le> m"
  shows "run_alone m (Construct x n) s = Some (Pushed, lq_linked x n p s)"
proof -
  obtain k where m: "m = Suc (Suc (Suc (Suc (Suc (Suc (Suc k))))))"
    using assms(4) le_Suc_ex[of 7 m] by (auto simp: eval_nat_numeral)
  show ?thesis using assms(1-3)
    by (simp add: m thread_step_def store_node_def lq_linked_def Let_def fun_upd_twist)
qed

lemma linked_rep:
  assumes r: "lq_rep ns fl s" and n: "n \<notin> set ns \<union> set fl" "n < lq_brk s"
  shows "lq_rep (ns @ [n]) fl (lq_linked x n (last ns) s)"
proof -
  let ?h = "(lq_heap s)(n := \<lparr>nd_next = Tagged None 0, nd_data = Some x\<rparr>)"
  have l: "last ns \<in> set ns" using r by (simp add: lq_rep_def)
  have c: "chain ?h (Some (hd ns)) ns" using r n by (simp add: lq_rep_def chain_upd)
  have h: "lq_heap (lq_linked x n (last ns) s) = ?h(last ns :=
      (?h (last ns))\<lparr>nd_next := Tagged (Some n) (get_next_tag (nd_next (?h (last ns))))\<rparr>)"
    by (simp add: lq_linked_def Let_def)
  have "chain (lq_heap (lq_linked x n (last ns) s)) (Some (hd ns)) (ns @ [n])"
    unfolding h using r n by (intro chain_snoc c) (auto simp: lq_rep_def)
  moreover have "chain (lq_heap (lq_linked x n (last ns) s)) (get_ptr (lq_pool s)) fl"
  proof -
    have "last ns \<notin> set fl" using r l by (auto simp: lq_rep_def disjoint_iff)
    with r n show ?thesis by (simp add: h chain_upd lq_rep_def)
  qed
  moreover have "nd_data (lq_heap (lq_linked x n (last ns) s) a) \<noteq> None" if "a \<in> set (tl (ns @ [n]))" for a
    using that r n by (cases ns) (auto simp: lq_linked_def Let_def lq_rep_def)
  ultimately show ?thesis
    using r n by (cases ns) (auto simp: lq_rep_def lq_linked_def get_next_tag_def algebra_simps)
qed

lemma linked_items:
  assumes "lq_rep ns fl s" "n \<notin> set ns \<union> set fl" "n < lq_brk s"
  shows "lq_items (lq_linked x n (last ns) s) = lq_items s @ [x]"
proof -
  have "last ns \<noteq> n" using assms by (auto simp: lq_rep_def)
  with items_rep[OF linked_rep[OF assms, of x]] items_rep[OF assms(1)] assms show ?thesis
    by (cases ns) (auto simp: lq_linked_def Let_def lq_rep_def)
qed

lemma emplace_ok:
  assumes "lq_inv s"
  shows "\<exists>s'. lq_emplace x s = Some s' \<and> lq_inv s' \<and> lq_items s' = lq_items s @ [x]"
proof -
  obtain ns fl where r: "lq_rep ns fl s" using assms by (auto simp: lq_inv_def)
  obtain fl' where a: "lq_rep ns fl' (snd (lq_alloc s))" "fst (lq_alloc s) \<notin> set ns \<union> set fl'"
    "fst (lq_alloc s) < lq_brk (snd (lq_alloc s))" "lq_items (snd (lq_alloc s)) = lq_items s"
    using alloc_rep[OF r] by (elim exE conjE)
  obtain k where k: "k \<le> 3" "\<forall>m. run_alone (k + m) (Alloc_Load x) s
      = run_alone m (Construct x (fst (lq_alloc s))) (snd (lq_alloc s))"
    using run_alloc[of x s] by (elim exE conjE)
  have t: "get_ptr (lq_tail (snd (lq_alloc s))) = Some (last ns)" "last ns \<noteq> fst (lq_alloc s)"
    using a(1,2) last_in_set[of ns] by (simp add: lq_rep_def, metis UnI1 lq_rep_def)
  have "get_ptr (nd_next (lq_heap (snd (lq_alloc s)) (last ns))) = None"
    using a(1) by (intro chain_last) (auto simp: lq_rep_def)
  from run_push[OF t this, of "12 - k"] k(1)
  have "run_alone (12 - k) (Construct x (fst (lq_alloc s))) (snd (lq_alloc s))
      = Some (Pushed, lq_linked x (fst (lq_alloc s)) (last ns) (snd (lq_alloc s)))" by simp
  moreover have "k + (12 - k) = 12" using k(1) by simp
  ultimately have "lq_emplace x s = Some (lq_linked x (fst (lq_alloc s)) (last ns) (snd (lq_alloc s)))"
    using k(2)[rule_format, of "12 - k"] by (simp add: lq_emplace_def del: run_alone.simps)
  moreover have "lq_inv (lq_linked x (fst (lq_alloc s)) (last ns) (snd (lq_alloc s)))"
    unfolding lq_inv_def using linked_rep[OF a(1-3)] by blast
  ultimately show ?thesis using linked_items[OF a(1-3), of x] a(4) by simp
qed


subsection \<open>Pop\<close>

definition lq_popped :: "nat \<Rightarrow> nat \<Rightarrow> 'a lockfree_queue \<Rightarrow> 'a lockfree_queue" where
  "lq_popped p q s = s\<lparr>
     lq_heap := (lq_heap s)(p := (lq_heap s p)\<lparr>nd_next := set_ptr (get_ptr (lq_pool s)) (nd_next (lq_heap s p))\<rparr>),
     lq_head := Tagged (Some q) (get_next_tag (lq_head s)),
     lq_size := lq_size s - 1,
     lq_pool := Tagged (Some p) (get_tag (lq_pool s))\<rparr>"

lemma run_pop:
  assumes "get_ptr (lq_head s) = Some p" "lq_head s \<noteq> lq_tail s" "get_ptr (nd_next (lq_heap s p)) = Some q"
  shows "run_alone 12 Pop_Head s = Some (Popped (nd_data (lq_heap s q)), lq_popped p q s)"
  using assms by (simp add: eval_nat_numeral thread_step_def store_node_def lq_popped_def Let_def)

lemma run_pop_empty:
  assumes "get_ptr (lq_head s) = Some p" "lq_head s = lq_tail s" "get_ptr (nd_next (lq_heap s p)) = None"
  shows "run_alone 12 Pop_Head s = Some (Pop_Empty, s)"
  using assms by (simp add: eval_nat_numeral thread_step_def Let_def)

lemma popped_rep:
  assumes "lq_rep (p # q # ns) fl s"
  shows "lq_rep (q # ns) (p # fl) (lq_popped p q s)"
  using assms by (auto simp: lq_rep_def lq_popped_def chain_upd set_ptr_def get_next_tag_def)

lemma popped_items:
  assumes "lq_rep (p # q # ns) fl s"
  shows "lq_items s = the (nd_data (lq_heap s q)) # lq_items (lq_popped p q s)"
  using items_rep[OF popped_rep[OF assms]] items_rep[OF assms] assms
  by (auto simp: lq_popped_def lq_rep_def)

lemma pop_front_empty:
  assumes "lq_inv s" "lq_items s = []"
  shows "lq_pop_front s = Some (None, s)"
proof -
  obtain ns fl where r: "lq_rep ns fl s" using assms by (auto simp: lq_inv_def)
  with assms(2) obtain p where ns: "ns = [p]" using items_rep[OF r] by (cases ns) (auto simp: lq_rep_def)
  have "run_alone 12 Pop_Head s = Some (Pop_Empty, s)"
    using r ns by (intro run_pop_empty[of _ p] tagged_ptr.expand) (auto simp: lq_rep_def)
  then show ?thesis by (simp add: lq_pop_front_def del: run_alone.simps)
qed

lemma pop_front_some:
  assumes "lq_inv s" "lq_items s = x # xs"
  shows "\<exists>s'. lq_pop_front s = Some (Some (Some x), s') \<and> lq_inv s' \<and> lq_items s' = xs"
proof -
  obtain ns fl where r: "lq_rep ns fl s" using assms by (auto simp: lq_inv_def)
  with assms(2) obtain p q ns' where ns: "ns = p # q # ns'"
    using items_rep[OF r] by (cases ns; cases "tl ns") auto
  have t: "last (q # ns') \<noteq> p" using r ns last_in_set[of "q # ns'"] by (auto simp: lq_rep_def)
  then have "lq_head s \<noteq> lq_tail s" using r ns by (auto simp: lq_rep_def)
  with r ns have "run_alone 12 Pop_Head s = Some (Popped (nd_data (lq_heap s q)), lq_popped p q s)"
    by (intro run_pop) (auto simp: lq_rep_def)
  moreover have "nd_data (lq_heap s q) = Some x"
    using popped_items[of p q ns' fl s] r ns assms(2) by (auto simp: lq_rep_def)
  ultimately have "lq_pop_front s = Some (Some (Some x), lq_popped p q s)"
    by (simp add: lq_pop_front_def del: run_alone.simps)
  moreover have "lq_inv (lq_popped p q s)" unfolding lq_inv_def using popped_rep r ns by blast
  ultimately show ?thesis using popped_items[of p q ns' fl s] r ns assms(2) by simp
qed

interpretation lq: task_queue lqw_push_item lqw_block_pop_item lq_items lq_inv "\<lambda>_. True" "\<lambda>x xs. xs @ [x]"
proof
  show "\<exists>q'. lqw_push_item x q = Inr q' \<and> lq_inv q' \<and> lq_items q' = lq_items q @ [x]" if "lq_inv q" for q and x :: 'a
    using emplace_ok[OF that, of x] by (auto simp: lqw_push_item_def)
  show "lqw_block_pop_item q = Inr None" if "lq_inv q" "lq_items q = []" for q :: "'a lockfree_queue"
    using pop_front_empty[OF that] by (simp add: lqw_block_pop_item_def)
  show "\<exists>q'. lqw_block_pop_item q = Inr (Some (x, q')) \<and> lq_inv q' \<and> lq_items q' = xs"
    if "lq_inv q" "lq_items q = x # xs" for q and x :: 'a and xs
    using pop_front_some[OF that] by (auto simp: lqw_block_pop_item_def)
qed simp

subsection \<open>Construction\<close>

text \<open>The free list of \<open>n\<close> nodes, the last one allocated on top.\<close>

definition pool_rep :: "nat list \<Rightarrow> 'a lockfree_queue \<Rightarrow> bool" where
  "pool_rep fl s \<longleftrightarrow> chain (lq_heap s) (get_ptr (lq_pool s)) fl \<and> distinct fl
     \<and> (\<forall>a\<in>set fl. a < lq_brk s) \<and> lq_size s = 0"

lemma fill_pool_rep: "pool_rep fl s \<Longrightarrow> \<exists>fl'. pool_rep fl' (fill_pool n s) \<and> length fl' = n + length fl"
proof (induction n arbitrary: fl s)
  case (Suc n)
  let ?s = "(store_node (lq_brk s) (null_node\<lparr>nd_next := set_ptr (get_ptr (lq_pool s)) (Tagged None 0)\<rparr>) s)
       \<lparr>lq_brk := lq_brk s + 1, lq_pool := Tagged (Some (lq_brk s)) (get_tag (lq_pool s))\<rparr>"
  have "lq_brk s \<notin> set fl" using Suc.prems by (auto simp: pool_rep_def)
  with Suc.prems have "pool_rep (lq_brk s # fl) ?s"
    by (auto simp: pool_rep_def store_node_def chain_upd set_ptr_def)
  from Suc.IH[OF this] show ?case by simp
qed auto

lemma new_inv: "lq_inv (lq_new n :: 'a lockfree_queue) \<and> lq_items (lq_new n :: 'a lockfree_queue) = []"
proof -
  have "pool_rep [] (lq_raw :: 'a lockfree_queue)" by (simp add: pool_rep_def lq_raw_def)
  from fill_pool_rep[OF this, of n] obtain fl where p: "pool_rep fl (fill_pool n (lq_raw :: 'a lockfree_queue))" by blast
  have "\<exists>a fl'. lq_rep [a] fl' (lq_new n :: 'a lockfree_queue)"
  proof (cases fl)
    case Nil
    with p have "lq_rep [lq_brk (fill_pool n (lq_raw :: 'a lockfree_queue))] [] (lq_new n :: 'a lockfree_queue)"
      by (auto simp: pool_rep_def lq_rep_def lq_new_def Let_def store_node_def null_node_def)
    then show ?thesis by blast
  next
    case (Cons a fl')
    with p have "lq_rep [a] fl' (lq_new n :: 'a lockfree_queue)"
      by (auto simp: pool_rep_def lq_rep_def lq_new_def Let_def store_node_def null_node_def chain_upd)
    then show ?thesis by blast
  qed
  then show ?thesis using items_rep lq_inv_def by fastforce
qed


section \<open>Many threads\<close>

text \<open>
  Threads take steps in any order; a thread that has finished an operation may begin another.
\<close>

inductive lq_step :: "'a pc list \<times> 'a lockfree_queue \<Rightarrow> 'a pc list \<times> 'a lockfree_queue \<Rightarrow> bool" where
  begin_push: "i < length pcs \<Longrightarrow> finished_pc (pcs ! i) \<Longrightarrow> lq_step (pcs, s) (pcs[i := Alloc_Load x], s)"
| begin_pop: "i < length pcs \<Longrightarrow> finished_pc (pcs ! i) \<Longrightarrow> lq_step (pcs, s) (pcs[i := Pop_Head], s)"
| access: "i < length pcs \<Longrightarrow> thread_step ok (pcs ! i) s = Some (pc', s') \<Longrightarrow> lq_step (pcs, s) (pcs[i := pc'], s')"

inductive lq_reachable :: "nat \<Rightarrow> nat \<Rightarrow> 'a pc list \<times> 'a lockfree_queue \<Rightarrow> bool" for n k where
  fresh: "lq_reachable n k (replicate n Idle, lq_new k)"
| step: "lq_reachable n k c \<Longrightarrow> lq_step c c' \<Longrightarrow> lq_reachable n k c'"

inductive_cases lq_stepE: "lq_step (pcs, s) c"

text \<open>The addresses the next step of a thread dereferences.\<close>

fun touches :: "'a pc \<Rightarrow> nat set" where
  "touches (Alloc_Test x old) = set_option (get_ptr old)"
| "touches (Construct x n) = {n}"
| "touches (Push_Next n tail) = set_option (get_ptr tail)"
| "touches (Push_Link n tail next) = set_option (get_ptr tail)"
| "touches (Pop_Next head tail) = set_option (get_ptr head)"
| "touches (Pop_Read head next) = set_option (get_ptr next)"
| "touches (Free_Link n old ret) = {n}"
| "touches _ = {}"

subsection \<open>Every pointer is valid\<close>

definition ok_ptr :: "nat \<Rightarrow> tagged_ptr \<Rightarrow> bool" where
  "ok_ptr b p \<longleftrightarrow> (\<forall>a. get_ptr p = Some a \<longrightarrow> a < b)"

definition live_ptr :: "nat \<Rightarrow> tagged_ptr \<Rightarrow> bool" where
  "live_ptr b p \<longleftrightarrow> (\<exists>a. get_ptr p = Some a \<and> a < b)"

fun pc_ok :: "nat \<Rightarrow> 'a pc \<Rightarrow> bool" where
  "pc_ok b (Alloc_Test x old) \<longleftrightarrow> ok_ptr b old"
| "pc_ok b (Alloc_Cas x old np) \<longleftrightarrow> live_ptr b old \<and> ok_ptr b np"
| "pc_ok b (Construct x n) \<longleftrightarrow> n < b"
| "pc_ok b (Push_Tail n) \<longleftrightarrow> n < b"
| "pc_ok b (Push_Next n t) \<longleftrightarrow> n < b \<and> live_ptr b t"
| "pc_ok b (Push_Link n t nx) \<longleftrightarrow> n < b \<and> live_ptr b t"
| "pc_ok b (Push_Swing n t) \<longleftrightarrow> n < b"
| "pc_ok b (Push_Help n t nx) \<longleftrightarrow> n < b \<and> live_ptr b nx"
| "pc_ok b (Pop_Tail h) \<longleftrightarrow> live_ptr b h"
| "pc_ok b (Pop_Next h t) \<longleftrightarrow> live_ptr b h"
| "pc_ok b (Pop_Help t nx) \<longleftrightarrow> live_ptr b nx"
| "pc_ok b (Pop_Read h nx) \<longleftrightarrow> live_ptr b h \<and> live_ptr b nx"
| "pc_ok b (Pop_Cas h nx r) \<longleftrightarrow> live_ptr b h \<and> live_ptr b nx"
| "pc_ok b (Free_Load n r) \<longleftrightarrow> n < b"
| "pc_ok b (Free_Link n old r) \<longleftrightarrow> n < b \<and> ok_ptr b old"
| "pc_ok b (Free_Cas n old np r) \<longleftrightarrow> n < b \<and> live_ptr b np"
| "pc_ok b _ \<longleftrightarrow> True"

definition shared_ok :: "'a lockfree_queue \<Rightarrow> bool" where
  "shared_ok s \<longleftrightarrow> live_ptr (lq_brk s) (lq_head s) \<and> live_ptr (lq_brk s) (lq_tail s)
     \<and> ok_ptr (lq_brk s) (lq_pool s) \<and> (\<forall>a<lq_brk s. ok_ptr (lq_brk s) (nd_next (lq_heap s a)))"

lemmas ptr_ok_defs = ok_ptr_def live_ptr_def get_next_tag_def set_ptr_def

lemma ptr_ok_mono:
  "ok_ptr b p \<Longrightarrow> b \<le> b' \<Longrightarrow> ok_ptr b' p"
  "live_ptr b p \<Longrightarrow> b \<le> b' \<Longrightarrow> live_ptr b' p"
  by (force simp: ptr_ok_defs)+

lemma pc_ok_mono: "pc_ok b pc \<Longrightarrow> b \<le> b' \<Longrightarrow> pc_ok b' pc"
  by (cases pc) (auto intro: ptr_ok_mono)

lemma alloc_step_ok:
  "alloc_step ok pc s = Some (pc', s') \<Longrightarrow> shared_ok s \<Longrightarrow> pc_ok (lq_brk s) pc
   \<Longrightarrow> shared_ok s' \<and> pc_ok (lq_brk s') pc' \<and> lq_brk s \<le> lq_brk s'"
  by (cases pc) (auto simp: shared_ok_def ptr_ok_defs store_node_def null_node_def less_Suc_eq
      split: option.splits if_splits)

lemma ptr_ok_simps [simp]:
  "live_ptr b (Tagged (Some n) t) \<longleftrightarrow> n < b"
  "live_ptr b (Tagged (get_ptr p) t) \<longleftrightarrow> live_ptr b p"
  "ok_ptr b (Tagged (Some n) t) \<longleftrightarrow> n < b"
  "ok_ptr b (Tagged (get_ptr p) t) \<longleftrightarrow> ok_ptr b p"
  "ok_ptr b (set_ptr (get_ptr p) v) \<longleftrightarrow> ok_ptr b p"
  by (auto simp: ptr_ok_defs)

lemma live_ok: "live_ptr b p \<Longrightarrow> ok_ptr b p"
  by (auto simp: ptr_ok_defs)

lemma live_iff: "live_ptr b p \<longleftrightarrow> ok_ptr b p \<and> get_ptr p \<noteq> None"
  by (auto simp: ptr_ok_defs)

lemma shared_ok_store: "shared_ok s \<Longrightarrow> ok_ptr (lq_brk s) (nd_next n) \<Longrightarrow> shared_ok (store_node a n s)"
  by (simp add: shared_ok_def store_node_def)

lemma store_node_simps [simp]:
  "lq_brk (store_node a n s) = lq_brk s" "lq_tail (store_node a n s) = lq_tail s"
  by (simp_all add: store_node_def)

lemma shared_ok_update:
  "shared_ok s \<Longrightarrow> live_ptr (lq_brk s) p \<Longrightarrow> shared_ok (s\<lparr>lq_tail := p\<rparr>)"
  "shared_ok s \<Longrightarrow> live_ptr (lq_brk s) p \<Longrightarrow> shared_ok (s\<lparr>lq_head := p\<rparr>)"
  "shared_ok s \<Longrightarrow> ok_ptr (lq_brk s) p \<Longrightarrow> shared_ok (s\<lparr>lq_pool := p\<rparr>)"
  "shared_ok s \<Longrightarrow> shared_ok (s\<lparr>lq_size := n\<rparr>)"
  by (simp_all add: shared_ok_def)

lemma shared_okD:
  "shared_ok s \<Longrightarrow> live_ptr (lq_brk s) (lq_tail s)"
  "shared_ok s \<Longrightarrow> live_ptr (lq_brk s) (lq_head s)"
  "shared_ok s \<Longrightarrow> ok_ptr (lq_brk s) (lq_pool s)"
  "shared_ok s \<Longrightarrow> live_ptr (lq_brk s) p \<Longrightarrow> get_ptr p = Some a \<Longrightarrow> ok_ptr (lq_brk s) (nd_next (lq_heap s a))"
  by (auto simp: shared_ok_def live_ptr_def)

lemma shared_ok_head: "get_ptr (lq_head s) = Some a \<Longrightarrow> shared_ok s \<Longrightarrow> a < lq_brk s"
  by (auto simp: shared_ok_def live_ptr_def)

lemmas shared_ok_simps = shared_ok_head shared_ok_store shared_ok_update shared_okD

lemma push_step_ok:
  "push_step ok pc s = Some (pc', s') \<Longrightarrow> shared_ok s \<Longrightarrow> pc_ok (lq_brk s) pc
   \<Longrightarrow> shared_ok s' \<and> pc_ok (lq_brk s') pc' \<and> lq_brk s \<le> lq_brk s'"
  by (cases pc) (auto simp: shared_ok_simps live_iff[of _ "nd_next _"] Let_def split: option.split_asm if_split_asm if_split)

lemma pop_step_ok:
  "pop_step ok pc s = Some (pc', s') \<Longrightarrow> shared_ok s \<Longrightarrow> pc_ok (lq_brk s) pc
   \<Longrightarrow> shared_ok s' \<and> pc_ok (lq_brk s') pc' \<and> lq_brk s \<le> lq_brk s'"
  by (cases pc) (auto simp: shared_ok_simps live_iff[of _ "nd_next _"] Let_def split: option.split_asm if_split_asm if_split)

lemma free_step_ok:
  "free_step ok pc s = Some (pc', s') \<Longrightarrow> shared_ok s \<Longrightarrow> pc_ok (lq_brk s) pc
   \<Longrightarrow> shared_ok s' \<and> pc_ok (lq_brk s') pc' \<and> lq_brk s \<le> lq_brk s'"
  by (cases pc) (auto simp: shared_ok_simps live_ok split: option.split_asm if_split_asm)

lemma thread_step_ok:
  "thread_step ok pc s = Some (pc', s') \<Longrightarrow> shared_ok s \<Longrightarrow> pc_ok (lq_brk s) pc
   \<Longrightarrow> shared_ok s' \<and> pc_ok (lq_brk s') pc' \<and> lq_brk s \<le> lq_brk s'"
  unfolding thread_step_def
  by (cases pc; simp only: pc.simps; erule (2) alloc_step_ok push_step_ok pop_step_ok free_step_ok)

lemma thread_step_defined: "\<not> finished_pc pc \<Longrightarrow> pc_ok b pc \<Longrightarrow> \<exists>c. thread_step ok pc s = Some c"
  by (cases pc) (auto simp: thread_step_def live_ptr_def Let_def split: option.splits)

lemma touches_ok: "pc_ok b pc \<Longrightarrow> a \<in> touches pc \<Longrightarrow> a < b"
  by (cases pc) (auto simp: ptr_ok_defs)

definition lq_safe :: "'a pc list \<times> 'a lockfree_queue \<Rightarrow> bool" where
  "lq_safe c \<longleftrightarrow> shared_ok (snd c) \<and> (\<forall>pc\<in>set (fst c). pc_ok (lq_brk (snd c)) pc)"

lemma chain_ok: "chain h p as \<Longrightarrow> \<forall>a\<in>set as. a < b \<Longrightarrow> a \<in> set as \<Longrightarrow> ok_ptr b (nd_next (h a))"
proof (induction as arbitrary: p)
  case (Cons c as)
  then show ?case by (cases as) (auto simp: ok_ptr_def)
qed simp

lemma fill_pool_ok:
  "\<forall>a<lq_brk s. ok_ptr (lq_brk s) (nd_next (lq_heap s a)) \<Longrightarrow> ok_ptr (lq_brk s) (lq_pool s)
   \<Longrightarrow> (\<forall>a<lq_brk (fill_pool n s). ok_ptr (lq_brk (fill_pool n s)) (nd_next (lq_heap (fill_pool n s) a)))
     \<and> ok_ptr (lq_brk (fill_pool n s)) (lq_pool (fill_pool n s))"
proof (induction n arbitrary: s)
  case (Suc n)
  show ?case unfolding fill_pool.simps using Suc.prems
    by (intro Suc.IH) (auto simp: ptr_ok_defs store_node_def less_Suc_eq)
qed simp

lemma new_safe: "shared_ok (lq_new k :: 'a lockfree_queue)"
  using fill_pool_ok[of "lq_raw :: 'a lockfree_queue" k]
  by (auto simp: lq_raw_def shared_ok_def lq_new_def Let_def ptr_ok_defs store_node_def null_node_def
      less_Suc_eq split: option.splits)

lemma lq_step_safe: "lq_step c c' \<Longrightarrow> lq_safe c \<Longrightarrow> lq_safe c'"
proof (induction rule: lq_step.induct)
  case (access i pcs ok s pc' s')
  then have "pcs ! i \<in> set pcs" by simp
  with access have "shared_ok s' \<and> pc_ok (lq_brk s') pc' \<and> lq_brk s \<le> lq_brk s'"
    by (intro thread_step_ok) (auto simp: lq_safe_def)
  with access.prems show ?case
    by (auto simp: lq_safe_def dest!: set_update_subset_insert[THEN subsetD] intro: pc_ok_mono)
qed (auto simp: lq_safe_def dest!: set_update_subset_insert[THEN subsetD])

lemma reachable_safe: "lq_reachable n k c \<Longrightarrow> lq_safe c"
proof (induction rule: lq_reachable.induct)
  case fresh
  show ?case by (simp add: lq_safe_def new_safe)
qed (rule lq_step_safe)

subsection \<open>Schedules\<close>

text \<open>Threads run in the order a list gives; each entry is the index of a thread.\<close>

fun lq_sched :: "nat list \<Rightarrow> 'a pc list \<times> 'a lockfree_queue \<Rightarrow> ('a pc list \<times> 'a lockfree_queue) option" where
  "lq_sched [] c = Some c"
| "lq_sched (i # is) (pcs, s) =
     (if i < length pcs
      then (case thread_step True (pcs ! i) s of
          None \<Rightarrow> None
        | Some (pc', s') \<Rightarrow> lq_sched is (pcs[i := pc'], s'))
      else None)"

lemma lq_sched_reachable:
  "lq_sched is c = Some c' \<Longrightarrow> lq_reachable n k c \<Longrightarrow> lq_reachable n k c'"
proof (induction "is" arbitrary: c)
  case (Cons i "is")
  obtain pcs s where c: "c = (pcs, s)" by fastforce
  from Cons.prems(1) obtain pc' s' where
    t: "i < length pcs" "thread_step True (pcs ! i) s = Some (pc', s')" "lq_sched is (pcs[i := pc'], s') = Some c'"
    by (auto simp: c split: if_splits option.splits)
  have "lq_reachable n k (pcs[i := pc'], s')"
    using Cons.prems(2) access[OF t(1,2)] c by (auto intro: lq_reachable.step)
  with Cons.IH t(3) show ?case by blast
qed simp

text \<open>Two threads push 1 and 2, one pops; a third push recycles the popped node while the first waits.\<close>

definition recycled_schedule :: "nat list" where
  "recycled_schedule = replicate 6 0 @ replicate 8 1 @ replicate 9 2 @ replicate 6 3 @ replicate 3 0 @ replicate 3 4"

definition recycled_threads :: "nat pc list" where
  "recycled_threads = [Alloc_Load 1, Alloc_Load 2, Pop_Head, Alloc_Load 3, Pop_Head]"

lemma recycled_threads_reachable: "lq_reachable 5 2 (recycled_threads, lq_new 2)"
proof -
  note s = lq_reachable.step
  have "lq_reachable 5 2 ([Idle, Idle, Idle, Idle, Idle :: nat pc], lq_new 2)"
    using lq_reachable.fresh[of 5 2] by (simp add: eval_nat_numeral)
  then have "lq_reachable 5 2 ([Alloc_Load 1, Idle, Idle, Idle, Idle :: nat pc], lq_new 2)"
    by (rule s) (use begin_push[of 0 "[Idle, Idle, Idle, Idle, Idle]" "lq_new 2" "1 :: nat"] in simp)
  then have "lq_reachable 5 2 ([Alloc_Load 1, Alloc_Load 2, Idle, Idle, Idle :: nat pc], lq_new 2)"
    by (rule s) (use begin_push[of 1 "[Alloc_Load 1, Idle, Idle, Idle, Idle]" "lq_new 2" "2 :: nat"] in simp)
  then have "lq_reachable 5 2 ([Alloc_Load 1, Alloc_Load 2, Pop_Head, Idle, Idle :: nat pc], lq_new 2)"
    by (rule s) (use begin_pop[of 2 "[Alloc_Load 1, Alloc_Load 2, Idle, Idle, Idle :: nat pc]" "lq_new 2"] in simp)
  then have "lq_reachable 5 2 ([Alloc_Load 1, Alloc_Load 2, Pop_Head, Alloc_Load 3, Idle :: nat pc], lq_new 2)"
    by (rule s) (use begin_push[of 3 "[Alloc_Load 1, Alloc_Load 2, Pop_Head, Idle, Idle]" "lq_new 2" "3 :: nat"] in simp)
  then have "lq_reachable 5 2 ([Alloc_Load 1, Alloc_Load 2, Pop_Head, Alloc_Load 3, Pop_Head :: nat pc], lq_new 2)"
    by (rule s) (use begin_pop[of 4 "[Alloc_Load 1, Alloc_Load 2, Pop_Head, Alloc_Load 3, Idle :: nat pc]" "lq_new 2"] in simp)
  then show ?thesis by (simp add: recycled_threads_def)
qed

section \<open>Properties\<close>

text \<open>
  C5: A queue used by one thread at a time is a FIFO: after construction with any pool size, and as long as
  no weak compare-and-exchange fails spuriously, any sequence of \<^verbatim>\<open>emplace\<close> and \<^verbatim>\<open>pop_front\<close>, in any order, so that nodes go back to the free list and are taken from it
  again, runs without dereferencing \<^verbatim>\<open>nullptr\<close>; each pop gives what it would give on the list of the items,
  and \<^verbatim>\<open>size\<close> and \<^verbatim>\<open>empty\<close> tell the length of that list, the size up to the width of its counter.
\<close>

theorem lockfree_queue_sequential_fifo:
  "\<exists>s. queue_run lqw_push_item lqw_block_pop_item ops (lq_new k)
      = Inr (fst (list_run (\<lambda>x xs. xs @ [x]) ops []), s)
    \<and> lq_size s = of_nat (length (snd (list_run (\<lambda>x xs. xs @ [x]) ops [])))
    \<and> (lq_empty s \<longleftrightarrow> snd (list_run (\<lambda>x xs. xs @ [x]) ops []) = [])"
proof -
  obtain s where s: "queue_run lqw_push_item lqw_block_pop_item ops (lq_new k)
      = Inr (fst (list_run (\<lambda>x xs. xs @ [x]) ops []), s)" "lq_inv s"
      "lq_items s = snd (list_run (\<lambda>x xs. xs @ [x]) ops [])"
    using lq.queue_run_list[of "lq_new k" ops, OF conjunct1[OF new_inv]] unfolding conjunct2[OF new_inv] by blast
  from s(2) obtain ns fl where r: "lq_rep ns fl s" by (auto simp: lq_inv_def)
  have "lq_size s = of_nat (length (lq_items s))" "lq_empty s \<longleftrightarrow> lq_items s = []"
    using r items_rep[OF r] lq_empty_iff[OF r] by (auto simp: lq_rep_def)
  with s show ?thesis by auto
qed

text \<open>
  C6: Whatever the interleaving of pushes and pops of any number of threads, and whichever weak
  compare-and-exchange fails spuriously, no thread ever dereferences \<^verbatim>\<open>nullptr\<close>, and every address a
  thread is about to dereference was handed out by the allocator: nodes go back to the free list only,
  so that even a stale pointer points to a node.
\<close>

theorem lockfree_queue_memory_safe:
  assumes "lq_reachable n k (pcs, s)" and "i < length pcs" and "\<not> finished_pc (pcs ! i)"
  shows "(\<exists>c. thread_step ok (pcs ! i) s = Some c) \<and> (\<forall>a\<in>touches (pcs ! i). a < lq_brk s)"
proof -
  have "pc_ok (lq_brk s) (pcs ! i)"
    using reachable_safe[OF assms(1)] assms(2) by (auto simp: lq_safe_def)
  then show ?thesis using assms(3) thread_step_defined touches_ok by blast
qed

lemma lockfree_queue_memory_safe_witness:
  "(\<exists>c. thread_step False (recycled_threads ! 2) (lq_new 2) = Some c)
    \<and> touches (recycled_threads ! 2) \<subseteq> {..<lq_brk (lq_new 2 :: nat lockfree_queue)}"
  using lockfree_queue_memory_safe[OF recycled_threads_reachable, of 2 False]
  by (auto simp: recycled_threads_def)

text \<open>
  C7: The tags do not make recycling safe. \<^verbatim>\<open>construct\<close> resets the tag of a recycled node's
  \<^verbatim>\<open>next\<close> to 0 and \<^verbatim>\<open>push_back\<close> does not check that \<^verbatim>\<open>m_tail\<close> is still what it read, so a
  delayed push can link its item behind a node that has left the queue: here both completed pushes
  returned true, only 2 was popped, and yet a pop that runs alone afterwards reports an empty queue.
\<close>

theorem lockfree_pop_misses_completed_push:
  "\<exists>pcs s. lq_sched recycled_schedule (recycled_threads, lq_new 2) = Some (pcs, s)
    \<and> lq_reachable 5 2 (pcs, s) \<and> lq_size s = 1
    \<and> pcs ! 0 = Pushed \<and> pcs ! 1 = Pushed \<and> pcs ! 2 = Popped (Some 2) \<and> pcs ! 4 = Pop_Empty"
proof -
  have "\<exists>pcs s. lq_sched recycled_schedule (recycled_threads, lq_new 2) = Some (pcs, s)
      \<and> lq_size s = 1
      \<and> pcs ! 0 = Pushed \<and> pcs ! 1 = Pushed \<and> pcs ! 2 = Popped (Some 2) \<and> pcs ! 4 = Pop_Empty"
    by (simp add: recycled_schedule_def recycled_threads_def lq_new_def lq_raw_def eval_nat_numeral
        thread_step_def store_node_def null_node_def Let_def set_ptr_def get_next_tag_def)
  then show ?thesis using lq_sched_reachable recycled_threads_reachable by blast
qed

end
