(* ===== verification/String_Util.thy ===== *)
theory String_Util
  imports Prelude
begin

text \<open>
  The two string helpers: \<^verbatim>\<open>wish::atoi\<close> of \<^verbatim>\<open>core/string/string_util.cpp\<close> and \<^verbatim>\<open>wish::split\<close> of
  \<^verbatim>\<open>net/util/string_util.cpp\<close>. Strings are shorter than \<^verbatim>\<open>INT_MAX\<close>, the range of the index
  variables of \<^verbatim>\<open>atoi\<close>.
\<close>

section \<open>Reading an integer\<close>

definition char_digit :: "char \<Rightarrow> int" where
  "char_digit c = of_char c - 48"

definition is_digit_char :: "char \<Rightarrow> bool" where
  "is_digit_char c \<longleftrightarrow> \<not> (of_char c > (57 :: int) \<or> of_char c < (48 :: int))"

text \<open>An \<^verbatim>\<open>int\<close> result; an overflow is undefined behaviour, \<open>None\<close>.\<close>

definition int_result :: "int \<Rightarrow> int option" where
  "int_result v = (if int_min \<le> v \<and> v \<le> int_max then Some v else None)"

fun skip_spaces :: "string \<Rightarrow> nat" where
  "skip_spaces [] = 0"
| "skip_spaces (c # cs) = (if c \<noteq> CHR '' '' then 0 else Suc (skip_spaces cs))"

fun atoi_loop :: "bool \<Rightarrow> int \<Rightarrow> string \<Rightarrow> int option" where
  "atoi_loop flag ret [] = Some ret"
| "atoi_loop flag ret (c # cs) =
     (if \<not> is_digit_char c then Some ret
      else (let n = char_digit c in
        if ret > c_div int_max 10 - n then Some (if flag then int_min else int_max)
        else Option.bind (int_result (ret * 10 + n)) (\<lambda>r. atoi_loop flag r cs)))"

definition atoi :: "string \<Rightarrow> int option" where
  "atoi s =
     (if s = [] then Some 0
      else let skip = skip_spaces s in
        if skip \<ge> length s then Some 0
        else let head = s ! skip in
          if head \<noteq> CHR ''+'' \<and> head \<noteq> CHR ''-'' \<and> \<not> is_digit_char head then Some 0
          else let flag = (head = CHR ''-'');
                   skip = (if head = CHR ''+'' \<or> head = CHR ''-'' then skip + 1 else skip)
            in Option.bind (atoi_loop flag 0 (drop skip s)) (\<lambda>ret.
                 if flag \<and> ret \<noteq> int_min then int_result (- ret) else Some ret))"

section \<open>Splitting\<close>

text \<open>\<open>piece\<close> is the range from \<^verbatim>\<open>last_it\<close> to \<^verbatim>\<open>it\<close>.\<close>

fun split_from :: "char \<Rightarrow> string \<Rightarrow> string \<Rightarrow> string list" where
  "split_from separator piece [] = (if piece \<noteq> [] then [piece] else [])"
| "split_from separator piece (c # cs) =
     (if c = separator then piece # split_from separator [] cs
      else split_from separator (piece @ [c]) cs)"

definition split :: "string \<Rightarrow> char \<Rightarrow> string list" where
  "split str separator = split_from separator [] str"

section \<open>Lemmas about reading\<close>

fun decimal :: "int \<Rightarrow> string \<Rightarrow> int" where
  "decimal v [] = v"
| "decimal v (c # cs) = decimal (v * 10 + char_digit c) cs"

text \<open>The values the test of the loop accepts: the last digit is subtracted from a tenth of \<^verbatim>\<open>INT_MAX\<close>.\<close>

definition representable :: "int \<Rightarrow> bool" where
  "representable v \<longleftrightarrow> v div 10 + v mod 10 \<le> 214748364"

lemma digit_range: "is_digit_char c \<Longrightarrow> 0 \<le> char_digit c \<and> char_digit c \<le> 9"
  by (auto simp: is_digit_char_def char_digit_def)

lemma decimal_grows: "\<forall>c\<in>set ds. is_digit_char c \<Longrightarrow> 0 \<le> v \<Longrightarrow> v \<le> decimal v ds"
proof (induction ds arbitrary: v)
  case (Cons c ds)
  then have "0 \<le> char_digit c" using digit_range by simp
  with Cons.prems Cons.IH[of "v * 10 + char_digit c"] show ?case by simp
qed simp

lemma representable_less: "0 \<le> u \<Longrightarrow> u \<le> v div 10 \<Longrightarrow> representable v \<Longrightarrow> representable u"
proof -
  assume a: "0 \<le> u" "u \<le> v div 10" "representable v"
  have "u = 10 * (u div 10) + u mod 10" "0 \<le> u div 10" "0 \<le> v mod 10" using a(1) by simp_all
  with a show "representable u" unfolding representable_def by linarith
qed

lemma representable_prefix:
  assumes "representable (decimal w ds)" "\<forall>c\<in>set ds. is_digit_char c" "0 \<le> w"
  shows "representable w"
proof (cases ds)
  case Nil then show ?thesis using assms by simp
next
  case (Cons e es)
  have "w * 10 \<le> w * 10 + char_digit e" "w * 10 + char_digit e \<le> decimal w ds"
    using assms Cons decimal_grows[of es "w * 10 + char_digit e"] digit_range[of e] by auto
  then have "w \<le> decimal w ds div 10" by linarith
  then show ?thesis using representable_less assms by blast
qed

lemma step_test:
  assumes "0 \<le> v" "0 \<le> n" "n \<le> 9"
  shows "v > c_div int_max 10 - n \<longleftrightarrow> \<not> representable (v * 10 + n)"
    and "representable (v * 10 + n) \<Longrightarrow> int_result (v * 10 + n) = Some (v * 10 + n)"
proof -
  have "(v * 10 + n) div 10 = v" "(v * 10 + n) mod 10 = n" using assms by presburger+
  then have r: "representable (v * 10 + n) \<longleftrightarrow> v + n \<le> 214748364" by (simp add: representable_def)
  show "v > c_div int_max 10 - n \<longleftrightarrow> \<not> representable (v * 10 + n)"
    unfolding r by (simp add: c_div_def) linarith
  show "representable (v * 10 + n) \<Longrightarrow> int_result (v * 10 + n) = Some (v * 10 + n)"
    unfolding r using assms by (simp add: int_result_def)
qed

lemma atoi_loop_digits:
  assumes "\<forall>c\<in>set ds. is_digit_char c" "rest = [] \<or> \<not> is_digit_char (hd rest)" "0 \<le> v"
  shows "representable (decimal v ds) \<Longrightarrow> atoi_loop flag v (ds @ rest) = Some (decimal v ds)"
    and "\<not> representable (decimal v ds) \<Longrightarrow> representable v
      \<Longrightarrow> atoi_loop flag v (ds @ rest) = Some (if flag then int_min else int_max)"
  using assms
proof (induction ds arbitrary: v)
  case Nil
  { case 1 then show ?case by (cases rest) auto }
  { case 2 then show ?case by simp }
next
  case (Cons c ds)
  { case 1
    let ?w = "v * 10 + char_digit c"
    have d: "0 \<le> char_digit c" "char_digit c \<le> 9" using digit_range[of c] 1 by simp_all
    have "representable ?w" using representable_prefix[of ?w ds] 1 d by simp
    with 1 Cons.IH(1)[of ?w] step_test[of v "char_digit c"] d show ?case by (simp add: Let_def) }
  { case 2
    let ?w = "v * 10 + char_digit c"
    have d: "0 \<le> char_digit c" "char_digit c \<le> 9" using digit_range[of c] 2 by simp_all
    show ?case
    proof (cases "representable ?w")
      case True
      with 2 Cons.IH(2)[of ?w] step_test[of v "char_digit c"] d show ?thesis by (simp add: Let_def)
    next
      case False
      with 2 step_test(1)[of v "char_digit c"] d show ?thesis by (simp add: Let_def)
    qed }
qed

lemma skip_spaces_replicate: "xs = [] \<or> hd xs \<noteq> CHR '' '' \<Longrightarrow> skip_spaces (replicate k CHR '' '' @ xs) = k"
  by (induction k) (cases xs; auto)+

lemma atoi_at_head:
  assumes "t \<noteq> []" "hd t \<noteq> CHR '' ''"
  shows "atoi (replicate k CHR '' '' @ t) =
    (if hd t \<noteq> CHR ''+'' \<and> hd t \<noteq> CHR ''-'' \<and> \<not> is_digit_char (hd t) then Some 0
     else Option.bind
       (atoi_loop (hd t = CHR ''-'') 0 (if hd t = CHR ''+'' \<or> hd t = CHR ''-'' then tl t else t))
       (\<lambda>ret. if hd t = CHR ''-'' \<and> ret \<noteq> int_min then int_result (- ret) else Some ret))"
  using assms by (cases t) (simp_all add: atoi_def Let_def skip_spaces_replicate nth_append)

definition signs :: "string set" where
  "signs = {'''', ''+'', ''-''}"

section \<open>Lemmas about splitting\<close>

text \<open>The string with the separator put behind it unless it already ends with one.\<close>

definition terminated :: "char \<Rightarrow> string \<Rightarrow> string" where
  "terminated c s = (if s = [] \<or> last s = c then s else s @ [c])"

definition join :: "char \<Rightarrow> string list \<Rightarrow> string" where
  "join c ps = concat (map (\<lambda>p. p @ [c]) ps)"

lemma split_from_join:
  "c \<notin> set piece \<Longrightarrow> (\<forall>p\<in>set (split_from c piece s). c \<notin> set p)
     \<and> join c (split_from c piece s) = terminated c (piece @ s)"
proof (induction c piece s rule: split_from.induct)
  case (1 c piece)
  then show ?case using last_in_set[of piece] by (auto simp: join_def terminated_def)
next
  case (2 c piece x s)
  then show ?case by (cases "x = c") (auto simp: join_def terminated_def)
qed

lemma cut_at_sep: "c \<notin> set p \<Longrightarrow> c \<notin> set q \<Longrightarrow> p @ c # x = q @ c # y \<longleftrightarrow> p = q \<and> x = y"
proof (induction p arbitrary: q)
  case Nil
  then show ?case by (cases q) auto
next
  case (Cons a p)
  then show ?case by (cases q) auto
qed

lemma join_inject:
  "\<forall>p\<in>set ps. c \<notin> set p \<Longrightarrow> \<forall>q\<in>set qs. c \<notin> set q \<Longrightarrow> join c ps = join c qs \<Longrightarrow> ps = qs"
proof (induction ps arbitrary: qs)
  case Nil
  then show ?case by (cases qs) (auto simp: join_def)
next
  case (Cons p ps)
  then obtain q qs' where qs: "qs = q # qs'" by (cases qs) (auto simp: join_def)
  from Cons.prems(3) have "p @ c # join c ps = q @ c # join c qs'" unfolding qs by (simp add: join_def)
  moreover have "c \<notin> set p" "c \<notin> set q" using Cons.prems(1,2) qs by simp_all
  ultimately have "p = q" "join c ps = join c qs'" using cut_at_sep[of c p q] by blast+
  moreover have "ps = qs'" using Cons.IH[of qs'] Cons.prems(1,2) qs calculation(2) by simp
  ultimately show ?case using qs by simp
qed

lemma split_iff: "split s c = ps \<longleftrightarrow> (\<forall>p\<in>set ps. c \<notin> set p) \<and> join c ps = terminated c s"
  using split_from_join[of c "[]" s] join_inject[of ps c "split s c"] by (auto simp: split_def)

lemma split_pair: "c \<notin> set k \<Longrightarrow> c \<notin> set v \<Longrightarrow> v \<noteq> [] \<Longrightarrow> split (k @ c # v) c = [k, v]"
  using last_in_set[of v] by (subst split_iff) (auto simp: join_def terminated_def)

section \<open>Properties\<close>

text \<open>
  C23: \<^verbatim>\<open>atoi\<close> on spaces, an optional sign, digits and any rest that does not begin with a digit never
  overflows an \<^verbatim>\<open>int\<close> and returns the signed value of the digits, whatever their number, except that
  it saturates when a tenth of the value plus its last digit exceeds 214748364.
\<close>

theorem atoi_value:
  assumes "sg \<in> signs" and "ds \<noteq> []" and "\<forall>c\<in>set ds. is_digit_char c"
    and "rest = [] \<or> \<not> is_digit_char (hd rest)"
  shows "atoi (replicate k CHR '' '' @ sg @ ds @ rest) = Some
    (if representable (decimal 0 ds) then (if sg = ''-'' then - decimal 0 ds else decimal 0 ds)
     else if sg = ''-'' then int_min else int_max)"
proof -
  obtain d ds' where ds: "ds = d # ds'" using assms(2) by (cases ds) auto
  have d: "is_digit_char d" "d \<noteq> CHR '' ''" "d \<noteq> CHR ''+''" "d \<noteq> CHR ''-''"
    using assms(3) ds by (auto simp: is_digit_char_def)
  have r0: "representable 0" by (simp add: representable_def)
  have lo: "0 \<le> decimal 0 ds" using decimal_grows[OF assms(3), of 0] by simp
  have neg: "int_result (- decimal 0 ds) = Some (- decimal 0 ds)" "decimal 0 ds \<noteq> int_min"
    if "representable (decimal 0 ds)"
  proof -
    have "decimal 0 ds = decimal 0 ds div 10 * 10 + decimal 0 ds mod 10" by simp
    moreover have "0 \<le> decimal 0 ds mod 10" by simp
    ultimately have "decimal 0 ds \<le> int_max" using that unfolding representable_def by linarith
    then show "int_result (- decimal 0 ds) = Some (- decimal 0 ds)" "decimal 0 ds \<noteq> int_min"
      using lo by (simp_all add: int_result_def)
  qed
  note l = atoi_loop_digits[OF assms(3,4), of 0]
  from assms(1) consider "sg = ''''" | "sg = ''+''" | "sg = ''-''" by (auto simp: signs_def)
  then show ?thesis
  proof cases
    case 1
    then show ?thesis using atoi_at_head[of "ds @ rest" k] l[of False] r0 d ds by simp
  next
    case 2
    then show ?thesis using atoi_at_head[of "''+'' @ ds @ rest" k] l[of False] r0 by simp
  next
    case 3
    then show ?thesis using atoi_at_head[of "''-'' @ ds @ rest" k] l[of True] r0 neg by simp
  qed
qed

lemma atoi_value_witness:
  "atoi (replicate 2 CHR '' '' @ ''-'' @ ''2147483641'' @ ''x'') = Some
    (if representable (decimal 0 ''2147483641'')
     then (if ''-'' = ''-'' then - decimal 0 ''2147483641'' else decimal 0 ''2147483641'')
     else if ''-'' = ''-'' then int_min else int_max)"
  by (rule atoi_value) (simp_all add: signs_def is_digit_char_def)

text \<open>
  \<^verbatim>\<open>atoi\<close> saturates too early: the largest value it can return below \<^verbatim>\<open>INT_MAX\<close> is not
  \<^verbatim>\<open>INT_MAX - 1\<close>; 2147483641 and its negation are in the range of \<^verbatim>\<open>int\<close> and come back as the bounds.
\<close>

theorem atoi_saturates_in_range:
  "atoi ''2147483641'' = Some int_max \<and> atoi ''-2147483641'' = Some int_min \<and> atoi ''2147483640'' = Some 2147483640"
  by (simp add: atoi_def Let_def is_digit_char_def char_digit_def c_div_def int_result_def)

text \<open>
  C24: \<^verbatim>\<open>split\<close> is determined by its round trip: it returns the one list of separator-free pieces
  which, each followed by the separator, spell the string (with a separator added behind a last piece
  that lacks it). So nothing is lost, empty pieces between separators are kept, and an empty piece
  after a final separator is not reported.
\<close>

theorem split_roundtrip:
  "split s c = ps \<longleftrightarrow> (\<forall>p\<in>set ps. c \<notin> set p) \<and> join c ps = terminated c s"
  by (rule split_iff)

lemma split_roundtrip_witness: "split ''/a//b/'' CHR ''/'' = ['''', ''a'', '''', ''b'']"
  by (subst split_roundtrip) (simp add: join_def terminated_def)

end
