(* ===== verification/Http_Types.thy ===== *)
theory Http_Types
  imports Prelude "HOL-Library.Char_ord"
begin

text \<open>
  The vocabulary of \<open>src/net/app/http/parser/http_parser.h\<close> and of the head of \<open>http_parser.c\<close>, in
  its default strict build (\<open>HTTP_PARSER_STRICT = 1\<close>): the enumerations, the flag bits, the message
  tables and the character classes.  A C \<open>char\<close> is an Isabelle \<open>char\<close> (one byte), the result \<open>0\<close> of a
  character table is the byte \<open>NUL\<close>.  The lemmas give the meaning of the two hand-written tables and
  the laws of the flag bits that the proofs about the parser rest on.
\<close>

section \<open>Enumerations\<close>

datatype http_parser_type = HTTP_REQUEST | HTTP_RESPONSE | HTTP_BOTH

datatype (plugins only: code) http_method =
    HTTP_DELETE | HTTP_GET | HTTP_HEAD | HTTP_POST | HTTP_PUT | HTTP_CONNECT | HTTP_OPTIONS | HTTP_TRACE
  | HTTP_COPY | HTTP_LOCK | HTTP_MKCOL | HTTP_MOVE | HTTP_PROPFIND | HTTP_PROPPATCH | HTTP_SEARCH
  | HTTP_UNLOCK | HTTP_BIND | HTTP_REBIND | HTTP_UNBIND | HTTP_ACL | HTTP_REPORT | HTTP_MKACTIVITY
  | HTTP_CHECKOUT | HTTP_MERGE | HTTP_MSEARCH | HTTP_NOTIFY | HTTP_SUBSCRIBE | HTTP_UNSUBSCRIBE
  | HTTP_PATCH | HTTP_PURGE | HTTP_MKCALENDAR | HTTP_LINK | HTTP_UNLINK | HTTP_SOURCE

text \<open>The table \<open>method_strings\<close>, which \<open>http_method_str\<close> reads.\<close>

primrec method_strings :: "http_method \<Rightarrow> string" where
  "method_strings HTTP_DELETE = ''DELETE''"
| "method_strings HTTP_GET = ''GET''"
| "method_strings HTTP_HEAD = ''HEAD''"
| "method_strings HTTP_POST = ''POST''"
| "method_strings HTTP_PUT = ''PUT''"
| "method_strings HTTP_CONNECT = ''CONNECT''"
| "method_strings HTTP_OPTIONS = ''OPTIONS''"
| "method_strings HTTP_TRACE = ''TRACE''"
| "method_strings HTTP_COPY = ''COPY''"
| "method_strings HTTP_LOCK = ''LOCK''"
| "method_strings HTTP_MKCOL = ''MKCOL''"
| "method_strings HTTP_MOVE = ''MOVE''"
| "method_strings HTTP_PROPFIND = ''PROPFIND''"
| "method_strings HTTP_PROPPATCH = ''PROPPATCH''"
| "method_strings HTTP_SEARCH = ''SEARCH''"
| "method_strings HTTP_UNLOCK = ''UNLOCK''"
| "method_strings HTTP_BIND = ''BIND''"
| "method_strings HTTP_REBIND = ''REBIND''"
| "method_strings HTTP_UNBIND = ''UNBIND''"
| "method_strings HTTP_ACL = ''ACL''"
| "method_strings HTTP_REPORT = ''REPORT''"
| "method_strings HTTP_MKACTIVITY = ''MKACTIVITY''"
| "method_strings HTTP_CHECKOUT = ''CHECKOUT''"
| "method_strings HTTP_MERGE = ''MERGE''"
| "method_strings HTTP_MSEARCH = ''M-SEARCH''"
| "method_strings HTTP_NOTIFY = ''NOTIFY''"
| "method_strings HTTP_SUBSCRIBE = ''SUBSCRIBE''"
| "method_strings HTTP_UNSUBSCRIBE = ''UNSUBSCRIBE''"
| "method_strings HTTP_PATCH = ''PATCH''"
| "method_strings HTTP_PURGE = ''PURGE''"
| "method_strings HTTP_MKCALENDAR = ''MKCALENDAR''"
| "method_strings HTTP_LINK = ''LINK''"
| "method_strings HTTP_UNLINK = ''UNLINK''"
| "method_strings HTTP_SOURCE = ''SOURCE''"

text \<open>\<open>enum http_errno\<close> with the descriptions of \<open>http_strerror_tab\<close>.\<close>

datatype (plugins only: code) http_errno =
    HPE_OK | HPE_CB_message_begin | HPE_CB_url | HPE_CB_header_field | HPE_CB_header_value
  | HPE_CB_headers_complete | HPE_CB_body | HPE_CB_message_complete | HPE_CB_status
  | HPE_CB_chunk_header | HPE_CB_chunk_complete
  | HPE_INVALID_EOF_STATE | HPE_HEADER_OVERFLOW | HPE_CLOSED_CONNECTION | HPE_INVALID_VERSION
  | HPE_INVALID_STATUS | HPE_INVALID_METHOD | HPE_INVALID_URL | HPE_INVALID_HOST | HPE_INVALID_PORT
  | HPE_INVALID_PATH | HPE_INVALID_QUERY_STRING | HPE_INVALID_FRAGMENT | HPE_LF_EXPECTED
  | HPE_INVALID_HEADER_TOKEN | HPE_INVALID_CONTENT_LENGTH | HPE_UNEXPECTED_CONTENT_LENGTH
  | HPE_INVALID_CHUNK_SIZE | HPE_INVALID_CONSTANT | HPE_INVALID_INTERNAL_STATE | HPE_STRICT
  | HPE_PAUSED | HPE_UNKNOWN | HPE_INVALID_TRANSFER_ENCODING

primrec http_errno_description :: "http_errno \<Rightarrow> string" where
  "http_errno_description HPE_OK = ''success''"
| "http_errno_description HPE_CB_message_begin = ''the on_message_begin callback failed''"
| "http_errno_description HPE_CB_url = ''the on_url callback failed''"
| "http_errno_description HPE_CB_header_field = ''the on_header_field callback failed''"
| "http_errno_description HPE_CB_header_value = ''the on_header_value callback failed''"
| "http_errno_description HPE_CB_headers_complete = ''the on_headers_complete callback failed''"
| "http_errno_description HPE_CB_body = ''the on_body callback failed''"
| "http_errno_description HPE_CB_message_complete = ''the on_message_complete callback failed''"
| "http_errno_description HPE_CB_status = ''the on_status callback failed''"
| "http_errno_description HPE_CB_chunk_header = ''the on_chunk_header callback failed''"
| "http_errno_description HPE_CB_chunk_complete = ''the on_chunk_complete callback failed''"
| "http_errno_description HPE_INVALID_EOF_STATE = ''stream ended at an unexpected time''"
| "http_errno_description HPE_HEADER_OVERFLOW = ''too many header bytes seen; overflow detected''"
| "http_errno_description HPE_CLOSED_CONNECTION = ''data received after completed connection: close message''"
| "http_errno_description HPE_INVALID_VERSION = ''invalid HTTP version''"
| "http_errno_description HPE_INVALID_STATUS = ''invalid HTTP status code''"
| "http_errno_description HPE_INVALID_METHOD = ''invalid HTTP method''"
| "http_errno_description HPE_INVALID_URL = ''invalid URL''"
| "http_errno_description HPE_INVALID_HOST = ''invalid host''"
| "http_errno_description HPE_INVALID_PORT = ''invalid port''"
| "http_errno_description HPE_INVALID_PATH = ''invalid path''"
| "http_errno_description HPE_INVALID_QUERY_STRING = ''invalid query string''"
| "http_errno_description HPE_INVALID_FRAGMENT = ''invalid fragment''"
| "http_errno_description HPE_LF_EXPECTED = ''LF character expected''"
| "http_errno_description HPE_INVALID_HEADER_TOKEN = ''invalid character in header''"
| "http_errno_description HPE_INVALID_CONTENT_LENGTH = ''invalid character in content-length header''"
| "http_errno_description HPE_UNEXPECTED_CONTENT_LENGTH = ''unexpected content-length header''"
| "http_errno_description HPE_INVALID_CHUNK_SIZE = ''invalid character in chunk size header''"
| "http_errno_description HPE_INVALID_CONSTANT = ''invalid constant string''"
| "http_errno_description HPE_INVALID_INTERNAL_STATE = ''encountered unexpected internal state''"
| "http_errno_description HPE_STRICT = ''strict mode assertion failed''"
| "http_errno_description HPE_PAUSED = ''parser is paused''"
| "http_errno_description HPE_UNKNOWN = ''an unknown error occurred''"
| "http_errno_description HPE_INVALID_TRANSFER_ENCODING = ''request has invalid transfer-encoding''"

text \<open>\<open>http_status_str\<close>, the \<open>switch\<close> generated from \<open>HTTP_STATUS_MAP\<close>.\<close>

definition http_status_map :: "(nat \<times> string) list" where
  "http_status_map =
   [(100, ''Continue''), (101, ''Switching Protocols''), (102, ''Processing''), (200, ''OK''),
    (201, ''Created''), (202, ''Accepted''), (203, ''Non-Authoritative Information''),
    (204, ''No Content''), (205, ''Reset Content''), (206, ''Partial Content''),
    (207, ''Multi-Status''), (208, ''Already Reported''), (226, ''IM Used''),
    (300, ''Multiple Choices''), (301, ''Moved Permanently''), (302, ''Found''), (303, ''See Other''),
    (304, ''Not Modified''), (305, ''Use Proxy''), (307, ''Temporary Redirect''),
    (308, ''Permanent Redirect''), (400, ''Bad Request''), (401, ''Unauthorized''),
    (402, ''Payment Required''), (403, ''Forbidden''), (404, ''Not Found''),
    (405, ''Method Not Allowed''), (406, ''Not Acceptable''), (407, ''Proxy Authentication Required''),
    (408, ''Request Timeout''), (409, ''Conflict''), (410, ''Gone''), (411, ''Length Required''),
    (412, ''Precondition Failed''), (413, ''Payload Too Large''), (414, ''URI Too Long''),
    (415, ''Unsupported Media Type''), (416, ''Range Not Satisfiable''), (417, ''Expectation Failed''),
    (421, ''Misdirected Request''), (422, ''Unprocessable Entity''), (423, ''Locked''),
    (424, ''Failed Dependency''), (426, ''Upgrade Required''), (428, ''Precondition Required''),
    (429, ''Too Many Requests''), (431, ''Request Header Fields Too Large''),
    (451, ''Unavailable For Legal Reasons''), (500, ''Internal Server Error''),
    (501, ''Not Implemented''), (502, ''Bad Gateway''), (503, ''Service Unavailable''),
    (504, ''Gateway Timeout''), (505, ''HTTP Version Not Supported''),
    (506, ''Variant Also Negotiates''), (507, ''Insufficient Storage''), (508, ''Loop Detected''),
    (510, ''Not Extended''), (511, ''Network Authentication Required'')]"

definition http_status_str :: "nat \<Rightarrow> string" where
  "http_status_str s = (case map_of http_status_map s of Some t \<Rightarrow> t | None \<Rightarrow> ''<unknown>'')"

text \<open>A C \<open>switch\<close> with two equal labels does not compile; the table has none.\<close>

lemma http_status_map_distinct: "distinct (map fst http_status_map)"
  by (simp add: http_status_map_def)

section \<open>The states\<close>

datatype (plugins only: code) http_state =
    s_dead | s_start_req_or_res | s_res_or_resp_H | s_start_res | s_res_H | s_res_HT | s_res_HTT
  | s_res_HTTP | s_res_http_major | s_res_http_dot | s_res_http_minor | s_res_http_end
  | s_res_first_status_code | s_res_status_code | s_res_status_start | s_res_status
  | s_res_line_almost_done | s_start_req | s_req_method | s_req_spaces_before_url | s_req_schema
  | s_req_schema_slash | s_req_schema_slash_slash | s_req_server_start | s_req_server
  | s_req_server_with_at | s_req_path | s_req_query_string_start | s_req_query_string
  | s_req_fragment_start | s_req_fragment | s_req_http_start | s_req_http_H | s_req_http_HT
  | s_req_http_HTT | s_req_http_HTTP | s_req_http_I | s_req_http_IC | s_req_http_major
  | s_req_http_dot | s_req_http_minor | s_req_http_end | s_req_line_almost_done
  | s_header_field_start | s_header_field | s_header_value_discard_ws
  | s_header_value_discard_ws_almost_done | s_header_value_discard_lws | s_header_value_start
  | s_header_value | s_header_value_lws | s_header_almost_done | s_chunk_size_start | s_chunk_size
  | s_chunk_parameters | s_chunk_size_almost_done | s_headers_almost_done | s_headers_done
  | s_chunk_data | s_chunk_data_almost_done | s_chunk_data_done | s_body_identity
  | s_body_identity_eof | s_message_done

text \<open>
  The numbers of the enumeration, whose order \<open>PARSING_HEADER\<close> relies on (\<open>state <= s_headers_done\<close>).
\<close>

definition states_in_order :: "http_state list" where
  "states_in_order =
   [s_dead, s_start_req_or_res, s_res_or_resp_H, s_start_res, s_res_H, s_res_HT, s_res_HTT,
    s_res_HTTP, s_res_http_major, s_res_http_dot, s_res_http_minor, s_res_http_end,
    s_res_first_status_code, s_res_status_code, s_res_status_start, s_res_status,
    s_res_line_almost_done, s_start_req, s_req_method, s_req_spaces_before_url, s_req_schema,
    s_req_schema_slash, s_req_schema_slash_slash, s_req_server_start, s_req_server,
    s_req_server_with_at, s_req_path, s_req_query_string_start, s_req_query_string,
    s_req_fragment_start, s_req_fragment, s_req_http_start, s_req_http_H, s_req_http_HT,
    s_req_http_HTT, s_req_http_HTTP, s_req_http_I, s_req_http_IC, s_req_http_major,
    s_req_http_dot, s_req_http_minor, s_req_http_end, s_req_line_almost_done,
    s_header_field_start, s_header_field, s_header_value_discard_ws,
    s_header_value_discard_ws_almost_done, s_header_value_discard_lws, s_header_value_start,
    s_header_value, s_header_value_lws, s_header_almost_done, s_chunk_size_start, s_chunk_size,
    s_chunk_parameters, s_chunk_size_almost_done, s_headers_almost_done, s_headers_done,
    s_chunk_data, s_chunk_data_almost_done, s_chunk_data_done, s_body_identity,
    s_body_identity_eof, s_message_done]"

fun position_of :: "'a \<Rightarrow> 'a list \<Rightarrow> nat" where
  "position_of x [] = 0"
| "position_of x (y # ys) = (if x = y then 0 else Suc (position_of x ys))"

definition state_num :: "http_state \<Rightarrow> nat" where
  "state_num s = Suc (position_of s states_in_order)"

lemma position_of_nth: "x \<in> set xs \<Longrightarrow> position_of x xs < length xs \<and> xs ! position_of x xs = x"
  by (induction xs) auto

lemma states_in_order_all: "s \<in> set states_in_order"
  by (cases s) (simp_all add: states_in_order_def)

lemma state_num_inject: "state_num s = state_num t \<longleftrightarrow> s = t"
  unfolding state_num_def by (metis Suc_inject position_of_nth states_in_order_all)

instantiation http_state :: linorder
begin

definition less_eq_http_state :: "http_state \<Rightarrow> http_state \<Rightarrow> bool" where
  "less_eq_http_state s t = (state_num s \<le> state_num t)"

definition less_http_state :: "http_state \<Rightarrow> http_state \<Rightarrow> bool" where
  "less_http_state s t = (state_num s < state_num t)"

instance
  by standard (auto simp: less_eq_http_state_def less_http_state_def state_num_inject)

end

definition PARSING_HEADER :: "http_state \<Rightarrow> bool" where
  "PARSING_HEADER s = (s \<le> s_headers_done)"

lemma parsing_header_simps [simp]:
  "PARSING_HEADER s \<longleftrightarrow> s \<notin> {s_chunk_data, s_chunk_data_almost_done, s_chunk_data_done,
     s_body_identity, s_body_identity_eof, s_message_done}"
  by (cases s) (simp_all add: PARSING_HEADER_def less_eq_http_state_def state_num_def states_in_order_def)

datatype (plugins only: code) header_states =
    h_general | h_C | h_CO | h_CON
  | h_matching_connection | h_matching_proxy_connection | h_matching_content_length
  | h_matching_transfer_encoding | h_matching_upgrade
  | h_connection | h_content_length | h_content_length_num | h_content_length_ws
  | h_transfer_encoding | h_upgrade
  | h_matching_transfer_encoding_token_start | h_matching_transfer_encoding_chunked
  | h_matching_transfer_encoding_token
  | h_matching_connection_token_start | h_matching_connection_keep_alive
  | h_matching_connection_close | h_matching_connection_upgrade | h_matching_connection_token
  | h_transfer_encoding_chunked | h_connection_keep_alive | h_connection_close | h_connection_upgrade

datatype (plugins only: code) http_host_state =
    s_http_host_dead | s_http_userinfo_start | s_http_userinfo | s_http_host_start
  | s_http_host_v6_start | s_http_host | s_http_host_v6 | s_http_host_v6_end
  | s_http_host_v6_zone_start | s_http_host_v6_zone | s_http_host_port_start | s_http_host_port

text \<open>The flag bits, by their positions: \<open>F_CHUNKED = 1 << 0\<close> and so on.\<close>

abbreviation (input) F_CHUNKED :: nat where "F_CHUNKED \<equiv> 0"
abbreviation (input) F_CONNECTION_KEEP_ALIVE :: nat where "F_CONNECTION_KEEP_ALIVE \<equiv> 1"
abbreviation (input) F_CONNECTION_CLOSE :: nat where "F_CONNECTION_CLOSE \<equiv> 2"
abbreviation (input) F_CONNECTION_UPGRADE :: nat where "F_CONNECTION_UPGRADE \<equiv> 3"
abbreviation (input) F_TRAILING :: nat where "F_TRAILING \<equiv> 4"
abbreviation (input) F_UPGRADE :: nat where "F_UPGRADE \<equiv> 5"
abbreviation (input) F_SKIPBODY :: nat where "F_SKIPBODY \<equiv> 6"
abbreviation (input) F_CONTENTLENGTH :: nat where "F_CONTENTLENGTH \<equiv> 7"

definition has_flag :: "u8 \<Rightarrow> nat \<Rightarrow> bool" where
  "has_flag fl f = (fl AND push_bit f 1 \<noteq> 0)"

definition set_flag :: "nat \<Rightarrow> u8 \<Rightarrow> u8" where
  "set_flag f fl = fl OR push_bit f 1"

lemma has_flag_bit: "has_flag fl f = bit fl f"
  by (simp add: has_flag_def bit_iff_and_push_bit_not_eq_0)

lemma has_set_flag [simp]: "f < 8 \<Longrightarrow> has_flag (set_flag g fl) f = (has_flag fl f \<or> f = g)"
  by (auto simp: has_flag_bit set_flag_def bit_or_iff bit_push_bit_iff bit_1_iff bit_2_iff simp del: push_bit_of_1)

lemma has_flag_zero [simp]: "\<not> has_flag 0 f"
  by (simp add: has_flag_def)

section \<open>Character classes\<close>

abbreviation NUL :: char where "NUL \<equiv> CHR 0x00"
abbreviation HT :: char where "HT \<equiv> CHR 0x09"
abbreviation LF :: char where "LF \<equiv> CHR 0x0A"
abbreviation FF :: char where "FF \<equiv> CHR 0x0C"
abbreviation CR :: char where "CR \<equiv> CHR 0x0D"

text \<open>\<open>LOWER(c)\<close> is \<open>(unsigned char)(c | 0x20)\<close>, it sets bit 5: control characters change too, tab
  becomes \<open>)\<close>.\<close>

primrec LOWER :: "char \<Rightarrow> char" where
  "LOWER (Char b0 b1 b2 b3 b4 b5 b6 b7) = Char b0 b1 b2 b3 b4 True b6 b7"

definition IS_ALPHA :: "char \<Rightarrow> bool" where
  "IS_ALPHA c = (LOWER c \<ge> CHR ''a'' \<and> LOWER c \<le> CHR ''z'')"

definition IS_NUM :: "char \<Rightarrow> bool" where
  "IS_NUM c = (c \<ge> CHR ''0'' \<and> c \<le> CHR ''9'')"

definition IS_ALPHANUM :: "char \<Rightarrow> bool" where
  "IS_ALPHANUM c = (IS_ALPHA c \<or> IS_NUM c)"

definition IS_HEX :: "char \<Rightarrow> bool" where
  "IS_HEX c = (IS_NUM c \<or> LOWER c \<ge> CHR ''a'' \<and> LOWER c \<le> CHR ''f'')"

definition IS_MARK :: "char \<Rightarrow> bool" where
  "IS_MARK c = (c \<in> {CHR ''-'', CHR ''_'', CHR ''.'', CHR ''!'', CHR ''~'', CHR ''*'', CHR 0x27,
     CHR ''('', CHR '')''})"

definition IS_USERINFO_CHAR :: "char \<Rightarrow> bool" where
  "IS_USERINFO_CHAR c = (IS_ALPHANUM c \<or> IS_MARK c \<or>
     c \<in> {CHR ''%'', CHR '';'', CHR '':'', CHR ''&'', CHR ''='', CHR ''+'', CHR ''$'', CHR '',''})"

text \<open>
  The table \<open>tokens\<close>: its 128 written entries; C initialises the other 128 to zero.
\<close>

definition token_table :: string where
  "token_table =
     replicate 32 NUL @
     [CHR '' '', CHR ''!'', NUL, CHR ''#'', CHR ''$'', CHR ''%'', CHR ''&'', CHR 0x27,
      NUL, NUL, CHR ''*'', CHR ''+'', NUL, CHR ''-'', CHR ''.'', NUL] @
     ''0123456789'' @ replicate 6 NUL @
     [NUL] @ ''abcdefghijklmnopqrstuvwxyz'' @ [NUL, NUL, NUL, CHR ''^'', CHR ''_''] @
     [CHR 0x60] @ ''abcdefghijklmnopqrstuvwxyz'' @ [NUL, CHR ''|'', NUL, CHR ''~'', NUL]"

definition tokens :: "char \<Rightarrow> char" where
  "tokens c = (if of_char c < (128 :: nat) then token_table ! of_char c else NUL)"

definition STRICT_TOKEN :: "char \<Rightarrow> char" where
  "STRICT_TOKEN c = (if c = CHR '' '' then NUL else tokens c)"

abbreviation TOKEN :: "char \<Rightarrow> char" where "TOKEN \<equiv> STRICT_TOKEN"

text \<open>The table \<open>unhex\<close>: again 128 written entries, the other 128 are zero, not -1.\<close>

definition unhex_table :: "int list" where
  "unhex_table = replicate 48 (-1) @ [0, 1, 2, 3, 4, 5, 6, 7, 8, 9] @ replicate 6 (-1) @
     [-1, 10, 11, 12, 13, 14, 15] @ replicate 25 (-1) @ [-1, 10, 11, 12, 13, 14, 15] @ replicate 25 (-1)"

definition unhex :: "char \<Rightarrow> int" where
  "unhex c = (if of_char c < (128 :: nat) then unhex_table ! of_char c else 0)"

text \<open>
  The bitmap \<open>normal_url_char\<close> (with \<open>T(v) = 0\<close>, the strict build) and the macro \<open>BIT_AT\<close>.
\<close>

definition normal_url_char :: "nat list" where
  "normal_url_char = [0, 0, 0, 0, 2 + 4 + 16 + 32 + 64 + 128, 255, 255, 127, 255, 255, 255, 255,
     255, 255, 255, 127] @ replicate 16 0"

definition BIT_AT :: "nat list \<Rightarrow> nat \<Rightarrow> bool" where
  "BIT_AT a i = ((a ! drop_bit 3 i) AND push_bit (i AND 7) 1 \<noteq> 0)"

definition IS_URL_CHAR :: "char \<Rightarrow> bool" where
  "IS_URL_CHAR c = BIT_AT normal_url_char (of_char c)"

definition IS_HOST_CHAR :: "char \<Rightarrow> bool" where
  "IS_HOST_CHAR c = (IS_ALPHANUM c \<or> c = CHR ''.'' \<or> c = CHR ''-'')"

definition IS_HEADER_CHAR :: "char \<Rightarrow> bool" where
  "IS_HEADER_CHAR c = (c = CR \<or> c = LF \<or> c = HT \<or> (of_char c > (31 :: nat) \<and> of_char c \<noteq> (127 :: nat)))"

end
