(* ===== verification/Http_Url.thy ===== *)
theory Http_Url
  imports Http_Types
begin

text \<open>
  The URL parser of \<open>http_parser.c\<close>: the per-byte transition \<open>parse_url_char\<close>, which the message
  parser shares, the host automaton, and \<open>http_parser_parse_url\<close>, which records where each component
  of a URL lies.  The bit mask \<open>field_set\<close> is the set of its bits, \<open>field_data\<close> the array of
  \<open>uint16_t\<close> offsets and lengths, whose truncation to 16 bits is written out.  A failed assertion is
  the result \<open>None\<close>; otherwise the result is the C return value with the final \<open>*u\<close>.
\<close>

section \<open>The byte transition\<close>

definition parse_url_char :: "http_state \<Rightarrow> char \<Rightarrow> http_state" where
  "parse_url_char s ch =
     (if ch = CHR '' '' \<or> ch = CR \<or> ch = LF then s_dead
      else if ch = HT \<or> ch = FF then s_dead
      else case s of
        s_req_spaces_before_url \<Rightarrow>
          if ch = CHR ''/'' \<or> ch = CHR ''*'' then s_req_path
          else if IS_ALPHA ch then s_req_schema
          else s_dead
      | s_req_schema \<Rightarrow>
          if IS_ALPHA ch then s
          else if ch = CHR '':'' then s_req_schema_slash
          else s_dead
      | s_req_schema_slash \<Rightarrow> if ch = CHR ''/'' then s_req_schema_slash_slash else s_dead
      | s_req_schema_slash_slash \<Rightarrow> if ch = CHR ''/'' then s_req_server_start else s_dead
      | s_req_server_with_at \<Rightarrow>
          if ch = CHR ''@'' then s_dead
          else if ch = CHR ''/'' then s_req_path
          else if ch = CHR ''?'' then s_req_query_string_start
          else if IS_USERINFO_CHAR ch \<or> ch = CHR ''['' \<or> ch = CHR '']'' then s_req_server
          else s_dead
      | s_req_server_start \<Rightarrow>
          if ch = CHR ''/'' then s_req_path
          else if ch = CHR ''?'' then s_req_query_string_start
          else if ch = CHR ''@'' then s_req_server_with_at
          else if IS_USERINFO_CHAR ch \<or> ch = CHR ''['' \<or> ch = CHR '']'' then s_req_server
          else s_dead
      | s_req_server \<Rightarrow>
          if ch = CHR ''/'' then s_req_path
          else if ch = CHR ''?'' then s_req_query_string_start
          else if ch = CHR ''@'' then s_req_server_with_at
          else if IS_USERINFO_CHAR ch \<or> ch = CHR ''['' \<or> ch = CHR '']'' then s_req_server
          else s_dead
      | s_req_path \<Rightarrow>
          if IS_URL_CHAR ch then s
          else if ch = CHR ''?'' then s_req_query_string_start
          else if ch = CHR ''#'' then s_req_fragment_start
          else s_dead
      | s_req_query_string_start \<Rightarrow>
          if IS_URL_CHAR ch then s_req_query_string
          else if ch = CHR ''?'' then s_req_query_string
          else if ch = CHR ''#'' then s_req_fragment_start
          else s_dead
      | s_req_query_string \<Rightarrow>
          if IS_URL_CHAR ch then s_req_query_string
          else if ch = CHR ''?'' then s_req_query_string
          else if ch = CHR ''#'' then s_req_fragment_start
          else s_dead
      | s_req_fragment_start \<Rightarrow>
          if IS_URL_CHAR ch then s_req_fragment
          else if ch = CHR ''?'' then s_req_fragment
          else if ch = CHR ''#'' then s
          else s_dead
      | s_req_fragment \<Rightarrow>
          if IS_URL_CHAR ch then s
          else if ch = CHR ''?'' \<or> ch = CHR ''#'' then s
          else s_dead
      | _ \<Rightarrow> s_dead)"

definition http_parse_host_char :: "http_host_state \<Rightarrow> char \<Rightarrow> http_host_state" where
  "http_parse_host_char s ch = (case s of
     s_http_userinfo \<Rightarrow>
       if ch = CHR ''@'' then s_http_host_start
       else if IS_USERINFO_CHAR ch then s_http_userinfo else s_http_host_dead
   | s_http_userinfo_start \<Rightarrow>
       if ch = CHR ''@'' then s_http_host_start
       else if IS_USERINFO_CHAR ch then s_http_userinfo else s_http_host_dead
   | s_http_host_start \<Rightarrow>
       if ch = CHR ''['' then s_http_host_v6_start
       else if IS_HOST_CHAR ch then s_http_host else s_http_host_dead
   | s_http_host \<Rightarrow>
       if IS_HOST_CHAR ch then s_http_host
       else if ch = CHR '':'' then s_http_host_port_start else s_http_host_dead
   | s_http_host_v6_end \<Rightarrow> if ch = CHR '':'' then s_http_host_port_start else s_http_host_dead
   | s_http_host_v6 \<Rightarrow>
       if ch = CHR '']'' then s_http_host_v6_end
       else if IS_HEX ch \<or> ch = CHR '':'' \<or> ch = CHR ''.'' then s_http_host_v6
       else if ch = CHR ''%'' then s_http_host_v6_zone_start else s_http_host_dead
   | s_http_host_v6_start \<Rightarrow>
       if IS_HEX ch \<or> ch = CHR '':'' \<or> ch = CHR ''.'' then s_http_host_v6 else s_http_host_dead
   | s_http_host_v6_zone \<Rightarrow>
       if ch = CHR '']'' then s_http_host_v6_end
       else if IS_ALPHANUM ch \<or> ch \<in> {CHR ''%'', CHR ''.'', CHR ''-'', CHR ''_'', CHR ''~''}
       then s_http_host_v6_zone else s_http_host_dead
   | s_http_host_v6_zone_start \<Rightarrow>
       if IS_ALPHANUM ch \<or> ch \<in> {CHR ''%'', CHR ''.'', CHR ''-'', CHR ''_'', CHR ''~''}
       then s_http_host_v6_zone else s_http_host_dead
   | s_http_host_port \<Rightarrow> if IS_NUM ch then s_http_host_port else s_http_host_dead
   | s_http_host_port_start \<Rightarrow> if IS_NUM ch then s_http_host_port else s_http_host_dead
   | s_http_host_dead \<Rightarrow> s_http_host_dead)"

section \<open>The record of components\<close>

datatype http_parser_url_fields =
  UF_SCHEMA | UF_HOST | UF_PORT | UF_PATH | UF_QUERY | UF_FRAGMENT | UF_USERINFO

record http_parser_url =
  field_set :: "http_parser_url_fields set"
  url_port :: nat
  field_off :: "http_parser_url_fields \<Rightarrow> nat"
  field_len :: "http_parser_url_fields \<Rightarrow> nat"

definition http_parser_url_init :: http_parser_url where
  "http_parser_url_init = \<lparr>field_set = {}, url_port = 0, field_off = (\<lambda>_. 0), field_len = (\<lambda>_. 0)\<rparr>"

text \<open>The three updates of \<open>field_data\<close>, at 16 bits.\<close>

definition set_off :: "http_parser_url_fields \<Rightarrow> nat \<Rightarrow> http_parser_url \<Rightarrow> http_parser_url" where
  "set_off f p u = u\<lparr>field_off := (field_off u)(f := p mod 2 ^ 16)\<rparr>"

definition set_len :: "http_parser_url_fields \<Rightarrow> nat \<Rightarrow> http_parser_url \<Rightarrow> http_parser_url" where
  "set_len f n u = u\<lparr>field_len := (field_len u)(f := n mod 2 ^ 16)\<rparr>"

definition inc_len :: "http_parser_url_fields \<Rightarrow> http_parser_url \<Rightarrow> http_parser_url" where
  "inc_len f u = set_len f (field_len u f + 1) u"

definition set_field :: "http_parser_url_fields \<Rightarrow> http_parser_url \<Rightarrow> http_parser_url" where
  "set_field f u = u\<lparr>field_set := insert f (field_set u)\<rparr>"

section \<open>The host part\<close>

definition host_step :: "nat \<Rightarrow> http_host_state \<Rightarrow> http_host_state \<Rightarrow> http_parser_url \<Rightarrow> http_parser_url" where
  "host_step p s new_s u = (case new_s of
     s_http_host \<Rightarrow> inc_len UF_HOST (if s \<noteq> s_http_host then set_off UF_HOST p u else u)
   | s_http_host_v6 \<Rightarrow> inc_len UF_HOST (if s \<noteq> s_http_host_v6 then set_off UF_HOST p u else u)
   | s_http_host_v6_zone_start \<Rightarrow> inc_len UF_HOST u
   | s_http_host_v6_zone \<Rightarrow> inc_len UF_HOST u
   | s_http_host_port \<Rightarrow>
       inc_len UF_PORT
         (if s \<noteq> s_http_host_port then set_field UF_PORT (set_len UF_PORT 0 (set_off UF_PORT p u)) else u)
   | s_http_userinfo \<Rightarrow>
       inc_len UF_USERINFO
         (if s \<noteq> s_http_userinfo
          then set_field UF_USERINFO (set_len UF_USERINFO 0 (set_off UF_USERINFO p u)) else u)
   | _ \<Rightarrow> u)"

text \<open>The loop over the bytes \<open>cs\<close> of the host part, the first at offset \<open>p\<close>; \<open>Inl\<close> is \<open>return 1\<close>.\<close>

fun host_loop :: "nat \<Rightarrow> string \<Rightarrow> http_host_state \<Rightarrow> http_parser_url
    \<Rightarrow> http_parser_url + http_host_state \<times> http_parser_url" where
  "host_loop p [] s u = Inr (s, u)"
| "host_loop p (ch # cs) s u =
     (let new_s = http_parse_host_char s ch in
      if new_s = s_http_host_dead then Inl u
      else host_loop (Suc p) cs new_s (host_step p s new_s u))"

definition host_end_ok :: "http_host_state \<Rightarrow> bool" where
  "host_end_ok s = (s \<notin> {s_http_host_start, s_http_host_v6_start, s_http_host_v6,
     s_http_host_v6_zone_start, s_http_host_v6_zone, s_http_host_port_start, s_http_userinfo,
     s_http_userinfo_start})"

definition http_parse_host :: "string \<Rightarrow> http_parser_url \<Rightarrow> bool \<Rightarrow> (int \<times> http_parser_url) option" where
  "http_parse_host buf u found_at =
     (if UF_HOST \<notin> field_set u then None
      else
        let off = field_off u UF_HOST; buflen = off + field_len u UF_HOST;
            u = set_len UF_HOST 0 u;
            s = (if found_at then s_http_userinfo_start else s_http_host_start) in
        if buflen > length buf then None
        else case host_loop off (drop off (take buflen buf)) s u of
               Inl u \<Rightarrow> Some (1, u)
             | Inr (s, u) \<Rightarrow> Some (if host_end_ok s then 0 else 1, u))"

section \<open>The whole URL\<close>

text \<open>
  One turn of the loop of \<open>http_parser_parse_url\<close>; \<open>old_uf = None\<close> is \<open>UF_MAX\<close>.  \<open>Stop (Some u)\<close> is
  \<open>return 1\<close>, \<open>Stop None\<close> the failed assertion of the default branch.
\<close>

datatype url_turn =
    Stop "http_parser_url option"
  | Go http_state "http_parser_url_fields option" bool http_parser_url

definition url_field :: "http_parser_url_fields \<Rightarrow> nat \<Rightarrow> http_state \<Rightarrow> http_parser_url_fields option
    \<Rightarrow> bool \<Rightarrow> http_parser_url \<Rightarrow> url_turn" where
  "url_field uf p s old_uf found_at u =
     (if old_uf = Some uf then Go s old_uf found_at (inc_len uf u)
      else Go s (Some uf) found_at (set_field uf (set_len uf 1 (set_off uf p u))))"

definition url_turn :: "nat \<Rightarrow> char \<Rightarrow> http_state \<Rightarrow> http_parser_url_fields option \<Rightarrow> bool
    \<Rightarrow> http_parser_url \<Rightarrow> url_turn" where
  "url_turn p ch s old_uf found_at u =
     (let s = parse_url_char s ch in
      case s of
        s_dead \<Rightarrow> Stop (Some u)
      | s_req_schema_slash \<Rightarrow> Go s old_uf found_at u
      | s_req_schema_slash_slash \<Rightarrow> Go s old_uf found_at u
      | s_req_server_start \<Rightarrow> Go s old_uf found_at u
      | s_req_query_string_start \<Rightarrow> Go s old_uf found_at u
      | s_req_fragment_start \<Rightarrow> Go s old_uf found_at u
      | s_req_schema \<Rightarrow> url_field UF_SCHEMA p s old_uf found_at u
      | s_req_server_with_at \<Rightarrow> url_field UF_HOST p s old_uf True u
      | s_req_server \<Rightarrow> url_field UF_HOST p s old_uf found_at u
      | s_req_path \<Rightarrow> url_field UF_PATH p s old_uf found_at u
      | s_req_query_string \<Rightarrow> url_field UF_QUERY p s old_uf found_at u
      | s_req_fragment \<Rightarrow> url_field UF_FRAGMENT p s old_uf found_at u
      | _ \<Rightarrow> Stop None)"

fun url_loop :: "nat \<Rightarrow> string \<Rightarrow> http_state \<Rightarrow> http_parser_url_fields option \<Rightarrow> bool
    \<Rightarrow> http_parser_url \<Rightarrow> url_turn" where
  "url_loop p [] s old_uf found_at u = Go s old_uf found_at u"
| "url_loop p (ch # cs) s old_uf found_at u =
     (case url_turn p ch s old_uf found_at u of
        Stop r \<Rightarrow> Stop r
      | Go s old_uf found_at u \<Rightarrow> url_loop (Suc p) cs s old_uf found_at u)"

text \<open>The value of the port, \<open>None\<close> once it exceeds \<open>0xffff\<close>.\<close>

fun port_loop :: "nat \<Rightarrow> string \<Rightarrow> nat option" where
  "port_loop v [] = Some v"
| "port_loop v (c # cs) =
     (let v = v * 10 + (of_char c - 48) in if v > 0xffff then None else port_loop v cs)"

definition parse_url_port :: "string \<Rightarrow> http_parser_url \<Rightarrow> (int \<times> http_parser_url) option" where
  "parse_url_port buf u =
     (if UF_PORT \<in> field_set u then
        let off = field_off u UF_PORT; len = field_len u UF_PORT in
        if off + len > length buf then None
        else case port_loop 0 (take len (drop off buf)) of
               None \<Rightarrow> Some (1, u)
             | Some v \<Rightarrow> Some (0, u\<lparr>url_port := v mod 2 ^ 16\<rparr>)
      else Some (0, u))"

definition http_parser_parse_url :: "string \<Rightarrow> bool \<Rightarrow> http_parser_url \<Rightarrow> (int \<times> http_parser_url) option" where
  "http_parser_parse_url buf is_connect u =
     (if buf = [] then Some (1, u)
      else
        let u = u\<lparr>url_port := 0, field_set := {}\<rparr>;
            s = (if is_connect then s_req_server_start else s_req_spaces_before_url) in
        case url_loop 0 buf s None False u of
          Stop None \<Rightarrow> None
        | Stop (Some u) \<Rightarrow> Some (1, u)
        | Go s old_uf found_at u \<Rightarrow>
            if UF_SCHEMA \<in> field_set u \<and> UF_HOST \<notin> field_set u then Some (1, u)
            else
              (case (if UF_HOST \<in> field_set u then http_parse_host buf u found_at else Some (0, u)) of
                 None \<Rightarrow> None
               | Some (r, u) \<Rightarrow>
                   if r \<noteq> 0 then Some (1, u)
                   else if is_connect \<and> field_set u \<noteq> {UF_HOST, UF_PORT} then Some (1, u)
                   else parse_url_port buf u))"

text \<open>The text of a component, as a client reads it from \<open>field_data\<close>.\<close>

definition url_text :: "string \<Rightarrow> http_parser_url \<Rightarrow> http_parser_url_fields \<Rightarrow> string" where
  "url_text buf u f = take (field_len u f) (drop (field_off u f) buf)"

section \<open>Where the components lie\<close>

text \<open>The component a state reads, and the order of states and components along a URL.\<close>

definition field_of :: "http_state \<Rightarrow> http_parser_url_fields option" where
  "field_of s = (case s of
     s_req_schema \<Rightarrow> Some UF_SCHEMA | s_req_server_with_at \<Rightarrow> Some UF_HOST | s_req_server \<Rightarrow> Some UF_HOST
   | s_req_path \<Rightarrow> Some UF_PATH | s_req_query_string \<Rightarrow> Some UF_QUERY | s_req_fragment \<Rightarrow> Some UF_FRAGMENT
   | _ \<Rightarrow> None)"

definition url_rank :: "http_state \<Rightarrow> nat" where
  "url_rank s = (case s of
     s_req_spaces_before_url \<Rightarrow> 0 | s_req_schema \<Rightarrow> 1 | s_req_schema_slash \<Rightarrow> 2 | s_req_schema_slash_slash \<Rightarrow> 3
   | s_req_server_start \<Rightarrow> 4 | s_req_server \<Rightarrow> 5 | s_req_server_with_at \<Rightarrow> 5 | s_req_path \<Rightarrow> 6
   | s_req_query_string_start \<Rightarrow> 7 | s_req_query_string \<Rightarrow> 8 | s_req_fragment_start \<Rightarrow> 9
   | s_req_fragment \<Rightarrow> 10 | _ \<Rightarrow> 11)"

definition field_rank :: "http_parser_url_fields \<Rightarrow> nat" where
  "field_rank f = (case f of UF_SCHEMA \<Rightarrow> 1 | UF_HOST \<Rightarrow> 5 | UF_PATH \<Rightarrow> 6 | UF_QUERY \<Rightarrow> 8 | UF_FRAGMENT \<Rightarrow> 10
     | _ \<Rightarrow> 0)"

definition url_states :: "http_state set" where
  "url_states = {s_req_spaces_before_url, s_req_schema, s_req_schema_slash, s_req_schema_slash_slash,
     s_req_server_start, s_req_server, s_req_server_with_at, s_req_path, s_req_query_string_start,
     s_req_query_string, s_req_fragment_start, s_req_fragment}"

lemma parse_url_char_monotone:
  assumes "parse_url_char s c \<noteq> s_dead"
  shows "parse_url_char s c \<in> url_states - {s_req_spaces_before_url} \<and> url_rank s \<le> url_rank (parse_url_char s c) \<and>
    (url_rank s = url_rank (parse_url_char s c) \<longrightarrow> field_of s = field_of (parse_url_char s c))"
  using assms
  by (cases s) (simp_all add: parse_url_char_def url_states_def url_rank_def field_of_def split: if_splits)

lemma field_of_rank: "field_of s = Some f \<Longrightarrow> field_rank f = url_rank s"
  by (cases s) (auto simp: field_of_def url_rank_def field_rank_def)

lemma field_of_range: "field_of s = Some f \<Longrightarrow> f \<in> {UF_SCHEMA, UF_HOST, UF_PATH, UF_QUERY, UF_FRAGMENT}"
  by (cases s) (auto simp: field_of_def)

text \<open>A component that ends before offset \<open>p\<close>, and one that ends exactly there.\<close>

definition field_within :: "nat \<Rightarrow> http_parser_url \<Rightarrow> http_parser_url_fields \<Rightarrow> bool" where
  "field_within p u f \<longleftrightarrow> 1 \<le> field_len u f \<and> field_off u f + field_len u f \<le> p"

definition url_inv :: "nat \<Rightarrow> http_state \<Rightarrow> http_parser_url_fields option \<Rightarrow> http_parser_url \<Rightarrow> bool" where
  "url_inv p s old u \<longleftrightarrow> s \<in> url_states \<and> (\<forall>f \<in> field_set u. field_within p u f) \<and>
     (\<forall>f. field_of s = Some f \<longrightarrow> old = Some f \<and> f \<in> field_set u \<and> field_off u f + field_len u f = p) \<and>
     (\<forall>f. old = Some f \<longrightarrow> field_rank f \<le> url_rank s) \<and>
     field_set u \<subseteq> {UF_SCHEMA, UF_HOST, UF_PATH, UF_QUERY, UF_FRAGMENT} \<and> url_port u = 0"

lemma field_within_mono: "field_within p u f \<Longrightarrow> p \<le> q \<Longrightarrow> field_within q u f"
  by (simp add: field_within_def)

lemma field_set_simps [simp]:
  "field_set (set_off f n u) = field_set u" "field_set (set_len f n u) = field_set u"
  "field_set (inc_len f u) = field_set u" "field_set (set_field f u) = insert f (field_set u)"
  "url_port (set_off f n u) = url_port u" "url_port (set_len f n u) = url_port u"
  "url_port (inc_len f u) = url_port u" "url_port (set_field f u) = url_port u"
  "field_off (set_len f n u) = field_off u" "field_off (inc_len f u) = field_off u" "field_off (set_field f u) = field_off u"
  "field_len (set_off f n u) = field_len u" "field_len (set_field f u) = field_len u"
  by (simp_all add: set_off_def set_len_def inc_len_def set_field_def)

lemma field_upd_simps [simp]:
  "field_off (set_off f n u) g = (if g = f then n mod 2 ^ 16 else field_off u g)"
  "field_len (set_len f n u) g = (if g = f then n mod 2 ^ 16 else field_len u g)"
  "field_len (inc_len f u) g = (if g = f then (field_len u f + 1) mod 2 ^ 16 else field_len u g)"
  by (simp_all add: set_off_def set_len_def inc_len_def)

lemma url_field_inv:
  assumes inv: "url_inv p s old u" and p: "p < 65535" and s': "s' \<in> url_states" "field_of s' = Some f"
    and rank: "url_rank s \<le> url_rank s'" "url_rank s = url_rank s' \<longrightarrow> field_of s = field_of s'"
  shows "\<exists>old' u'. url_field f p s' old at u = Go s' old' at u' \<and> url_inv (p + 1) s' old' u'"
proof (cases "old = Some f")
  case True
  then have "field_rank f \<le> url_rank s" using inv by (simp add: url_inv_def)
  then have "field_of s = Some f" using rank s'(2) field_of_rank [OF s'(2)] by simp
  then have end_p: "f \<in> field_set u" "field_off u f + field_len u f = p"
    using inv by (auto simp: url_inv_def)
  have "url_inv (p + 1) s' old (inc_len f u)"
    using inv p s' end_p True field_of_rank [OF s'(2)]
    by (auto simp: url_inv_def field_within_def)
  with True show ?thesis by (simp add: url_field_def)
next
  case False
  let ?u = "set_field f (set_len f 1 (set_off f p u))"
  have "url_inv (p + 1) s' (Some f) ?u"
    using inv p s' field_of_rank [OF s'(2)] field_of_range [OF s'(2)]
    by (auto simp: url_inv_def field_within_def)
  with False show ?thesis by (simp add: url_field_def)
qed

lemma url_turn_inv:
  assumes inv: "url_inv p s old u" and p: "p < 65535"
  shows "(\<exists>u'. url_turn p c s old at u = Stop (Some u')) \<or>
    (\<exists>s' old' at' u'. url_turn p c s old at u = Go s' old' at' u' \<and> url_inv (p + 1) s' old' u')"
proof (cases "parse_url_char s c = s_dead")
  case True
  then show ?thesis by (simp add: url_turn_def)
next
  case False
  let ?s = "parse_url_char s c"
  note mono = parse_url_char_monotone [OF False]
  show ?thesis
  proof (cases "field_of ?s")
    case None
    have "url_inv (p + 1) ?s old u"
      using inv mono None by (force simp: url_inv_def field_within_def)
    moreover have "url_turn p c s old at u = Go ?s old at u"
      using mono None by (auto simp: url_turn_def url_states_def field_of_def)
    ultimately show ?thesis by auto
  next
    case (Some f)
    have "url_turn p c s old at u = url_field f p ?s old (if ?s = s_req_server_with_at then True else at) u"
      using mono Some by (auto simp: url_turn_def url_states_def field_of_def)
    then show ?thesis
      using url_field_inv [OF inv p _ Some] mono by (metis DiffD1)
  qed
qed

lemma url_loop_inv:
  "url_inv p s old u \<Longrightarrow> p + length cs \<le> 65535 \<Longrightarrow>
    (\<exists>u'. url_loop p cs s old at u = Stop (Some u')) \<or>
    (\<exists>s' old' at' u'. url_loop p cs s old at u = Go s' old' at' u' \<and> url_inv (p + length cs) s' old' u')"
proof (induction p cs s old at u rule: url_loop.induct)
  case (2 p ch cs s old at u)
  then have "p < 65535" by simp
  from url_turn_inv [OF 2(2) this, of ch at] show ?case
  proof
    assume "\<exists>s' old' at' u'. url_turn p ch s old at u = Go s' old' at' u' \<and> url_inv (p + 1) s' old' u'"
    then obtain s' old' at' u' where t: "url_turn p ch s old at u = Go s' old' at' u'" "url_inv (Suc p) s' old' u'"
      by auto
    from 2(1) [OF t] 2(3) t show ?thesis by auto
  qed auto
qed auto

text \<open>
  The host part: \<open>UF_HOST\<close> starts with length 0 at the offset where the part begins, and grows once its
  first byte is seen; \<open>UF_PORT\<close> and \<open>UF_USERINFO\<close> come into the set with their first byte.
\<close>

definition host_inv :: "nat \<Rightarrow> http_host_state \<Rightarrow> http_parser_url \<Rightarrow> bool" where
  "host_inv p s u \<longleftrightarrow>
     (if s \<in> {s_http_userinfo_start, s_http_userinfo, s_http_host_start, s_http_host_v6_start}
      then field_len u UF_HOST = 0
      else field_within p u UF_HOST) \<and>
     (s \<in> {s_http_host, s_http_host_v6, s_http_host_v6_zone_start, s_http_host_v6_zone} \<longrightarrow>
        field_off u UF_HOST + field_len u UF_HOST = p) \<and>
     (s \<noteq> s_http_host_port \<longrightarrow> UF_PORT \<notin> field_set u) \<and>
     (s = s_http_host_port \<longrightarrow> UF_PORT \<in> field_set u \<and> field_within p u UF_PORT \<and>
        field_off u UF_PORT + field_len u UF_PORT = p) \<and>
     (s \<in> {s_http_userinfo_start} \<longrightarrow> UF_USERINFO \<notin> field_set u) \<and>
     (s = s_http_userinfo \<longrightarrow> UF_USERINFO \<in> field_set u \<and> field_off u UF_USERINFO + field_len u UF_USERINFO = p) \<and>
     (UF_USERINFO \<in> field_set u \<longrightarrow> field_within p u UF_USERINFO) \<and> s \<noteq> s_http_host_dead"

lemma host_step_inv:
  assumes "host_inv p s u" and "p < 65535" and "http_parse_host_char s c \<noteq> s_http_host_dead"
  shows "host_inv (p + 1) (http_parse_host_char s c) (host_step p s (http_parse_host_char s c) u)"
  using assms
  by (cases s) (auto simp: host_inv_def http_parse_host_char_def host_step_def field_within_def split: if_splits)

text \<open>The other components are not touched.\<close>

definition same_others :: "http_parser_url \<Rightarrow> http_parser_url \<Rightarrow> bool" where
  "same_others u u' \<longleftrightarrow> url_port u' = url_port u \<and>
     field_set u \<subseteq> field_set u' \<and> field_set u' \<subseteq> field_set u \<union> {UF_PORT, UF_USERINFO} \<and>
     (\<forall>f. f \<notin> {UF_HOST, UF_PORT, UF_USERINFO} \<longrightarrow> field_off u' f = field_off u f \<and> field_len u' f = field_len u f)"

lemma host_step_others: "same_others u (host_step p s s' u)"
  by (cases s') (auto simp: same_others_def host_step_def)

lemma same_others_trans: "same_others u v \<Longrightarrow> same_others v w \<Longrightarrow> same_others u w"
  by (auto simp: same_others_def)

lemma host_loop_inv:
  "host_inv p s u \<Longrightarrow> p + length cs \<le> 65535 \<Longrightarrow>
    (\<exists>u'. host_loop p cs s u = Inl u') \<or>
    (\<exists>s' u'. host_loop p cs s u = Inr (s', u') \<and> host_inv (p + length cs) s' u' \<and> same_others u u')"
proof (induction p cs s u rule: host_loop.induct)
  case (2 p ch cs s u)
  let ?s = "http_parse_host_char s ch"
  show ?case
  proof (cases "?s = s_http_host_dead")
    case False
    then have "host_inv (Suc p) ?s (host_step p s ?s u)"
      using host_step_inv [OF 2(2) _ False] 2(3) by simp
    from 2(1) [OF refl False this] 2(3) False show ?thesis
      using same_others_trans [OF host_step_others] by (fastforce simp: Let_def)
  qed (simp add: Let_def)
qed (auto simp: same_others_def)

lemma port_loop_value: "port_loop v cs = Some w \<Longrightarrow> v \<le> 65535 \<Longrightarrow>
    w \<le> 65535 \<and> w = foldl (\<lambda>v c. v * 10 + (of_char c - 48)) v cs"
  by (induction v cs rule: port_loop.induct) (auto simp: Let_def split: if_splits)

text \<open>What a successful call promises about \<open>*u\<close>, and that its assertions hold.\<close>

definition url_ok :: "string \<Rightarrow> http_parser_url \<Rightarrow> bool" where
  "url_ok buf u \<longleftrightarrow> (\<forall>f \<in> field_set u. field_within (length buf) u f) \<and>
     (UF_SCHEMA \<in> field_set u \<longrightarrow> UF_HOST \<in> field_set u) \<and>
     url_port u \<le> 65535 \<and>
     (UF_PORT \<in> field_set u \<longrightarrow>
        url_port u = foldl (\<lambda>v c. v * 10 + (of_char c - 48)) 0 (url_text buf u UF_PORT))"

lemma http_parse_host_inv:
  assumes inv: "url_inv (length buf) s old u" and len: "length buf \<le> 65535" and host: "UF_HOST \<in> field_set u"
  shows "\<exists>r u'. http_parse_host buf u at = Some (r, u') \<and>
    (r = 0 \<longrightarrow> url_port u' = 0 \<and> (\<forall>f \<in> field_set u'. field_within (length buf) u' f) \<and> UF_HOST \<in> field_set u')"
proof -
  let ?off = "field_off u UF_HOST" and ?len = "field_len u UF_HOST"
  let ?u = "set_len UF_HOST 0 u" and ?s = "if at then s_http_userinfo_start else s_http_host_start"
  let ?cs = "drop ?off (take (?off + ?len) buf)"
  have within: "?off + ?len \<le> length buf"
    using inv host by (auto simp: url_inv_def field_within_def)
  have cs: "length ?cs = ?len" using within by simp
  have start: "host_inv ?off ?s ?u"
    using inv by (auto simp: host_inv_def url_inv_def)
  from host_loop_inv [OF start, of ?cs] within len cs
  consider u' where "host_loop ?off ?cs ?s ?u = Inl u'"
    | s' u' where "host_loop ?off ?cs ?s ?u = Inr (s', u')" "host_inv (?off + ?len) s' u'" "same_others ?u u'"
    by auto
  then show ?thesis
  proof cases
    case 1
    with host within show ?thesis by (simp add: http_parse_host_def Let_def)
  next
    case 2
    have all: "\<forall>f \<in> field_set u'. field_within (length buf) u' f" if "host_end_ok s'"
    proof
      fix f assume f: "f \<in> field_set u'"
      show "field_within (length buf) u' f"
      proof (cases "f \<in> {UF_HOST, UF_PORT, UF_USERINFO}")
        case True
        with that 2(2) f have "field_within (?off + ?len) u' f"
          by (cases s') (auto simp: host_inv_def host_end_ok_def)
        then show ?thesis by (rule field_within_mono) (rule within)
      next
        case False
        with 2(3) f have "f \<in> field_set u" "field_off u' f = field_off u f" "field_len u' f = field_len u f"
          by (auto simp: same_others_def)
        with inv show ?thesis by (auto simp: url_inv_def field_within_def)
      qed
    qed
    moreover have "url_port u' = 0" "UF_HOST \<in> field_set u'"
      using 2(3) inv host by (auto simp: same_others_def url_inv_def)
    ultimately show ?thesis
      using 2(1) host within by (auto simp: http_parse_host_def Let_def)
  qed
qed

lemma parse_url_port_ok:
  assumes u: "\<forall>f \<in> field_set u. field_within (length buf) u f" "url_port u = 0"
    and schema: "UF_SCHEMA \<in> field_set u \<longrightarrow> UF_HOST \<in> field_set u"
  shows "\<exists>r u'. parse_url_port buf u = Some (r, u') \<and> (r = 0 \<longrightarrow> url_ok buf u')"
proof (cases "UF_PORT \<in> field_set u")
  case False
  with u schema show ?thesis by (simp add: parse_url_port_def url_ok_def)
next
  case True
  let ?t = "take (field_len u UF_PORT) (drop (field_off u UF_PORT) buf)"
  have in_buf: "field_off u UF_PORT + field_len u UF_PORT \<le> length buf"
    using u(1) True by (auto simp: field_within_def)
  show ?thesis
  proof (cases "port_loop 0 ?t")
    case None
    with True in_buf show ?thesis by (simp add: parse_url_port_def Let_def)
  next
    case (Some v)
    from port_loop_value [OF Some] have "v \<le> 65535" "v = foldl (\<lambda>v c. v * 10 + (of_char c - 48)) 0 ?t" by auto
    with Some True in_buf u schema show ?thesis
      by (auto simp: parse_url_port_def Let_def url_ok_def url_text_def field_within_def)
  qed
qed

lemma parse_url_total:
  assumes "length buf \<le> 65535"
  shows "\<exists>r u'. http_parser_parse_url buf is_connect u = Some (r, u') \<and> (r = 0 \<longrightarrow> url_ok buf u')"
proof (cases "buf = []")
  case True
  then show ?thesis by (simp add: http_parser_parse_url_def)
next
  case False
  let ?u = "u\<lparr>url_port := 0, field_set := {}\<rparr>"
  let ?s = "if is_connect then s_req_server_start else s_req_spaces_before_url"
  have "url_inv 0 ?s None ?u"
    by (simp add: url_inv_def url_states_def field_of_def)
  from url_loop_inv [OF this, of buf False] assms
  consider u' where "url_loop 0 buf ?s None False ?u = Stop (Some u')"
    | s' old at u' where "url_loop 0 buf ?s None False ?u = Go s' old at u'" "url_inv (length buf) s' old u'"
    by auto
  then show ?thesis
  proof cases
    case 1
    with False show ?thesis by (simp add: http_parser_parse_url_def Let_def)
  next
    case 2
    show ?thesis
    proof (cases "UF_HOST \<in> field_set u'")
      case False
      have "\<exists>r u''. parse_url_port buf u' = Some (r, u'') \<and> (r = 0 \<longrightarrow> url_ok buf u'')" if "UF_SCHEMA \<notin> field_set u'"
        using parse_url_port_ok [of u' buf] 2(2) that by (simp add: url_inv_def)
      with 2 False \<open>buf \<noteq> []\<close> show ?thesis
        by (auto simp: http_parser_parse_url_def Let_def)
    next
      case True
      obtain r w where host: "http_parse_host buf u' at = Some (r, w)"
          "r = 0 \<longrightarrow> url_port w = 0 \<and> (\<forall>f \<in> field_set w. field_within (length buf) w f) \<and> UF_HOST \<in> field_set w"
        using http_parse_host_inv [OF 2(2) assms True] by blast
      have "\<exists>r' u''. parse_url_port buf w = Some (r', u'') \<and> (r' = 0 \<longrightarrow> url_ok buf u'')" if "r = 0"
        using parse_url_port_ok [of w buf] host(2) that by simp
      with 2 True host \<open>buf \<noteq> []\<close> show ?thesis
        by (auto simp: http_parser_parse_url_def Let_def)
    qed
  qed
qed

text \<open>A buffer longer than 65535 bytes: offsets and lengths wrap around.\<close>

lemma slash_path: "parse_url_char s_req_path (CHR ''/'') = s_req_path"
  by (simp add: parse_url_char_def IS_URL_CHAR_def BIT_AT_def normal_url_char_def)

lemma url_loop_slashes:
  "url_loop p (replicate n (CHR ''/'')) s_req_path (Some UF_PATH) at u =
     Go s_req_path (Some UF_PATH) at (set_len UF_PATH (field_len u UF_PATH + n) u)" if "field_len u UF_PATH < 65536"
  using that
proof (induction n arbitrary: p u)
  case 0
  then show ?case by (simp add: set_len_def fun_upd_idem)
next
  case (Suc n)
  have "set_len UF_PATH ((field_len u UF_PATH + 1) mod 2 ^ 16 + n) (inc_len UF_PATH u) =
      set_len UF_PATH (field_len u UF_PATH + Suc n) u"
    by (simp add: set_len_def inc_len_def mod_simps)
  with Suc show ?case
    by (simp add: url_turn_def url_field_def slash_path Let_def)
qed

lemma long_path:
  assumes "0 < n"
  shows "\<exists>u'. http_parser_parse_url (replicate n (CHR ''/'')) False u = Some (0, u') \<and>
    field_set u' = {UF_PATH} \<and> field_len u' UF_PATH = n mod 2 ^ 16"
proof -
  obtain k where n: "n = Suc k" using assms by (cases n) auto
  let ?u = "set_field UF_PATH (set_len UF_PATH 1 (set_off UF_PATH 0 (u\<lparr>url_port := 0, field_set := {}\<rparr>)))"
  have first: "url_turn 0 (CHR ''/'') s_req_spaces_before_url None False (u\<lparr>url_port := 0, field_set := {}\<rparr>) =
      Go s_req_path (Some UF_PATH) False ?u"
    by (simp add: url_turn_def parse_url_char_def url_field_def Let_def)
  have "url_loop 0 (replicate n (CHR ''/'')) s_req_spaces_before_url None False (u\<lparr>url_port := 0, field_set := {}\<rparr>) =
      Go s_req_path (Some UF_PATH) False (set_len UF_PATH n ?u)"
    using url_loop_slashes [of ?u "Suc 0" k False] first n by simp
  with n show ?thesis
    by (simp add: http_parser_parse_url_def Let_def parse_url_port_def)
qed

text \<open>
  C36: The components of a URL of at most 65535 bytes: \<open>http_parser_parse_url\<close> returns, no assertion of
  it fails, and when it returns 0 every component in \<open>field_set\<close> is non-empty and lies inside the
  buffer, a schema comes with a host, and the port is the value of its digits and fits 16 bits.
\<close>

theorem url_components_in_buffer:
  assumes "length buf \<le> 65535"
  shows "\<exists>r u'. http_parser_parse_url buf is_connect u = Some (r, u') \<and> (r = 0 \<longrightarrow> url_ok buf u')"
  by (rule parse_url_total [OF assms])

lemma url_components_in_buffer_witness:
  "\<exists>u'. http_parser_parse_url ''/'' False http_parser_url_init = Some (0, u') \<and> url_ok ''/'' u'"
proof -
  have "\<exists>u'. http_parser_parse_url ''/'' False http_parser_url_init = Some (0, u')"
    using long_path [of 1 http_parser_url_init] by auto
  then show ?thesis
    using url_components_in_buffer [of "''/''" False http_parser_url_init] by auto
qed

end
