(* ===== verification/Http_Parser.thy ===== *)
theory Http_Parser
  imports Http_Url
begin

text \<open>
  \<open>http_parser_execute\<close> of \<open>http_parser.c\<close>: a machine that is fed a buffer and steps through it byte
  by byte.  The machine is the parser object together with the local variables of the function, each
  \<open>case\<close> of its \<open>switch\<close> is one definition, and \<open>http_step\<close> is the \<open>switch\<close>.  The outcome of a case
  says how it leaves the \<open>switch\<close>: \<open>break\<close>, \<open>goto reexecute\<close>, \<open>goto error\<close> or \<open>return\<close>.  A failed
  assertion, a read outside the buffer and a read outside a matcher string are the outcome \<open>Fault\<close>.
  The callbacks are functions of the parser and of the user data behind \<open>parser->data\<close>, and may change
  both, since they get a pointer to the parser.
\<close>

section \<open>The parser object and its settings\<close>

definition ULLONG_MAX :: nat where
  "ULLONG_MAX = 2 ^ 64 - 1"

record http_parser =
  ptype :: http_parser_type
  flags :: u8
  state :: http_state
  header_state :: header_states
  index :: nat
  uses_transfer_encoding :: bool
  allow_chunked_length :: bool
  lenient_http_headers :: bool
  nread :: nat
  content_length :: nat
  http_major :: nat
  http_minor :: nat
  status_code :: nat
  req_method :: http_method
  http_errno :: http_errno
  upgrade :: bool

type_synonym 'c http_cb = "http_parser \<Rightarrow> 'c \<Rightarrow> int \<times> http_parser \<times> 'c"
type_synonym 'c http_data_cb = "string \<Rightarrow> http_parser \<Rightarrow> 'c \<Rightarrow> int \<times> http_parser \<times> 'c"

record 'c http_parser_settings =
  on_message_begin :: "'c http_cb option"
  on_url :: "'c http_data_cb option"
  on_status :: "'c http_data_cb option"
  on_header_field :: "'c http_data_cb option"
  on_header_value :: "'c http_data_cb option"
  on_headers_complete :: "'c http_cb option"
  on_body :: "'c http_data_cb option"
  on_message_complete :: "'c http_cb option"
  on_chunk_header :: "'c http_cb option"
  on_chunk_complete :: "'c http_cb option"

definition http_parser_settings_init :: "'c http_parser_settings" where
  "http_parser_settings_init = \<lparr>on_message_begin = None, on_url = None, on_status = None,
     on_header_field = None, on_header_value = None, on_headers_complete = None, on_body = None,
     on_message_complete = None, on_chunk_header = None, on_chunk_complete = None\<rparr>"

definition http_parser_init :: "http_parser_type \<Rightarrow> http_parser" where
  "http_parser_init t = \<lparr>ptype = t, flags = 0,
     state = (case t of HTTP_REQUEST \<Rightarrow> s_start_req | HTTP_RESPONSE \<Rightarrow> s_start_res
                      | HTTP_BOTH \<Rightarrow> s_start_req_or_res),
     header_state = h_general, index = 0, uses_transfer_encoding = False,
     allow_chunked_length = False, lenient_http_headers = False, nread = 0, content_length = 0,
     http_major = 0, http_minor = 0, status_code = 0, method = HTTP_DELETE, http_errno = HPE_OK,
     upgrade = False\<rparr>"

definition http_message_needs_eof :: "http_parser \<Rightarrow> bool" where
  "http_message_needs_eof ps =
     (if ptype ps = HTTP_REQUEST then False
      else if status_code ps div 100 = 1 \<or> status_code ps = 204 \<or> status_code ps = 304 \<or>
              has_flag (flags ps) F_SKIPBODY then False
      else if uses_transfer_encoding ps \<and> \<not> has_flag (flags ps) F_CHUNKED then True
      else if has_flag (flags ps) F_CHUNKED \<or> content_length ps \<noteq> ULLONG_MAX then False
      else True)"

definition http_should_keep_alive :: "http_parser \<Rightarrow> bool" where
  "http_should_keep_alive ps =
     (if http_major ps > 0 \<and> http_minor ps > 0
      then (if has_flag (flags ps) F_CONNECTION_CLOSE then False else \<not> http_message_needs_eof ps)
      else (if \<not> has_flag (flags ps) F_CONNECTION_KEEP_ALIVE then False
            else \<not> http_message_needs_eof ps))"

definition start_state :: "http_parser \<Rightarrow> http_state" where
  "start_state ps = (if ptype ps = HTTP_REQUEST then s_start_req else s_start_res)"

definition NEW_MESSAGE :: "http_parser \<Rightarrow> http_state" where
  "NEW_MESSAGE ps = (if http_should_keep_alive ps then start_state ps else s_dead)"

definition http_body_is_final :: "http_parser \<Rightarrow> bool" where
  "http_body_is_final ps = (state ps = s_message_done)"

text \<open>Pausing a parser that is in an error state fails an assertion.\<close>

definition http_parser_pause :: "http_parser \<Rightarrow> bool \<Rightarrow> http_parser option" where
  "http_parser_pause ps paused =
     (if http_errno ps = HPE_OK \<or> http_errno ps = HPE_PAUSED
      then Some (ps\<lparr>nread := nread ps, http_errno := (if paused then HPE_PAUSED else HPE_OK)\<rparr>)
      else None)"

section \<open>The machine\<close>

text \<open>
  The five mark pointers are the components of \<open>marks\<close>, as offsets into the buffer; \<open>pos\<close> is the
  offset of \<open>p\<close>, \<open>ch\<close> the byte variable of that name, \<open>p_state\<close> and \<open>p_nread\<close> the local copies of the
  state and of the header byte count.
\<close>

datatype mark = M_header_field | M_header_value | M_url | M_body | M_status

record 'c machine =
  prs :: http_parser
  p_state :: http_state
  p_nread :: nat
  pos :: nat
  ch :: char
  marks :: "mark \<Rightarrow> nat option"
  user :: 'c

record 'c env =
  settings :: "'c http_parser_settings"
  data :: string
  lenient :: bool
  chunked_length :: bool
  max_header_size :: nat

datatype 'c outcome =
    Break "'c machine"
  | Reexecute "'c machine"
  | Error "'c machine"
  | Return nat "'c machine"
  | Fault

definition UPDATE_STATE :: "http_state \<Rightarrow> 'c machine \<Rightarrow> 'c machine" where
  [simp]: "UPDATE_STATE s m = m\<lparr>p_state := s\<rparr>"

definition upd :: "(http_parser \<Rightarrow> http_parser) \<Rightarrow> 'c machine \<Rightarrow> 'c machine" where
  [simp]: "upd f m = m\<lparr>prs := f (prs m)\<rparr>"

definition SET_ERRNO :: "http_errno \<Rightarrow> 'c machine \<Rightarrow> 'c machine" where
  "SET_ERRNO e m = upd (\<lambda>ps. ps\<lparr>nread := p_nread m, http_errno := e\<rparr>) m"

text \<open>\<open>SET_ERRNO(e); goto error;\<close>\<close>

definition fail :: "http_errno \<Rightarrow> 'c machine \<Rightarrow> 'c outcome" where
  "fail e m = Error (SET_ERRNO e m)"

definition RETURN :: "nat \<Rightarrow> 'c machine \<Rightarrow> 'c outcome" where
  "RETURN v m = Return v (upd (\<lambda>ps. ps\<lparr>nread := p_nread m, state := p_state m\<rparr>) m)"

definition STRICT_CHECK :: "bool \<Rightarrow> 'c machine \<Rightarrow> 'c outcome \<Rightarrow> 'c outcome" where
  "STRICT_CHECK cond m k = (if cond then fail HPE_STRICT m else k)"

definition MARK :: "mark \<Rightarrow> 'c machine \<Rightarrow> 'c machine" where
  "MARK x m = (if marks m x = None then m\<lparr>marks := (marks m)(x := Some (pos m))\<rparr> else m)"

definition COUNT_HEADER_SIZE :: "'c env \<Rightarrow> nat \<Rightarrow> 'c machine \<Rightarrow> ('c machine \<Rightarrow> 'c outcome) \<Rightarrow> 'c outcome" where
  "COUNT_HEADER_SIZE E v m k =
     (let m = m\<lparr>p_nread := (p_nread m + v mod 2 ^ 32) mod 2 ^ 32\<rparr> in
      if p_nread m > max_header_size E then fail HPE_HEADER_OVERFLOW m else k m)"

text \<open>
  A callback of the settings, common to \<open>CALLBACK_NOTIFY_\<close> and \<open>CALLBACK_DATA_\<close>: \<open>er\<close> is the value
  returned when it fails or pauses the parser, \<open>k\<close> the code after it.  Note that this return does not
  store \<open>nread\<close>, unlike the macro \<open>RETURN\<close>.
\<close>

definition run_callback :: "'c http_cb \<Rightarrow> http_errno \<Rightarrow> nat \<Rightarrow> 'c machine \<Rightarrow> ('c machine \<Rightarrow> 'c outcome)
    \<Rightarrow> 'c outcome" where
  "run_callback f e er m k =
     (case f ((prs m)\<lparr>state := p_state m\<rparr>) (user m) of (r, ps, c) \<Rightarrow>
        let m = m\<lparr>prs := ps, user := c\<rparr>;
            m = (if r \<noteq> 0 then SET_ERRNO e m else m);
            m = UPDATE_STATE (state (prs m)) m in
        if http_errno (prs m) \<noteq> HPE_OK then Return er m else k m)"

definition CALLBACK_NOTIFY :: "'c http_cb option \<Rightarrow> http_errno \<Rightarrow> nat \<Rightarrow> 'c machine
    \<Rightarrow> ('c machine \<Rightarrow> 'c outcome) \<Rightarrow> 'c outcome" where
  "CALLBACK_NOTIFY cb e er m k =
     (if http_errno (prs m) \<noteq> HPE_OK then Fault
      else case cb of None \<Rightarrow> k m | Some f \<Rightarrow> run_callback f e er m k)"

definition data_callback :: "'c http_parser_settings \<Rightarrow> mark \<Rightarrow> 'c http_data_cb option" where
  "data_callback S x = (case x of
     M_header_field \<Rightarrow> on_header_field S | M_header_value \<Rightarrow> on_header_value S | M_url \<Rightarrow> on_url S
   | M_body \<Rightarrow> on_body S | M_status \<Rightarrow> on_status S)"

definition data_errno :: "mark \<Rightarrow> http_errno" where
  "data_errno x = (case x of
     M_header_field \<Rightarrow> HPE_CB_header_field | M_header_value \<Rightarrow> HPE_CB_header_value | M_url \<Rightarrow> HPE_CB_url
   | M_body \<Rightarrow> HPE_CB_body | M_status \<Rightarrow> HPE_CB_status)"

definition clear_mark :: "mark \<Rightarrow> 'c machine \<Rightarrow> 'c machine" where
  "clear_mark x m = m\<lparr>marks := (marks m)(x := None)\<rparr>"

text \<open>The bytes handed out are \<open>data[mark], ..., data[stop - 1]\<close>.\<close>

definition CALLBACK_DATA :: "'c env \<Rightarrow> mark \<Rightarrow> nat \<Rightarrow> nat \<Rightarrow> 'c machine \<Rightarrow> ('c machine \<Rightarrow> 'c outcome)
    \<Rightarrow> 'c outcome" where
  "CALLBACK_DATA E x stop er m k =
     (if http_errno (prs m) \<noteq> HPE_OK then Fault
      else case marks m x of
        None \<Rightarrow> k m
      | Some a \<Rightarrow>
          if a > stop \<or> stop > length (data E) then Fault
          else case data_callback (settings E) x of
            None \<Rightarrow> k (clear_mark x m)
          | Some f \<Rightarrow> run_callback (f (take (stop - a) (drop a (data E)))) (data_errno x) er m
                       (\<lambda>m. k (clear_mark x m)))"

section \<open>Start of a message\<close>

definition step_dead :: "'c machine \<Rightarrow> 'c outcome" where
  "step_dead m = (if ch m = CR \<or> ch m = LF then Break m else fail HPE_CLOSED_CONNECTION m)"

definition reset_message :: "http_parser \<Rightarrow> http_parser" where
  "reset_message ps = ps\<lparr>flags := 0, uses_transfer_encoding := False, content_length := ULLONG_MAX\<rparr>"

definition step_start_req_or_res :: "'c env \<Rightarrow> 'c machine \<Rightarrow> 'c outcome" where
  "step_start_req_or_res E m =
     (if ch m = CR \<or> ch m = LF then Break m
      else
        let m = upd reset_message m in
        if ch m = CHR ''H''
        then CALLBACK_NOTIFY (on_message_begin (settings E)) HPE_CB_message_begin (pos m + 1)
               (UPDATE_STATE s_res_or_resp_H m) Break
        else Reexecute (UPDATE_STATE s_start_req (upd (\<lambda>ps. ps\<lparr>ptype := HTTP_REQUEST\<rparr>) m)))"

definition step_res_or_resp_H :: "'c machine \<Rightarrow> 'c outcome" where
  "step_res_or_resp_H m =
     (if ch m = CHR ''T''
      then Break (UPDATE_STATE s_res_HT (upd (\<lambda>ps. ps\<lparr>ptype := HTTP_RESPONSE\<rparr>) m))
      else if ch m \<noteq> CHR ''E'' then fail HPE_INVALID_CONSTANT m
      else Break (UPDATE_STATE s_req_method
             (upd (\<lambda>ps. ps\<lparr>ptype := HTTP_REQUEST, req_method := HTTP_HEAD, index := 2\<rparr>) m)))"

definition step_start_res :: "'c env \<Rightarrow> 'c machine \<Rightarrow> 'c outcome" where
  "step_start_res E m =
     (if ch m = CR \<or> ch m = LF then Break m
      else
        let m = upd reset_message m in
        if ch m = CHR ''H''
        then CALLBACK_NOTIFY (on_message_begin (settings E)) HPE_CB_message_begin (pos m + 1)
               (UPDATE_STATE s_res_H m) Break
        else fail HPE_INVALID_CONSTANT m)"

text \<open>A state that accepts one given byte, such as those that match \<open>HTTP/\<close>.\<close>

definition expect :: "char \<Rightarrow> http_state \<Rightarrow> 'c machine \<Rightarrow> 'c outcome" where
  "expect c s m = STRICT_CHECK (ch m \<noteq> c) m (Break (UPDATE_STATE s m))"

definition digit_of :: "char \<Rightarrow> nat" where
  "digit_of c = of_char c - 48"

definition step_http_major :: "http_state \<Rightarrow> 'c machine \<Rightarrow> 'c outcome" where
  "step_http_major next_s m =
     (if \<not> IS_NUM (ch m) then fail HPE_INVALID_VERSION m
      else Break (UPDATE_STATE next_s (upd (\<lambda>ps. ps\<lparr>http_major := digit_of (ch m)\<rparr>) m)))"

definition step_http_dot :: "http_state \<Rightarrow> 'c machine \<Rightarrow> 'c outcome" where
  "step_http_dot next_s m =
     (if ch m \<noteq> CHR ''.'' then fail HPE_INVALID_VERSION m else Break (UPDATE_STATE next_s m))"

definition step_http_minor :: "http_state \<Rightarrow> 'c machine \<Rightarrow> 'c outcome" where
  "step_http_minor next_s m =
     (if \<not> IS_NUM (ch m) then fail HPE_INVALID_VERSION m
      else Break (UPDATE_STATE next_s (upd (\<lambda>ps. ps\<lparr>http_minor := digit_of (ch m)\<rparr>) m)))"

definition step_res_http_end :: "'c machine \<Rightarrow> 'c outcome" where
  "step_res_http_end m =
     (if ch m \<noteq> CHR '' '' then fail HPE_INVALID_VERSION m
      else Break (UPDATE_STATE s_res_first_status_code m))"

definition step_res_first_status_code :: "'c machine \<Rightarrow> 'c outcome" where
  "step_res_first_status_code m =
     (if \<not> IS_NUM (ch m) then (if ch m = CHR '' '' then Break m else fail HPE_INVALID_STATUS m)
      else Break (UPDATE_STATE s_res_status_code (upd (\<lambda>ps. ps\<lparr>status_code := digit_of (ch m)\<rparr>) m)))"

definition step_res_status_code :: "'c machine \<Rightarrow> 'c outcome" where
  "step_res_status_code m =
     (if \<not> IS_NUM (ch m) then
        (if ch m = CHR '' '' then Break (UPDATE_STATE s_res_status_start m)
         else if ch m = CR \<or> ch m = LF then Reexecute (UPDATE_STATE s_res_status_start m)
         else fail HPE_INVALID_STATUS m)
      else
        let m = upd (\<lambda>ps. ps\<lparr>status_code := ((status_code ps * 10) mod 2 ^ 16 + digit_of (ch m)) mod 2 ^ 16\<rparr>) m in
        if status_code (prs m) > 999 then fail HPE_INVALID_STATUS m else Break m)"

definition step_res_status_start :: "'c machine \<Rightarrow> 'c outcome" where
  "step_res_status_start m =
     (let m = upd (\<lambda>ps. ps\<lparr>index := 0\<rparr>) (UPDATE_STATE s_res_status (MARK M_status m)) in
      if ch m = CR \<or> ch m = LF then Reexecute m else Break m)"

definition step_res_status :: "'c env \<Rightarrow> 'c machine \<Rightarrow> 'c outcome" where
  "step_res_status E m =
     (if ch m = CR then
        CALLBACK_DATA E M_status (pos m) (pos m + 1) (UPDATE_STATE s_res_line_almost_done m) Break
      else if ch m = LF then
        CALLBACK_DATA E M_status (pos m) (pos m + 1) (UPDATE_STATE s_header_field_start m) Break
      else Break m)"

section \<open>Request line\<close>

definition first_method :: "char \<Rightarrow> http_method option" where
  "first_method c =
     (if c = CHR ''A'' then Some HTTP_ACL else if c = CHR ''B'' then Some HTTP_BIND
      else if c = CHR ''C'' then Some HTTP_CONNECT else if c = CHR ''D'' then Some HTTP_DELETE
      else if c = CHR ''G'' then Some HTTP_GET else if c = CHR ''H'' then Some HTTP_HEAD
      else if c = CHR ''L'' then Some HTTP_LOCK else if c = CHR ''M'' then Some HTTP_MKCOL
      else if c = CHR ''N'' then Some HTTP_NOTIFY else if c = CHR ''O'' then Some HTTP_OPTIONS
      else if c = CHR ''P'' then Some HTTP_POST else if c = CHR ''R'' then Some HTTP_REPORT
      else if c = CHR ''S'' then Some HTTP_SUBSCRIBE else if c = CHR ''T'' then Some HTTP_TRACE
      else if c = CHR ''U'' then Some HTTP_UNLOCK else None)"

definition step_start_req :: "'c env \<Rightarrow> 'c machine \<Rightarrow> 'c outcome" where
  "step_start_req E m =
     (if ch m = CR \<or> ch m = LF then Break m
      else
        let m = upd reset_message m in
        if \<not> IS_ALPHA (ch m) then fail HPE_INVALID_METHOD m
        else
          let m = upd (\<lambda>ps. ps\<lparr>req_method := HTTP_DELETE, index := 1\<rparr>) m in
          case first_method (ch m) of
            None \<Rightarrow> fail HPE_INVALID_METHOD m
          | Some x \<Rightarrow>
              CALLBACK_NOTIFY (on_message_begin (settings E)) HPE_CB_message_begin (pos m + 1)
                (UPDATE_STATE s_req_method (upd (\<lambda>ps. ps\<lparr>req_method := x\<rparr>) m)) Break)"

text \<open>The \<open>switch\<close> on \<open>method << 16 | index << 8 | ch\<close>: which method a deviating byte turns to.\<close>

definition method_turns :: "((http_method \<times> nat \<times> char) \<times> http_method) list" where
  "method_turns =
     [((HTTP_POST, 1, CHR ''U''), HTTP_PUT), ((HTTP_POST, 1, CHR ''A''), HTTP_PATCH),
      ((HTTP_POST, 1, CHR ''R''), HTTP_PROPFIND), ((HTTP_PUT, 2, CHR ''R''), HTTP_PURGE),
      ((HTTP_CONNECT, 1, CHR ''H''), HTTP_CHECKOUT), ((HTTP_CONNECT, 2, CHR ''P''), HTTP_COPY),
      ((HTTP_MKCOL, 1, CHR ''O''), HTTP_MOVE), ((HTTP_MKCOL, 1, CHR ''E''), HTTP_MERGE),
      ((HTTP_MKCOL, 1, CHR ''-''), HTTP_MSEARCH), ((HTTP_MKCOL, 2, CHR ''A''), HTTP_MKACTIVITY),
      ((HTTP_MKCOL, 3, CHR ''A''), HTTP_MKCALENDAR), ((HTTP_SUBSCRIBE, 1, CHR ''E''), HTTP_SEARCH),
      ((HTTP_SUBSCRIBE, 1, CHR ''O''), HTTP_SOURCE), ((HTTP_REPORT, 2, CHR ''B''), HTTP_REBIND),
      ((HTTP_PROPFIND, 4, CHR ''P''), HTTP_PROPPATCH), ((HTTP_LOCK, 1, CHR ''I''), HTTP_LINK),
      ((HTTP_UNLOCK, 2, CHR ''S''), HTTP_UNSUBSCRIBE), ((HTTP_UNLOCK, 2, CHR ''B''), HTTP_UNBIND),
      ((HTTP_UNLOCK, 3, CHR ''I''), HTTP_UNLINK)]"

text \<open>A C string ends with a \<open>NUL\<close> that may be read; reading behind it is \<open>None\<close>.\<close>

definition c_string_at :: "string \<Rightarrow> nat \<Rightarrow> char option" where
  "c_string_at s i = rd (s @ [NUL]) i"

definition inc_index :: "http_parser \<Rightarrow> http_parser" where
  "inc_index ps = ps\<lparr>index := (index ps + 1) mod 2 ^ 5\<rparr>"

definition step_req_method :: "'c machine \<Rightarrow> 'c outcome" where
  "step_req_method m =
     (if ch m = NUL then fail HPE_INVALID_METHOD m
      else
        case c_string_at (method_strings (req_method (prs m))) (index (prs m)) of
          None \<Rightarrow> Fault
        | Some x \<Rightarrow>
            if ch m = CHR '' '' \<and> x = NUL then
              Break (upd inc_index (UPDATE_STATE s_req_spaces_before_url m))
            else if ch m = x then Break (upd inc_index m)
            else if (ch m \<ge> CHR ''A'' \<and> ch m \<le> CHR ''Z'') \<or> ch m = CHR ''-'' then
              (case map_of method_turns (req_method (prs m), index (prs m), ch m) of
                 Some y \<Rightarrow> Break (upd (\<lambda>ps. inc_index (ps\<lparr>req_method := y\<rparr>)) m)
               | None \<Rightarrow> fail HPE_INVALID_METHOD m)
            else fail HPE_INVALID_METHOD m)"

definition url_char :: "'c machine \<Rightarrow> 'c outcome" where
  "url_char m =
     (let m = UPDATE_STATE (parse_url_char (p_state m) (ch m)) m in
      if p_state m = s_dead then fail HPE_INVALID_URL m else Break m)"

definition step_req_spaces_before_url :: "'c machine \<Rightarrow> 'c outcome" where
  "step_req_spaces_before_url m =
     (if ch m = CHR '' '' then Break m
      else
        let m = MARK M_url m;
            m = (if req_method (prs m) = HTTP_CONNECT then UPDATE_STATE s_req_server_start m else m) in
        url_char m)"

definition step_req_schema :: "'c machine \<Rightarrow> 'c outcome" where
  "step_req_schema m =
     (if ch m = CHR '' '' \<or> ch m = CR \<or> ch m = LF then fail HPE_INVALID_URL m else url_char m)"

definition step_req_url :: "'c env \<Rightarrow> 'c machine \<Rightarrow> 'c outcome" where
  "step_req_url E m =
     (if ch m = CHR '' '' then
        CALLBACK_DATA E M_url (pos m) (pos m + 1) (UPDATE_STATE s_req_http_start m) Break
      else if ch m = CR \<or> ch m = LF then
        CALLBACK_DATA E M_url (pos m) (pos m + 1)
          (UPDATE_STATE (if ch m = CR then s_req_line_almost_done else s_header_field_start)
            (upd (\<lambda>ps. ps\<lparr>http_major := 0, http_minor := 9\<rparr>) m)) Break
      else url_char m)"

definition step_req_http_start :: "'c machine \<Rightarrow> 'c outcome" where
  "step_req_http_start m =
     (if ch m = CHR '' '' then Break m
      else if ch m = CHR ''H'' then Break (UPDATE_STATE s_req_http_H m)
      else if ch m = CHR ''I'' \<and> req_method (prs m) = HTTP_SOURCE then Break (UPDATE_STATE s_req_http_I m)
      else fail HPE_INVALID_CONSTANT m)"

definition step_req_http_end :: "'c machine \<Rightarrow> 'c outcome" where
  "step_req_http_end m =
     (if ch m = CR then Break (UPDATE_STATE s_req_line_almost_done m)
      else if ch m = LF then Break (UPDATE_STATE s_header_field_start m)
      else fail HPE_INVALID_VERSION m)"

definition step_req_line_almost_done :: "'c machine \<Rightarrow> 'c outcome" where
  "step_req_line_almost_done m =
     (if ch m \<noteq> LF then fail HPE_LF_EXPECTED m else Break (UPDATE_STATE s_header_field_start m))"

section \<open>Header fields\<close>

definition step_header_field_start :: "'c machine \<Rightarrow> 'c outcome" where
  "step_header_field_start m =
     (if ch m = CR then Break (UPDATE_STATE s_headers_almost_done m)
      else if ch m = LF then Reexecute (UPDATE_STATE s_headers_almost_done m)
      else
        let c = TOKEN (ch m) in
        if c = NUL then fail HPE_INVALID_HEADER_TOKEN m
        else
          Break (upd (\<lambda>ps. ps\<lparr>index := 0, header_state :=
              (if c = CHR ''c'' then h_C
               else if c = CHR ''p'' then h_matching_proxy_connection
               else if c = CHR ''t'' then h_matching_transfer_encoding
               else if c = CHR ''u'' then h_matching_upgrade
               else h_general)\<rparr>)
            (UPDATE_STATE s_header_field (MARK M_header_field m))))"

text \<open>
  One byte of a header name the parser is interested in: \<open>parser->index++\<close>, then compare with the name
  at that index; the last byte of the name ends the match.  \<open>sizeof(name)-1\<close> is the length of the
  name, so the comparison may read the terminating \<open>NUL\<close>, but nothing behind it.
\<close>

definition match_index :: "string \<Rightarrow> char \<Rightarrow> header_states \<Rightarrow> header_states \<Rightarrow> header_states \<Rightarrow> http_parser
    \<Rightarrow> (header_states \<times> http_parser) option" where
  "match_index name c stay mismatch full ps =
     (let ps = inc_index ps in
      if index ps > length name then Some (mismatch, ps)
      else case c_string_at name (index ps) of
        None \<Rightarrow> None
      | Some x \<Rightarrow> Some (if c \<noteq> x then mismatch else if index ps + 1 = length name then full else stay, ps))"

definition field_match :: "string \<Rightarrow> char \<Rightarrow> header_states \<Rightarrow> header_states \<Rightarrow> http_parser \<Rightarrow> http_parser option" where
  "field_match name c stay full ps =
     map_option (\<lambda>(h, ps). ps\<lparr>header_state := h\<rparr>) (match_index name c stay h_general full ps)"

text \<open>The \<open>switch\<close> on \<open>header_state\<close> inside a header name (\<open>h_general\<close> is in the loop below).\<close>

definition header_field_char :: "char \<Rightarrow> char \<Rightarrow> http_parser \<Rightarrow> http_parser option" where
  "header_field_char b c ps = (case header_state ps of
     h_C \<Rightarrow> Some ((inc_index ps)\<lparr>header_state := if c = CHR ''o'' then h_CO else h_general\<rparr>)
   | h_CO \<Rightarrow> Some ((inc_index ps)\<lparr>header_state := if c = CHR ''n'' then h_CON else h_general\<rparr>)
   | h_CON \<Rightarrow> Some ((inc_index ps)\<lparr>header_state :=
       if c = CHR ''n'' then h_matching_connection
       else if c = CHR ''t'' then h_matching_content_length else h_general\<rparr>)
   | h_matching_connection \<Rightarrow>
       field_match ''connection'' c h_matching_connection h_connection ps
   | h_matching_proxy_connection \<Rightarrow>
       field_match ''proxy-connection'' c h_matching_proxy_connection h_connection ps
   | h_matching_content_length \<Rightarrow>
       field_match ''content-length'' c h_matching_content_length h_content_length ps
   | h_matching_transfer_encoding \<Rightarrow>
       map_option (\<lambda>ps. if header_state ps = h_transfer_encoding
                        then ps\<lparr>uses_transfer_encoding := True\<rparr> else ps)
         (field_match ''transfer-encoding'' c h_matching_transfer_encoding h_transfer_encoding ps)
   | h_matching_upgrade \<Rightarrow> field_match ''upgrade'' c h_matching_upgrade h_upgrade ps
   | h_connection \<Rightarrow> Some (if b \<noteq> CHR '' '' then ps\<lparr>header_state := h_general\<rparr> else ps)
   | h_content_length \<Rightarrow> Some (if b \<noteq> CHR '' '' then ps\<lparr>header_state := h_general\<rparr> else ps)
   | h_transfer_encoding \<Rightarrow> Some (if b \<noteq> CHR '' '' then ps\<lparr>header_state := h_general\<rparr> else ps)
   | h_upgrade \<Rightarrow> Some (if b \<noteq> CHR '' '' then ps\<lparr>header_state := h_general\<rparr> else ps)
   | _ \<Rightarrow> None)"

text \<open>The loop \<open>while (p+1 < pe && TOKEN(p[1])) p++\<close>.\<close>

function skip_tokens :: "string \<Rightarrow> nat \<Rightarrow> nat \<Rightarrow> nat" where
  "skip_tokens d pe p = (if p + 1 < pe \<and> TOKEN (d ! (p + 1)) \<noteq> NUL then skip_tokens d pe (p + 1) else p)"
  by pat_completeness auto
termination by (relation "measure (\<lambda>(d, pe, p). pe - p)") auto

declare skip_tokens.simps [simp del]

lemma skip_tokens_ge: "p \<le> skip_tokens d pe p"
  by (induction d pe p rule: skip_tokens.induct) (subst skip_tokens.simps, auto)

lemma skip_tokens_less: "p < n \<Longrightarrow> pe \<le> n \<Longrightarrow> skip_tokens d pe p < n"
  by (induction d pe p rule: skip_tokens.induct) (subst skip_tokens.simps, auto)

text \<open>The loop over a header name; \<open>None\<close> is a failed assertion.\<close>

function header_field_loop :: "'c env \<Rightarrow> 'c machine \<Rightarrow> 'c machine option" where
  "header_field_loop E m =
     (if pos m < length (data E) then
        let m = m\<lparr>ch := data E ! pos m\<rparr>; c = TOKEN (ch m) in
        if c = NUL then Some m
        else if header_state (prs m) = h_general then
          header_field_loop E
            (m\<lparr>pos := skip_tokens (data E) (pos m + min (length (data E) - pos m) (max_header_size E)) (pos m) + 1\<rparr>)
        else
          (case header_field_char (ch m) c (prs m) of
             None \<Rightarrow> None
           | Some ps \<Rightarrow> header_field_loop E (m\<lparr>prs := ps, pos := pos m + 1\<rparr>))
      else Some m)"
  by pat_completeness auto
termination
proof (relation "measure (\<lambda>(E, m). length (data E) - pos m)", goal_cases)
  case (2 E m ma c)
  then show ?case using skip_tokens_ge [of "pos m"] by (simp add: diff_less_mono2 le_imp_less_Suc)
qed auto

declare header_field_loop.simps [simp del]

definition step_header_field :: "'c env \<Rightarrow> 'c machine \<Rightarrow> 'c outcome" where
  "step_header_field E m0 =
     (case header_field_loop E m0 of
        None \<Rightarrow> Fault
      | Some m \<Rightarrow>
          if pos m = length (data E) then
            let m = m\<lparr>pos := pos m - 1\<rparr> in COUNT_HEADER_SIZE E (pos m - pos m0) m Break
          else
            COUNT_HEADER_SIZE E (pos m - pos m0) m (\<lambda>m.
              if ch m = CHR '':'' then
                CALLBACK_DATA E M_header_field (pos m) (pos m + 1) (UPDATE_STATE s_header_value_discard_ws m) Break
              else fail HPE_INVALID_HEADER_TOKEN m))"

section \<open>Header values\<close>

text \<open>The fall-through target of \<open>s_header_value_discard_ws\<close>: the first byte of a value.\<close>

definition step_header_value_start :: "'c machine \<Rightarrow> 'c outcome" where
  "step_header_value_start m =
     (let m = upd (\<lambda>ps. ps\<lparr>index := 0\<rparr>) (UPDATE_STATE s_header_value (MARK M_header_value m));
          c = LOWER (ch m);
          goto = (\<lambda>h. Break (upd (\<lambda>ps. ps\<lparr>header_state := h\<rparr>) m)) in
      case header_state (prs m) of
        h_upgrade \<Rightarrow>
          Break (upd (\<lambda>ps. ps\<lparr>flags := set_flag F_UPGRADE (flags ps), header_state := h_general\<rparr>) m)
      | h_transfer_encoding \<Rightarrow>
          goto (if c = CHR ''c'' then h_matching_transfer_encoding_chunked
                else h_matching_transfer_encoding_token)
      | h_matching_transfer_encoding_token_start \<Rightarrow> Break m
      | h_content_length \<Rightarrow>
          if \<not> IS_NUM (ch m) then fail HPE_INVALID_CONTENT_LENGTH m
          else if has_flag (flags (prs m)) F_CONTENTLENGTH then fail HPE_UNEXPECTED_CONTENT_LENGTH m
          else Break (upd (\<lambda>ps. ps\<lparr>flags := set_flag F_CONTENTLENGTH (flags ps),
                 content_length := digit_of (ch m), header_state := h_content_length_num\<rparr>) m)
      | h_content_length_ws \<Rightarrow> Break m
      | h_connection \<Rightarrow>
          goto (if c = CHR ''k'' then h_matching_connection_keep_alive
                else if c = CHR ''c'' then h_matching_connection_close
                else if c = CHR ''u'' then h_matching_connection_upgrade
                else h_matching_connection_token)
      | h_matching_connection_token_start \<Rightarrow> Break m
      | _ \<Rightarrow> goto h_general)"

definition step_header_value_discard_ws :: "'c machine \<Rightarrow> 'c outcome" where
  "step_header_value_discard_ws m =
     (if ch m = CHR '' '' \<or> ch m = HT then Break m
      else if ch m = CR then Break (UPDATE_STATE s_header_value_discard_ws_almost_done m)
      else if ch m = LF then Break (UPDATE_STATE s_header_value_discard_lws m)
      else step_header_value_start m)"

text \<open>
  One byte of a value: the \<open>switch\<close> on the local \<open>h_state\<close>, which becomes the new \<open>h_state\<close> with the
  new parser object, an error, or a failed assertion.  The default branch also sets the state to
  \<open>s_header_value\<close>, which it is.
\<close>

datatype value_turn =
    V_go header_states http_parser
  | V_error http_errno http_parser
  | V_assert

definition value_content_length :: "char \<Rightarrow> http_parser \<Rightarrow> value_turn" where
  "value_content_length b ps =
     (if b = CHR '' '' then V_go h_content_length_ws ps
      else if \<not> IS_NUM b then V_error HPE_INVALID_CONTENT_LENGTH (ps\<lparr>header_state := h_content_length_num\<rparr>)
      else
        let t = ((content_length ps * 10) mod 2 ^ 64 + digit_of b) mod 2 ^ 64 in
        if (ULLONG_MAX - 10) div 10 < content_length ps
        then V_error HPE_INVALID_CONTENT_LENGTH (ps\<lparr>header_state := h_content_length_num\<rparr>)
        else V_go h_content_length_num (ps\<lparr>content_length := t\<rparr>))"

definition value_match :: "string \<Rightarrow> char \<Rightarrow> header_states \<Rightarrow> header_states \<Rightarrow> header_states \<Rightarrow> http_parser
    \<Rightarrow> value_turn" where
  "value_match name c stay mismatch full ps =
     (case match_index name c stay mismatch full ps of None \<Rightarrow> V_assert | Some (h, ps) \<Rightarrow> V_go h ps)"

definition value_token_start :: "char \<Rightarrow> http_parser \<Rightarrow> value_turn" where
  "value_token_start c ps =
     (if c = CHR ''k'' then V_go h_matching_connection_keep_alive ps
      else if c = CHR ''c'' then V_go h_matching_connection_close ps
      else if c = CHR ''u'' then V_go h_matching_connection_upgrade ps
      else if STRICT_TOKEN c \<noteq> NUL then V_go h_matching_connection_token ps
      else if c = CHR '' '' \<or> c = HT then V_go h_matching_connection_token_start ps
      else V_go h_general ps)"

definition value_token_done :: "header_states \<Rightarrow> nat \<Rightarrow> char \<Rightarrow> http_parser \<Rightarrow> value_turn" where
  "value_token_done h f b ps =
     (if b = CHR '','' then
        V_go h_matching_connection_token_start (ps\<lparr>flags := set_flag f (flags ps), index := 0\<rparr>)
      else if b \<noteq> CHR '' '' then V_go h_matching_connection_token ps
      else V_go h ps)"

definition value_char :: "header_states \<Rightarrow> char \<Rightarrow> http_parser \<Rightarrow> value_turn" where
  "value_char h b ps =
     (let c = LOWER b in
      case h of
        h_connection \<Rightarrow> V_assert
      | h_transfer_encoding \<Rightarrow> V_assert
      | h_content_length \<Rightarrow> if b = CHR '' '' then V_go h ps else value_content_length b ps
      | h_content_length_num \<Rightarrow> value_content_length b ps
      | h_content_length_ws \<Rightarrow>
          if b = CHR '' '' then V_go h ps
          else V_error HPE_INVALID_CONTENT_LENGTH (ps\<lparr>header_state := h\<rparr>)
      | h_matching_transfer_encoding_token_start \<Rightarrow>
          if c = CHR ''c'' then V_go h_matching_transfer_encoding_chunked ps
          else if STRICT_TOKEN c \<noteq> NUL then V_go h_matching_transfer_encoding_token ps
          else if c = CHR '' '' \<or> c = HT then V_go h ps
          else V_go h_general ps
      | h_matching_transfer_encoding_chunked \<Rightarrow>
          value_match ''chunked'' c h h_matching_transfer_encoding_token h_transfer_encoding_chunked ps
      | h_matching_transfer_encoding_token \<Rightarrow>
          if b = CHR '','' then V_go h_matching_transfer_encoding_token_start (ps\<lparr>index := 0\<rparr>)
          else V_go h ps
      | h_matching_connection_token_start \<Rightarrow> value_token_start c ps
      | h_matching_connection_keep_alive \<Rightarrow>
          value_match ''keep-alive'' c h h_matching_connection_token h_connection_keep_alive ps
      | h_matching_connection_close \<Rightarrow>
          value_match ''close'' c h h_matching_connection_token h_connection_close ps
      | h_matching_connection_upgrade \<Rightarrow>
          value_match ''upgrade'' c h h_matching_connection_token h_connection_upgrade ps
      | h_matching_connection_token \<Rightarrow>
          if b = CHR '','' then V_go h_matching_connection_token_start (ps\<lparr>index := 0\<rparr>) else V_go h ps
      | h_transfer_encoding_chunked \<Rightarrow>
          V_go (if b \<noteq> CHR '' '' then h_matching_transfer_encoding_token else h) ps
      | h_connection_keep_alive \<Rightarrow> value_token_done h F_CONNECTION_KEEP_ALIVE b ps
      | h_connection_close \<Rightarrow> value_token_done h F_CONNECTION_CLOSE b ps
      | h_connection_upgrade \<Rightarrow> value_token_done h F_CONNECTION_UPGRADE b ps
      | _ \<Rightarrow> V_go h_general ps)"

text \<open>
  The inner loop of \<open>h_general\<close> from \<open>p\<close> to \<open>pe\<close>: \<open>Inl\<close> is the offset of an invalid byte, \<open>Inr\<close> the
  offset at which it leaves (one before a line end, or \<open>pe\<close>).
\<close>

function general_scan :: "'c env \<Rightarrow> nat \<Rightarrow> nat \<Rightarrow> nat + nat" where
  "general_scan E pe p =
     (if p < pe then
        let b = data E ! p in
        if b = CR \<or> b = LF then Inr (p - 1)
        else if \<not> lenient E \<and> \<not> IS_HEADER_CHAR b then Inl p
        else general_scan E pe (p + 1)
      else Inr p)"
  by pat_completeness auto
termination by (relation "measure (\<lambda>(E, pe, p). pe - p)") auto

declare general_scan.simps [simp del]

lemma general_scan_ge: "general_scan E pe p = Inr q \<Longrightarrow> p \<le> q + 1"
  by (induction E pe p rule: general_scan.induct)
    (subst (asm) (2) general_scan.simps, auto simp: Let_def split: if_splits)

lemma general_scan_ge_start:
  "general_scan E pe p = Inr q \<Longrightarrow> data E ! p \<noteq> CR \<Longrightarrow> data E ! p \<noteq> LF \<Longrightarrow> p \<le> q"
  using general_scan_ge [of E pe "p + 1" q]
  by (subst (asm) general_scan.simps) (auto simp: Let_def split: if_splits)

lemma general_scan_le: "general_scan E pe p = Inr q \<Longrightarrow> p \<le> pe \<Longrightarrow> q \<le> pe"
  by (induction E pe p rule: general_scan.induct)
    (subst (asm) (2) general_scan.simps, auto simp: Let_def split: if_splits)

lemma general_scan_less: "general_scan E pe p = Inl q \<Longrightarrow> p \<le> q \<and> q < pe"
  by (induction E pe p rule: general_scan.induct)
    (subst (asm) (2) general_scan.simps, auto simp: Let_def split: if_splits)

text \<open>The loop over a value; the result says at what it stopped, with \<open>h_state\<close> and the machine.\<close>

datatype 'c value_end =
    At_end header_states "'c machine"
  | At_CR header_states "'c machine"
  | At_LF header_states "'c machine"
  | At_error http_errno "'c machine"
  | At_assert

function header_value_loop :: "'c env \<Rightarrow> header_states \<Rightarrow> 'c machine \<Rightarrow> 'c value_end" where
  "header_value_loop E h m =
     (if pos m < length (data E) then
        let b = data E ! pos m; m = m\<lparr>ch := b\<rparr> in
        if b = CR then At_CR h m
        else if b = LF then At_LF h m
        else if \<not> lenient E \<and> \<not> IS_HEADER_CHAR b then At_error HPE_INVALID_HEADER_TOKEN m
        else if h = h_general then
          (case general_scan E (pos m + min (length (data E) - pos m) (max_header_size E)) (pos m) of
             Inl q \<Rightarrow> At_error HPE_INVALID_HEADER_TOKEN (m\<lparr>pos := q\<rparr>)
           | Inr q \<Rightarrow> header_value_loop E h
                 (m\<lparr>pos := (if q = length (data E) then q - 1 else q) + 1\<rparr>))
        else
          (case value_char h b (prs m) of
             V_assert \<Rightarrow> At_assert
           | V_error e ps \<Rightarrow> At_error e (m\<lparr>prs := ps\<rparr>)
           | V_go h ps \<Rightarrow> header_value_loop E h (m\<lparr>prs := ps, pos := pos m + 1\<rparr>))
      else At_end h m)"
  by pat_completeness auto
termination
proof (relation "measure (\<lambda>(E, h, m). length (data E) - pos m)", goal_cases)
  case (2 E h m b ma q)
  then have "pos m \<le> q" using general_scan_ge_start [of E _ "pos m" q] by simp
  with 2 show ?case by auto
qed auto

declare header_value_loop.simps [simp del]

definition step_header_value :: "'c env \<Rightarrow> 'c machine \<Rightarrow> 'c outcome" where
  "step_header_value E m0 =
     (let finish = (\<lambda>h m.
            let m = upd (\<lambda>ps. ps\<lparr>header_state := h\<rparr>) m;
                m = (if pos m = length (data E) then m\<lparr>pos := pos m - 1\<rparr> else m) in
            COUNT_HEADER_SIZE E (pos m - pos m0) m Break) in
      case header_value_loop E (header_state (prs m0)) m0 of
        At_assert \<Rightarrow> Fault
      | At_error e m \<Rightarrow> fail e m
      | At_end h m \<Rightarrow> finish h m
      | At_CR h m \<Rightarrow>
          CALLBACK_DATA E M_header_value (pos m) (pos m + 1)
            (upd (\<lambda>ps. ps\<lparr>header_state := h\<rparr>) (UPDATE_STATE s_header_almost_done m)) (finish h)
      | At_LF h m \<Rightarrow>
          COUNT_HEADER_SIZE E (pos m - pos m0) (UPDATE_STATE s_header_almost_done m) (\<lambda>m.
            CALLBACK_DATA E M_header_value (pos m) (pos m) (upd (\<lambda>ps. ps\<lparr>header_state := h\<rparr>) m) Reexecute))"

definition step_header_almost_done :: "'c machine \<Rightarrow> 'c outcome" where
  "step_header_almost_done m =
     (if ch m \<noteq> LF then fail HPE_LF_EXPECTED m else Break (UPDATE_STATE s_header_value_lws m))"

text \<open>What a completed header sets; both \<open>s_header_value_lws\<close> and \<open>s_header_value_discard_lws\<close> do it.\<close>

definition header_finished :: "http_parser \<Rightarrow> http_parser" where
  "header_finished ps = (case header_state ps of
     h_connection_keep_alive \<Rightarrow> ps\<lparr>flags := set_flag F_CONNECTION_KEEP_ALIVE (flags ps)\<rparr>
   | h_connection_close \<Rightarrow> ps\<lparr>flags := set_flag F_CONNECTION_CLOSE (flags ps)\<rparr>
   | h_transfer_encoding_chunked \<Rightarrow> ps\<lparr>flags := set_flag F_CHUNKED (flags ps)\<rparr>
   | h_connection_upgrade \<Rightarrow> ps\<lparr>flags := set_flag F_CONNECTION_UPGRADE (flags ps)\<rparr>
   | _ \<Rightarrow> ps)"

definition step_header_value_lws :: "'c machine \<Rightarrow> 'c outcome" where
  "step_header_value_lws m =
     (if ch m = CHR '' '' \<or> ch m = HT then
        Reexecute (UPDATE_STATE s_header_value_start
          (if header_state (prs m) = h_content_length_num
           then upd (\<lambda>ps. ps\<lparr>header_state := h_content_length_ws\<rparr>) m else m))
      else Reexecute (UPDATE_STATE s_header_field_start (upd header_finished m)))"

definition step_header_value_discard_lws :: "'c env \<Rightarrow> 'c machine \<Rightarrow> 'c outcome" where
  "step_header_value_discard_lws E m =
     (if ch m = CHR '' '' \<or> ch m = HT then Break (UPDATE_STATE s_header_value_discard_ws m)
      else if header_state (prs m) = h_content_length then fail HPE_INVALID_CONTENT_LENGTH m
      else
        let m = UPDATE_STATE s_header_field_start (MARK M_header_value (upd header_finished m)) in
        CALLBACK_DATA E M_header_value (pos m) (pos m) m Reexecute)"

section \<open>End of the headers\<close>

definition after_headers_complete :: "'c machine \<Rightarrow> 'c outcome" where
  "after_headers_complete m = (if http_errno (prs m) \<noteq> HPE_OK then RETURN (pos m) m else Reexecute m)"

definition headers_complete :: "'c env \<Rightarrow> 'c machine \<Rightarrow> 'c outcome" where
  "headers_complete E m = (case on_headers_complete (settings E) of
     None \<Rightarrow> after_headers_complete m
   | Some f \<Rightarrow>
      (case f (prs m) (user m) of (r, ps, c) \<Rightarrow>
         let m = m\<lparr>prs := ps, user := c\<rparr> in
         if r = 0 then after_headers_complete m
         else if r = 2 then
           after_headers_complete (upd (\<lambda>ps. ps\<lparr>upgrade := True, flags := set_flag F_SKIPBODY (flags ps)\<rparr>) m)
         else if r = 1 then
           after_headers_complete (upd (\<lambda>ps. ps\<lparr>flags := set_flag F_SKIPBODY (flags ps)\<rparr>) m)
         else RETURN (pos m) (SET_ERRNO HPE_CB_headers_complete m)))"

definition upgrade_requested :: "http_parser \<Rightarrow> bool" where
  "upgrade_requested ps =
     (if has_flag (flags ps) F_UPGRADE \<and> has_flag (flags ps) F_CONNECTION_UPGRADE
      then ptype ps = HTTP_REQUEST \<or> status_code ps = 101
      else req_method ps = HTTP_CONNECT)"

definition step_headers_almost_done :: "'c env \<Rightarrow> 'c machine \<Rightarrow> 'c outcome" where
  "step_headers_almost_done E m = STRICT_CHECK (ch m \<noteq> LF) m
     (if has_flag (flags (prs m)) F_TRAILING then
        CALLBACK_NOTIFY (on_chunk_complete (settings E)) HPE_CB_chunk_complete (pos m)
          (UPDATE_STATE s_message_done m) Reexecute
      else if uses_transfer_encoding (prs m) \<and> has_flag (flags (prs m)) F_CONTENTLENGTH \<and>
              (if has_flag (flags (prs m)) F_CHUNKED then \<not> chunked_length E else \<not> lenient E)
      then fail HPE_UNEXPECTED_CONTENT_LENGTH m
      else headers_complete E
             (upd (\<lambda>ps. ps\<lparr>upgrade := upgrade_requested ps\<rparr>) (UPDATE_STATE s_headers_done m)))"

definition message_complete :: "'c env \<Rightarrow> 'c machine \<Rightarrow> ('c machine \<Rightarrow> 'c outcome) \<Rightarrow> 'c outcome" where
  "message_complete E m k =
     CALLBACK_NOTIFY (on_message_complete (settings E)) HPE_CB_message_complete (pos m + 1)
       (UPDATE_STATE (NEW_MESSAGE (prs m)) m) k"

definition has_body :: "http_parser \<Rightarrow> bool" where
  "has_body ps = (has_flag (flags ps) F_CHUNKED \<or>
     (content_length ps > 0 \<and> content_length ps \<noteq> ULLONG_MAX))"

definition step_headers_done :: "'c env \<Rightarrow> 'c machine \<Rightarrow> 'c outcome" where
  "step_headers_done E m = STRICT_CHECK (ch m \<noteq> LF) m
     (let m = upd (\<lambda>ps. ps\<lparr>nread := 0\<rparr>) (m\<lparr>p_nread := 0\<rparr>); ps = prs m in
      if upgrade ps \<and> (req_method ps = HTTP_CONNECT \<or> has_flag (flags ps) F_SKIPBODY \<or> \<not> has_body ps) then
        message_complete E m (\<lambda>m. RETURN (pos m + 1) m)
      else if has_flag (flags ps) F_SKIPBODY then message_complete E m Break
      else if has_flag (flags ps) F_CHUNKED then Break (UPDATE_STATE s_chunk_size_start m)
      else if uses_transfer_encoding ps then
        (if ptype ps = HTTP_REQUEST \<and> \<not> lenient E
         then RETURN (pos m) (SET_ERRNO HPE_INVALID_TRANSFER_ENCODING m)
         else Break (UPDATE_STATE s_body_identity_eof m))
      else if content_length ps = 0 then message_complete E m Break
      else if content_length ps \<noteq> ULLONG_MAX then Break (UPDATE_STATE s_body_identity m)
      else if \<not> http_message_needs_eof ps then message_complete E m Break
      else Break (UPDATE_STATE s_body_identity_eof m))"

section \<open>The body\<close>

text \<open>Take what the buffer has of the remaining \<open>content_length\<close> bytes; \<open>p\<close> ends on the last of them.\<close>

definition take_body :: "'c env \<Rightarrow> 'c machine \<Rightarrow> 'c machine" where
  "take_body E m =
     (let to_read = min (content_length (prs m)) (length (data E) - pos m); m = MARK M_body m in
      (upd (\<lambda>ps. ps\<lparr>content_length := content_length ps - to_read\<rparr>) m)\<lparr>pos := pos m + to_read - 1\<rparr>)"

definition step_body_identity :: "'c env \<Rightarrow> 'c machine \<Rightarrow> 'c outcome" where
  "step_body_identity E m =
     (if content_length (prs m) = 0 \<or> content_length (prs m) = ULLONG_MAX then Fault
      else
        let m = take_body E m in
        if content_length (prs m) = 0
        then CALLBACK_DATA E M_body (pos m + 1) (pos m) (UPDATE_STATE s_message_done m) Reexecute
        else Break m)"

definition step_body_identity_eof :: "'c env \<Rightarrow> 'c machine \<Rightarrow> 'c outcome" where
  "step_body_identity_eof E m = Break ((MARK M_body m)\<lparr>pos := length (data E) - 1\<rparr>)"

definition step_message_done :: "'c env \<Rightarrow> 'c machine \<Rightarrow> 'c outcome" where
  "step_message_done E m =
     message_complete E m (\<lambda>m. if upgrade (prs m) then RETURN (pos m + 1) m else Break m)"

text \<open>The chunk states assert \<open>F_CHUNKED\<close>.\<close>

definition chunked_only :: "'c machine \<Rightarrow> 'c outcome \<Rightarrow> 'c outcome" where
  "chunked_only m k = (if has_flag (flags (prs m)) F_CHUNKED then k else Fault)"

definition step_chunk_size_start :: "'c machine \<Rightarrow> 'c outcome" where
  "step_chunk_size_start m =
     (if p_nread m \<noteq> 1 then Fault
      else chunked_only m
        (if unhex (ch m) = -1 then fail HPE_INVALID_CHUNK_SIZE m
         else Break (UPDATE_STATE s_chunk_size
                (upd (\<lambda>ps. ps\<lparr>content_length := nat (unhex (ch m))\<rparr>) m))))"

definition step_chunk_size :: "'c machine \<Rightarrow> 'c outcome" where
  "step_chunk_size m = chunked_only m
     (if ch m = CR then Break (UPDATE_STATE s_chunk_size_almost_done m)
      else if unhex (ch m) = -1 then
        (if ch m = CHR '';'' \<or> ch m = CHR '' '' then Break (UPDATE_STATE s_chunk_parameters m)
         else fail HPE_INVALID_CHUNK_SIZE m)
      else
        let t = ((content_length (prs m) * 16) mod 2 ^ 64 + nat (unhex (ch m))) mod 2 ^ 64 in
        if (ULLONG_MAX - 16) div 16 < content_length (prs m) then fail HPE_INVALID_CONTENT_LENGTH m
        else Break (upd (\<lambda>ps. ps\<lparr>content_length := t\<rparr>) m))"

definition step_chunk_parameters :: "'c machine \<Rightarrow> 'c outcome" where
  "step_chunk_parameters m = chunked_only m
     (if ch m = CR then Break (UPDATE_STATE s_chunk_size_almost_done m) else Break m)"

definition step_chunk_size_almost_done :: "'c env \<Rightarrow> 'c machine \<Rightarrow> 'c outcome" where
  "step_chunk_size_almost_done E m = chunked_only m
     (STRICT_CHECK (ch m \<noteq> LF) m
       (let m = upd (\<lambda>ps. ps\<lparr>nread := 0\<rparr>) (m\<lparr>p_nread := 0\<rparr>);
            m = (if content_length (prs m) = 0
                 then UPDATE_STATE s_header_field_start
                        (upd (\<lambda>ps. ps\<lparr>flags := set_flag F_TRAILING (flags ps)\<rparr>) m)
                 else UPDATE_STATE s_chunk_data m) in
        CALLBACK_NOTIFY (on_chunk_header (settings E)) HPE_CB_chunk_header (pos m + 1) m Break))"

definition step_chunk_data :: "'c env \<Rightarrow> 'c machine \<Rightarrow> 'c outcome" where
  "step_chunk_data E m = chunked_only m
     (if content_length (prs m) = 0 \<or> content_length (prs m) = ULLONG_MAX then Fault
      else
        let m = take_body E m in
        if content_length (prs m) = 0 then Break (UPDATE_STATE s_chunk_data_almost_done m) else Break m)"

definition step_chunk_data_almost_done :: "'c env \<Rightarrow> 'c machine \<Rightarrow> 'c outcome" where
  "step_chunk_data_almost_done E m = chunked_only m
     (if content_length (prs m) \<noteq> 0 then Fault
      else STRICT_CHECK (ch m \<noteq> CR) m
        (CALLBACK_DATA E M_body (pos m) (pos m + 1) (UPDATE_STATE s_chunk_data_done m) Break))"

definition step_chunk_data_done :: "'c env \<Rightarrow> 'c machine \<Rightarrow> 'c outcome" where
  "step_chunk_data_done E m = chunked_only m
     (STRICT_CHECK (ch m \<noteq> LF) m
       (let m = UPDATE_STATE s_chunk_size_start (upd (\<lambda>ps. ps\<lparr>nread := 0\<rparr>) (m\<lparr>p_nread := 0\<rparr>)) in
        CALLBACK_NOTIFY (on_chunk_complete (settings E)) HPE_CB_chunk_complete (pos m + 1) m Break))"

section \<open>The switch and the loop\<close>

definition http_step :: "'c env \<Rightarrow> 'c machine \<Rightarrow> 'c outcome" where
  "http_step E m = (case p_state m of
     s_dead \<Rightarrow> step_dead m
   | s_start_req_or_res \<Rightarrow> step_start_req_or_res E m
   | s_res_or_resp_H \<Rightarrow> step_res_or_resp_H m
   | s_start_res \<Rightarrow> step_start_res E m
   | s_res_H \<Rightarrow> expect (CHR ''T'') s_res_HT m
   | s_res_HT \<Rightarrow> expect (CHR ''T'') s_res_HTT m
   | s_res_HTT \<Rightarrow> expect (CHR ''P'') s_res_HTTP m
   | s_res_HTTP \<Rightarrow> expect (CHR ''/'') s_res_http_major m
   | s_res_http_major \<Rightarrow> step_http_major s_res_http_dot m
   | s_res_http_dot \<Rightarrow> step_http_dot s_res_http_minor m
   | s_res_http_minor \<Rightarrow> step_http_minor s_res_http_end m
   | s_res_http_end \<Rightarrow> step_res_http_end m
   | s_res_first_status_code \<Rightarrow> step_res_first_status_code m
   | s_res_status_code \<Rightarrow> step_res_status_code m
   | s_res_status_start \<Rightarrow> step_res_status_start m
   | s_res_status \<Rightarrow> step_res_status E m
   | s_res_line_almost_done \<Rightarrow> expect LF s_header_field_start m
   | s_start_req \<Rightarrow> step_start_req E m
   | s_req_method \<Rightarrow> step_req_method m
   | s_req_spaces_before_url \<Rightarrow> step_req_spaces_before_url m
   | s_req_schema \<Rightarrow> step_req_schema m
   | s_req_schema_slash \<Rightarrow> step_req_schema m
   | s_req_schema_slash_slash \<Rightarrow> step_req_schema m
   | s_req_server_start \<Rightarrow> step_req_schema m
   | s_req_server \<Rightarrow> step_req_url E m
   | s_req_server_with_at \<Rightarrow> step_req_url E m
   | s_req_path \<Rightarrow> step_req_url E m
   | s_req_query_string_start \<Rightarrow> step_req_url E m
   | s_req_query_string \<Rightarrow> step_req_url E m
   | s_req_fragment_start \<Rightarrow> step_req_url E m
   | s_req_fragment \<Rightarrow> step_req_url E m
   | s_req_http_start \<Rightarrow> step_req_http_start m
   | s_req_http_H \<Rightarrow> expect (CHR ''T'') s_req_http_HT m
   | s_req_http_HT \<Rightarrow> expect (CHR ''T'') s_req_http_HTT m
   | s_req_http_HTT \<Rightarrow> expect (CHR ''P'') s_req_http_HTTP m
   | s_req_http_HTTP \<Rightarrow> expect (CHR ''/'') s_req_http_major m
   | s_req_http_I \<Rightarrow> expect (CHR ''C'') s_req_http_IC m
   | s_req_http_IC \<Rightarrow> expect (CHR ''E'') s_req_http_HTTP m
   | s_req_http_major \<Rightarrow> step_http_major s_req_http_dot m
   | s_req_http_dot \<Rightarrow> step_http_dot s_req_http_minor m
   | s_req_http_minor \<Rightarrow> step_http_minor s_req_http_end m
   | s_req_http_end \<Rightarrow> step_req_http_end m
   | s_req_line_almost_done \<Rightarrow> step_req_line_almost_done m
   | s_header_field_start \<Rightarrow> step_header_field_start m
   | s_header_field \<Rightarrow> step_header_field E m
   | s_header_value_discard_ws \<Rightarrow> step_header_value_discard_ws m
   | s_header_value_discard_ws_almost_done \<Rightarrow> expect LF s_header_value_discard_lws m
   | s_header_value_discard_lws \<Rightarrow> step_header_value_discard_lws E m
   | s_header_value_start \<Rightarrow> step_header_value_start m
   | s_header_value \<Rightarrow> step_header_value E m
   | s_header_value_lws \<Rightarrow> step_header_value_lws m
   | s_header_almost_done \<Rightarrow> step_header_almost_done m
   | s_chunk_size_start \<Rightarrow> step_chunk_size_start m
   | s_chunk_size \<Rightarrow> step_chunk_size m
   | s_chunk_parameters \<Rightarrow> step_chunk_parameters m
   | s_chunk_size_almost_done \<Rightarrow> step_chunk_size_almost_done E m
   | s_headers_almost_done \<Rightarrow> step_headers_almost_done E m
   | s_headers_done \<Rightarrow> step_headers_done E m
   | s_chunk_data \<Rightarrow> step_chunk_data E m
   | s_chunk_data_almost_done \<Rightarrow> step_chunk_data_almost_done E m
   | s_chunk_data_done \<Rightarrow> step_chunk_data_done E m
   | s_body_identity \<Rightarrow> step_body_identity E m
   | s_body_identity_eof \<Rightarrow> step_body_identity_eof E m
   | s_message_done \<Rightarrow> step_message_done E m)"

text \<open>
  The re-executions of one byte.  \<open>None\<close> is the fuel running out: a callback that rewrites the state
  could make the C code re-execute a byte for ever.
\<close>

fun reexecute_loop :: "nat \<Rightarrow> 'c env \<Rightarrow> 'c machine \<Rightarrow> 'c outcome option" where
  "reexecute_loop 0 E m = None"
| "reexecute_loop (Suc n) E m =
     (case http_step E m of Reexecute m \<Rightarrow> reexecute_loop n E m | r \<Rightarrow> Some r)"

definition reexecute_fuel :: nat where
  "reexecute_fuel = 5"

definition byte_turn :: "'c env \<Rightarrow> 'c machine \<Rightarrow> 'c outcome option" where
  "byte_turn E m =
     (let m = m\<lparr>ch := data E ! pos m\<rparr> in
      case (if PARSING_HEADER (p_state m) then COUNT_HEADER_SIZE E 1 m Break else Break m) of
        Break m \<Rightarrow> reexecute_loop reexecute_fuel E m
      | r \<Rightarrow> Some r)"

text \<open>The callbacks for the marks that are left at the end of the buffer.\<close>

definition all_marks :: "mark list" where
  "all_marks = [M_header_field, M_header_value, M_url, M_body, M_status]"

definition end_of_buffer :: "'c env \<Rightarrow> 'c machine \<Rightarrow> 'c outcome" where
  "end_of_buffer E m =
     (if length (filter (\<lambda>x. marks m x \<noteq> None) all_marks) > 1 then Fault
      else CALLBACK_DATA E M_header_field (pos m) (pos m) m (\<lambda>m.
           CALLBACK_DATA E M_header_value (pos m) (pos m) m (\<lambda>m.
           CALLBACK_DATA E M_url (pos m) (pos m) m (\<lambda>m.
           CALLBACK_DATA E M_body (pos m) (pos m) m (\<lambda>m.
           CALLBACK_DATA E M_status (pos m) (pos m) m (\<lambda>m.
           RETURN (length (data E)) m))))))"

fun run_loop :: "nat \<Rightarrow> 'c env \<Rightarrow> 'c machine \<Rightarrow> 'c outcome option" where
  "run_loop 0 E m = None"
| "run_loop (Suc n) E m =
     (if pos m = length (data E) then Some (end_of_buffer E m)
      else case byte_turn E m of
        Some (Break m) \<Rightarrow> run_loop n E (m\<lparr>pos := pos m + 1\<rparr>)
      | r \<Rightarrow> r)"

section \<open>The function\<close>

datatype 'c result = Returned nat http_parser 'c | Aborted | Out_of_fuel

definition error_exit :: "'c machine \<Rightarrow> 'c outcome" where
  "error_exit m =
     RETURN (pos m) (if http_errno (prs m) = HPE_OK then SET_ERRNO HPE_UNKNOWN m else m)"

definition result_of :: "'c outcome \<Rightarrow> 'c result" where
  "result_of r = (case r of Return n m \<Rightarrow> Returned n (prs m) (user m) | _ \<Rightarrow> Aborted)"

definition initial_marks :: "http_state \<Rightarrow> mark \<Rightarrow> nat option" where
  "initial_marks s x =
     (if (x = M_header_field \<and> s = s_header_field) \<or> (x = M_header_value \<and> s = s_header_value) \<or>
         (x = M_status \<and> s = s_res_status) \<or>
         (x = M_url \<and> s \<in> {s_req_path, s_req_schema, s_req_schema_slash, s_req_schema_slash_slash,
            s_req_server_start, s_req_server, s_req_server_with_at, s_req_query_string_start,
            s_req_query_string, s_req_fragment_start, s_req_fragment})
      then Some 0 else None)"

definition new_machine :: "http_parser \<Rightarrow> 'c \<Rightarrow> 'c machine" where
  "new_machine ps c = \<lparr>prs = ps, p_state = state ps, p_nread = nread ps, pos = 0, ch = NUL,
     marks = initial_marks (state ps), user = c\<rparr>"

definition new_env :: "nat \<Rightarrow> 'c http_parser_settings \<Rightarrow> http_parser \<Rightarrow> string \<Rightarrow> 'c env" where
  "new_env mx S ps d = \<lparr>settings = S, data = d, lenient = lenient_http_headers ps,
     chunked_length = allow_chunked_length ps, max_header_size = mx\<rparr>"

definition execute_eof :: "'c http_parser_settings \<Rightarrow> http_parser \<Rightarrow> 'c \<Rightarrow> 'c result" where
  "execute_eof S ps c =
     (if state ps = s_body_identity_eof then
        result_of (CALLBACK_NOTIFY (on_message_complete S) HPE_CB_message_complete 0
          (new_machine ps c) (\<lambda>m. Return 0 m))
      else if state ps \<in> {s_dead, s_start_req_or_res, s_start_res, s_start_req} then Returned 0 ps c
      else Returned 1 (ps\<lparr>http_errno := HPE_INVALID_EOF_STATE\<rparr>) c)"

definition http_parser_execute :: "nat \<Rightarrow> 'c http_parser_settings \<Rightarrow> http_parser \<Rightarrow> string \<Rightarrow> 'c \<Rightarrow> 'c result" where
  "http_parser_execute mx S ps d c =
     (if http_errno ps \<noteq> HPE_OK then Returned 0 ps c
      else if d = [] then execute_eof S ps c
      else case run_loop (length d + 1) (new_env mx S ps d) (new_machine ps c) of
        None \<Rightarrow> Out_of_fuel
      | Some (Error m) \<Rightarrow> result_of (error_exit m)
      | Some r \<Rightarrow> result_of r)"

definition HTTP_MAX_HEADER_SIZE :: nat where
  "HTTP_MAX_HEADER_SIZE = 80 * 1024"

end
