(* ===== verification/Http_Parser_Safe.thy ===== *)
theory Http_Parser_Safe
  imports Http_Parser
begin

text \<open>
  The invariant of the HTTP parser: what holds of the parser object between two calls of
  \<open>http_parser_execute\<close>, and of the machine between two bytes.  It gives that no assertion of the
  source fails, no read leaves a buffer or a matcher string, a byte is re-executed at most three times,
  and the header byte count stays under its limit.  The interface is the locale \<open>tame_settings\<close>: what
  the parser relies on from the callbacks of its client.
\<close>

section \<open>The callbacks a client may install\<close>

text \<open>
  A callback may pause the parser or fail, and does as it likes with its own data; it leaves the rest
  of the parser object alone.  Only \<open>on_message_complete\<close> may re-initialise the parser, which
  \<open>message.cpp\<close> does (\<open>resets\<close>).
\<close>

definition keeps_parser :: "http_parser \<Rightarrow> http_parser \<Rightarrow> bool" where
  "keeps_parser ps ps' = (ps' = ps\<lparr>http_errno := http_errno ps'\<rparr>)"

definition tame_cb :: "'c http_cb option \<Rightarrow> bool" where
  "tame_cb cb = (\<forall>f ps c r ps' c'. cb = Some f \<longrightarrow> f ps c = (r, ps', c') \<longrightarrow> keeps_parser ps ps')"

definition tame_data_cb :: "'c http_data_cb option \<Rightarrow> bool" where
  "tame_data_cb cb = (\<forall>f s ps c r ps' c'. cb = Some f \<longrightarrow> f s ps c = (r, ps', c') \<longrightarrow> keeps_parser ps ps')"

definition resetting_cb :: "bool \<Rightarrow> 'c http_cb option \<Rightarrow> bool" where
  "resetting_cb resets cb = (\<forall>f ps c r ps' c'. cb = Some f \<longrightarrow> f ps c = (r, ps', c') \<longrightarrow>
     keeps_parser ps ps' \<or> resets \<and> (\<exists>t. ps' = http_parser_init t))"

section \<open>The invariant\<close>

definition field_states :: "header_states set" where
  "field_states = {h_general, h_C, h_CO, h_CON, h_matching_connection, h_matching_proxy_connection,
     h_matching_content_length, h_matching_transfer_encoding, h_matching_upgrade, h_connection,
     h_content_length, h_transfer_encoding, h_upgrade}"

definition chunk_states :: "http_state set" where
  "chunk_states = {s_chunk_size_start, s_chunk_size, s_chunk_parameters, s_chunk_size_almost_done,
     s_chunk_data, s_chunk_data_almost_done, s_chunk_data_done}"

definition parser_inv :: "http_state \<Rightarrow> http_parser \<Rightarrow> bool" where
  "parser_inv s ps \<longleftrightarrow>
     index ps < 32 \<and> status_code ps \<le> 999 \<and> content_length ps \<le> ULLONG_MAX \<and>
     (s = s_req_method \<longrightarrow> index ps \<le> length (method_strings (req_method ps))) \<and>
     (s = s_header_field \<longrightarrow> header_state ps \<in> field_states) \<and>
     (s = s_header_value \<longrightarrow> header_state ps \<noteq> h_connection \<and> header_state ps \<noteq> h_transfer_encoding) \<and>
     (s \<in> chunk_states \<longrightarrow> has_flag (flags ps) F_CHUNKED) \<and>
     (s \<in> {s_chunk_size, s_chunk_parameters, s_chunk_size_almost_done, s_chunk_data, s_body_identity}
        \<longrightarrow> content_length ps \<noteq> ULLONG_MAX) \<and>
     (s \<in> {s_chunk_data, s_body_identity} \<longrightarrow> content_length ps \<noteq> 0) \<and>
     (s = s_chunk_data_almost_done \<longrightarrow> content_length ps = 0)"

text \<open>Between two calls; a parser in an error state is not run again, a paused one is.\<close>

definition parser_ok :: "nat \<Rightarrow> http_parser \<Rightarrow> bool" where
  "parser_ok mx ps \<longleftrightarrow> (http_errno ps \<in> {HPE_OK, HPE_PAUSED} \<longrightarrow>
     parser_inv (state ps) ps \<and> nread ps \<le> mx \<and> (state ps = s_chunk_size_start \<longrightarrow> nread ps = 0))"

definition mark_states :: "mark \<Rightarrow> http_state set" where
  "mark_states x = (case x of
     M_header_field \<Rightarrow> {s_header_field}
   | M_header_value \<Rightarrow> {s_header_value}
   | M_url \<Rightarrow> {s_req_path, s_req_schema, s_req_schema_slash, s_req_schema_slash_slash,
       s_req_server_start, s_req_server, s_req_server_with_at, s_req_query_string_start,
       s_req_query_string, s_req_fragment_start, s_req_fragment}
   | M_body \<Rightarrow> {s_body_identity, s_body_identity_eof, s_chunk_data, s_chunk_data_almost_done}
   | M_status \<Rightarrow> {s_res_status})"

definition marks_inv :: "'c machine \<Rightarrow> bool" where
  "marks_inv m \<longleftrightarrow> (\<forall>x a. marks m x = Some a \<longrightarrow> p_state m \<in> mark_states x \<and> a \<le> pos m)"

text \<open>What a callback may rely on, whatever the marks are.\<close>

definition core_inv :: "'c env \<Rightarrow> 'c machine \<Rightarrow> bool" where
  "core_inv E m \<longleftrightarrow> http_errno (prs m) = HPE_OK \<and> parser_inv (p_state m) (prs m) \<and>
     p_nread m \<le> max_header_size E \<and> nread (prs m) \<le> max_header_size E"

text \<open>\<open>k\<close> is the header byte count at the start of a chunk size: 0 before its byte is counted, then 1.\<close>

definition machine_inv :: "'c env \<Rightarrow> nat \<Rightarrow> 'c machine \<Rightarrow> bool" where
  "machine_inv E k m \<longleftrightarrow> core_inv E m \<and> marks_inv m \<and> (p_state m = s_chunk_size_start \<longrightarrow> p_nread m = k)"

text \<open>How often a byte may still be re-executed.\<close>

definition rank :: "http_state \<Rightarrow> nat" where
  "rank s = (case s of s_start_req_or_res \<Rightarrow> 1 | s_res_status_code \<Rightarrow> 2 | s_res_status_start \<Rightarrow> 1
     | s_header_value_lws \<Rightarrow> 3 | s_header_value_discard_lws \<Rightarrow> 3 | s_header_field_start \<Rightarrow> 2
     | s_headers_almost_done \<Rightarrow> 1 | s_header_value \<Rightarrow> 1 | s_body_identity \<Rightarrow> 1 | _ \<Rightarrow> 0)"

definition good :: "bool \<Rightarrow> 'c env \<Rightarrow> 'c machine \<Rightarrow> 'c outcome \<Rightarrow> bool" where
  "good resets E m0 r = (case r of
     Break m \<Rightarrow> machine_inv E 0 m \<and> pos m0 \<le> pos m \<and> pos m < length (data E)
   | Reexecute m \<Rightarrow> machine_inv E 1 m \<and> pos m0 \<le> pos m \<and> pos m < length (data E) \<and>
       rank (p_state m) < rank (p_state m0)
   | Error m \<Rightarrow> http_errno (prs m) \<notin> {HPE_OK, HPE_PAUSED} \<and> pos m < length (data E)
   | Return n m \<Rightarrow> n \<le> length (data E) \<and> parser_ok (max_header_size E) (prs m) \<and>
       (n = length (data E) \<or> http_errno (prs m) \<noteq> HPE_OK \<or> upgrade (prs m) \<or> resets)
   | Fault \<Rightarrow> False)"

section \<open>The leaving moves\<close>

lemma good_fail:
  "e \<notin> {HPE_OK, HPE_PAUSED} \<Longrightarrow> pos m < length (data E) \<Longrightarrow> good z E m0 (fail e m)"
  by (simp add: good_def fail_def SET_ERRNO_def)

lemma good_strict:
  "(\<not> b \<Longrightarrow> good z E m0 k) \<Longrightarrow> pos m < length (data E) \<Longrightarrow> good z E m0 (STRICT_CHECK b m k)"
  by (simp add: STRICT_CHECK_def good_fail)

lemma good_count:
  assumes "pos m < length (data E)"
    and "\<And>n. n \<le> max_header_size E \<Longrightarrow> good z E m0 (k (m\<lparr>p_nread := n\<rparr>))"
  shows "good z E m0 (COUNT_HEADER_SIZE E v m k)"
  using assms by (simp add: COUNT_HEADER_SIZE_def Let_def good_fail)

lemma parser_inv_errno [simp]:
  "parser_inv s (ps\<lparr>http_errno := e\<rparr>) = parser_inv s ps"
  "parser_inv s (ps\<lparr>nread := n\<rparr>) = parser_inv s ps"
  "parser_inv s (ps\<lparr>state := t\<rparr>) = parser_inv s ps"
  by (simp_all add: parser_inv_def)

lemma parser_inv_init [simp]: "parser_inv (state (http_parser_init t)) (http_parser_init t)"
  by (simp add: http_parser_init_def parser_inv_def chunk_states_def ULLONG_MAX_def split: http_parser_type.split)

lemma init_simps [simp]:
  "http_errno (http_parser_init t) = HPE_OK" "nread (http_parser_init t) = 0"
  "state (http_parser_init t) \<in> {s_start_req, s_start_res, s_start_req_or_res}"
  by (simp_all add: http_parser_init_def split: http_parser_type.split)

lemma init_state_neq [simp]:
  "state (http_parser_init t) \<noteq> s_chunk_size_start"
  by (simp add: http_parser_init_def split: http_parser_type.split)

lemma parser_ok_init: "parser_ok mx (http_parser_init t)"
  by (simp add: parser_ok_def)

lemma good_run_callback:
  assumes f: "\<And>r ps' c'. f ((prs m)\<lparr>state := p_state m\<rparr>) (user m) = (r, ps', c') \<Longrightarrow>
        keeps_parser ((prs m)\<lparr>state := p_state m\<rparr>) ps' \<or> z' \<and> (\<exists>t. ps' = http_parser_init t)"
    and m: "core_inv E m" "p_state m = s_chunk_size_start \<longrightarrow> nread (prs m) = 0 \<and> p_nread m = 0"
    and er: "er \<le> length (data E)" and e: "e \<notin> {HPE_OK, HPE_PAUSED}"
    and k: "\<And>c. good z E m0 (k (m\<lparr>prs := (prs m)\<lparr>state := p_state m\<rparr>, user := c\<rparr>))"
    and reset: "\<And>c t. z' \<Longrightarrow> good z E m0 (k (m\<lparr>prs := http_parser_init t, user := c,
        p_state := state (http_parser_init t)\<rparr>))"
  shows "good z E m0 (run_callback f e er m k)"
proof -
  obtain r ps c where r: "f ((prs m)\<lparr>state := p_state m\<rparr>) (user m) = (r, ps, c)"
    by (metis prod_cases3)
  consider "r \<noteq> 0" | "r = 0" "keeps_parser ((prs m)\<lparr>state := p_state m\<rparr>) ps" "http_errno ps = HPE_OK"
    | "r = 0" "keeps_parser ((prs m)\<lparr>state := p_state m\<rparr>) ps" "http_errno ps \<noteq> HPE_OK"
    | t where "r = 0" "z'" "ps = http_parser_init t"
    using f [OF r] by blast
  then show ?thesis
  proof cases
    case 1
    with r e er show ?thesis
      by (simp add: run_callback_def good_def SET_ERRNO_def parser_ok_def)
  next
    case 2
    then have "ps = (prs m)\<lparr>state := p_state m\<rparr>"
      using m by (cases "prs m") (simp add: keeps_parser_def core_inv_def)
    with 2 r k [of c] show ?thesis by (simp add: run_callback_def)
  next
    case 3
    then obtain e' where "ps = (prs m)\<lparr>state := p_state m, http_errno := e'\<rparr>" "e' \<noteq> HPE_OK"
      by (auto simp: keeps_parser_def)
    with 3 r m er show ?thesis
      by (simp add: run_callback_def good_def parser_ok_def core_inv_def)
  next
    case 4
    with r reset [of t c] show ?thesis by (simp add: run_callback_def)
  qed
qed

lemma good_notify:
  assumes "tame_cb cb" and "core_inv E m" "p_state m = s_chunk_size_start \<longrightarrow> nread (prs m) = 0 \<and> p_nread m = 0"
    and "er \<le> length (data E)" and "e \<notin> {HPE_OK, HPE_PAUSED}"
    and "\<And>ps c. ps = prs m \<or> ps = (prs m)\<lparr>state := p_state m\<rparr> \<Longrightarrow> good z E m0 (k (m\<lparr>prs := ps, user := c\<rparr>))"
  shows "good z E m0 (CALLBACK_NOTIFY cb e er m k)"
proof (cases cb)
  case None
  then show ?thesis using assms(2) assms(6) [of "prs m" "user m"] by (simp add: CALLBACK_NOTIFY_def core_inv_def)
next
  case (Some f)
  have "good z E m0 (run_callback f e er m k)"
  proof (rule good_run_callback [where z' = False], goal_cases)
    case (1 r ps' c')
    with assms(1) Some show ?case unfolding tame_cb_def by blast
  qed (use assms in auto)
  with Some assms(2) show ?thesis by (simp add: CALLBACK_NOTIFY_def core_inv_def)
qed

lemma good_complete:
  assumes "resetting_cb z (on_message_complete (settings E))"
    and "core_inv E (UPDATE_STATE (NEW_MESSAGE (prs m)) m)" and "pos m < length (data E)"
    and "\<And>ps c s. parser_inv s ps \<Longrightarrow> http_errno ps = HPE_OK \<Longrightarrow> nread ps \<le> max_header_size E \<Longrightarrow>
           s \<in> {s_dead, s_start_req, s_start_res, s_start_req_or_res} \<Longrightarrow> upgrade ps = upgrade (prs m) \<or> z
           \<Longrightarrow> good z E m0 (k (m\<lparr>prs := ps, user := c, p_state := s\<rparr>))"
  shows "good z E m0 (message_complete E m k)"
proof -
  let ?m = "UPDATE_STATE (NEW_MESSAGE (prs m)) m"
  have new: "NEW_MESSAGE (prs m) \<in> {s_dead, s_start_req, s_start_res}"
    by (simp add: NEW_MESSAGE_def start_state_def)
  have keep: "good z E m0 (k (?m\<lparr>prs := ps, user := c\<rparr>))"
    if "ps = prs m \<or> ps = (prs m)\<lparr>state := NEW_MESSAGE (prs m)\<rparr>" for ps c
  proof -
    have "good z E m0 (k (m\<lparr>prs := ps, user := c, p_state := NEW_MESSAGE (prs m)\<rparr>))"
      by (rule assms(4)) (use that new assms(2) in \<open>auto simp: core_inv_def\<close>)
    moreover have "?m\<lparr>prs := ps, user := c\<rparr> = m\<lparr>prs := ps, user := c, p_state := NEW_MESSAGE (prs m)\<rparr>"
      by simp
    ultimately show ?thesis by (simp only:)
  qed
  show ?thesis
  proof (cases "on_message_complete (settings E)")
    case None
    then show ?thesis
      using assms(2) keep [of "prs m" "user m"] by (simp add: message_complete_def CALLBACK_NOTIFY_def core_inv_def)
  next
    case (Some f)
    have "good z E m0 (run_callback f HPE_CB_message_complete (pos m + 1) ?m k)"
    proof (rule good_run_callback [where z' = z], goal_cases)
      case (1 r ps' c')
      with assms(1) Some show ?case unfolding resetting_cb_def by blast
    next
      case 7
      then show ?case using assms(4) [of "state (http_parser_init t)" "http_parser_init t" for t] init_simps(3) by simp
    qed (use assms new keep in auto)
    with Some assms(2) show ?thesis by (simp add: message_complete_def CALLBACK_NOTIFY_def core_inv_def)
  qed
qed

lemma good_data:
  assumes cb: "tame_data_cb (data_callback (settings E) x)"
    and m: "core_inv E m" "p_state m \<noteq> s_chunk_size_start"
    and mark: "\<And>a. marks m x = Some a \<Longrightarrow> a \<le> stop" and stop: "stop \<le> length (data E)" and er: "er \<le> length (data E)"
    and k: "\<And>ps c. ps = prs m \<or> ps = (prs m)\<lparr>state := p_state m\<rparr> \<Longrightarrow>
        good z E m0 (k (m\<lparr>prs := ps, user := c, marks := (marks m)(x := None)\<rparr>))"
  shows "good z E m0 (CALLBACK_DATA E x stop er m k)"
proof (cases "marks m x")
  case None
  then have "m\<lparr>marks := (marks m)(x := None)\<rparr> = m" by (simp add: fun_upd_idem)
  with None m k [of "prs m" "user m"] show ?thesis by (simp add: CALLBACK_DATA_def core_inv_def)
next
  case (Some a)
  show ?thesis
  proof (cases "data_callback (settings E) x")
    case None
    then show ?thesis
      using Some m mark [of a] stop k [of "prs m" "user m"]
      by (simp add: CALLBACK_DATA_def core_inv_def clear_mark_def)
  next
    case (Some f)
    let ?s = "take (stop - a) (drop a (data E))"
    have "good z E m0 (run_callback (f ?s) (data_errno x) er m (\<lambda>m. k (clear_mark x m)))"
    proof (rule good_run_callback [where z' = False], goal_cases)
      case (1 r ps' c')
      with cb Some show ?case unfolding tame_data_cb_def by blast
    next
      case 5
      show ?case by (simp add: data_errno_def split: mark.split)
    qed (use m er k in \<open>auto simp: clear_mark_def\<close>)
    with Some \<open>marks m x = Some a\<close> m mark [of a] stop show ?thesis
      by (simp add: CALLBACK_DATA_def core_inv_def)
  qed
qed

section \<open>The interface to the client\<close>

locale tame_settings =
  fixes S :: "'c http_parser_settings" and resets :: bool
  assumes tame_begin: "tame_cb (on_message_begin S)"
    and tame_headers: "tame_cb (on_headers_complete S)"
    and tame_chunk_header: "tame_cb (on_chunk_header S)"
    and tame_chunk_complete: "tame_cb (on_chunk_complete S)"
    and tame_data: "tame_data_cb (data_callback S x)"
    and tame_complete: "resetting_cb resets (on_message_complete S)"

locale tame_run = tame_settings "settings E" resets for E :: "'c env" and resets :: bool

lemma all_mark: "(\<forall>x. P x) \<longleftrightarrow>
    P M_header_field \<and> P M_header_value \<and> P M_url \<and> P M_body \<and> P M_status"
  by (metis mark.exhaust)

lemma good_simps [simp]:
  "good z E m0 (Break m) \<longleftrightarrow> machine_inv E 0 m \<and> pos m0 \<le> pos m \<and> pos m < length (data E)"
  "good z E m0 (Reexecute m) \<longleftrightarrow> machine_inv E 1 m \<and> pos m0 \<le> pos m \<and> pos m < length (data E) \<and>
     rank (p_state m) < rank (p_state m0)"
  "\<not> good z E m0 Fault"
  by (simp_all add: good_def)

lemmas inv_defs = machine_inv_def core_inv_def marks_inv_def all_mark mark_states_def parser_inv_def
  chunk_states_def rank_def MARK_def

lemma has_flag_set [simp]: "has_flag fl f \<Longrightarrow> has_flag (set_flag g fl) f"
  by (simp add: has_flag_bit set_flag_def bit_or_iff)

lemma digit_of_le: "IS_NUM c \<Longrightarrow> digit_of c \<le> 9"
  by (simp add: IS_NUM_def digit_of_def less_eq_char_def) linarith

lemma ullong_small: "n < 100 \<Longrightarrow> n < ULLONG_MAX" "n < 100 \<Longrightarrow> n \<le> ULLONG_MAX"
  by (simp_all add: ULLONG_MAX_def)

lemma method_strings_length: "length (method_strings y) \<le> 11"
  by (cases y) simp_all

lemma method_turns_in_bounds:
  "map_of method_turns (x, i, c) = Some y \<Longrightarrow> i < length (method_strings y)"
  by (drule map_of_SomeD) (auto simp: method_turns_def)

text \<open>States without a condition of their own, and states in which no mark is set.\<close>

definition plain :: "http_state \<Rightarrow> bool" where
  "plain s \<longleftrightarrow> s \<notin> {s_req_method, s_header_field, s_header_value, s_body_identity} \<and> s \<notin> chunk_states"

definition unmarked :: "http_state \<Rightarrow> bool" where
  "unmarked s \<longleftrightarrow> (\<forall>x. s \<notin> mark_states x)"

lemma plain_inv: "plain s \<Longrightarrow> parser_inv s ps \<longleftrightarrow>
    index ps < 32 \<and> status_code ps \<le> 999 \<and> content_length ps \<le> ULLONG_MAX"
  by (auto simp: plain_def parser_inv_def chunk_states_def)

lemma plain_not_chunk: "plain s \<Longrightarrow> s \<noteq> s_chunk_size_start"
  by (auto simp: plain_def chunk_states_def)

lemma parser_inv_basic: "parser_inv s ps \<Longrightarrow>
    index ps < 32 \<and> status_code ps \<le> 999 \<and> content_length ps \<le> ULLONG_MAX"
  by (simp add: parser_inv_def)

lemma unmarked_marks: "marks_inv m \<Longrightarrow> unmarked (p_state m) \<Longrightarrow> marks m x = None"
  by (cases "marks m x") (auto simp: marks_inv_def unmarked_def)

lemma core_goto_plain:
  "core_inv E m \<Longrightarrow> plain s \<Longrightarrow> core_inv E (m\<lparr>p_state := s\<rparr>)"
  using parser_inv_basic by (auto simp: core_inv_def plain_inv)

lemma marks_goto_unmarked:
  "marks_inv m \<Longrightarrow> unmarked (p_state m) \<Longrightarrow> marks_inv (m\<lparr>p_state := s\<rparr>)"
  using unmarked_marks by (fastforce simp: marks_inv_def)

lemma machine_goto_plain:
  "machine_inv E k m \<Longrightarrow> unmarked (p_state m) \<Longrightarrow> plain s \<Longrightarrow> machine_inv E k' (m\<lparr>p_state := s\<rparr>)"
  by (simp add: machine_inv_def core_goto_plain marks_goto_unmarked plain_not_chunk)

text \<open>An update of the parser object that the invariant of the state tolerates.\<close>

lemma machine_upd:
  "machine_inv E k m \<Longrightarrow> parser_inv (p_state m) ps \<Longrightarrow> http_errno ps = HPE_OK \<Longrightarrow>
    nread ps \<le> max_header_size E \<Longrightarrow> machine_inv E k (m\<lparr>prs := ps\<rparr>)"
  by (simp add: machine_inv_def core_inv_def marks_inv_def)

lemma machine_any: "machine_inv E k m \<Longrightarrow> p_state m \<noteq> s_chunk_size_start \<Longrightarrow> machine_inv E k' m"
  by (simp add: machine_inv_def)

lemma machine_invD:
  assumes "machine_inv E k m"
  shows "http_errno (prs m) = HPE_OK" "nread (prs m) \<le> max_header_size E" "p_nread m \<le> max_header_size E"
    "index (prs m) < 32" "status_code (prs m) \<le> 999" "content_length (prs m) \<le> ULLONG_MAX"
    "parser_inv (p_state m) (prs m)" "core_inv E m" "marks_inv m"
  using assms parser_inv_basic by (auto simp: machine_inv_def core_inv_def)

lemma plain_simps [simp]:
  "plain s_dead" "plain s_start_req_or_res" "plain s_res_or_resp_H" "plain s_start_res"
  "plain s_res_H" "plain s_res_HT" "plain s_res_HTT" "plain s_res_HTTP" "plain s_res_http_major"
  "plain s_res_http_dot" "plain s_res_http_minor" "plain s_res_http_end"
  "plain s_res_first_status_code" "plain s_res_status_code" "plain s_res_status_start"
  "plain s_res_status" "plain s_res_line_almost_done" "plain s_start_req"
  "plain s_req_spaces_before_url" "plain s_req_schema" "plain s_req_schema_slash"
  "plain s_req_schema_slash_slash" "plain s_req_server_start" "plain s_req_server"
  "plain s_req_server_with_at" "plain s_req_path" "plain s_req_query_string_start"
  "plain s_req_query_string" "plain s_req_fragment_start" "plain s_req_fragment"
  "plain s_req_http_start" "plain s_req_http_H" "plain s_req_http_HT" "plain s_req_http_HTT"
  "plain s_req_http_HTTP" "plain s_req_http_I" "plain s_req_http_IC" "plain s_req_http_major"
  "plain s_req_http_dot" "plain s_req_http_minor" "plain s_req_http_end"
  "plain s_req_line_almost_done" "plain s_header_field_start" "plain s_header_value_discard_ws"
  "plain s_header_value_discard_ws_almost_done" "plain s_header_value_discard_lws"
  "plain s_header_value_start" "plain s_header_value_lws" "plain s_header_almost_done"
  "plain s_headers_almost_done" "plain s_headers_done" "plain s_body_identity_eof"
  "plain s_message_done"
  by (simp_all add: plain_def chunk_states_def)

lemma unmarked_simps [simp]:
  "unmarked s_dead" "unmarked s_start_req_or_res" "unmarked s_res_or_resp_H" "unmarked s_start_res"
  "unmarked s_res_H" "unmarked s_res_HT" "unmarked s_res_HTT" "unmarked s_res_HTTP"
  "unmarked s_res_http_major" "unmarked s_res_http_dot" "unmarked s_res_http_minor"
  "unmarked s_res_http_end" "unmarked s_res_first_status_code" "unmarked s_res_status_code"
  "unmarked s_res_status_start" "unmarked s_res_line_almost_done" "unmarked s_start_req"
  "unmarked s_req_method" "unmarked s_req_spaces_before_url" "unmarked s_req_http_start"
  "unmarked s_req_http_H" "unmarked s_req_http_HT" "unmarked s_req_http_HTT"
  "unmarked s_req_http_HTTP" "unmarked s_req_http_I" "unmarked s_req_http_IC"
  "unmarked s_req_http_major" "unmarked s_req_http_dot" "unmarked s_req_http_minor"
  "unmarked s_req_http_end" "unmarked s_req_line_almost_done" "unmarked s_header_field_start"
  "unmarked s_header_value_discard_ws" "unmarked s_header_value_discard_ws_almost_done"
  "unmarked s_header_value_discard_lws" "unmarked s_header_value_start"
  "unmarked s_header_value_lws" "unmarked s_header_almost_done" "unmarked s_chunk_size_start"
  "unmarked s_chunk_size" "unmarked s_chunk_parameters" "unmarked s_chunk_size_almost_done"
  "unmarked s_headers_almost_done" "unmarked s_headers_done" "unmarked s_chunk_data_done"
  "unmarked s_message_done"
  by (simp_all add: unmarked_def mark_states_def all_mark)

lemma machine_goto_upd:
  assumes "machine_inv E k m" "unmarked (p_state m)" "plain s" "http_errno ps = HPE_OK"
    "nread ps \<le> max_header_size E" "index ps < 32" "status_code ps \<le> 999" "content_length ps \<le> ULLONG_MAX"
  shows "machine_inv E k' (m\<lparr>prs := ps, p_state := s\<rparr>)"
proof -
  have "machine_inv E k' (m\<lparr>p_state := s, prs := ps\<rparr>)"
    using machine_upd [OF machine_goto_plain [OF assms(1-3), of k'], of ps] assms
    by (simp add: plain_inv)
  moreover have "m\<lparr>p_state := s, prs := ps\<rparr> = m\<lparr>prs := ps, p_state := s\<rparr>" by simp
  ultimately show ?thesis by (simp only:)
qed

context tame_run
begin

lemma good_expect:
  assumes "machine_inv E 1 m" "pos m < length (data E)" "unmarked (p_state m)" "plain s"
  shows "good resets E m (expect c s m)"
  unfolding expect_def by (rule good_strict) (use assms machine_goto_plain in auto)

lemma good_start_states:
  assumes "machine_inv E 1 m" "pos m < length (data E)"
  shows "p_state m = s_dead \<Longrightarrow> good resets E m (step_dead m)"
    and "p_state m = s_start_req_or_res \<Longrightarrow> good resets E m (step_start_req_or_res E m)"
    and "p_state m = s_res_or_resp_H \<Longrightarrow> good resets E m (step_res_or_resp_H m)"
    and "p_state m = s_start_res \<Longrightarrow> good resets E m (step_start_res E m)"
  using assms tame_begin
  by (auto intro!: good_fail good_notify
      simp: step_dead_def step_start_req_or_res_def step_res_or_resp_H_def step_start_res_def Let_def
        inv_defs reset_message_def)

lemma good_version:
  assumes m: "machine_inv E 1 m" "pos m < length (data E)" "unmarked (p_state m)" 
  shows "plain s \<Longrightarrow> good resets E m (step_http_major s m)"
    and "plain s \<Longrightarrow> good resets E m (step_http_minor s m)"
  using assms machine_invD(1-6) [OF m(1)]
  by (auto intro!: good_fail machine_goto_upd simp: step_http_major_def step_http_minor_def)

lemma good_request_end:
  assumes m: "machine_inv E 1 m" "pos m < length (data E)" "unmarked (p_state m)" 
  shows "plain s \<Longrightarrow> good resets E m (step_http_dot s m)"
    and "good resets E m (step_res_http_end m)"
    and "good resets E m (step_req_http_end m)"
    and "good resets E m (step_req_line_almost_done m)"
    and "good resets E m (step_header_almost_done m)"
  using assms machine_goto_plain [OF m(1,3)]
  by (auto intro!: good_fail simp: step_http_dot_def step_header_almost_done_def
      step_res_http_end_def step_req_http_end_def step_req_line_almost_done_def)

lemma good_status:
  assumes m: "machine_inv E 1 m" "pos m < length (data E)"
  shows "p_state m = s_res_first_status_code \<Longrightarrow> good resets E m (step_res_first_status_code m)"
    and "p_state m = s_req_http_start \<Longrightarrow> good resets E m (step_req_http_start m)"
    and "p_state m = s_res_status_code \<Longrightarrow> good resets E m (step_res_status_code m)"
    and "p_state m = s_res_status_start \<Longrightarrow> good resets E m (step_res_status_start m)"
  using assms digit_of_le [of "ch m"]
  by (auto intro!: good_fail split: if_splits simp: step_res_first_status_code_def step_req_http_start_def
      step_res_status_code_def step_res_status_start_def Let_def inv_defs)

lemma good_res_status:
  assumes m: "machine_inv E 1 m" "pos m < length (data E)"
  shows "p_state m = s_res_status \<Longrightarrow> good resets E m (step_res_status E m)"
  using assms tame_data [of M_status]
  by (auto intro!: good_data simp: step_res_status_def inv_defs)

lemma good_start_req:
  assumes m: "machine_inv E 1 m" "pos m < length (data E)"
  shows "p_state m = s_start_req \<Longrightarrow> good resets E m (step_start_req E m)"
  using assms tame_begin
  by (auto intro!: good_fail good_notify split: option.split
      simp: step_start_req_def Let_def inv_defs reset_message_def first_method_def)

lemma good_req_method:
  assumes m: "machine_inv E 1 m" "pos m < length (data E)" and st: "p_state m = s_req_method"
  shows "good resets E m (step_req_method m)"
proof -
  let ?ps = "prs m"
  have bound: "index ?ps \<le> length (method_strings (req_method ?ps))"
    using machine_invD(7) [OF m(1)] st by (simp add: parser_inv_def)
  then obtain x where x: "c_string_at (method_strings (req_method ?ps)) (index ?ps) = Some x"
    by (auto simp: c_string_at_def rd_def)
  have stay: "good resets E m (Break (m\<lparr>prs := inc_index (?ps\<lparr>req_method := y\<rparr>)\<rparr>))"
    if "index ?ps < length (method_strings y)" for y
    using m st that method_strings_length [of y] machine_any [OF m(1), of 0]
    by (auto intro!: machine_upd simp: machine_invD parser_inv_def chunk_states_def inc_index_def)
  have same: "?ps\<lparr>req_method := req_method ?ps\<rparr> = ?ps" by simp
  have "good resets E m (Break (m\<lparr>prs := inc_index ?ps\<rparr>))" if "ch m = x" "ch m \<noteq> NUL"
    using stay [of "req_method ?ps"] x bound that unfolding same
    by (auto simp: c_string_at_def rd_def nth_append split: if_splits)
  moreover have "good resets E m (Break (m\<lparr>p_state := s_req_spaces_before_url, prs := inc_index ?ps\<rparr>))"
    using m st by (auto simp: inv_defs inc_index_def)
  moreover have "good resets E m (Break (m\<lparr>prs := inc_index (?ps\<lparr>req_method := y\<rparr>)\<rparr>))"
    if "map_of method_turns (req_method ?ps, index ?ps, ch m) = Some y" for y
    using stay [OF method_turns_in_bounds [OF that]] .
  ultimately show ?thesis
    using x m(2) unfolding step_req_method_def
    by (auto simp del: good_simps intro!: good_fail split: option.split)
qed

lemma parse_url_char_states:
  "parse_url_char s c \<in> {s_dead} \<union> mark_states M_url"
  by (cases s) (simp_all add: parse_url_char_def mark_states_def)

lemma good_url_char:
  assumes "core_inv E m" "marks_inv (m\<lparr>p_state := s_req_path\<rparr>)" "pos m < length (data E)"
    "pos m0 \<le> pos m"
  shows "good resets E m0 (url_char m)"
proof (cases "parse_url_char (p_state m) (ch m) = s_dead")
  case True
  then show ?thesis using assms by (auto simp: url_char_def Let_def intro!: good_fail)
next
  case False
  then have s: "parse_url_char (p_state m) (ch m) \<in> mark_states M_url"
    using parse_url_char_states by blast
  then have "plain (parse_url_char (p_state m) (ch m))"
    by (auto simp: mark_states_def)
  with s False assms show ?thesis
    by (auto simp: url_char_def machine_inv_def core_goto_plain marks_inv_def all_mark plain_not_chunk
        mark_states_def)
qed

lemma good_req_url:
  assumes m: "machine_inv E 1 m" "pos m < length (data E)"
  shows "p_state m = s_req_spaces_before_url \<Longrightarrow> good resets E m (step_req_spaces_before_url m)"
    and "p_state m \<in> mark_states M_url \<Longrightarrow> good resets E m (step_req_schema m)"
    and "p_state m \<in> mark_states M_url \<Longrightarrow> good resets E m (step_req_url E m)"
proof -
  show "good resets E m (step_req_spaces_before_url m)" if st: "p_state m = s_req_spaces_before_url"
  proof -
    have marks: "marks m x = None" for x
      using unmarked_marks [of m x] machine_invD(9) [OF m(1)] st by simp
    have "good resets E m (url_char (m\<lparr>marks := (marks m)(M_url := Some (pos m))\<rparr>))"
      by (rule good_url_char) (use m marks in \<open>auto simp: machine_invD core_inv_def marks_inv_def mark_states_def\<close>)
    moreover have "good resets E m (url_char (m\<lparr>marks := (marks m)(M_url := Some (pos m)),
        p_state := s_req_server_start\<rparr>))"
      by (rule good_url_char) (use m marks core_goto_plain [OF machine_invD(8) [OF m(1)], of s_req_server_start]
          in \<open>auto simp: core_inv_def marks_inv_def mark_states_def\<close>)
    ultimately show ?thesis
      using m st marks machine_any [OF m(1), of 0]
      by (simp add: step_req_spaces_before_url_def MARK_def Let_def)
  qed
next
  assume st: "p_state m \<in> mark_states M_url"
  have marks: "marks_inv (m\<lparr>p_state := s_req_path\<rparr>)"
    using machine_invD(9) [OF m(1)] st by (auto simp: marks_inv_def all_mark mark_states_def)
  have url: "good resets E m (url_char m)"
    by (rule good_url_char) (use m marks in \<open>auto simp: machine_invD\<close>)
  then show "good resets E m (step_req_schema m)"
    using m(2) by (auto simp: step_req_schema_def intro!: good_fail)
  have "marks m M_header_field = None \<and> marks m M_header_value = None \<and> marks m M_body = None \<and>
      marks m M_status = None \<and> (\<forall>a. marks m M_url = Some a \<longrightarrow> a \<le> pos m)"
    using machine_invD(9) [OF m(1)] st by (auto simp: marks_inv_def all_mark mark_states_def)
  with url show "good resets E m (step_req_url E m)"
    using m(2) tame_data [of M_url] machine_invD(1-6) [OF m(1)]
    by (auto intro!: good_data simp: step_req_url_def machine_inv_def core_inv_def plain_inv marks_inv_def all_mark)
qed

end
end
