(* ===== verification/Http_Parser_Steps.thy ===== *)
theory Http_Parser_Steps
  imports Http_Parser_Safe
begin

text \<open>
  Every \<open>case\<close> of the \<open>switch\<close> keeps the invariant of \<open>Http_Parser_Safe\<close>: the header names and values,
  the end of the headers, the bodies.  The lemmas of the locale \<open>tame_run\<close> have one shape: from the
  invariant in the state of the case, the outcome of its handler is \<open>good\<close>.
\<close>

section \<open>Header fields and values\<close>

lemma match_index_total:
  "\<exists>h i. match_index name c stay mis full ps = Some (h, ps\<lparr>index := i\<rparr>) \<and> i < 32 \<and> h \<in> {stay, mis, full}"
  by (auto simp: match_index_def Let_def c_string_at_def rd_def inc_index_def)

text \<open>What matching a header name leaves alone in the parser object.\<close>

definition field_rel :: "http_parser \<Rightarrow> http_parser \<Rightarrow> bool" where
  "field_rel ps ps' \<longleftrightarrow> http_errno ps' = http_errno ps \<and> nread ps' = nread ps \<and>
     status_code ps' = status_code ps \<and> content_length ps' = content_length ps \<and>
     header_state ps' \<in> field_states \<and> index ps' < 32"

lemma field_states_simps [simp]:
  "h_general \<in> field_states" "h_C \<in> field_states" "h_CO \<in> field_states" "h_CON \<in> field_states"
  "h_matching_connection \<in> field_states" "h_matching_proxy_connection \<in> field_states"
  "h_matching_content_length \<in> field_states" "h_matching_transfer_encoding \<in> field_states"
  "h_matching_upgrade \<in> field_states" "h_connection \<in> field_states" "h_content_length \<in> field_states"
  "h_transfer_encoding \<in> field_states" "h_upgrade \<in> field_states"
  by (simp_all add: field_states_def)

lemma field_rel_simps:
  "header_state ps \<in> field_states \<Longrightarrow> index ps < 32 \<Longrightarrow> field_rel ps ps"
  "h \<in> field_states \<Longrightarrow> field_rel ps ((inc_index ps)\<lparr>header_state := h\<rparr>)"
  "h \<in> field_states \<Longrightarrow> index ps < 32 \<Longrightarrow> field_rel ps (ps\<lparr>header_state := h\<rparr>)"
  "h \<in> field_states \<Longrightarrow> i < 32 \<Longrightarrow> field_rel ps (ps\<lparr>index := i, header_state := h\<rparr>)"
  "field_rel ps ps' \<Longrightarrow> field_rel ps (ps'\<lparr>uses_transfer_encoding := u\<rparr>)"
  by (simp_all add: field_rel_def inc_index_def)

lemma field_match_total:
  assumes "stay \<in> field_states" "full \<in> field_states"
  shows "\<exists>ps'. field_match name c stay full ps = Some ps' \<and> field_rel ps ps'"
  using assms match_index_total [of name c stay h_general full ps]
  by (auto simp: field_match_def field_rel_simps)

lemma header_field_char_total:
  assumes "header_state ps \<in> field_states" "header_state ps \<noteq> h_general" "index ps < 32"
  shows "\<exists>ps'. header_field_char b c ps = Some ps' \<and> field_rel ps ps'"
proof -
  have te: "\<exists>ps'. map_option (\<lambda>ps. if header_state ps = h_transfer_encoding
              then ps\<lparr>uses_transfer_encoding := True\<rparr> else ps)
         (field_match name c h_matching_transfer_encoding h_transfer_encoding ps) = Some ps' \<and> field_rel ps ps'"
    for name
  proof -
    obtain ps' where "field_match name c h_matching_transfer_encoding h_transfer_encoding ps = Some ps'"
        "field_rel ps ps'"
      using field_match_total [of h_matching_transfer_encoding h_transfer_encoding name c ps] by auto
    then show ?thesis by (simp add: field_rel_simps)
  qed
  have "header_state ps \<in> field_states \<Longrightarrow> field_rel ps ps" using assms by (simp add: field_rel_simps)
  then show ?thesis
    using assms te [of "''transfer-encoding''"]
    unfolding header_field_char_def
    by (cases "header_state ps") (simp_all add: field_match_total field_rel_simps, simp_all add: field_states_def)
qed

lemma header_field_loop_total:
  "header_state (prs m) \<in> field_states \<Longrightarrow> index (prs m) < 32 \<Longrightarrow> pos m \<le> length (data E) \<Longrightarrow>
   \<exists>m'. header_field_loop E m = Some m' \<and> field_rel (prs m) (prs m') \<and> p_state m' = p_state m \<and>
     p_nread m' = p_nread m \<and> marks m' = marks m \<and> user m' = user m \<and> pos m \<le> pos m' \<and> pos m' \<le> length (data E)"
proof (induction E m rule: header_field_loop.induct)
  case (1 E m)
  show ?case
  proof (cases "pos m < length (data E)")
    case False
    then show ?thesis
      using "1.prems" by (subst header_field_loop.simps) (simp add: field_rel_def)
  next
    case True
    let ?m = "m\<lparr>ch := data E ! pos m\<rparr>"
    let ?q = "skip_tokens (data E) (pos m + min (length (data E) - pos m) (max_header_size E)) (pos m)"
    consider "TOKEN (ch ?m) = NUL" | "TOKEN (ch ?m) \<noteq> NUL" "header_state (prs m) = h_general"
      | "TOKEN (ch ?m) \<noteq> NUL" "header_state (prs m) \<noteq> h_general" by blast
    then show ?thesis
    proof cases
      case 1
      with True "1.prems" show ?thesis
        by (subst header_field_loop.simps) (simp add: field_rel_def)
    next
      case 2
      have "pos m \<le> ?q" "?q < length (data E)"
        using True by (auto intro!: skip_tokens_ge skip_tokens_less)
      with 2 True "1.prems" "1.IH"(1) [OF True refl refl] show ?thesis
        by (subst header_field_loop.simps) (auto simp: Let_def)
    next
      case 3
      then obtain ps where ps: "header_field_char (data E ! pos m) (TOKEN (data E ! pos m)) (prs m) = Some ps"
          "field_rel (prs m) ps"
        using header_field_char_total "1.prems"(1,2) by blast
      with 3 True "1.prems" "1.IH"(2) [OF True refl refl _ _ _ , of ps] show ?thesis
        by (subst header_field_loop.simps) (auto simp: Let_def field_rel_def)
    qed
  qed
qed

context tame_run
begin

lemma good_header_field_start:
  assumes m: "machine_inv E 1 m" "pos m < length (data E)" and st: "p_state m = s_header_field_start"
  shows "good resets E m (step_header_field_start m)"
  using m st
  by (auto simp: step_header_field_start_def Let_def inv_defs intro!: good_fail)

lemma good_header_field:
  assumes m: "machine_inv E 1 m" "pos m < length (data E)" and st: "p_state m = s_header_field"
  shows "good resets E m (step_header_field E m)"
proof -
  have hs: "header_state (prs m) \<in> field_states"
    using machine_invD(7) [OF m(1)] st by (simp add: parser_inv_def)
  obtain m' where m': "header_field_loop E m = Some m'" "field_rel (prs m) (prs m')" "p_state m' = p_state m"
      "p_nread m' = p_nread m" "marks m' = marks m" "pos m \<le> pos m'" "pos m' \<le> length (data E)"
    using header_field_loop_total [OF hs machine_invD(4) [OF m(1)]] m(2) by (meson less_imp_le)
  have inv: "index (prs m') < 32" "status_code (prs m') \<le> 999" "content_length (prs m') \<le> ULLONG_MAX"
      "http_errno (prs m') = HPE_OK" "nread (prs m') \<le> max_header_size E" "header_state (prs m') \<in> field_states"
    using m'(2) machine_invD [OF m(1)] by (auto simp: field_rel_def)
  have marks: "marks m' M_header_value = None \<and> marks m' M_url = None \<and> marks m' M_body = None \<and>
      marks m' M_status = None \<and> (\<forall>a. marks m' M_header_field = Some a \<longrightarrow> a \<le> pos m)"
    using machine_invD(9) [OF m(1)] st m'(5) by (auto simp: marks_inv_def all_mark mark_states_def)
  show ?thesis
  proof (cases "pos m' = length (data E)")
    case True
    with m m' inv marks st show ?thesis
      by (auto simp: step_header_field_def Let_def machine_inv_def core_inv_def marks_inv_def all_mark
          mark_states_def parser_inv_def chunk_states_def intro!: good_count)
  next
    case False
    with m' inv marks st tame_data [of M_header_field] show ?thesis
      by (auto simp: step_header_field_def machine_inv_def core_inv_def marks_inv_def all_mark
          plain_inv intro!: good_count good_data good_fail)
  qed
qed

end

text \<open>The same for a header value; the two states that \<open>s_header_value\<close> excludes are never entered.\<close>

definition value_rel :: "http_parser \<Rightarrow> http_parser \<Rightarrow> bool" where
  "value_rel ps ps' \<longleftrightarrow> http_errno ps' = http_errno ps \<and> nread ps' = nread ps \<and>
     status_code ps' = status_code ps \<and> content_length ps' \<le> ULLONG_MAX \<and> index ps' < 32"

definition value_state :: "header_states \<Rightarrow> bool" where
  "value_state h \<longleftrightarrow> h \<noteq> h_connection \<and> h \<noteq> h_transfer_encoding"

definition value_turn_ok :: "http_parser \<Rightarrow> value_turn \<Rightarrow> bool" where
  "value_turn_ok ps r = (case r of
     V_go h ps' \<Rightarrow> value_state h \<and> value_rel ps ps'
   | V_error e ps' \<Rightarrow> e = HPE_INVALID_CONTENT_LENGTH
   | V_assert \<Rightarrow> False)"

lemma value_rel_simps:
  "content_length ps \<le> ULLONG_MAX \<Longrightarrow> index ps < 32 \<Longrightarrow> value_rel ps ps"
  "content_length ps \<le> ULLONG_MAX \<Longrightarrow> i < 32 \<Longrightarrow> value_rel ps (ps\<lparr>index := i\<rparr>)"
  "content_length ps \<le> ULLONG_MAX \<Longrightarrow> i < 32 \<Longrightarrow> value_rel ps (ps\<lparr>flags := fl, index := i\<rparr>)"
  "n \<le> ULLONG_MAX \<Longrightarrow> index ps < 32 \<Longrightarrow> value_rel ps (ps\<lparr>content_length := n\<rparr>)"
  by (simp_all add: value_rel_def)

lemma value_match_ok:
  assumes "value_state stay" "value_state mis" "value_state full" "content_length ps \<le> ULLONG_MAX"
  shows "value_turn_ok ps (value_match name c stay mis full ps)"
  using assms match_index_total [of name c stay mis full ps]
  by (auto simp: value_match_def value_turn_ok_def value_rel_simps)

lemma mod_le_ullong: "n mod 18446744073709551616 \<le> ULLONG_MAX"
proof -
  have "n mod 18446744073709551616 < 18446744073709551616" by simp
  then show ?thesis unfolding ULLONG_MAX_def by simp
qed

lemma value_content_length_ok:
  "index ps < 32 \<Longrightarrow> content_length ps \<le> ULLONG_MAX \<Longrightarrow> value_turn_ok ps (value_content_length b ps)"
  by (auto simp: value_content_length_def Let_def value_turn_ok_def value_state_def value_rel_simps mod_le_ullong)

lemma value_token_ok:
  assumes "index ps < 32" "content_length ps \<le> ULLONG_MAX"
  shows "value_turn_ok ps (value_token_start c ps)"
    and "value_state h \<Longrightarrow> value_turn_ok ps (value_token_done h f b ps)"
  using assms by (auto simp: value_token_start_def value_token_done_def value_turn_ok_def value_state_def value_rel_simps)

lemma value_char_ok:
  assumes "value_state h" "index ps < 32" "content_length ps \<le> ULLONG_MAX"
  shows "value_turn_ok ps (value_char h b ps)"
proof -
  have m: "value_turn_ok ps (value_match name c h mis full ps)" if "value_state mis" "value_state full" for name c mis full
    using that assms value_match_ok by blast
  have c: "value_turn_ok ps (value_content_length b ps)" 
    using assms value_content_length_ok by blast
  have t: "value_turn_ok ps (value_token_start (LOWER b) ps)" "value_turn_ok ps (value_token_done h f b ps)" for f
    using assms value_token_ok by blast+
  have go: "value_turn_ok ps (V_go h' ps)" "value_turn_ok ps (V_go h' (ps\<lparr>index := 0\<rparr>))" if "value_state h'" for h'
    using that assms by (auto simp: value_turn_ok_def value_rel_simps)
  have err: "value_turn_ok ps (V_error HPE_INVALID_CONTENT_LENGTH ps')" for ps'
    by (simp add: value_turn_ok_def)
  show ?thesis
    using assms(1) m c t unfolding value_char_def Let_def
    by (cases h) (simp_all add: go err value_state_def)
qed

definition value_end_ok :: "'c env \<Rightarrow> 'c machine \<Rightarrow> 'c value_end \<Rightarrow> bool" where
  "value_end_ok E m r =
     (let rel = (\<lambda>h m'. value_state h \<and> value_rel (prs m) (prs m') \<and> p_state m' = p_state m \<and>
           p_nread m' = p_nread m \<and> marks m' = marks m \<and> user m' = user m \<and> pos m \<le> pos m') in
      case r of
        At_end h m' \<Rightarrow> rel h m' \<and> pos m' = length (data E)
      | At_CR h m' \<Rightarrow> rel h m' \<and> pos m' < length (data E)
      | At_LF h m' \<Rightarrow> rel h m' \<and> pos m' < length (data E)
      | At_error e m' \<Rightarrow> e \<notin> {HPE_OK, HPE_PAUSED} \<and> pos m' < length (data E)
      | At_assert \<Rightarrow> False)"

lemma value_end_ok_step:
  assumes "value_end_ok E m' r" "value_rel (prs m) (prs m')" "p_state m' = p_state m" "p_nread m' = p_nread m"
    "marks m' = marks m" "user m' = user m" "pos m \<le> pos m'"
  shows "value_end_ok E m r"
  using assms by (cases r) (auto simp: value_end_ok_def Let_def value_rel_def)

lemma header_value_loop_ok:
  "value_state h \<Longrightarrow> index (prs m) < 32 \<Longrightarrow> content_length (prs m) \<le> ULLONG_MAX \<Longrightarrow> pos m \<le> length (data E) \<Longrightarrow>
   value_end_ok E m (header_value_loop E h m)"
proof (induction E h m rule: header_value_loop.induct)
  case (1 E h m)
  note refl_rel = value_rel_simps(1) [OF "1.prems"(3,2)]
  show ?case
  proof (cases "pos m < length (data E)")
    case False
    with "1.prems" refl_rel show ?thesis
      by (subst header_value_loop.simps) (simp add: value_end_ok_def)
  next
    case True
    let ?b = "data E ! pos m" and ?pe = "pos m + min (length (data E) - pos m) (max_header_size E)"
    consider "?b = CR \<or> ?b = LF \<or> \<not> lenient E \<and> \<not> IS_HEADER_CHAR ?b"
      | "?b \<noteq> CR" "?b \<noteq> LF" "\<not> (\<not> lenient E \<and> \<not> IS_HEADER_CHAR ?b)" "h = h_general"
      | "?b \<noteq> CR" "?b \<noteq> LF" "\<not> (\<not> lenient E \<and> \<not> IS_HEADER_CHAR ?b)" "h \<noteq> h_general"
      by blast
    then show ?thesis
    proof cases
      case 1
      with True "1.prems" refl_rel show ?thesis
        by (subst header_value_loop.simps) (auto simp: value_end_ok_def Let_def)
    next
      case 2
      show ?thesis
      proof (cases "general_scan E ?pe (pos m)")
        case (Inl q)
        with general_scan_less [OF Inl] 2 True show ?thesis
          by (subst header_value_loop.simps) (auto simp: value_end_ok_def Let_def)
      next
        case (Inr q)
        have q: "pos m \<le> q" "q \<le> length (data E)"
          using general_scan_ge_start [OF Inr] general_scan_le [OF Inr] 2 True by auto
        let ?m = "m\<lparr>ch := ?b, pos := (if q = length (data E) then q - 1 else q) + 1\<rparr>"
        have "value_end_ok E ?m (header_value_loop E h ?m)"
          using "1.IH"(1) [OF True refl refl, of q] 2 "1.prems" Inr q True by auto
        then have "value_end_ok E m (header_value_loop E h ?m)"
          by (rule value_end_ok_step) (use refl_rel q True in auto)
        moreover have "header_value_loop E h m = header_value_loop E h ?m"
          using 2 Inr True by (subst header_value_loop.simps [of E h m]) (auto simp: Let_def)
        ultimately show ?thesis by simp
      qed
    next
      case 3
      note ok = value_char_ok [OF "1.prems"(1-3), of ?b]
      show ?thesis
      proof (cases "value_char h ?b (prs m)")
        case (V_go h' ps)
        let ?m = "m\<lparr>ch := ?b, prs := ps, pos := pos m + 1\<rparr>"
        have "value_state h'" "value_rel (prs m) ps"
          using ok V_go by (auto simp: value_turn_ok_def)
        then have "value_end_ok E ?m (header_value_loop E h' ?m)"
          using "1.IH"(2) [OF True refl refl, of h' ps] 3 "1.prems" V_go True
          by (auto simp: value_rel_def)
        then have "value_end_ok E m (header_value_loop E h' ?m)"
          by (rule value_end_ok_step) (use \<open>value_rel (prs m) ps\<close> in auto)
        moreover have "header_value_loop E h m = header_value_loop E h' ?m"
          using 3 V_go True by (subst header_value_loop.simps [of E h m]) (auto simp: Let_def)
        ultimately show ?thesis by simp
      next
        case (V_error e ps)
        with ok 3 True show ?thesis
          by (subst header_value_loop.simps) (auto simp: value_end_ok_def Let_def value_turn_ok_def)
      next
        case V_assert
        with ok show ?thesis by (simp add: value_turn_ok_def)
      qed
    qed
  qed
qed

lemma header_finished_simps [simp]:
  "http_errno (header_finished ps) = http_errno ps" "nread (header_finished ps) = nread ps"
  "index (header_finished ps) = index ps" "status_code (header_finished ps) = status_code ps"
  "content_length (header_finished ps) = content_length ps"
  by (simp_all add: header_finished_def split: header_states.split)

lemma good_Return:
  "good z E m0 (Return n m) \<longleftrightarrow> n \<le> length (data E) \<and> parser_ok (max_header_size E) (prs m) \<and>
     (n = length (data E) \<or> http_errno (prs m) \<noteq> HPE_OK \<or> upgrade (prs m) \<or> z)"
  by (simp add: good_def)

lemma good_if: "(b \<Longrightarrow> good z E m0 x) \<Longrightarrow> (\<not> b \<Longrightarrow> good z E m0 y) \<Longrightarrow> good z E m0 (if b then x else y)"
  by simp

lemma new_message_state: "NEW_MESSAGE ps \<in> {s_dead, s_start_req, s_start_res}"
  by (simp add: NEW_MESSAGE_def start_state_def)

lemma plain_new_message [simp]: "plain (NEW_MESSAGE ps)"
  using new_message_state [of ps] by auto

context tame_run
begin

lemma good_header_value_start:
  assumes m: "machine_inv E 1 m" "pos m < length (data E)"
    and st: "p_state m \<in> {s_header_value_start, s_header_value_discard_ws}"
  shows "good resets E m (step_header_value_start m)"
proof -
  have marks: "marks m x = None" for x
    using unmarked_marks [of m x] machine_invD(9) [OF m(1)] st by auto
  let ?m = "m\<lparr>marks := (marks m)(M_header_value := Some (pos m)), p_state := s_header_value\<rparr>"
  have go: "good resets E m (Break (?m\<lparr>prs := ps\<rparr>))"
    if "http_errno ps = HPE_OK" "nread ps \<le> max_header_size E" "index ps < 32" "status_code ps \<le> 999"
      "content_length ps \<le> ULLONG_MAX" "header_state ps \<noteq> h_connection" "header_state ps \<noteq> h_transfer_encoding" for ps
    using that marks m(2) machine_invD(3) [OF m(1)]
    by (auto simp: machine_inv_def core_inv_def marks_inv_def mark_states_def parser_inv_def chunk_states_def)
  have digit: "IS_NUM (ch m) \<Longrightarrow> digit_of (ch m) \<le> ULLONG_MAX"
    using digit_of_le [of "ch m"] by (simp add: ULLONG_MAX_def)
  show ?thesis
    using machine_invD [OF m(1)] marks m(2) digit
    unfolding step_header_value_start_def Let_def MARK_def
    by (cases "header_state (prs m)") (auto simp del: good_simps intro!: go good_fail)
qed

lemma good_header_value_ws:
  assumes m: "machine_inv E 1 m" "pos m < length (data E)"
  shows "p_state m = s_header_value_discard_ws \<Longrightarrow> good resets E m (step_header_value_discard_ws m)"
    and "p_state m = s_header_value_lws \<Longrightarrow> good resets E m (step_header_value_lws m)"
    and "p_state m = s_header_value_discard_lws \<Longrightarrow> good resets E m (step_header_value_discard_lws E m)"
proof -
  show "good resets E m (step_header_value_discard_ws m)" if "p_state m = s_header_value_discard_ws"
    using that m good_header_value_start [OF m] machine_any [OF m(1), of 0] machine_goto_plain [OF m(1)]
    by (auto simp: step_header_value_discard_ws_def)
  show "good resets E m (step_header_value_lws m)" if "p_state m = s_header_value_lws"
    using that m(2) machine_invD(1-6) [OF m(1)] unmarked_marks [of m] machine_invD(9) [OF m(1)]
    by (auto simp: step_header_value_lws_def rank_def machine_inv_def core_inv_def plain_inv marks_inv_def)
  show "good resets E m (step_header_value_discard_lws E m)" if st: "p_state m = s_header_value_discard_lws"
  proof -
    have marks: "marks m x = None" for x
      using unmarked_marks [of m x] machine_invD(9) [OF m(1)] st by auto
    show ?thesis
      using m(2) st marks machine_invD(1-6) [OF m(1)] tame_data [of M_header_value]
        machine_goto_plain [OF m(1), of s_header_value_discard_ws]
      by (auto simp: step_header_value_discard_lws_def Let_def MARK_def rank_def machine_inv_def core_inv_def
          plain_inv marks_inv_def intro!: good_fail good_data)
  qed
qed

lemma good_header_value:
  assumes m: "machine_inv E 1 m" "pos m < length (data E)" and st: "p_state m = s_header_value"
  shows "good resets E m (step_header_value E m)"
proof -
  have hs: "value_state (header_state (prs m))"
    using machine_invD(7) [OF m(1)] st by (simp add: parser_inv_def value_state_def)
  have marks: "marks m M_header_field = None \<and> marks m M_url = None \<and> marks m M_body = None \<and>
      marks m M_status = None \<and> (\<forall>a. marks m M_header_value = Some a \<longrightarrow> a \<le> pos m)"
    using machine_invD(9) [OF m(1)] st by (auto simp: marks_inv_def all_mark mark_states_def)
  note loop = header_value_loop_ok [OF hs machine_invD(4,6) [OF m(1)] less_imp_le [OF m(2)]]
  show ?thesis
  proof (cases "header_value_loop E (header_state (prs m)) m")
    case At_assert
    with loop show ?thesis by (simp add: value_end_ok_def)
  next
    case (At_error e m')
    with loop show ?thesis by (auto simp: step_header_value_def value_end_ok_def intro!: good_fail)
  next
    case (At_end h m')
    with loop m marks st machine_invD(1-6) [OF m(1)] show ?thesis
      by (auto simp: step_header_value_def value_end_ok_def Let_def value_rel_def value_state_def machine_inv_def
          core_inv_def marks_inv_def all_mark mark_states_def parser_inv_def chunk_states_def intro!: good_count)
  next
    case (At_CR h m')
    with loop m marks st machine_invD(1-6) [OF m(1)] tame_data [of M_header_value] show ?thesis
      by (auto simp: step_header_value_def value_end_ok_def Let_def value_rel_def value_state_def machine_inv_def
          core_inv_def marks_inv_def all_mark plain_inv intro!: good_count good_data)
  next
    case (At_LF h m')
    with loop m marks st machine_invD(1-6) [OF m(1)] tame_data [of M_header_value] show ?thesis
      by (auto simp: step_header_value_def value_end_ok_def Let_def value_rel_def value_state_def machine_inv_def
          core_inv_def marks_inv_def all_mark plain_inv rank_def intro!: good_count good_data)
  qed
qed

lemma good_after_headers_complete:
  assumes m: "core_inv E (m\<lparr>prs := (prs m)\<lparr>http_errno := HPE_OK\<rparr>\<rparr>)" "pos m < length (data E)" "p_state m = s_headers_done"
    "\<And>x. marks m x = None" "pos m0 = pos m" "p_state m0 = s_headers_almost_done"
  shows "good resets E m0 (after_headers_complete m)"
  using m by (auto simp: after_headers_complete_def machine_inv_def core_inv_def plain_inv marks_inv_def rank_def
      good_def RETURN_def parser_ok_def)

lemma good_headers_complete:
  assumes m: "core_inv E m" "pos m < length (data E)" "p_state m = s_headers_done"
    "\<And>x. marks m x = None" "pos m0 = pos m" "p_state m0 = s_headers_almost_done"
  shows "good resets E m0 (headers_complete E m)"
proof (cases "on_headers_complete (settings E)")
  case None
  then show ?thesis
    using m by (auto simp: headers_complete_def core_inv_def intro!: good_after_headers_complete)
next
  case (Some f)
  obtain r ps c where r: "f (prs m) (user m) = (r, ps, c)" by (metis prod_cases3)
  have "keeps_parser (prs m) ps"
    using tame_headers Some r unfolding tame_cb_def by blast
  then obtain e where ps: "ps = (prs m)\<lparr>http_errno := e\<rparr>"
    by (auto simp: keeps_parser_def)
  show ?thesis
    using Some r m unfolding ps
    by (auto simp: headers_complete_def core_inv_def plain_inv Let_def good_Return RETURN_def
        SET_ERRNO_def parser_ok_def intro!: good_after_headers_complete)
qed

lemma good_headers_almost_done:
  assumes m: "machine_inv E 1 m" "pos m < length (data E)" and st: "p_state m = s_headers_almost_done"
  shows "good resets E m (step_headers_almost_done E m)"
  using m(2) st machine_invD(1-6) [OF m(1)] unmarked_marks [of m] machine_invD(9) [OF m(1)] tame_chunk_complete
  by (auto simp: step_headers_almost_done_def core_inv_def plain_inv machine_inv_def marks_inv_def rank_def
      intro!: good_strict good_notify good_fail good_headers_complete)

text \<open>The callback at the end of a message, in a state without marks.\<close>

lemma good_message_complete:
  assumes "core_inv E m" "pos m < length (data E)" "\<And>x. marks m x = None" "pos m0 = pos m"
    and k: "\<And>m'. k m' = Break m' \<or> (k m' = RETURN (pos m' + 1) m' \<and> (upgrade (prs m') \<or> upgrade (prs m)))"
  shows "good resets E m0 (message_complete E m k)"
proof (rule good_complete)
  show "resetting_cb resets (on_message_complete (settings E))" by (rule tame_complete)
  show "core_inv E (UPDATE_STATE (NEW_MESSAGE (prs m)) m)"
    using assms(1) by (simp add: core_goto_plain)
  show "pos m < length (data E)" by fact
next
  fix ps :: http_parser and c s
  assume ps: "parser_inv s ps" "http_errno ps = HPE_OK" "nread ps \<le> max_header_size E"
    "s \<in> {s_dead, s_start_req, s_start_res, s_start_req_or_res}" "upgrade ps = upgrade (prs m) \<or> resets"
  then have s: "s \<noteq> s_chunk_size_start" by auto
  let ?m = "m\<lparr>prs := ps, user := c, p_state := s\<rparr>"
  show "good resets E m0 (k ?m)"
    using k [of ?m] ps s assms(1-4)
    by (auto simp: good_Return RETURN_def parser_ok_def machine_inv_def core_inv_def marks_inv_def)
qed

lemma good_message_done:
  assumes m: "machine_inv E 1 m" "pos m < length (data E)" and st: "p_state m = s_message_done"
  shows "good resets E m (step_message_done E m)"
  unfolding step_message_done_def
  by (rule good_message_complete)
    (use m st unmarked_marks [of m] machine_invD(8,9) [OF m(1)] in auto)

lemma good_headers_done:
  assumes m: "machine_inv E 1 m" "pos m < length (data E)" and st: "p_state m = s_headers_done"
  shows "good resets E m (step_headers_done E m)"
proof -
  let ?m = "m\<lparr>p_nread := 0, prs := (prs m)\<lparr>nread := 0\<rparr>\<rparr>"
  have marks: "marks m x = None" for x
    using unmarked_marks [of m x] machine_invD(9) [OF m(1)] st by auto
  have core: "core_inv E ?m"
    using machine_invD(1-6) [OF m(1)] st by (simp add: core_inv_def plain_inv)
  have complete: "good resets E m (message_complete E ?m Break)"
    using core marks m(2) by (auto intro!: good_message_complete)
  have leave: "good resets E m (message_complete E ?m (\<lambda>m. RETURN (pos m + 1) m))" if "upgrade (prs m)"
    using core marks m(2) that by (auto intro!: good_message_complete)
  have go: "good resets E m (Break (UPDATE_STATE s ?m))"
    if "s = s_chunk_size_start \<and> has_flag (flags (prs m)) F_CHUNKED \<or> s = s_body_identity_eof \<or>
        s = s_body_identity \<and> content_length (prs m) \<noteq> 0 \<and> content_length (prs m) \<noteq> ULLONG_MAX" for s
    using that m(2) marks machine_invD(1-6) [OF m(1)]
    by (auto simp: machine_inv_def core_inv_def marks_inv_def parser_inv_def chunk_states_def)
  have bad: "good resets E m (RETURN (pos m) (SET_ERRNO HPE_INVALID_TRANSFER_ENCODING ?m))"
    using m(2) by (simp add: good_Return RETURN_def SET_ERRNO_def parser_ok_def)
  show ?thesis
    unfolding step_headers_done_def Let_def
    by (intro good_strict good_if)
      (use m(2) complete leave go [of s_chunk_size_start] go [of s_body_identity_eof] go [of s_body_identity] bad
        in \<open>simp_all del: good_simps\<close>)
qed

end

lemma chunked_only_good:
  "has_flag (flags (prs m)) F_CHUNKED \<Longrightarrow> chunked_only m k = k"
  by (simp add: chunked_only_def)

lemma unhex_bounds: "unhex c = -1 \<or> (0 \<le> unhex c \<and> unhex c \<le> 15)"
proof -
  have all: "list_all (\<lambda>x. x = -1 \<or> (0 \<le> x \<and> x \<le> 15)) unhex_table"
    by (simp add: unhex_table_def list_all_iff)
  have len: "length unhex_table = 128" by (simp add: unhex_table_def)
  show ?thesis
  proof (cases "of_char c < (128 :: nat)")
    case True
    with all len have "unhex_table ! of_char c = -1 \<or> (0 \<le> unhex_table ! of_char c \<and> unhex_table ! of_char c \<le> 15)"
      unfolding list_all_length by simp
    with True show ?thesis by (simp add: unhex_def)
  qed (simp add: unhex_def)
qed

lemma chunk_size_no_max:
  assumes "\<not> (ULLONG_MAX - 16) div 16 < n" "d \<le> 15"
  shows "((n * 16) mod 2 ^ 64 + d) mod 2 ^ 64 < ULLONG_MAX"
proof -
  have "n \<le> (2 ^ 64 - 17) div 16" using assms(1) by (simp add: ULLONG_MAX_def)
  then have "n \<le> 2 ^ 60 - 2" by simp
  then have "n * 16 + d \<le> 2 ^ 64 - 17" using assms(2) by simp
  then show ?thesis by (simp add: ULLONG_MAX_def)
qed

lemma take_body_sel:
  "http_errno (prs (take_body E m)) = http_errno (prs m)" "nread (prs (take_body E m)) = nread (prs m)"
  "p_nread (take_body E m) = p_nread m" "index (prs (take_body E m)) = index (prs m)"
  "status_code (prs (take_body E m)) = status_code (prs m)" "flags (prs (take_body E m)) = flags (prs m)"
  "p_state (take_body E m) = p_state m"
  "content_length (prs (take_body E m)) =
     content_length (prs m) - min (content_length (prs m)) (length (data E) - pos m)"
  "pos (take_body E m) = pos m + min (content_length (prs m)) (length (data E) - pos m) - 1"
  "marks (take_body E m) =
     (marks m)(M_body := Some (case marks m M_body of None \<Rightarrow> pos m | Some a \<Rightarrow> a))"
  by (auto simp add: take_body_def Let_def MARK_def split: option.split)

context tame_run
begin

lemma take_body_facts:
  assumes m: "machine_inv E 1 m" "pos m < length (data E)" "p_state m \<in> {s_body_identity, s_chunk_data}"
  defines "m' \<equiv> take_body E m"
  shows "http_errno (prs m') = HPE_OK" "nread (prs m') \<le> max_header_size E" "p_nread m' \<le> max_header_size E"
      "index (prs m') < 32" "status_code (prs m') \<le> 999" "content_length (prs m') < ULLONG_MAX"
      "flags (prs m') = flags (prs m)" "p_state m' = p_state m" "pos m \<le> pos m'" "pos m' < length (data E)"
    and "\<exists>a. marks m' M_body = Some a \<and> a \<le> pos m"
    and "x \<noteq> M_body \<Longrightarrow> marks m' x = None"
    and "content_length (prs m) \<noteq> 0" "content_length (prs m) \<noteq> ULLONG_MAX"
proof -
  have inv: "parser_inv s_body_identity (prs m) \<or> parser_inv s_chunk_data (prs m)"
    using machine_invD(7) [OF m(1)] m(3) by auto
  then have cl: "content_length (prs m) \<noteq> 0" "content_length (prs m) < ULLONG_MAX"
    by (auto simp: parser_inv_def)
  then show "content_length (prs m) \<noteq> 0" "content_length (prs m) \<noteq> ULLONG_MAX" by auto
  show "http_errno (prs m') = HPE_OK" "nread (prs m') \<le> max_header_size E" "p_nread m' \<le> max_header_size E"
      "index (prs m') < 32" "status_code (prs m') \<le> 999" "content_length (prs m') < ULLONG_MAX"
      "flags (prs m') = flags (prs m)" "p_state m' = p_state m"
    using machine_invD(1-6) [OF m(1)] cl by (simp_all add: m'_def take_body_sel)
  show "pos m \<le> pos m'" "pos m' < length (data E)"
    using cl m(2) by (auto simp: m'_def take_body_sel)
  have marks: "\<And>x a. marks m x = Some a \<Longrightarrow> p_state m \<in> mark_states x \<and> a \<le> pos m"
    using machine_invD(9) [OF m(1)] by (simp add: marks_inv_def)
  then show "\<exists>a. marks m' M_body = Some a \<and> a \<le> pos m"
    unfolding m'_def take_body_sel by (cases "marks m M_body") auto
  show "marks m' x = None" if x: "x \<noteq> M_body"
  proof (rule ccontr)
    assume "marks m' x \<noteq> None"
    with x obtain a where "marks m x = Some a" by (auto simp: m'_def take_body_sel)
    with marks have "p_state m \<in> mark_states x" by blast
    with m(3) x show False by (cases x) (auto simp: mark_states_def)
  qed
qed

lemma good_body:
  assumes m: "machine_inv E 1 m" "pos m < length (data E)"
  shows "p_state m = s_body_identity \<Longrightarrow> good resets E m (step_body_identity E m)"
    and "p_state m = s_body_identity_eof \<Longrightarrow> good resets E m (step_body_identity_eof E m)"
    and "p_state m = s_chunk_data \<Longrightarrow> good resets E m (step_chunk_data E m)"
proof -
  show "good resets E m (step_body_identity_eof E m)" if "p_state m = s_body_identity_eof"
    using that m by (auto simp: step_body_identity_eof_def inv_defs)
next
  assume st: "p_state m = s_body_identity"
  have m': "p_state m \<in> {s_body_identity, s_chunk_data}" using st by simp
  note facts = take_body_facts [OF m m']
  from facts(11) obtain a where a: "marks (take_body E m) M_body = Some a" "a \<le> pos m" by blast
  show "good resets E m (step_body_identity E m)"
    using facts(1-10) facts(12) [of M_header_field] facts(12) [of M_header_value] facts(12) [of M_url]
      facts(12) [of M_status] facts(13,14) a st m(2) tame_data [of M_body]
    by (auto simp: step_body_identity_def Let_def machine_inv_def core_inv_def plain_inv marks_inv_def all_mark
        mark_states_def parser_inv_def chunk_states_def rank_def intro!: good_data)
next
  assume st: "p_state m = s_chunk_data"
  have m': "p_state m \<in> {s_body_identity, s_chunk_data}" using st by simp
  have fl: "has_flag (flags (prs m)) F_CHUNKED"
    using machine_invD(7) [OF m(1)] st by (simp add: parser_inv_def chunk_states_def)
  note facts = take_body_facts [OF m m']
  from facts(11) obtain a where a: "marks (take_body E m) M_body = Some a" "a \<le> pos m" by blast
  show "good resets E m (step_chunk_data E m)"
    using facts(1-10) facts(12) [of M_header_field] facts(12) [of M_header_value] facts(12) [of M_url]
      facts(12) [of M_status] facts(13,14) a st m(2) fl
    by (auto simp: step_chunk_data_def chunked_only_good Let_def machine_inv_def core_inv_def marks_inv_def all_mark
        mark_states_def parser_inv_def chunk_states_def)
qed

lemma good_chunk_size:
  assumes m: "machine_inv E 1 m" "pos m < length (data E)"
  shows "p_state m = s_chunk_size_start \<Longrightarrow> good resets E m (step_chunk_size_start m)"
    and "p_state m = s_chunk_size \<Longrightarrow> good resets E m (step_chunk_size m)"
    and "p_state m = s_chunk_parameters \<Longrightarrow> good resets E m (step_chunk_parameters m)"
proof -
  have n: "nat (unhex (ch m)) \<le> 15" using unhex_bounds [of "ch m"] by auto
  then have "nat (unhex (ch m)) < ULLONG_MAX" by (simp add: ULLONG_MAX_def)
  then show "p_state m = s_chunk_size_start \<Longrightarrow> good resets E m (step_chunk_size_start m)"
    using m by (auto simp: step_chunk_size_start_def chunked_only_good inv_defs intro!: good_fail good_if)
  show "p_state m = s_chunk_parameters \<Longrightarrow> good resets E m (step_chunk_parameters m)"
    using m by (auto simp: step_chunk_parameters_def chunked_only_good inv_defs)
  assume st: "p_state m = s_chunk_size"
  have "good resets E m (Break (m\<lparr>prs := (prs m)\<lparr>content_length :=
      ((content_length (prs m) * 16) mod 2 ^ 64 + nat (unhex (ch m))) mod 2 ^ 64\<rparr>\<rparr>))"
    if "\<not> (ULLONG_MAX - 16) div 16 < content_length (prs m)"
    using m st chunk_size_no_max [OF that n] by (simp add: inv_defs)
  then show "good resets E m (step_chunk_size m)"
    using m st by (auto simp: step_chunk_size_def chunked_only_good Let_def inv_defs intro!: good_fail good_if)
qed

end

definition final :: "'c outcome \<Rightarrow> bool" where
  "final r \<longleftrightarrow> (\<exists>n m. r = Return n m) \<or> r = Fault"

context tame_run
begin

lemma good_chunk_end:
  assumes m: "machine_inv E 1 m" "pos m < length (data E)"
  shows "p_state m = s_chunk_size_almost_done \<Longrightarrow> good resets E m (step_chunk_size_almost_done E m)"
    and "p_state m = s_chunk_data_almost_done \<Longrightarrow> good resets E m (step_chunk_data_almost_done E m)"
    and "p_state m = s_chunk_data_done \<Longrightarrow> good resets E m (step_chunk_data_done E m)"
proof -
  show "p_state m = s_chunk_size_almost_done \<Longrightarrow> good resets E m (step_chunk_size_almost_done E m)"
    using m tame_chunk_header
    by (auto simp: step_chunk_size_almost_done_def chunked_only_good Let_def inv_defs
        intro!: good_strict good_notify)
  show "p_state m = s_chunk_data_almost_done \<Longrightarrow> good resets E m (step_chunk_data_almost_done E m)"
    using m tame_data [of M_body]
    by (auto simp: step_chunk_data_almost_done_def chunked_only_good Let_def inv_defs
        intro!: good_strict good_data)
  show "p_state m = s_chunk_data_done \<Longrightarrow> good resets E m (step_chunk_data_done E m)"
    using m tame_chunk_complete
    by (auto simp: step_chunk_data_done_def chunked_only_good Let_def inv_defs
        intro!: good_strict good_notify)
qed

text \<open>The whole \<open>switch\<close>.\<close>

lemma http_step_good:
  assumes m: "machine_inv E 1 m" "pos m < length (data E)"
  shows "good resets E m (http_step E m)"
proof -
  note lemmas_m = good_start_states [OF m] good_status [OF m] good_res_status [OF m] good_start_req [OF m]
    good_req_method [OF m] good_req_url [OF m] good_header_field_start [OF m] good_header_field [OF m]
    good_header_value_start [OF m] good_header_value_ws [OF m] good_header_value [OF m]
    good_headers_almost_done [OF m] good_headers_done [OF m] good_message_done [OF m] good_body [OF m]
    good_chunk_size [OF m] good_chunk_end [OF m]
  show ?thesis
    unfolding http_step_def
    by (cases "p_state m")
      (simp_all add: lemmas_m good_version [OF m] good_request_end [OF m] good_expect [OF m] mark_states_def)
qed

text \<open>The fuel of the re-execution loop suffices: the rank is at most 3 and decreases.\<close>

lemma rank_le: "rank s \<le> 3"
  by (cases s) (simp_all add: rank_def)

lemma reexecute_good:
  "machine_inv E 1 m \<Longrightarrow> pos m < length (data E) \<Longrightarrow> rank (p_state m) < n \<Longrightarrow>
   \<exists>r. reexecute_loop n E m = Some r \<and> good resets E m r \<and> (\<nexists>m'. r = Reexecute m')"
proof (induction n arbitrary: m)
  case (Suc n)
  note step = http_step_good [OF Suc.prems(1,2)]
  show ?case
  proof (cases "http_step E m")
    case (Reexecute m')
    with step have m': "machine_inv E 1 m'" "pos m \<le> pos m'" "pos m' < length (data E)"
      "rank (p_state m') < rank (p_state m)" by auto
    with Suc obtain r where r: "reexecute_loop n E m' = Some r" "good resets E m' r" "\<nexists>m''. r = Reexecute m''"
      by (metis less_Suc_eq_le order.strict_trans2)
    from r(2,3) m'(2) have "good resets E m r"
      by (cases r) (auto simp: good_def)
    with r Reexecute show ?thesis by auto
  qed (use step in auto)
qed simp

lemma byte_turn_good:
  assumes "machine_inv E 0 m" "pos m < length (data E)" "max_header_size E < 2 ^ 32"
  shows "\<exists>r. byte_turn E m = Some r \<and> good resets E m r \<and> (\<nexists>m'. r = Reexecute m')"
proof -
  let ?m = "m\<lparr>ch := data E ! pos m\<rparr>"
  have fuel: "rank s < reexecute_fuel" for s
    using rank_le [of s] by (simp add: reexecute_fuel_def)
  have same: "good resets E m r" if "good resets E m' r" "pos m' = pos m" "p_state m' = p_state m" for r m'
    using that by (cases r) (auto simp: good_def)
  show ?thesis
  proof (cases "PARSING_HEADER (p_state m)")
    case False
    then have "machine_inv E 1 ?m"
      using assms(1) by (auto simp: machine_inv_def core_inv_def marks_inv_def)
    then obtain r where "reexecute_loop reexecute_fuel E ?m = Some r" "good resets E ?m r" "\<nexists>m'. r = Reexecute m'"
      using reexecute_good [OF _ _ fuel, of ?m] assms(2) by auto
    with False show ?thesis
      using same [of ?m r] by (auto simp: byte_turn_def Let_def)
  next
    case True
    let ?n = "(p_nread m + 1) mod 2 ^ 32"
    show ?thesis
    proof (cases "?n > max_header_size E")
      case True
      with \<open>PARSING_HEADER (p_state m)\<close> assms(2) show ?thesis
        by (auto simp: byte_turn_def COUNT_HEADER_SIZE_def Let_def good_fail fail_def SET_ERRNO_def good_def)
    next
      case False
      let ?m' = "?m\<lparr>p_nread := ?n\<rparr>"
      have "machine_inv E 1 ?m'"
        using assms(1) False by (auto simp: machine_inv_def core_inv_def marks_inv_def)
      then obtain r where "reexecute_loop reexecute_fuel E ?m' = Some r" "good resets E ?m' r" "\<nexists>m'. r = Reexecute m'"
        using reexecute_good [OF _ _ fuel, of ?m'] assms(2) by auto
      with True False show ?thesis
        using same [of ?m' r] by (auto simp: byte_turn_def COUNT_HEADER_SIZE_def Let_def)
    qed
  qed
qed

text \<open>The marks left at the end of the buffer: at most one, handed out and cleared in turn.\<close>

lemma marks_unique:
  assumes "marks_inv m" "marks m x \<noteq> None" "marks m y \<noteq> None"
  shows "x = y"
proof -
  have "p_state m \<in> mark_states x" "p_state m \<in> mark_states y"
    using assms by (auto simp: marks_inv_def)
  then show ?thesis by (cases x; cases y) (auto simp: mark_states_def)
qed

lemma one_mark:
  assumes "marks_inv m"
  shows "length (filter (\<lambda>x. marks m x \<noteq> None) all_marks) \<le> 1"
proof (rule ccontr)
  let ?l = "filter (\<lambda>x. marks m x \<noteq> None) all_marks"
  assume "\<not> length ?l \<le> 1"
  then obtain x y zs where l: "?l = x # y # zs"
    by (cases ?l rule: remdups_adj.cases) auto
  then have "x \<in> set ?l" "y \<in> set ?l" by (metis list.set_intros)+
  then have "marks m x \<noteq> None" "marks m y \<noteq> None" by auto
  then have "x = y" using marks_unique [OF assms] by blast
  moreover have "distinct ?l" by (simp add: all_marks_def)
  ultimately show False using l by simp
qed

lemma good_data_end:
  assumes m: "machine_inv E 0 m" "pos m = length (data E)"
    and k: "\<And>m'. machine_inv E 0 m' \<Longrightarrow> pos m' = length (data E) \<Longrightarrow> good resets E m0 (k m')"
  shows "good resets E m0 (CALLBACK_DATA E x (pos m) (pos m) m k)"
proof (cases "marks m x")
  case None
  with k [OF m] machine_invD(1) [OF m(1)] show ?thesis by (simp add: CALLBACK_DATA_def)
next
  case (Some a)
  then have st: "p_state m \<in> mark_states x" "a \<le> pos m"
    using machine_invD(9) [OF m(1)] by (auto simp: marks_inv_def)
  then have "p_state m \<noteq> s_chunk_size_start"
    by (cases x) (auto simp: mark_states_def)
  then show ?thesis
  proof (rule good_data [OF tame_data machine_invD(8) [OF m(1)]])
    fix ps c
    assume "ps = prs m \<or> ps = (prs m)\<lparr>state := p_state m\<rparr>"
    then show "good resets E m0 (k (m\<lparr>prs := ps, user := c, marks := (marks m)(x := None)\<rparr>))"
      using m by (intro k) (auto simp: machine_inv_def core_inv_def marks_inv_def)
  qed (use Some st m(2) in auto)
qed

lemma end_of_buffer_good:
  assumes m: "machine_inv E 0 m" "pos m = length (data E)"
  shows "good resets E m (end_of_buffer E m)"
proof -
  have ret: "good resets E m (RETURN (length (data E)) m')" if "machine_inv E 0 m'" for m'
    using that by (auto simp: good_Return RETURN_def parser_ok_def machine_inv_def core_inv_def)
  show ?thesis
    unfolding end_of_buffer_def using one_mark [OF machine_invD(9) [OF m(1)]] m
    by (intro good_if) (simp, intro good_data_end ret)
qed

lemma data_final: "(\<And>m. final (k m)) \<Longrightarrow> final (CALLBACK_DATA E x stop er m k)"
  by (auto simp: final_def CALLBACK_DATA_def run_callback_def Let_def split: option.split prod.split)

lemma end_of_buffer_final: "final (end_of_buffer E m)"
  unfolding end_of_buffer_def by (auto intro!: data_final simp: RETURN_def) (simp_all add: final_def)

lemma run_loop_good:
  "machine_inv E 0 m \<Longrightarrow> pos m \<le> length (data E) \<Longrightarrow> length (data E) - pos m < n \<Longrightarrow> max_header_size E < 2 ^ 32 \<Longrightarrow>
   \<exists>r m'. run_loop n E m = Some r \<and> good resets E m' r \<and> (\<nexists>m'. r = Reexecute m') \<and> (\<nexists>m'. r = Break m')"
proof (induction n arbitrary: m)
  case (Suc n)
  show ?case
  proof (cases "pos m = length (data E)")
    case True
    then have "good resets E m (end_of_buffer E m)"
      using end_of_buffer_good Suc.prems(1) by blast
    with True end_of_buffer_final [of m] show ?thesis by (auto simp: final_def)
  next
    case False
    with Suc.prems have lt: "pos m < length (data E)" by simp
    obtain r where r: "byte_turn E m = Some r" "good resets E m r" "\<nexists>m'. r = Reexecute m'"
      using byte_turn_good [OF Suc.prems(1) lt Suc.prems(4)] by blast
    show ?thesis
    proof (cases r)
      case (Break m')
      let ?m = "m'\<lparr>pos := pos m' + 1\<rparr>"
      have "machine_inv E 0 ?m"
        using r Break by (auto simp: machine_inv_def core_inv_def marks_inv_def intro: le_SucI)
      moreover have "length (data E) - (pos m' + 1) < n" using r Break Suc.prems(3) lt by auto
      ultimately obtain r' m'' where "run_loop n E ?m = Some r'" "good resets E m'' r'" 
          "\<nexists>m'. r' = Reexecute m'" "\<nexists>m'. r' = Break m'"
        using Suc.IH [of ?m] Suc.prems r Break lt by auto
      with False r Break show ?thesis by auto
    qed (use r False in auto)
  qed
qed simp

end

end
