(* ===== verification/Http_Execute.thy ===== *)
theory Http_Execute
  imports Http_Parser_Steps
begin

text \<open>
  What holds of whole calls of \<open>http_parser_execute\<close>, and of any sequence of calls on one parser, in
  which the client may also pause and resume it.
\<close>

lemma new_env_simps [simp]:
  "settings (new_env mx S ps d) = S" "data (new_env mx S ps d) = d" "max_header_size (new_env mx S ps d) = mx"
  by (simp_all add: new_env_def)

lemma new_machine_inv:
  assumes "parser_ok mx ps" "http_errno ps = HPE_OK"
  shows "machine_inv (new_env mx S ps d) 0 (new_machine ps c)"
  using assms
  by (auto simp: parser_ok_def machine_inv_def core_inv_def new_machine_def marks_inv_def initial_marks_def
      mark_states_def split: if_splits mark.splits)

definition execute_ok :: "nat \<Rightarrow> bool \<Rightarrow> http_parser \<Rightarrow> string \<Rightarrow> 'c result \<Rightarrow> bool" where
  "execute_ok mx resets ps d r = (\<exists>n ps' c'. r = Returned n ps' c' \<and> parser_ok mx ps' \<and>
     (d \<noteq> [] \<longrightarrow> n \<le> length d \<and> (n < length d \<longrightarrow> http_errno ps' \<noteq> HPE_OK \<or> upgrade ps' \<or> resets)))"

context tame_settings
begin

lemma tame_new_env: "tame_run (new_env mx S ps d) resets"
  unfolding tame_run_def by (simp add: tame_settings_axioms)

lemma execute_eof_ok:
  assumes ps: "parser_ok mx ps" "http_errno ps = HPE_OK"
  shows "execute_ok mx resets ps [] (execute_eof S ps c)"
proof -
  let ?E = "new_env mx S ps []" and ?m = "new_machine ps c"
  have core: "core_inv ?E ?m" using new_machine_inv [OF ps, of S "[]" c] by (simp add: machine_inv_def)
  have "good resets ?E ?m (CALLBACK_NOTIFY (on_message_complete S) HPE_CB_message_complete 0 ?m (\<lambda>m. Return 0 m))"
    if st: "state ps = s_body_identity_eof"
  proof (cases "on_message_complete S")
    case None
    with ps st show ?thesis by (simp add: CALLBACK_NOTIFY_def good_Return new_machine_def)
  next
    case (Some f)
    have "good resets ?E ?m (run_callback f HPE_CB_message_complete 0 ?m (\<lambda>m. Return 0 m))"
    proof (rule good_run_callback [where z' = resets], goal_cases)
      case (1 r ps' c')
      with tame_complete Some show ?case unfolding resetting_cb_def by blast
    qed (use core ps st in \<open>auto simp: good_Return parser_ok_init new_machine_def parser_ok_def\<close>)
    with Some ps show ?thesis by (simp add: CALLBACK_NOTIFY_def new_machine_def)
  qed
  moreover have "final (CALLBACK_NOTIFY (on_message_complete S) HPE_CB_message_complete 0 ?m (\<lambda>m. Return 0 m))"
    by (auto simp: CALLBACK_NOTIFY_def final_def run_callback_def Let_def split: option.split prod.split)
  ultimately show ?thesis
    using ps by (auto simp: execute_eof_def execute_ok_def final_def good_Return result_of_def parser_ok_def)
qed

lemma execute_returns:
  assumes ps: "parser_ok mx ps" and mx: "mx < 2 ^ 32"
  shows "execute_ok mx resets ps d (http_parser_execute mx S ps d c) \<or>
    http_errno ps \<noteq> HPE_OK \<and> http_parser_execute mx S ps d c = Returned 0 ps c"
proof (cases "http_errno ps = HPE_OK")
  case ok: True
  show ?thesis
  proof (cases "d = []")
    case True
    with ok execute_eof_ok [OF ps ok] show ?thesis by (simp add: http_parser_execute_def)
  next
    case False
    let ?E = "new_env mx S ps d" and ?m = "new_machine ps c"
    have "pos ?m = 0" by (simp add: new_machine_def)
    then obtain r m' where r: "run_loop (length d + 1) ?E ?m = Some r" "good resets ?E m' r"
        "\<nexists>m'. r = Reexecute m'" "\<nexists>m'. r = Break m'"
      using tame_run.run_loop_good [OF tame_new_env new_machine_inv [OF ps ok, of S d c]] mx by fastforce
    show ?thesis
    proof (cases r)
      case (Error m'')
      with r ok False show ?thesis
        by (auto simp: http_parser_execute_def good_def error_exit_def RETURN_def result_of_def execute_ok_def
            parser_ok_def)
    next
      case (Return n m'')
      with r ok False show ?thesis
        by (auto simp: http_parser_execute_def good_Return result_of_def execute_ok_def)
    qed (use r in auto)
  qed
qed (simp add: http_parser_execute_def)

end

section \<open>Sequences of calls\<close>

text \<open>The parsers that calls of the interface can lead to.\<close>

inductive http_reachable :: "nat \<Rightarrow> 'c http_parser_settings \<Rightarrow> http_parser \<Rightarrow> bool"
  for mx :: nat and S :: "'c http_parser_settings" where
  init: "http_reachable mx S (http_parser_init t)"
| flags: "http_reachable mx S ps \<Longrightarrow> http_reachable mx S (ps\<lparr>lenient_http_headers := l, allow_chunked_length := a\<rparr>)"
| execute: "http_reachable mx S ps \<Longrightarrow> http_parser_execute mx S ps d c = Returned n ps' c' \<Longrightarrow> http_reachable mx S ps'"
| pause: "http_reachable mx S ps \<Longrightarrow> http_parser_pause ps b = Some ps' \<Longrightarrow> http_reachable mx S ps'"

lemma parser_ok_flags:
  "parser_ok mx (ps\<lparr>lenient_http_headers := l, allow_chunked_length := a\<rparr>) = parser_ok mx ps"
  by (simp add: parser_ok_def parser_inv_def)

lemma parser_ok_pause:
  "parser_ok mx ps \<Longrightarrow> http_parser_pause ps b = Some ps' \<Longrightarrow> parser_ok mx ps'"
  by (auto simp: http_parser_pause_def parser_ok_def split: if_splits)

context tame_settings
begin

lemma reachable_ok: "http_reachable mx S ps \<Longrightarrow> mx < 2 ^ 32 \<Longrightarrow> parser_ok mx ps"
proof (induction rule: http_reachable.induct)
  case (execute ps d c n ps' c')
  then have "parser_ok mx ps" by simp
  from execute_returns [OF this execute.prems, of d c] execute(2) this show ?case
    by (auto simp: execute_ok_def)
qed (auto simp: parser_ok_init parser_ok_flags parser_ok_pause)

lemma reachable_execute:
  assumes "http_reachable mx S ps" "mx < 2 ^ 32"
  shows "\<exists>n ps' c'. http_parser_execute mx S ps d c = Returned n ps' c' \<and> (d \<noteq> [] \<longrightarrow> n \<le> length d)"
  using execute_returns [OF reachable_ok [OF assms] assms(2), of d c] by (auto simp: execute_ok_def)

lemma stopped_early:
  assumes "http_reachable mx S ps" "mx < 2 ^ 32" "d \<noteq> []"
    "http_parser_execute mx S ps d c = Returned n ps' c'" "n < length d"
  shows "http_errno ps' \<noteq> HPE_OK \<or> upgrade ps' \<or> resets"
  using execute_returns [OF reachable_ok [OF assms(1,2)] assms(2), of d c] assms(3-5)
  by (auto simp: execute_ok_def)

end

text \<open>An error other than a pause stays: no later call reads a byte.\<close>

lemma error_is_sticky:
  "http_errno ps \<notin> {HPE_OK, HPE_PAUSED} \<Longrightarrow>
    http_parser_execute mx S ps d c = Returned 0 ps c \<and> http_parser_pause ps b = None"
  by (simp add: http_parser_execute_def http_parser_pause_def)

text \<open>The settings without callbacks meet the contract.\<close>

interpretation no_callbacks: tame_settings http_parser_settings_init False
  by unfold_locales
    (simp_all add: http_parser_settings_init_def tame_cb_def tame_data_cb_def resetting_cb_def data_callback_def
      split: mark.split)

section \<open>Properties\<close>

text \<open>
  C11: Total and safe: whatever bytes a parser gets, in whatever pieces and with callbacks that pause it,
  fail or re-initialise it at the end of a message, \<open>http_parser_execute\<close> returns.  No assertion of the
  source fails, no byte outside the buffer and no byte behind a matcher string is read (each would be
  \<open>Aborted\<close>), a byte is never re-executed more than the fuel allows (\<open>Out_of_fuel\<close>), and the returned
  count is at most the length of the buffer.
\<close>

theorem http_parser_never_aborts:
  assumes "tame_settings S resets" and "mx < 2 ^ 32" and "http_reachable mx S ps"
  shows "\<exists>n ps' c'. http_parser_execute mx S ps d c = Returned n ps' c' \<and> (d \<noteq> [] \<longrightarrow> n \<le> length d)"
  by (rule tame_settings.reachable_execute [OF assms(1,3,2)])

lemma http_parser_never_aborts_witness:
  "\<exists>n ps' c'. http_parser_execute 81920 http_parser_settings_init (http_parser_init HTTP_BOTH) ''GET /'' ()
     = Returned n ps' c' \<and> n \<le> length ''GET /''"
  using http_parser_never_aborts [OF no_callbacks.tame_settings_axioms _ http_reachable.init,
      of 81920 HTTP_BOTH "''GET /''" "()"] by simp

text \<open>
  C12: The parser object between two calls, unless it is in an error state: every bit field holds a value
  of its range, a status code has at most three digits, the index of the method matcher lies in the
  method string, the header state fits the state, the chunk states have \<open>F_CHUNKED\<close> set and a known
  length, and the count of header bytes is at most the limit.
\<close>

theorem http_parser_well_formed:
  assumes "tame_settings S resets" and "mx < 2 ^ 32" and "http_reachable mx S ps"
    and "http_errno ps \<in> {HPE_OK, HPE_PAUSED}"
  shows "parser_inv (state ps) ps \<and> nread ps \<le> mx"
  using tame_settings.reachable_ok [OF assms(1,3,2)] assms(4) by (auto simp: parser_ok_def)

lemma http_parser_well_formed_witness:
  "parser_inv s_start_req (http_parser_init HTTP_REQUEST) \<and> nread (http_parser_init HTTP_REQUEST) \<le> 81920"
  using http_parser_well_formed [OF no_callbacks.tame_settings_axioms _ http_reachable.init,
      of 81920 HTTP_REQUEST] by (simp add: http_parser_init_def)

text \<open>
  C37: A call that stops before the end of its buffer says why: an error number is set, or \<open>upgrade\<close> is,
  unless \<open>on_message_complete\<close> may re-initialise the parser.  And an error stays: every later call
  returns 0 and changes nothing, and the parser cannot be resumed.
\<close>

theorem http_parser_reports_stop:
  assumes "tame_settings S resets" and "mx < 2 ^ 32" and "http_reachable mx S ps"
    and "http_parser_execute mx S ps d c = Returned n ps' c'" and "n < length d"
  shows "(http_errno ps' \<noteq> HPE_OK \<or> upgrade ps' \<or> resets) \<and>
    (http_errno ps' \<in> {HPE_OK, HPE_PAUSED} \<or>
      http_parser_execute mx S ps' d' c' = Returned 0 ps' c' \<and> http_parser_pause ps' b = None)"
  using tame_settings.stopped_early [OF assms(1,3,2) _ assms(4,5)] assms(5) error_is_sticky [of ps' mx S d' c' b]
  by (cases "d = []") auto

lemma reexecute_loop_5:
  "reexecute_loop 5 E m = (case http_step E m of Reexecute m \<Rightarrow> reexecute_loop 4 E m | r \<Rightarrow> Some r)"
  using reexecute_loop.simps(2) [of 4 E m] by (simp add: numeral_eq_Suc)

lemma bad_method_run:
  "http_parser_execute 81920 http_parser_settings_init (http_parser_init HTTP_REQUEST) ''?'' () =
     Returned 0 ((http_parser_init HTTP_REQUEST)\<lparr>content_length := ULLONG_MAX, nread := 1, http_errno := HPE_INVALID_METHOD\<rparr>) ()"
  by (simp add: http_parser_execute_def http_parser_init_def new_env_def new_machine_def byte_turn_def Let_def
      COUNT_HEADER_SIZE_def reexecute_fuel_def reexecute_loop_5 http_step_def step_start_req_def reset_message_def IS_ALPHA_def fail_def
      SET_ERRNO_def error_exit_def RETURN_def result_of_def)

lemma http_parser_reports_stop_witness:
  "\<exists>ps'. http_parser_execute 81920 http_parser_settings_init (http_parser_init HTTP_REQUEST) ''?'' () = Returned 0 ps' ()
     \<and> http_errno ps' \<noteq> HPE_OK \<and> http_parser_pause ps' False = None"
  using http_parser_reports_stop [OF no_callbacks.tame_settings_axioms _ http_reachable.init bad_method_run, of "''GET''" False]
    bad_method_run by simp

end
