(* ===== verification/Http_Message.thy ===== *)
theory Http_Message
  imports Http_Execute "HOL-Library.List_Lexorder"
begin

text \<open>
  The class \<open>message\<close> of \<open>net/app/http/message.cpp\<close> on top of the parser: its callbacks, the parse of a
  buffer and the accessors.  The message holds the parser object, whose \<open>data\<close> pointer leads back to
  the message; here the callbacks get both, and the message record is the rest of the object.  Members
  the constructor leaves uninitialised are \<open>None\<close> until they are written.  A failed assertion of a
  callback is noted in \<open>m_aborted\<close>; the process is gone from then on.
\<close>

section \<open>std::map with string keys\<close>

type_synonym header_type = "(string \<times> string) list"

text \<open>\<open>m[k] = v\<close> and \<open>m.insert({k, v})\<close> on the entries in the order of their keys.\<close>

fun header_set :: "string \<Rightarrow> string \<Rightarrow> header_type \<Rightarrow> header_type" where
  "header_set k v [] = [(k, v)]"
| "header_set k v ((k', v') # hs) =
     (if k < k' then (k, v) # (k', v') # hs
      else if k = k' then (k, v) # hs
      else (k', v') # header_set k v hs)"

definition header_insert :: "string \<Rightarrow> string \<Rightarrow> header_type \<Rightarrow> header_type" where
  "header_insert k v hs = (if map_of hs k = None then header_set k v hs else hs)"

lemma map_of_header_set: "sorted_wrt (<) (map fst hs) \<Longrightarrow> map_of (header_set k v hs) = (map_of hs)(k \<mapsto> v)"
proof (induction k v hs rule: header_set.induct)
  case (2 k v k' v' hs)
  have "k < x" if "k < k'" "x \<in> fst ` set hs" for x
    using 2 that by (force dest: order_less_trans)
  then show ?case using 2
    by (auto simp: fun_upd_twist)
qed simp

lemma keys_header_set: "fst ` set (header_set k v hs) = insert k (fst ` set hs)"
  by (induction k v hs rule: header_set.induct) auto

lemma sorted_header_set:
  "sorted_wrt (<) (map fst hs) \<Longrightarrow> sorted_wrt (<) (map fst (header_set k v hs))"
proof (induction k v hs rule: header_set.induct)
  case (2 k v k' v' hs)
  then show ?case
    using keys_header_set [of k v hs] by (fastforce dest: order_less_trans)
qed simp

section \<open>The message and its callbacks\<close>

record message =
  m_type :: http_parser_type
  m_url :: string
  m_last_header_field :: string
  m_headers :: header_type
  m_status :: "nat option"
  m_method :: "http_method option"
  m_version :: "(nat \<times> nat) option"
  m_body :: string
  m_completed :: bool
  m_aborted :: bool

definition message_init :: "http_parser_type \<Rightarrow> message" where
  "message_init t = \<lparr>m_type = t, m_url = [], m_last_header_field = [], m_headers = [], m_status = None,
     m_method = None, m_version = None, m_body = [], m_completed = False, m_aborted = False\<rparr>"

definition on_message_begin_cb :: "message http_cb" where
  "on_message_begin_cb ps msg = (0, ps, msg)"

definition on_url_cb :: "message http_data_cb" where
  "on_url_cb s ps msg = (0, ps, msg\<lparr>m_url := s\<rparr>)"

definition on_status_cb :: "message http_data_cb" where
  "on_status_cb s ps msg =
     (0, ps, if m_type msg = HTTP_RESPONSE then msg\<lparr>m_status := Some (status_code ps)\<rparr> else msg)"

definition on_header_field_cb :: "message http_data_cb" where
  "on_header_field_cb s ps msg = (0, ps, msg\<lparr>m_last_header_field := s\<rparr>)"

definition on_header_value_cb :: "message http_data_cb" where
  "on_header_value_cb s ps msg =
     (0, ps, if m_last_header_field msg = [] then msg\<lparr>m_aborted := True\<rparr>
             else msg\<lparr>m_headers := header_set (m_last_header_field msg) s (m_headers msg)\<rparr>)"

definition on_headers_complete_cb :: "message http_cb" where
  "on_headers_complete_cb ps msg = (0, ps, msg)"

definition on_body_cb :: "message http_data_cb" where
  "on_body_cb s ps msg = (0, ps, msg\<lparr>m_body := s\<rparr>)"

definition on_message_complete_cb :: "message http_cb" where
  "on_message_complete_cb ps msg =
     (0, if m_type msg = HTTP_BOTH then http_parser_init (m_type msg) else ps,
      msg\<lparr>m_version := Some (http_major ps, http_minor ps),
          m_method := (if ptype ps = HTTP_REQUEST then Some (req_method ps) else m_method msg),
          m_completed := True\<rparr>)"

definition on_chunk_header_cb :: "message http_cb" where
  "on_chunk_header_cb ps msg = (0, ps, msg)"

definition on_chunk_complete_cb :: "message http_cb" where
  "on_chunk_complete_cb ps msg = (0, ps, msg)"

definition s_settting :: "message http_parser_settings" where
  "s_settting = \<lparr>on_message_begin = Some on_message_begin_cb, on_url = Some on_url_cb,
     on_status = Some on_status_cb, on_header_field = Some on_header_field_cb,
     on_header_value = Some on_header_value_cb, on_headers_complete = Some on_headers_complete_cb,
     on_body = Some on_body_cb, on_message_complete = Some on_message_complete_cb,
     on_chunk_header = Some on_chunk_header_cb, on_chunk_complete = Some on_chunk_complete_cb\<rparr>"

text \<open>The callbacks of the class meet the contract of the parser; the parser may be re-initialised.\<close>

lemma s_settting_tame: "tame_settings s_settting True"
proof
  show "tame_data_cb (data_callback s_settting x)" for x
    by (cases x) (simp_all add: s_settting_def data_callback_def tame_data_cb_def keeps_parser_def
        on_header_field_cb_def on_header_value_cb_def on_url_cb_def on_body_cb_def on_status_cb_def)
  show "resetting_cb True (on_message_complete s_settting)"
    by (auto simp: s_settting_def resetting_cb_def keeps_parser_def on_message_complete_cb_def)
qed (simp_all add: s_settting_def tame_cb_def keeps_parser_def on_message_begin_cb_def
    on_headers_complete_cb_def on_chunk_header_cb_def on_chunk_complete_cb_def)

interpretation message_cbs: tame_settings s_settting True
  by (rule s_settting_tame)

interpretation message_run: tame_run "new_env mx s_settting ps d" True for mx ps d
  by (rule message_cbs.tame_new_env)

section \<open>Parsing\<close>

text \<open>
  \<open>Aborts\<close> is a failed assertion, \<open>Overread\<close> the log line of the failure, which takes the rest of the
  buffer for a C string and reads behind the buffer when it holds no \<open>NUL\<close>.
\<close>

datatype parse_result = Parsed bool http_parser message | Overread http_parser message | Aborts

definition message_parse :: "http_parser \<Rightarrow> message \<Rightarrow> string \<Rightarrow> parse_result" where
  "message_parse ps msg d =
     (case http_parser_execute HTTP_MAX_HEADER_SIZE s_settting ps d msg of
        Returned parsed ps msg \<Rightarrow>
          if m_aborted msg then Aborts
          else if http_errno ps \<noteq> HPE_OK
          then (if NUL \<in> set (drop parsed d) then Parsed False ps msg else Overread ps msg)
          else Parsed True ps msg
      | _ \<Rightarrow> Aborts)"

text \<open>A sequence of buffers, as \<open>on_receive\<close> gets them; it stops at the first that fails.\<close>

fun message_feed :: "http_parser \<Rightarrow> message \<Rightarrow> string list \<Rightarrow> parse_result" where
  "message_feed ps msg [] = Parsed True ps msg"
| "message_feed ps msg (d # ds) =
     (case message_parse ps msg d of
        Parsed True ps msg \<Rightarrow> message_feed ps msg ds
      | r \<Rightarrow> r)"

definition message_new :: "http_parser_type \<Rightarrow> string list \<Rightarrow> parse_result" where
  "message_new t ds = message_feed (http_parser_init t) (message_init t) ds"

text \<open>\<open>is_completed\<close> looks at the entry \<open>Connection\<close> without asking whether there is one: \<open>None\<close>.\<close>

definition is_completed :: "message \<Rightarrow> bool option" where
  "is_completed msg =
     (if m_completed msg then Some True
      else case map_of (m_headers msg) ''Connection'' of
        None \<Rightarrow> None
      | Some v \<Rightarrow> Some (v = ''close''))"

end
