(* ===== verification/Http_Client.thy ===== *)
theory Http_Client
  imports Http_Message Http_Uri
begin

text \<open>
  The HTTP client of \<open>net/app/http/client.h\<close> and the structures of \<open>net/app/http/struct.h\<close>: how a
  request is completed and written, and what its waiting caller gets.
\<close>

section \<open>Requests and responses\<close>

record request =
  rq_version :: string
  rq_url :: string
  rq_method :: string
  rq_path :: string
  rq_params :: header_type
  rq_headers :: header_type
  rq_body :: string

text \<open>A response that was never assigned has empty strings; \<open>None\<close> is an indeterminate value.\<close>

record response =
  rs_version :: "string option"
  rs_status :: "nat option"
  rs_headers :: header_type
  rs_body :: string

text \<open>The request as \<open>request(ip, port, req)\<close> sends it: with a version and a length.\<close>

definition complete_request :: "request \<Rightarrow> request" where
  "complete_request req =
     (let req = (if rq_version req = [] then req\<lparr>rq_version := ''1.1''\<rparr> else req) in
      req\<lparr>rq_headers := header_insert ''Content-Length'' (to_string (length (rq_body req))) (rq_headers req)\<rparr>)"

abbreviation CRLF :: string where "CRLF \<equiv> [CR, LF]"

fun render_headers :: "header_type \<Rightarrow> string" where
  "render_headers [] = []"
| "render_headers ((k, v) # hs) = k @ '': '' @ v @ CRLF @ render_headers hs"

definition render :: "request \<Rightarrow> string" where
  "render req = rq_method req @ '' '' @ rq_url req @ '' HTTP/'' @ rq_version req @ CRLF
     @ render_headers (rq_headers req) @ CRLF @ (if rq_body req \<noteq> [] then rq_body req else [])"

text \<open>
  \<open>request(method, url, headers, body)\<close>: the URL is the rest of the text from the path on, as the URI
  parser leaves it, whether the parser succeeds or not.  The second component is the address.
\<close>

definition uri_object :: uri where
  "uri_object = \<lparr>u_host = [], u_port = 0, u_path = [], u_user_info = [], u_schema = [], u_fragment = [],
     u_query = [], u_query_map = Map.empty, u_url = []\<rparr>"

definition make_request :: "string \<Rightarrow> string \<Rightarrow> header_type \<Rightarrow> string \<Rightarrow> (request \<times> string \<times> u16) option" where
  "make_request x url hs body =
     map_option (\<lambda>(ok, u). (\<lparr>rq_version = ''1.1'', rq_url = u_url u, rq_method = x, rq_path = [],
         rq_params = [], rq_headers = hs, rq_body = body\<rparr>, u_host u, u_port u))
       (parse_from_array (url @ [NUL]) uri_object)"

definition get_request :: "string \<Rightarrow> header_type \<Rightarrow> (request \<times> string \<times> u16) option" where
  "get_request url hs = make_request ''GET'' url hs []"

definition put_request :: "string \<Rightarrow> header_type \<Rightarrow> string \<Rightarrow> (request \<times> string \<times> u16) option" where
  "put_request url hs body = make_request ''PUT'' url hs body"

end
