(* ===== verification/Http_Request_Text.thy ===== *)
theory Http_Request_Text
  imports Http_Client
begin

text \<open>
  The parts of a request text, apart from the machine that reads them: which methods, URLs, header names
  and header values the parser reads as they stand, what its loops over a name and over a value do with
  such a text, and the message that the callbacks build from a list of headers.
\<close>

lemma drop_nth: "drop p s = c # r \<Longrightarrow> p < length s \<and> s ! p = c \<and> drop (Suc p) s = r"
  by (metis Cons_nth_drop_Suc drop_eq_Nil list.distinct(1) list.inject not_less)

lemma drop_appendD: "drop p s = w @ r \<Longrightarrow> drop (p + length w) s = r"
  by (metis add.commute append_eq_conv_conj drop_drop)

type_synonym parsed = "u8 \<times> nat \<times> http_method \<times> nat \<times> nat"

definition parsed_of :: "http_parser \<Rightarrow> parsed" where
  "parsed_of ps = (flags ps, content_length ps, req_method ps, http_major ps, http_minor ps)"

definition plain_request :: "http_parser \<Rightarrow> bool" where
  "plain_request ps \<longleftrightarrow> http_errno ps = HPE_OK \<and> ptype ps = HTTP_REQUEST \<and> \<not> uses_transfer_encoding ps"

text \<open>The switch of \<open>s_header_field\<close> over a whole name.\<close>

lemma TOKEN_colon: "TOKEN (CHR '':'') = NUL"
  by code_simp

lemma TOKEN_blank: "TOKEN c \<noteq> NUL \<Longrightarrow> c \<noteq> CR \<and> c \<noteq> LF \<and> c \<noteq> CHR '' '' \<and> c \<noteq> HT"
proof -
  have "TOKEN CR = NUL" "TOKEN LF = NUL" "TOKEN (CHR '' '') = NUL" "TOKEN HT = NUL" by code_simp+
  then show "TOKEN c \<noteq> NUL \<Longrightarrow> c \<noteq> CR \<and> c \<noteq> LF \<and> c \<noteq> CHR '' '' \<and> c \<noteq> HT" by auto
qed

fun field_fold :: "string \<Rightarrow> http_parser \<Rightarrow> http_parser option" where
  "field_fold [] ps = Some ps"
| "field_fold (b # w) ps =
     (if header_state ps = h_general then Some ps
      else Option.bind (header_field_char b (TOKEN b) ps) (field_fold w))"

definition special_names :: "string list" where
  "special_names = [''connection'', ''proxy-connection'', ''content-length'', ''upgrade'']"

definition ordinary_name :: "string \<Rightarrow> bool" where
  "ordinary_name k \<longleftrightarrow> k \<noteq> [] \<and> list_all (\<lambda>c. TOKEN c \<noteq> NUL) k \<and> map TOKEN k \<notin> set special_names \<and>
     take 17 (map TOKEN k) \<noteq> ''transfer-encoding''"

definition matching :: "string \<Rightarrow> string \<Rightarrow> nat \<Rightarrow> bool" where
  "matching name w i \<longleftrightarrow> i + 1 < length name \<and> w = take (i + 1) name"

definition field_inv :: "string \<Rightarrow> http_parser \<Rightarrow> bool" where
  "field_inv w ps \<longleftrightarrow> (case header_state ps of
     h_general \<Rightarrow> True
   | h_C \<Rightarrow> w = ''c'' \<and> index ps = 0
   | h_CO \<Rightarrow> w = ''co'' \<and> index ps = 1
   | h_CON \<Rightarrow> w = ''con'' \<and> index ps = 2
   | h_matching_connection \<Rightarrow> matching ''connection'' w (index ps)
   | h_matching_proxy_connection \<Rightarrow> matching ''proxy-connection'' w (index ps)
   | h_matching_content_length \<Rightarrow> matching ''content-length'' w (index ps)
   | h_matching_transfer_encoding \<Rightarrow> matching ''transfer-encoding'' w (index ps)
   | h_matching_upgrade \<Rightarrow> matching ''upgrade'' w (index ps)
   | h_connection \<Rightarrow> w = ''connection'' \<or> w = ''proxy-connection''
   | h_content_length \<Rightarrow> w = ''content-length''
   | h_transfer_encoding \<Rightarrow> w = ''transfer-encoding''
   | h_upgrade \<Rightarrow> w = ''upgrade''
   | _ \<Rightarrow> False)"

text \<open>What a step inside a name leaves alone, unless it completes \<open>transfer-encoding\<close>.\<close>

definition same_request :: "http_parser \<Rightarrow> http_parser \<Rightarrow> bool" where
  "same_request ps ps' \<longleftrightarrow> parsed_of ps' = parsed_of ps \<and> (plain_request ps \<longrightarrow> plain_request ps')"

lemma same_request_trans: "same_request ps ps' \<Longrightarrow> same_request ps' ps'' \<Longrightarrow> same_request ps ps''"
  by (auto simp: same_request_def)

lemma field_match_inv:
  assumes "matching name w (index ps)" "length name \<le> 17"
  shows "\<exists>ps'. field_match name c stay full ps = Some ps' \<and>
    (header_state ps' = h_general \<or> header_state ps' = stay \<and> matching name (w @ [c]) (index ps') \<or>
     header_state ps' = full \<and> w @ [c] = name) \<and> ps' = ps\<lparr>index := index ps', header_state := header_state ps'\<rparr>"
proof -
  have i: "(index ps + 1) mod 32 = index ps + 1" "index ps + 1 < length name" "w = take (index ps + 1) name"
    using assms by (auto simp: matching_def)
  have "c = name ! (index ps + 1) \<Longrightarrow> w @ [c] = take (index ps + 2) name"
    using i take_Suc_conv_app_nth [of "index ps + 1" name] by simp
  then show ?thesis using i
    by (auto simp: field_match_def match_index_def inc_index_def c_string_at_def rd_def nth_append matching_def Let_def)
qed

lemma field_inv_simps:
  "header_state ps = h_general \<Longrightarrow> field_inv w ps"
  "header_state ps = h_C \<Longrightarrow> field_inv w ps \<longleftrightarrow> w = ''c'' \<and> index ps = 0"
  "header_state ps = h_CO \<Longrightarrow> field_inv w ps \<longleftrightarrow> w = ''co'' \<and> index ps = 1"
  "header_state ps = h_CON \<Longrightarrow> field_inv w ps \<longleftrightarrow> w = ''con'' \<and> index ps = 2"
  "header_state ps = h_matching_connection \<Longrightarrow> field_inv w ps = matching ''connection'' w (index ps)"
  "header_state ps = h_matching_proxy_connection \<Longrightarrow> field_inv w ps = matching ''proxy-connection'' w (index ps)"
  "header_state ps = h_matching_content_length \<Longrightarrow> field_inv w ps = matching ''content-length'' w (index ps)"
  "header_state ps = h_matching_transfer_encoding \<Longrightarrow> field_inv w ps = matching ''transfer-encoding'' w (index ps)"
  "header_state ps = h_matching_upgrade \<Longrightarrow> field_inv w ps = matching ''upgrade'' w (index ps)"
  "header_state ps = h_connection \<Longrightarrow> field_inv w ps \<longleftrightarrow> w = ''connection'' \<or> w = ''proxy-connection''"
  "header_state ps = h_content_length \<Longrightarrow> field_inv w ps \<longleftrightarrow> w = ''content-length''"
  "header_state ps = h_transfer_encoding \<Longrightarrow> field_inv w ps \<longleftrightarrow> w = ''transfer-encoding''"
  "header_state ps = h_upgrade \<Longrightarrow> field_inv w ps \<longleftrightarrow> w = ''upgrade''"
  by (simp_all add: field_inv_def)

lemma field_match_keeps:
  assumes "field_inv w ps" "header_state ps = stay" "length name \<le> 17"
    and stay: "\<And>w ps. header_state ps = stay \<Longrightarrow> field_inv w ps = matching name w (index ps)"
    and full: "\<And>ps. header_state ps = full \<Longrightarrow> field_inv name ps"
  shows "\<exists>ps'. field_match name c stay full ps = Some ps' \<and> field_inv (w @ [c]) ps' \<and> same_request ps ps' \<and>
    (header_state ps' = h_general \<or> header_state ps' = stay \<or> header_state ps' = full \<and> w @ [c] = name)"
proof -
  have "matching name w (index ps)" using assms(1,2) stay by simp
  from field_match_inv [OF this assms(3), of c stay full] obtain ps' where ps':
      "field_match name c stay full ps = Some ps'"
      "header_state ps' = h_general \<or> header_state ps' = stay \<and> matching name (w @ [c]) (index ps') \<or>
       header_state ps' = full \<and> w @ [c] = name" "ps' = ps\<lparr>index := index ps', header_state := header_state ps'\<rparr>"
    by blast
  have "same_request ps ps'"
    by (subst ps'(3)) (simp add: same_request_def parsed_of_def plain_request_def)
  moreover have "field_inv (w @ [c]) ps'" using ps'(2)
  proof (elim disjE conjE)
    assume "header_state ps' = h_general" then show ?thesis by (simp add: field_inv_def)
  next
    assume "header_state ps' = stay" "matching name (w @ [c]) (index ps')" then show ?thesis using stay by blast
  next
    assume "header_state ps' = full" "w @ [c] = name" then show ?thesis using full by simp
  qed
  ultimately show ?thesis using ps'(1,2) by blast
qed

lemma field_char_inv:
  assumes inv: "field_inv w ps" and h: "header_state ps \<noteq> h_general" and b: "b \<noteq> CHR '' ''"
    and te: "w @ [c] \<noteq> ''transfer-encoding''"
  shows "\<exists>ps'. header_field_char b c ps = Some ps' \<and> field_inv (w @ [c]) ps' \<and> same_request ps ps'"
proof -
  note defs = field_inv_def header_field_char_def inc_index_def same_request_def parsed_of_def plain_request_def
  note keeps = field_match_keeps [OF inv]
  have same: "same_request ps ((inc_index ps)\<lparr>header_state := h\<rparr>)" for h
    by (simp add: defs)
  consider "header_state ps = h_C" | "header_state ps = h_CO" | "header_state ps = h_CON"
    | "header_state ps = h_matching_connection" | "header_state ps = h_matching_proxy_connection"
    | "header_state ps = h_matching_content_length" | "header_state ps = h_matching_transfer_encoding"
    | "header_state ps = h_matching_upgrade"
    | "header_state ps \<in> {h_connection, h_content_length, h_transfer_encoding, h_upgrade}"
    using inv h by (cases "header_state ps") (simp_all add: field_inv_def)
  then show ?thesis
  proof cases
    case 1
    then have "field_inv (w @ [c]) ((inc_index ps)\<lparr>header_state := if c = CHR ''o'' then h_CO else h_general\<rparr>)"
      using inv by (simp add: field_inv_simps inc_index_def)
    with 1 same show ?thesis by (simp add: header_field_char_def)
  next
    case 2
    then have "field_inv (w @ [c]) ((inc_index ps)\<lparr>header_state := if c = CHR ''n'' then h_CON else h_general\<rparr>)"
      using inv by (simp add: field_inv_simps inc_index_def)
    with 2 same show ?thesis by (simp add: header_field_char_def)
  next
    case 3
    then have "field_inv (w @ [c]) ((inc_index ps)\<lparr>header_state :=
       if c = CHR ''n'' then h_matching_connection
       else if c = CHR ''t'' then h_matching_content_length else h_general\<rparr>)"
      using inv by (simp add: field_inv_simps inc_index_def matching_def)
    with 3 same show ?thesis by (simp add: header_field_char_def)
  next
    case 4
    have "header_field_char b c ps = field_match ''connection'' c h_matching_connection h_connection ps"
      using 4 by (simp add: header_field_char_def)
    with keeps [OF 4, of "''connection''" h_connection c] show ?thesis by (auto simp: field_inv_simps)
  next
    case 5
    have "header_field_char b c ps = field_match ''proxy-connection'' c h_matching_proxy_connection h_connection ps"
      using 5 by (simp add: header_field_char_def)
    with keeps [OF 5, of "''proxy-connection''" h_connection c] show ?thesis by (auto simp: field_inv_simps)
  next
    case 6
    have "header_field_char b c ps = field_match ''content-length'' c h_matching_content_length h_content_length ps"
      using 6 by (simp add: header_field_char_def)
    with keeps [OF 6, of "''content-length''" h_content_length c] show ?thesis by (auto simp: field_inv_simps)
  next
    case 7
    with keeps [OF 7, of "''transfer-encoding''" h_transfer_encoding c] te obtain ps' where
        "field_match ''transfer-encoding'' c h_matching_transfer_encoding h_transfer_encoding ps = Some ps'"
        "field_inv (w @ [c]) ps'" "same_request ps ps'" "header_state ps' \<noteq> h_transfer_encoding"
      by (auto simp: field_inv_simps)
    with 7 show ?thesis by (simp add: header_field_char_def)
  next
    case 8
    have "header_field_char b c ps = field_match ''upgrade'' c h_matching_upgrade h_upgrade ps"
      using 8 by (simp add: header_field_char_def)
    with keeps [OF 8, of "''upgrade''" h_upgrade c] show ?thesis by (auto simp: field_inv_simps)
  next
    case 9
    then have "header_field_char b c ps = Some (ps\<lparr>header_state := h_general\<rparr>)" using b by (auto simp: header_field_char_def)
    then show ?thesis by (simp add: field_inv_simps same_request_def parsed_of_def plain_request_def)
  qed
qed

text \<open>The first byte of a name and the others.\<close>

definition name_start :: "char \<Rightarrow> header_states" where
  "name_start c = (if c = CHR ''c'' then h_C else if c = CHR ''p'' then h_matching_proxy_connection
     else if c = CHR ''t'' then h_matching_transfer_encoding
     else if c = CHR ''u'' then h_matching_upgrade else h_general)"

lemma field_inv_start: "header_state ps = name_start c \<Longrightarrow> index ps = 0 \<Longrightarrow> field_inv [c] ps"
  by (simp add: name_start_def field_inv_simps matching_def split: if_splits)

lemma field_fold_inv:
  "field_inv v ps \<Longrightarrow> list_all (\<lambda>c. TOKEN c \<noteq> NUL) w \<Longrightarrow>
    take 17 (v @ map TOKEN w) \<noteq> ''transfer-encoding'' \<Longrightarrow>
    \<exists>ps'. field_fold w ps = Some ps' \<and> same_request ps ps' \<and>
      (header_state ps' = h_general \<or> field_inv (v @ map TOKEN w) ps')"
proof (induction w arbitrary: v ps)
  case Nil
  then show ?case by (simp add: same_request_def)
next
  case (Cons b w)
  show ?case
  proof (cases "header_state ps = h_general")
    case True
    then show ?thesis by (simp add: same_request_def)
  next
    case False
    have "v @ [TOKEN b] \<noteq> ''transfer-encoding''"
    proof
      assume "v @ [TOKEN b] = ''transfer-encoding''"
      then have "v @ map TOKEN (b # w) = ''transfer-encoding'' @ map TOKEN w" by simp
      with Cons.prems(3) show False by simp
    qed
    moreover have "b \<noteq> CHR '' ''" using Cons.prems(2) by (auto simp: STRICT_TOKEN_def)
    ultimately obtain ps1 where ps1: "header_field_char b (TOKEN b) ps = Some ps1" "field_inv (v @ [TOKEN b]) ps1"
        "same_request ps ps1"
      using field_char_inv [OF Cons.prems(1) False] by blast
    with Cons.IH [OF ps1(2)] Cons.prems(2,3) obtain ps' where "field_fold w ps1 = Some ps'" "same_request ps1 ps'"
        "header_state ps' = h_general \<or> field_inv ((v @ [TOKEN b]) @ map TOKEN w) ps'"
      by auto
    with False ps1(1,3) show ?thesis by (auto intro: same_request_trans)
  qed
qed

text \<open>An ordinary name leads to a state that takes the value as a general one.\<close>

definition value_general :: "header_states \<Rightarrow> bool" where
  "value_general h \<longleftrightarrow> h \<in> {h_general, h_C, h_CO, h_CON, h_matching_connection, h_matching_proxy_connection,
     h_matching_content_length, h_matching_transfer_encoding, h_matching_upgrade}"

lemma ordinary_fold:
  assumes "ordinary_name (c # w)" "header_state ps = name_start (TOKEN c)" "index ps = 0"
  shows "\<exists>ps'. field_fold w ps = Some ps' \<and> same_request ps ps' \<and> value_general (header_state ps')"
proof -
  have "field_inv [TOKEN c] ps" using field_inv_start assms(2,3) by blast
  with assms(1) obtain ps' where ps': "field_fold w ps = Some ps'" "same_request ps ps'"
      "header_state ps' = h_general \<or> field_inv (map TOKEN (c # w)) ps'"
    using field_fold_inv [of "[TOKEN c]" ps w] by (auto simp: ordinary_name_def)
  moreover have "map TOKEN (c # w) \<noteq> ''transfer-encoding''"
    using assms(1) unfolding ordinary_name_def by force
  ultimately have "value_general (header_state ps')"
    using assms(1) by (cases "header_state ps'")
      (auto simp: value_general_def ordinary_name_def special_names_def field_inv_def)
  with ps' show ?thesis by blast
qed

lemma content_length_fold:
  assumes "header_state ps = h_C" "index ps = 0"
  shows "\<exists>ps'. field_fold ''ontent-Length'' ps = Some ps' \<and> same_request ps ps' \<and> header_state ps' = h_content_length"
proof -
  have t: "map TOKEN ''ontent-Length'' = ''ontent-length''" by code_simp
  show ?thesis using assms t
    by (simp add: header_field_char_def field_match_def match_index_def inc_index_def c_string_at_def rd_def
        same_request_def parsed_of_def plain_request_def)
qed

text \<open>Header values, and the decimal number of a length.\<close>

definition value_char_ok :: "char \<Rightarrow> bool" where
  "value_char_ok c \<longleftrightarrow> IS_HEADER_CHAR c \<and> c \<noteq> CR \<and> c \<noteq> LF"

definition header_value_ok :: "string \<Rightarrow> bool" where
  "header_value_ok v \<longleftrightarrow> v \<noteq> [] \<and> list_all value_char_ok v \<and> hd v \<notin> {CHR '' '', HT}"

definition number_of :: "nat \<Rightarrow> string \<Rightarrow> nat" where
  "number_of n ds = foldl (\<lambda>n c. n * 10 + digit_of c) n ds"

lemma number_of_ge: "n \<le> number_of n ds"
proof (induction ds arbitrary: n)
  case (Cons c ds)
  have "n \<le> n * 10 + digit_of c" by simp
  also have "\<dots> \<le> number_of n (c # ds)" using Cons [of "n * 10 + digit_of c"] by (simp add: number_of_def)
  finally show ?case .
qed (simp add: number_of_def)

lemma digit_char: "k < 10 \<Longrightarrow> IS_NUM (char_of (48 + k)) \<and> digit_of (char_of (48 + k)) = k"
  by (simp add: IS_NUM_def digit_of_def less_eq_char_def)

lemma to_string_number: "list_all IS_NUM (to_string n) \<and> number_of 0 (to_string n) = n \<and> to_string n \<noteq> []"
proof (induction n rule: to_string.induct)
  case (1 n)
  then show ?case using digit_char
    by (subst (1 2 3) to_string.simps) (auto simp: number_of_def)
qed

lemma general_scan_value:
  "drop p (data E) = w @ CR # r \<Longrightarrow> list_all value_char_ok w \<Longrightarrow> p + length w = Suc q \<Longrightarrow> p + length w < pe \<Longrightarrow>
    general_scan E pe p = Inr q"
proof (induction w arbitrary: p)
  case Nil
  then show ?case using drop_nth [of p "data E" CR r] by (subst general_scan.simps) simp
next
  case (Cons c w)
  then have d: "data E ! p = c" "drop (Suc p) (data E) = w @ CR # r" using drop_nth [of p "data E" c] by auto
  have "general_scan E pe (p + 1) = Inr q" using Cons d by simp
  with Cons d show ?case by (subst general_scan.simps) (simp add: Let_def value_char_ok_def)
qed

lemma header_value_loop_CR:
  "drop (pos m) (data E) = CR # r \<Longrightarrow> header_value_loop E h m = At_CR h (m\<lparr>ch := CR\<rparr>)"
  using drop_nth [of "pos m" "data E" CR r] by (subst header_value_loop.simps) (simp add: Let_def)

lemma header_value_loop_general:
  assumes d: "drop (pos m) (data E) = w @ CR # r" and w: "list_all value_char_ok w" and mx: "length w < max_header_size E"
  shows "header_value_loop E h_general m = At_CR h_general (m\<lparr>pos := pos m + length w, ch := CR\<rparr>)"
proof (cases w)
  case Nil
  with d header_value_loop_CR [of m E r h_general] show ?thesis by simp
next
  case (Cons c w')
  have c: "pos m < length (data E)" "data E ! pos m = c" "value_char_ok c"
    using d w drop_nth [of "pos m" "data E" c] by (auto simp: Cons)
  have d2: "drop (pos m + length w) (data E) = CR # r" using drop_appendD [OF d] .
  have len: "pos m + length w < length (data E)" using drop_nth [OF d2] by simp
  define q where "q = pos m + length w'"
  have scan: "general_scan E (pos m + min (length (data E) - pos m) (max_header_size E)) (pos m) = Inr q"
    using len mx Cons by (intro general_scan_value [OF d w]) (simp_all add: q_def)
  have q: "q \<noteq> length (data E)" "q + 1 = pos m + length w" using len Cons by (simp_all add: q_def)
  have "header_value_loop E h_general (m\<lparr>ch := c, pos := q + 1\<rparr>) = At_CR h_general (m\<lparr>ch := c, pos := q + 1\<rparr>\<lparr>ch := CR\<rparr>)"
    by (rule header_value_loop_CR) (use d2 q in simp)
  then show ?thesis using c scan q
    by (subst header_value_loop.simps) (simp add: Let_def value_char_ok_def)
qed

lemma IS_NUM_char: "IS_NUM c \<Longrightarrow> value_char_ok c \<and> c \<noteq> CHR '' '' \<and> c \<noteq> HT"
proof -
  assume "IS_NUM c"
  then have n: "(48 :: nat) \<le> of_char c" "of_char c \<le> (57 :: nat)" by (simp_all add: IS_NUM_def less_eq_char_def)
  then have "c \<noteq> CR" "c \<noteq> LF" "c \<noteq> CHR '' ''" "c \<noteq> HT" by auto
  with n show ?thesis by (simp add: value_char_ok_def IS_HEADER_CHAR_def)
qed

lemma header_value_loop_number:
  "drop (pos m) (data E) = ds @ CR # r \<Longrightarrow> list_all IS_NUM ds \<Longrightarrow>
    number_of (content_length (prs m)) ds < 2 ^ 63 \<Longrightarrow>
    header_value_loop E h_content_length_num m = At_CR h_content_length_num
      (m\<lparr>prs := (prs m)\<lparr>content_length := number_of (content_length (prs m)) ds\<rparr>, pos := pos m + length ds, ch := CR\<rparr>)"
proof (induction ds arbitrary: m)
  case Nil
  with header_value_loop_CR [of m E r h_content_length_num] show ?case by (simp add: number_of_def)
next
  case (Cons c ds)
  have c: "pos m < length (data E)" "data E ! pos m = c" "drop (Suc (pos m)) (data E) = ds @ CR # r" "IS_NUM c"
    using Cons.prems drop_nth [of "pos m" "data E" c] by auto
  let ?n = "content_length (prs m) * 10 + digit_of c"
  have n: "number_of ?n ds = number_of (content_length (prs m)) (c # ds)" by (simp add: number_of_def)
  then have small: "?n < 2 ^ 63" using Cons.prems(3) number_of_ge [of ?n ds] by simp
  have v: "value_char h_content_length_num c (prs m) = V_go h_content_length_num ((prs m)\<lparr>content_length := ?n\<rparr>)"
  proof -
    have "(content_length (prs m) * 10 mod 2 ^ 64 + digit_of c) mod 2 ^ 64 = ?n" using small by simp
    moreover have "\<not> (ULLONG_MAX - 10) div 10 < content_length (prs m)" using small by (simp add: ULLONG_MAX_def)
    ultimately show ?thesis using c(4) IS_NUM_char [OF c(4)] by (simp add: value_char_def value_content_length_def Let_def)
  qed
  let ?m = "m\<lparr>ch := c, prs := (prs m)\<lparr>content_length := ?n\<rparr>, pos := pos m + 1\<rparr>"
  have "header_value_loop E h_content_length_num ?m = At_CR h_content_length_num
      (m\<lparr>prs := (prs m)\<lparr>content_length := number_of (content_length (prs m)) (c # ds)\<rparr>, pos := pos m + length (c # ds), ch := CR\<rparr>)"
    using Cons.IH [of ?m] Cons.prems(2,3) c(3) n by simp
  with c v IS_NUM_char [OF c(4)] show ?case
    by (subst header_value_loop.simps) (simp add: Let_def value_char_ok_def)
qed

text \<open>The method: its first byte selects a method, every other one keeps or changes it.\<close>

fun method_fold :: "http_method \<Rightarrow> nat \<Rightarrow> string \<Rightarrow> http_method option" where
  "method_fold y i [] = (if i = length (method_strings y) then Some y else None)"
| "method_fold y i (c # w) =
     (if c = NUL then None
      else case c_string_at (method_strings y) i of
        None \<Rightarrow> None
      | Some z \<Rightarrow>
          if c = z then method_fold y (i + 1) w
          else if (c \<ge> CHR ''A'' \<and> c \<le> CHR ''Z'') \<or> c = CHR ''-''
          then Option.bind (map_of method_turns (y, i, c)) (\<lambda>y. method_fold y (i + 1) w)
          else None)"

lemma method_path:
  "\<exists>c w y. method_strings x = c # w \<and> IS_ALPHA c \<and> c \<noteq> CR \<and> c \<noteq> LF \<and> first_method c = Some y \<and> method_fold y 1 w = Some x"
  by (cases x) (simp_all add: first_method_def c_string_at_def rd_def method_turns_def IS_ALPHA_def)

lemma url_dead: "foldl parse_url_char s_dead w = s_dead"
  by (induction w) (simp_all add: parse_url_char_def)

definition url_end_states :: "http_state set" where
  "url_end_states = {s_req_server, s_req_server_with_at, s_req_path, s_req_query_string_start,
     s_req_query_string, s_req_fragment_start, s_req_fragment}"

definition url_accepted :: "string \<Rightarrow> bool" where
  "url_accepted w \<longleftrightarrow> foldl parse_url_char s_req_spaces_before_url w \<in> url_end_states"

lemma skip_tokens_inside:
  "drop p d = w @ CHR '':'' # r \<Longrightarrow> w \<noteq> [] \<Longrightarrow> skip_tokens d pe p < p + length w"
proof (induction d pe p arbitrary: w rule: skip_tokens.induct)
  case (1 d pe p)
  obtain c w' where w: "w = c # w'" using 1(3) by (cases w) auto
  then have d: "drop (p + 1) d = w' @ CHR '':'' # r" using 1(2) drop_nth by force
  show ?case
  proof (cases "p + 1 < pe \<and> TOKEN (d ! (p + 1)) \<noteq> NUL")
    case True
    then have "w' \<noteq> []" using d drop_nth [of "p + 1" d "CHR '':''" r] TOKEN_colon by auto
    with 1(1) [OF True d] True w show ?thesis by (subst skip_tokens.simps) simp
  qed (use w in \<open>subst skip_tokens.simps, auto\<close>)
qed

lemma header_field_loop_name:
  "drop (pos m) (data E) = w @ CHR '':'' # r \<Longrightarrow> list_all (\<lambda>c. TOKEN c \<noteq> NUL) w \<Longrightarrow> field_fold w (prs m) = Some ps \<Longrightarrow>
    header_field_loop E m = Some (m\<lparr>prs := ps, pos := pos m + length w, ch := CHR '':''\<rparr>)"
proof (induction "length w" arbitrary: w m rule: less_induct)
  case less
  show ?case
  proof (cases w)
    case Nil
    with less.prems drop_nth [of "pos m" "data E"] TOKEN_colon show ?thesis
      by (subst header_field_loop.simps) (auto simp: Let_def)
  next
    case (Cons b w')
    then have b: "pos m < length (data E)" "data E ! pos m = b" "drop (Suc (pos m)) (data E) = w' @ CHR '':'' # r"
        "TOKEN b \<noteq> NUL" "list_all (\<lambda>c. TOKEN c \<noteq> NUL) w'"
      using less.prems drop_nth [of "pos m" "data E" b] by auto
    show ?thesis
    proof (cases "header_state (prs m) = h_general")
      case True
      define q where "q = skip_tokens (data E) (pos m + min (length (data E) - pos m) (max_header_size E)) (pos m)"
      let ?m = "m\<lparr>ch := b, pos := q + 1\<rparr>"
      have q: "pos m \<le> q" "q < pos m + length w"
        using skip_tokens_ge skip_tokens_inside [OF less.prems(1)] Cons by (auto simp: q_def)
      define k where "k = q + 1 - pos m"
      have k: "k \<le> length w" "q + 1 = pos m + k" "0 < k" using q by (auto simp: k_def)
      have fold: "ps = prs m" "field_fold (drop k w) (prs m) = Some ps"
        using less.prems(3) True Cons by (cases "drop k w"; simp)+
      have "drop (pos ?m) (data E) = drop k w @ CHR '':'' # r"
        using less.prems(1) k by (simp add: add.commute flip: drop_drop)
      then have "header_field_loop E ?m = Some (?m\<lparr>prs := ps, pos := pos ?m + length (drop k w), ch := CHR '':''\<rparr>)"
        using k fold(2) set_drop_subset [of k w] less.prems(2)
        by (intro less.hyps) (auto simp: list_all_iff)
      then have "header_field_loop E (m\<lparr>ch := b, pos := Suc q\<rparr>) = Some (m\<lparr>prs := ps, pos := pos m + length w, ch := CHR '':''\<rparr>)"
        using k by simp
      with True b show ?thesis by (subst header_field_loop.simps) (simp add: Let_def q_def)
    next
      case False
      then obtain ps1 where ps1: "header_field_char b (TOKEN b) (prs m) = Some ps1" "field_fold w' ps1 = Some ps"
        using less.prems(3) Cons by (auto split: bind_splits)
      have "header_field_loop E (m\<lparr>ch := b, prs := ps1, pos := pos m + 1\<rparr>) =
          Some (m\<lparr>prs := ps, pos := pos m + length w, ch := CHR '':''\<rparr>)"
        using less.hyps [of w' "m\<lparr>ch := b, prs := ps1, pos := pos m + 1\<rparr>"] Cons b ps1(2) by simp
      with False b ps1(1) show ?thesis by (subst header_field_loop.simps) (simp add: Let_def)
    qed
  qed
qed

definition ordinary_header :: "string \<times> string \<Rightarrow> bool" where
  "ordinary_header h \<longleftrightarrow> ordinary_name (fst h) \<and> header_value_ok (snd h)"

lemma render_headers_append: "render_headers (hs1 @ hs2) = render_headers hs1 @ render_headers hs2"
  by (induction hs1) auto

lemma header_set_new:
  "k \<notin> fst ` set hs \<Longrightarrow> \<exists>hs1 hs2. hs = hs1 @ hs2 \<and> header_set k v hs = hs1 @ (k, v) # hs2"
proof (induction k v hs rule: header_set.induct)
  case (2 k v k' v' hs)
  show ?case
  proof (cases "k < k'")
    case False
    with 2 obtain hs1 hs2 where "hs = hs1 @ hs2" "header_set k v hs = hs1 @ (k, v) # hs2" by auto
    with False 2(2) show ?thesis by (intro exI [of _ "(k', v') # hs1"] exI [of _ hs2]) auto
  qed auto
qed auto

lemma header_set_last: "\<forall>k' \<in> fst ` set hs. k' < k \<Longrightarrow> header_set k v hs = hs @ [(k, v)]"
  by (induction k v hs rule: header_set.induct) auto

definition note_header :: "string \<Rightarrow> message \<Rightarrow> message" where
  "note_header v u = u\<lparr>m_headers := header_set (m_last_header_field u) v (m_headers u)\<rparr>"

definition note_headers :: "header_type \<Rightarrow> message \<Rightarrow> message" where
  "note_headers hs u = foldl (\<lambda>u (k, v). note_header v (u\<lparr>m_last_header_field := k\<rparr>)) u hs"

lemma note_headers_append: "note_headers (hs1 @ hs2) u = note_headers hs2 (note_headers hs1 u)"
  by (simp add: note_headers_def)

lemma note_headers_Cons:
  "note_headers ((k, v) # hs) u = note_headers hs (note_header v (u\<lparr>m_last_header_field := k\<rparr>))"
  by (simp add: note_headers_def)

lemma note_headers_sel [simp]:
  "m_type (note_headers hs u) = m_type u \<and> m_body (note_headers hs u) = m_body u \<and>
   m_url (note_headers hs u) = m_url u \<and> m_aborted (note_headers hs u) = m_aborted u"
proof (induction hs arbitrary: u)
  case Nil
  then show ?case by (simp add: note_headers_def)
next
  case (Cons h hs)
  then show ?case by (cases h) (simp add: note_headers_Cons note_header_def)
qed

lemma note_headers_sorted:
  "sorted_wrt (<) (map fst (m_headers u @ hs)) \<Longrightarrow> m_headers (note_headers hs u) = m_headers u @ hs"
proof (induction hs arbitrary: u)
  case Nil
  then show ?case by (simp add: note_headers_def)
next
  case (Cons h hs)
  obtain k v where h: "h = (k, v)" by fastforce
  have "\<forall>k' \<in> fst ` set (m_headers u). k' < k" using Cons.prems h by (simp add: sorted_wrt_append)
  then have e: "m_headers (note_header v (u\<lparr>m_last_header_field := k\<rparr>)) = m_headers u @ [(k, v)]"
    by (simp add: note_header_def header_set_last)
  with Cons.IH [of "note_header v (u\<lparr>m_last_header_field := k\<rparr>)"] Cons.prems
  show ?case unfolding h note_headers_Cons e by simp
qed

definition note_complete :: "http_method \<Rightarrow> message \<Rightarrow> message" where
  "note_complete x u = u\<lparr>m_version := Some (1, 1), m_method := Some x, m_completed := True\<rparr>"

end
