(* ===== verification/Http_Roundtrip.thy ===== *)
theory Http_Roundtrip
  imports Http_Request_Text
begin

text \<open>
  A request that the client writes is read back by the message class: the run of the parser over the
  text, part by part, as a relation between machines.
\<close>

section \<open>Runs of the machine\<close>

text \<open>From \<open>m\<close> the loop comes to \<open>m'\<close>, in at most one turn for each byte between them.\<close>

definition runs :: "'c env \<Rightarrow> 'c machine \<Rightarrow> 'c machine \<Rightarrow> bool" where
  "runs E m m' \<longleftrightarrow> pos m \<le> pos m' \<and> (\<exists>k \<le> pos m' - pos m. \<forall>n. run_loop (n + k) E m = run_loop n E m')"

lemma runs_refl [simp]: "runs E m m"
  by (auto simp: runs_def intro: exI [of _ 0])

lemma runs_trans [trans]:
  assumes "runs E m m'" "runs E m' m''"
  shows "runs E m m''"
proof -
  obtain k k' where k: "k \<le> pos m' - pos m" "\<forall>n. run_loop (n + k) E m = run_loop n E m'"
      "k' \<le> pos m'' - pos m'" "\<forall>n. run_loop (n + k') E m' = run_loop n E m''"
      "pos m \<le> pos m'" "pos m' \<le> pos m''"
    using assms by (auto simp: runs_def)
  then have "\<forall>n. run_loop (n + (k' + k)) E m = run_loop n E m''" by (metis add.assoc)
  with k show ?thesis unfolding runs_def by (intro conjI exI [of _ "k' + k"]) auto
qed

lemma runs_turn:
  assumes "pos m < length (data E)" "byte_turn E m = Some (Break m')" "pos m \<le> pos m'"
  shows "runs E m (m'\<lparr>pos := pos m' + 1\<rparr>)"
  using assms unfolding runs_def by (intro conjI exI [of _ 1]) auto

lemma reexecute_break: "http_step E m = Break m' \<Longrightarrow> reexecute_loop (Suc n) E m = Some (Break m')"
  by simp

lemma reexecute_again: "http_step E m = Reexecute m' \<Longrightarrow> reexecute_loop (Suc n) E m = reexecute_loop n E m'"
  by simp

lemma numeral_5: "reexecute_fuel = Suc (Suc (Suc (Suc (Suc 0))))"
  by (simp add: reexecute_fuel_def)

text \<open>The machine with its next byte read.\<close>

definition reading :: "char \<Rightarrow> 'c machine \<Rightarrow> 'c machine" where
  "reading c m = m\<lparr>ch := c, p_nread := p_nread m + 1\<rparr>"

lemma reading_sel [simp]:
  "prs (reading c m) = prs m" "p_state (reading c m) = p_state m" "pos (reading c m) = pos m"
  "ch (reading c m) = c" "marks (reading c m) = marks m" "user (reading c m) = user m"
  "p_nread (reading c m) = p_nread m + 1"
  by (simp_all add: reading_def)

section \<open>A request in the parser of a message\<close>

text \<open>
  What the proofs follow of a machine that parses a request between two bytes of its head: the state, the
  offset, which is also the count of header bytes, the message, and the fields of the parser that the
  result depends on.  No mark is set.
\<close>

definition at :: "http_state \<Rightarrow> nat \<Rightarrow> message \<Rightarrow> parsed \<Rightarrow> message machine \<Rightarrow> bool" where
  "at st p u q m \<longleftrightarrow> p_state m = st \<and> pos m = p \<and> p_nread m = p \<and> user m = u \<and> marks m = (\<lambda>_. None) \<and>
     plain_request (prs m) \<and> parsed_of (prs m) = q"

lemmas at_defs = at_def plain_request_def parsed_of_def

definition at_mark :: "mark \<Rightarrow> nat \<Rightarrow> http_state \<Rightarrow> nat \<Rightarrow> message \<Rightarrow> parsed \<Rightarrow> message machine \<Rightarrow> bool" where
  "at_mark x a st p u q m \<longleftrightarrow> marks m = (\<lambda>_. None)(x := Some a) \<and> at st p u q (m\<lparr>marks := \<lambda>_. None\<rparr>)"

definition at_header :: "nat \<Rightarrow> message \<Rightarrow> parsed \<Rightarrow> message machine \<Rightarrow> bool" where
  "at_header p u q m \<longleftrightarrow> at s_header_field_start p u q m \<or>
     at s_header_value_lws p u q m \<and> header_finished (prs m) = prs m"

definition finished :: "message env \<Rightarrow> message \<Rightarrow> message machine \<Rightarrow> bool" where
  "finished E u m \<longleftrightarrow> pos m = length (data E) \<and> marks m = (\<lambda>_. None) \<and> http_errno (prs m) = HPE_OK \<and> user m = u"

text \<open>A chain of such bytes: the state before, the byte and the state behind it.\<close>

definition version_bytes :: "(http_state \<times> char \<times> http_state) list" where
  "version_bytes =
     [(s_req_http_start, CHR ''H'', s_req_http_H), (s_req_http_H, CHR ''T'', s_req_http_HT),
      (s_req_http_HT, CHR ''T'', s_req_http_HTT), (s_req_http_HTT, CHR ''P'', s_req_http_HTTP),
      (s_req_http_HTTP, CHR ''/'', s_req_http_major), (s_req_http_major, CHR ''1'', s_req_http_dot),
      (s_req_http_dot, CHR ''.'', s_req_http_minor), (s_req_http_minor, CHR ''1'', s_req_http_end),
      (s_req_http_end, CR, s_req_line_almost_done), (s_req_line_almost_done, LF, s_header_field_start)]"

definition version_upd :: "http_state \<Rightarrow> http_parser \<Rightarrow> http_parser" where
  "version_upd st ps = (if st = s_req_http_major then ps\<lparr>http_major := 1\<rparr>
     else if st = s_req_http_minor then ps\<lparr>http_minor := 1\<rparr> else ps)"

definition version_parsed :: "http_state \<Rightarrow> parsed \<Rightarrow> parsed" where
  "version_parsed st q = (case q of (fl, cl, x, a, b) \<Rightarrow>
     (fl, cl, x, if st = s_req_http_major then 1 else a, if st = s_req_http_minor then 1 else b))"

fun linked :: "http_state \<Rightarrow> (http_state \<times> char \<times> http_state) list \<Rightarrow> http_state \<Rightarrow> bool" where
  "linked st [] st' \<longleftrightarrow> st = st'"
| "linked st ((a, c, b) # l) st' \<longleftrightarrow> a = st \<and> linked b l st'"

text \<open>
  The machine of a message: its callbacks are those of the class, and no count of header bytes that stays
  within the limit wraps around.
\<close>

locale message_env =
  fixes E :: "message env"
  assumes limit: "max_header_size E < 2 ^ 32" and settings: "settings E = s_settting"
begin

lemma turn:
  assumes "drop (pos m) (data E) = c # r" "PARSING_HEADER (p_state m)" "p_nread m < max_header_size E"
  shows "pos m < length (data E)" "byte_turn E m = reexecute_loop reexecute_fuel E (reading c m)"
proof -
  show "pos m < length (data E)" using drop_nth [OF assms(1)] by simp
  have "(p_nread m + 1) mod 2 ^ 32 = p_nread m + 1" using assms(3) limit by simp
  then show "byte_turn E m = reexecute_loop reexecute_fuel E (reading c m)"
    using assms drop_nth [OF assms(1)] by (simp add: byte_turn_def COUNT_HEADER_SIZE_def Let_def reading_def)
qed

lemma runs_break:
  assumes "drop (pos m) (data E) = c # r" "PARSING_HEADER (p_state m)" "p_nread m < max_header_size E"
    and "http_step E (reading c m) = Break m'" "pos m \<le> pos m'"
  shows "runs E m (m'\<lparr>pos := pos m' + 1\<rparr>)"
  using turn [OF assms(1-3)] assms(4,5) by (intro runs_turn) (simp_all add: numeral_5)

lemma runs_again:
  assumes "drop (pos m) (data E) = c # r" "PARSING_HEADER (p_state m)" "p_nread m < max_header_size E"
    and "http_step E (reading c m) = Reexecute m1" "http_step E m1 = Break m'" "pos m \<le> pos m'"
  shows "runs E m (m'\<lparr>pos := pos m' + 1\<rparr>)"
  using turn [OF assms(1-3)] assms(4-6) by (intro runs_turn) (simp_all add: numeral_5)

lemma runs_again2:
  assumes "drop (pos m) (data E) = c # r" "PARSING_HEADER (p_state m)" "p_nread m < max_header_size E"
    and "http_step E (reading c m) = Reexecute m1" "http_step E m1 = Reexecute m2" "http_step E m2 = Break m'"
    and "pos m \<le> pos m'"
  shows "runs E m (m'\<lparr>pos := pos m' + 1\<rparr>)"
  using turn [OF assms(1-3)] assms(4-7) by (intro runs_turn) (simp_all add: numeral_5)

lemmas cb_simps = settings s_settting_def data_callback_def run_callback_def CALLBACK_DATA_def
  on_url_cb_def on_header_field_cb_def on_header_value_cb_def on_body_cb_def on_message_begin_cb_def

text \<open>The bytes with only one way to go on, such as those of \<open>HTTP/1.1\<close>.\<close>

lemma fixed_byte:
  assumes "at st p u q m" "drop p (data E) = c # r" "p < max_header_size E" "PARSING_HEADER st"
    and "\<And>m. p_state m = st \<Longrightarrow> ch m = c \<Longrightarrow> http_step E m = Break (UPDATE_STATE st' (upd f m))"
    and "\<And>ps. plain_request ps \<Longrightarrow> plain_request (f ps)" "\<And>ps. parsed_of ps = q \<Longrightarrow> parsed_of (f ps) = q'"
  shows "\<exists>m'. runs E m m' \<and> at st' (Suc p) u q' m' \<and> prs m' = f (prs m)"
proof -
  let ?m = "UPDATE_STATE st' (upd f (reading c m))"
  have "runs E m (?m\<lparr>pos := pos ?m + 1\<rparr>)"
    using assms(1-4) assms(5) [of "reading c m"] by (intro runs_break) (simp_all add: at_def)
  moreover have "at st' (Suc p) u q' (?m\<lparr>pos := pos ?m + 1\<rparr>)" using assms(1,6,7) by (simp add: at_def)
  moreover have "prs (?m\<lparr>pos := pos ?m + 1\<rparr>) = f (prs m)" by simp
  ultimately show ?thesis by blast
qed

lemma version_step:
  "(st, c, st') \<in> set version_bytes \<Longrightarrow> p_state m = st \<Longrightarrow> ch m = c \<Longrightarrow>
    http_step E m = Break (UPDATE_STATE st' (upd (version_upd st) m))"
  unfolding version_bytes_def
  by (auto simp: http_step_def step_req_http_start_def expect_def STRICT_CHECK_def step_http_major_def IS_NUM_def
    step_http_dot_def step_http_minor_def step_req_http_end_def step_req_line_almost_done_def digit_of_def version_upd_def)

lemma version_chain:
  "linked st l st' \<Longrightarrow> set l \<subseteq> set version_bytes \<Longrightarrow> at st p u q m \<Longrightarrow>
    drop p (data E) = map (fst \<circ> snd) l @ r \<Longrightarrow> p + length l \<le> max_header_size E \<Longrightarrow>
    \<exists>m'. runs E m m' \<and> at st' (p + length l) u (foldl (\<lambda>q t. version_parsed (fst t) q) q l) m'"
proof (induction l arbitrary: st p q m)
  case Nil
  then show ?case by (intro exI [of _ m]) simp
next
  case (Cons t l)
  obtain c st1 where t: "t = (st, c, st1)" using Cons.prems(1) by (cases t) auto
  with Cons.prems have mem: "(st, c, st1) \<in> set version_bytes" by simp
  then have ph: "PARSING_HEADER st" by (auto simp: version_bytes_def)
  have "\<exists>m'. runs E m m' \<and> at st1 (Suc p) u (version_parsed st q) m' \<and> prs m' = version_upd st (prs m)"
    using Cons.prems t
    by (intro fixed_byte [OF _ _ _ ph version_step [OF mem]])
      (auto simp: version_upd_def version_parsed_def plain_request_def parsed_of_def)
  then obtain m1 where m1: "runs E m m1" "at st1 (Suc p) u (version_parsed st q) m1" by blast
  have "drop (Suc p) (data E) = map (fst \<circ> snd) l @ r" using Cons.prems(4) t drop_nth by force
  then obtain m' where "runs E m1 m'" "at st' (Suc p + length l) u (foldl (\<lambda>q t. version_parsed (fst t) q) (version_parsed st q) l) m'"
    using Cons.IH [OF _ _ m1(2)] Cons.prems t by auto
  with m1(1) t show ?case by (auto intro: runs_trans)
qed

lemma version_line:
  assumes "at s_req_http_start p u (fl, cl, x, a, b) m" "drop p (data E) = ''HTTP/1.1'' @ CRLF @ r"
    and "p + 10 \<le> max_header_size E"
  shows "\<exists>m'. runs E m m' \<and> at s_header_field_start (p + 10) u (fl, cl, x, 1, 1) m'"
  using version_chain [of s_req_http_start version_bytes s_header_field_start, OF _ _ assms(1), of r] assms(2,3)
  by (simp add: version_bytes_def version_parsed_def eval_nat_numeral)

lemma method_start:
  assumes m: "at s_start_req p u q m" and d: "drop p (data E) = c # r" and mx: "p < max_header_size E"
    and c: "IS_ALPHA c" "c \<noteq> CR" "c \<noteq> LF" "first_method c = Some y"
  shows "\<exists>m' a b. runs E m m' \<and> at s_req_method (Suc p) u (0, ULLONG_MAX, y, a, b) m' \<and> index (prs m') = 1"
proof -
  obtain m' where s: "http_step E (reading c m) = Break m'"
      and m': "at s_req_method (Suc p) u (0, ULLONG_MAX, y, http_major (prs m), http_minor (prs m)) (m'\<lparr>pos := pos m' + 1\<rparr>)"
        "pos m' = p" "index (prs m') = 1"
    using m c
    by (simp add: http_step_def step_start_req_def CALLBACK_NOTIFY_def cb_simps at_defs reset_message_def Let_def)
  have "runs E m (m'\<lparr>pos := pos m' + 1\<rparr>)"
    by (rule runs_break [OF _ _ _ s]) (use m d mx m'(2) in \<open>simp_all add: at_def\<close>)
  with m' show ?thesis by (intro exI [of _ "m'\<lparr>pos := pos m' + 1\<rparr>"] exI conjI) simp_all
qed

lemma method_bytes:
  "method_fold y i w = Some x \<Longrightarrow> at s_req_method p u (fl, cl, y, a, b) m \<Longrightarrow> index (prs m) = i \<Longrightarrow>
    drop p (data E) = w @ CHR '' '' # r \<Longrightarrow> p + length w < max_header_size E \<Longrightarrow>
    \<exists>m'. runs E m m' \<and> at s_req_spaces_before_url (p + length w + 1) u (fl, cl, x, a, b) m'"
proof (induction w arbitrary: y i p m)
  case Nil
  then have x: "x = y" "i = length (method_strings y)" by (auto split: if_splits)
  let ?m = "upd inc_index (UPDATE_STATE s_req_spaces_before_url (reading (CHR '' '') m))"
  have "http_step E (reading (CHR '' '') m) = Break ?m"
    using Nil x by (simp add: http_step_def step_req_method_def c_string_at_def rd_def at_defs)
  then have "runs E m (?m\<lparr>pos := pos ?m + 1\<rparr>)"
    using Nil by (intro runs_break) (simp_all add: at_def)
  moreover have "at s_req_spaces_before_url (p + 1) u (fl, cl, x, a, b) (?m\<lparr>pos := pos ?m + 1\<rparr>)"
    using Nil x by (simp add: at_defs inc_index_def)
  ultimately show ?case by auto
next
  case (Cons c w)
  obtain z where z: "c_string_at (method_strings y) i = Some z"
    using Cons(2) by (cases "c_string_at (method_strings y) i") (auto split: if_splits)
  have i: "(i + 1) mod 32 = i + 1"
    using z method_strings_length [of y] by (simp add: c_string_at_def rd_def split: if_splits)
  have c: "c \<noteq> NUL" using Cons(2) by auto
  define y' where "y' = (if c = z then y else the (map_of method_turns (y, i, c)))"
  let ?m = "upd (\<lambda>ps. inc_index (ps\<lparr>req_method := y'\<rparr>)) (reading c m)"
  have s: "http_step E (reading c m) = Break ?m" "method_fold y' (i + 1) w = Some x"
    using Cons(2-4) z c
    by (auto simp: http_step_def step_req_method_def at_defs y'_def split: if_splits bind_splits)
  have "runs E m (?m\<lparr>pos := pos ?m + 1\<rparr>)"
    using Cons(3,5,6) s(1) by (intro runs_break) (simp_all add: at_def)
  moreover have "at s_req_method (Suc p) u (fl, cl, y', a, b) (?m\<lparr>pos := pos ?m + 1\<rparr>)"
    "index (prs (?m\<lparr>pos := pos ?m + 1\<rparr>)) = i + 1"
    using Cons(3,4) i by (simp_all add: at_defs inc_index_def)
  moreover have "drop (Suc p) (data E) = w @ CHR '' '' # r" using Cons(5) drop_nth by force
  ultimately obtain m1 where m1: "runs E m m1" "at s_req_method (Suc p) u (fl, cl, y', a, b) m1"
      "index (prs m1) = i + 1" "drop (Suc p) (data E) = w @ CHR '' '' # r" by blast
  then obtain m2 where "runs E m1 m2" "at s_req_spaces_before_url (Suc p + length w + 1) u (fl, cl, x, a, b) m2"
    using Cons(1) [OF s(2) m1(2-4)] Cons(6) by auto
  with runs_trans [OF m1(1)] show ?case by auto
qed

text \<open>The URL, from the mark to the blank.\<close>

lemma take_marked: "drop a s = w @ r \<Longrightarrow> take (length w) (drop a s) = w"
  by simp

lemma url_step:
  assumes "p_state m \<in> mark_states M_url" "parse_url_char (p_state m) (ch m) \<noteq> s_dead"
  shows "http_step E m = Break (UPDATE_STATE (parse_url_char (p_state m) (ch m)) m)"
proof -
  have "ch m \<noteq> CHR '' ''" "ch m \<noteq> CR" "ch m \<noteq> LF"
    using assms(2) by (auto simp: parse_url_char_def)
  then show ?thesis using assms
    by (auto simp: http_step_def mark_states_def step_req_schema_def step_req_url_def url_char_def Let_def)
qed

lemma url_bytes:
  "st \<in> mark_states M_url \<Longrightarrow> foldl parse_url_char st w = st' \<Longrightarrow> st' \<noteq> s_dead \<Longrightarrow> at_mark M_url a st p u q m \<Longrightarrow>
    drop p (data E) = w @ r \<Longrightarrow> p + length w \<le> max_header_size E \<Longrightarrow>
    \<exists>m'. runs E m m' \<and> at_mark M_url a st' (p + length w) u q m'"
proof (induction w arbitrary: st p m)
  case Nil
  then show ?case by (intro exI [of _ m]) simp
next
  case (Cons c w)
  let ?st = "parse_url_char st c"
  have st: "?st \<noteq> s_dead" using Cons.prems(2,3) url_dead by auto
  then have st': "?st \<in> mark_states M_url" using message_run.parse_url_char_states by blast
  let ?m = "UPDATE_STATE ?st (reading c m)"
  have "http_step E (reading c m) = Break ?m"
    using url_step [of "reading c m"] Cons.prems(1,4) st by (simp add: at_mark_def at_def)
  moreover have "PARSING_HEADER st" using Cons.prems(1) by (auto simp: mark_states_def)
  ultimately have "runs E m (?m\<lparr>pos := pos ?m + 1\<rparr>)"
    using Cons.prems by (intro runs_break) (simp_all add: at_mark_def at_def)
  moreover have "at_mark M_url a ?st (Suc p) u q (?m\<lparr>pos := pos ?m + 1\<rparr>)"
    using Cons.prems(4) by (simp add: at_mark_def at_def)
  ultimately obtain m1 where m1: "runs E m m1" "at_mark M_url a ?st (Suc p) u q m1" by blast
  have "drop (Suc p) (data E) = w @ r" using Cons.prems(5) drop_nth by force
  then obtain m2 where "runs E m1 m2" "at_mark M_url a st' (Suc p + length w) u q m2"
    using Cons.IH [OF st' _ Cons.prems(3) m1(2)] Cons.prems(2,6) by auto
  with runs_trans [OF m1(1)] show ?case by auto
qed

lemma url_end:
  assumes m: "at_mark M_url a st (a + length w) u q m" and st: "st \<in> url_end_states"
    and d: "drop a (data E) = w @ CHR '' '' # r" and mx: "a + length w < max_header_size E"
  shows "\<exists>m'. runs E m m' \<and> at s_req_http_start (a + length w + 1) (u\<lparr>m_url := w\<rparr>) q m'"
proof -
  have d': "drop (a + length w) (data E) = CHR '' '' # r" using drop_appendD [OF d] .
  have len: "a + length w \<le> length (data E)" using drop_nth [OF d'] by simp
  have step: "http_step E M = step_req_url E M" if "p_state M = st" for M
    using that st by (auto simp: http_step_def url_end_states_def)
  obtain m' where s: "http_step E (reading (CHR '' '') m) = Break m'"
      and m': "at s_req_http_start (a + length w + 1) (u\<lparr>m_url := w\<rparr>) q (m'\<lparr>pos := pos m' + 1\<rparr>)" "pos m' = a + length w"
    using m len by (simp add: step step_req_url_def cb_simps at_mark_def at_defs take_marked [OF d] clear_mark_def)
  have "runs E m (m'\<lparr>pos := pos m' + 1\<rparr>)"
    by (rule runs_break [OF _ _ _ s]) (use m d' mx m'(2) st in \<open>auto simp: at_mark_def at_def url_end_states_def\<close>)
  with m' show ?thesis by blast
qed

lemma url_part:
  assumes m: "at s_req_spaces_before_url p u (fl, cl, x, a, b) m" and x: "x \<noteq> HTTP_CONNECT"
    and w: "url_accepted w" and d: "drop p (data E) = w @ CHR '' '' # r" and mx: "p + length w < max_header_size E"
  shows "\<exists>m'. runs E m m' \<and> at s_req_http_start (p + length w + 1) (u\<lparr>m_url := w\<rparr>) (fl, cl, x, a, b) m'"
proof -
  obtain c w' where w': "w = c # w'" using w by (cases w) (auto simp: url_accepted_def url_end_states_def)
  let ?st = "parse_url_char s_req_spaces_before_url c"
  let ?fin = "foldl parse_url_char s_req_spaces_before_url w"
  have live: "?fin \<in> url_end_states" "?fin \<noteq> s_dead" using w by (auto simp: url_accepted_def url_end_states_def)
  then have st: "?st \<noteq> s_dead" using url_dead w' by auto
  then have st': "?st \<in> mark_states M_url" using message_run.parse_url_char_states by blast
  have c: "c \<noteq> CHR '' ''" using st by (auto simp: parse_url_char_def)
  let ?m = "UPDATE_STATE ?st (MARK M_url (reading c m))"
  have "http_step E (reading c m) = Break ?m"
    using m x c st by (simp add: http_step_def step_req_spaces_before_url_def url_char_def Let_def at_defs MARK_def)
  then have "runs E m (?m\<lparr>pos := pos ?m + 1\<rparr>)"
    using m d mx w' by (intro runs_break) (simp_all add: at_def MARK_def)
  moreover have "at_mark M_url p ?st (Suc p) u (fl, cl, x, a, b) (?m\<lparr>pos := pos ?m + 1\<rparr>)"
    using m by (simp add: at_mark_def at_defs MARK_def)
  ultimately obtain m1 where m1: "runs E m m1" "at_mark M_url p ?st (Suc p) u (fl, cl, x, a, b) m1" by blast
  have "drop (Suc p) (data E) = w' @ CHR '' '' # r" using d w' drop_nth by force
  then obtain m2 where m2: "runs E m1 m2" "at_mark M_url p ?fin (p + length w) u (fl, cl, x, a, b) m2"
    using url_bytes [where w = w', OF st' _ live(2) m1(2)] w' mx by auto
  obtain m3 where "runs E m2 m3" "at s_req_http_start (p + length w + 1) (u\<lparr>m_url := w\<rparr>) (fl, cl, x, a, b) m3"
    using url_end [OF m2(2) live(1) d mx] by blast
  with m1(1) m2(1) show ?thesis by (meson runs_trans)
qed

text \<open>A header name.\<close>

lemma boundary:
  assumes m: "at_header p u q m" and d: "drop p (data E) = c # r" and mx: "p < max_header_size E"
    and c: "c \<noteq> CHR '' ''" "c \<noteq> HT"
    and s: "step_header_field_start (UPDATE_STATE s_header_field_start (reading c m)) = Break m'" "pos m' = p"
  shows "runs E m (m'\<lparr>pos := Suc p\<rparr>)"
  using m unfolding at_header_def
proof
  assume a: "at s_header_field_start p u q m"
  then have e: "UPDATE_STATE s_header_field_start (reading c m) = reading c m" by (simp add: at_def)
  have "http_step E (reading c m) = Break m'" using a s(1) unfolding e by (simp add: http_step_def at_def)
  then have "runs E m (m'\<lparr>pos := pos m' + 1\<rparr>)"
    by (intro runs_break) (use a d mx s(2) in \<open>auto simp: at_def\<close>)
  with s(2) show ?thesis by simp
next
  assume a: "at s_header_value_lws p u q m \<and> header_finished (prs m) = prs m"
  let ?M = "UPDATE_STATE s_header_field_start (reading c m)"
  have "http_step E (reading c m) = Reexecute ?M" "http_step E ?M = Break m'"
    using a c s(1) by (simp_all add: http_step_def at_def step_header_value_lws_def)
  then have "runs E m (m'\<lparr>pos := pos m' + 1\<rparr>)"
    by (intro runs_again) (use a d mx s(2) in \<open>auto simp: at_def\<close>)
  with s(2) show ?thesis by simp
qed

lemma name_first:
  assumes m: "at_header p u q m" and d: "drop p (data E) = c # r" and mx: "p < max_header_size E"
    and c: "TOKEN c \<noteq> NUL"
  shows "\<exists>m'. runs E m m' \<and> at_mark M_header_field p s_header_field (Suc p) u q m' \<and>
    header_state (prs m') = name_start (TOKEN c) \<and> index (prs m') = 0"
proof -
  let ?m = "upd (\<lambda>ps. ps\<lparr>index := 0, header_state := name_start (TOKEN c)\<rparr>)
    (UPDATE_STATE s_header_field (MARK M_header_field (UPDATE_STATE s_header_field_start (reading c m))))"
  have "step_header_field_start (UPDATE_STATE s_header_field_start (reading c m)) = Break ?m"
    using c TOKEN_blank [OF c] by (simp add: step_header_field_start_def Let_def name_start_def)
  moreover have "pos ?m = p" using m by (auto simp: at_header_def at_def MARK_def)
  ultimately have "runs E m (?m\<lparr>pos := Suc p\<rparr>)"
    using TOKEN_blank [OF c] by (intro boundary [OF m d mx]) auto
  moreover have "at_mark M_header_field p s_header_field (Suc p) u q (?m\<lparr>pos := Suc p\<rparr>)"
    using m by (auto simp: at_header_def at_mark_def at_defs MARK_def)
  moreover have "header_state (prs (?m\<lparr>pos := Suc p\<rparr>)) = name_start (TOKEN c) \<and> index (prs (?m\<lparr>pos := Suc p\<rparr>)) = 0"
    by simp
  ultimately show ?thesis by blast
qed

lemma name_rest:
  assumes m: "at_mark M_header_field p s_header_field (Suc p) u q m"
    and d: "drop p (data E) = (c # w) @ CHR '':'' # r" and mx: "p + length w + 2 \<le> max_header_size E"
    and w: "list_all (\<lambda>c. TOKEN c \<noteq> NUL) w"
    and fold: "field_fold w (prs m) = Some ps" "same_request (prs m) ps"
  shows "\<exists>m'. runs E m m' \<and> at s_header_value_discard_ws (p + length w + 2) (u\<lparr>m_last_header_field := c # w\<rparr>) q m' \<and>
    header_state (prs m') = header_state ps"
proof -
  have d1: "drop (Suc p) (data E) = w @ CHR '':'' # r" using d drop_nth by force
  have d2: "drop (Suc p + length w) (data E) = CHR '':'' # r" using drop_appendD [OF d1] .
  have len: "Suc p + length w < length (data E)" using drop_nth [OF d2] by simp
  define b where "b = data E ! Suc p"
  have b: "drop (Suc p) (data E) = b # drop (Suc (Suc p)) (data E)"
    using len by (simp add: b_def Cons_nth_drop_Suc)
  let ?M = "reading b m"
  have M: "pos ?M = Suc p" "p_nread ?M = Suc (Suc p)" "marks ?M = (\<lambda>_. None)(M_header_field := Some p)" "user ?M = u"
    using m by (auto simp: at_mark_def at_def)
  have loop: "header_field_loop E ?M = Some (?M\<lparr>prs := ps, pos := Suc p + length w, ch := CHR '':''\<rparr>)"
    using header_field_loop_name [of ?M E w r ps] M d1 w fold(1) by simp
  have lim: "(Suc (Suc p) + length w) mod 2 ^ 32 = Suc (Suc p) + length w" "length w mod 2 ^ 32 = length w"
    using mx limit by simp_all
  have taken: "take (Suc (length w)) (drop p (data E)) = c # w" using d by simp
  have ps: "plain_request ps" "parsed_of ps = q"
    using m fold(2) by (auto simp: at_mark_def at_def same_request_def)
  have "\<exists>m'. http_step E ?M = Break m' \<and> pos m' = Suc p + length w \<and>
      at s_header_value_discard_ws (p + length w + 2) (u\<lparr>m_last_header_field := c # w\<rparr>) q (m'\<lparr>pos := pos m' + 1\<rparr>) \<and>
      header_state (prs m') = header_state ps"
    using m M len mx lim ps taken
    by (simp add: http_step_def step_header_field_def loop COUNT_HEADER_SIZE_def Let_def cb_simps clear_mark_def
        at_mark_def at_defs)
  then obtain m' where m': "http_step E ?M = Break m'" "pos m' = Suc p + length w"
      "at s_header_value_discard_ws (p + length w + 2) (u\<lparr>m_last_header_field := c # w\<rparr>) q (m'\<lparr>pos := pos m' + 1\<rparr>)"
      "header_state (prs m') = header_state ps" by blast
  have "runs E m (m'\<lparr>pos := pos m' + 1\<rparr>)"
    by (rule runs_break [OF _ _ _ m'(1)]) (use m b mx m'(2) in \<open>auto simp: at_mark_def at_def\<close>)
  with m' show ?thesis by (intro exI [of _ "m'\<lparr>pos := pos m' + 1\<rparr>"]) simp
qed

lemma name_part:
  assumes m: "at_header p u q m" and d: "drop p (data E) = (c # w) @ CHR '':'' # r"
    and mx: "p + length w + 2 \<le> max_header_size E" and w: "list_all (\<lambda>c. TOKEN c \<noteq> NUL) (c # w)"
    and fold: "\<And>ps. header_state ps = name_start (TOKEN c) \<Longrightarrow> index ps = 0 \<Longrightarrow>
      \<exists>ps'. field_fold w ps = Some ps' \<and> same_request ps ps' \<and> Q (header_state ps')"
  shows "\<exists>m'. runs E m m' \<and> at s_header_value_discard_ws (p + length w + 2) (u\<lparr>m_last_header_field := c # w\<rparr>) q m' \<and>
    Q (header_state (prs m'))"
proof -
  obtain m1 where m1: "runs E m m1" "at_mark M_header_field p s_header_field (Suc p) u q m1"
      "header_state (prs m1) = name_start (TOKEN c)" "index (prs m1) = 0"
    using name_first [OF m, of c] d mx w by auto
  obtain ps where ps: "field_fold w (prs m1) = Some ps" "same_request (prs m1) ps" "Q (header_state ps)"
    using fold [OF m1(3,4)] by blast
  obtain m2 where "runs E m1 m2" "at s_header_value_discard_ws (p + length w + 2) (u\<lparr>m_last_header_field := c # w\<rparr>) q m2"
      "header_state (prs m2) = header_state ps"
    using name_rest [OF m1(2) d mx _ ps(1,2)] w by auto
  with m1(1) ps(3) show ?thesis by (metis runs_trans)
qed

text \<open>A header value; the two kinds of values differ in the states of the header.\<close>

lemma value_first_general:
  assumes m: "at s_header_value_discard_ws p u q m" and h: "value_general (header_state (prs m))"
    and d: "drop p (data E) = c # r" and mx: "p < max_header_size E" and c: "value_char_ok c" "c \<notin> {CHR '' '', HT}"
  shows "\<exists>m'. runs E m m' \<and> at_mark M_header_value p s_header_value (Suc p) u q m' \<and> header_state (prs m') = h_general"
proof -
  let ?m = "upd (\<lambda>ps. ps\<lparr>index := 0, header_state := h_general\<rparr>) (UPDATE_STATE s_header_value (MARK M_header_value (reading c m)))"
  have "step_header_value_start (reading c m) = Break ?m"
    using h by (auto simp: step_header_value_start_def Let_def MARK_def value_general_def)
  then have "http_step E (reading c m) = Break ?m"
    using m c by (simp add: http_step_def at_def step_header_value_discard_ws_def value_char_ok_def)
  then have "runs E m (?m\<lparr>pos := pos ?m + 1\<rparr>)"
    using m d mx by (intro runs_break) (simp_all add: at_def MARK_def)
  moreover have "at_mark M_header_value p s_header_value (Suc p) u q (?m\<lparr>pos := pos ?m + 1\<rparr>)"
    using m by (simp add: at_mark_def at_defs MARK_def)
  moreover have "header_state (prs (?m\<lparr>pos := pos ?m + 1\<rparr>)) = h_general" by simp
  ultimately show ?thesis by blast
qed

lemma value_first_length:
  assumes m: "at s_header_value_discard_ws p u (0, cl, x, a, b) m" and h: "header_state (prs m) = h_content_length"
    and d: "drop p (data E) = c # r" and mx: "p < max_header_size E" and c: "IS_NUM c"
  shows "\<exists>m'. runs E m m' \<and> at_mark M_header_value p s_header_value (Suc p) u (set_flag F_CONTENTLENGTH 0, digit_of c, x, a, b) m'
    \<and> header_state (prs m') = h_content_length_num"
proof -
  let ?m = "upd (\<lambda>ps. ps\<lparr>index := 0, flags := set_flag F_CONTENTLENGTH 0, content_length := digit_of c,
      header_state := h_content_length_num\<rparr>) (UPDATE_STATE s_header_value (MARK M_header_value (reading c m)))"
  have "step_header_value_start (reading c m) = Break ?m"
    using m h c by (simp add: step_header_value_start_def Let_def MARK_def at_defs)
  then have "http_step E (reading c m) = Break ?m"
    using m IS_NUM_char [OF c] by (simp add: http_step_def at_def step_header_value_discard_ws_def value_char_ok_def)
  then have "runs E m (?m\<lparr>pos := pos ?m + 1\<rparr>)"
    using m d mx by (intro runs_break) (simp_all add: at_def MARK_def)
  moreover have "at_mark M_header_value p s_header_value (Suc p) u (set_flag F_CONTENTLENGTH 0, digit_of c, x, a, b) (?m\<lparr>pos := pos ?m + 1\<rparr>)"
    using m by (simp add: at_mark_def at_defs MARK_def)
  moreover have "header_state (prs (?m\<lparr>pos := pos ?m + 1\<rparr>)) = h_content_length_num" by simp
  ultimately show ?thesis by blast
qed

lemma value_rest:
  assumes m: "at_mark M_header_value p s_header_value (Suc p) u q m"
    and d: "drop p (data E) = (c # w) @ CR # r" and mx: "p + length w + 2 \<le> max_header_size E"
    and u: "m_last_header_field u \<noteq> []"
    and loop: "\<And>b. header_value_loop E (header_state (prs m)) (reading b m) =
      At_CR h ((reading b m)\<lparr>prs := ps, pos := Suc p + length w, ch := CR\<rparr>)"
    and ps: "plain_request ps" "parsed_of ps = q'"
  shows "\<exists>m'. runs E m m' \<and> at s_header_almost_done (p + length w + 2) (note_header (c # w) u) q' m' \<and> header_state (prs m') = h"
proof -
  have d1: "drop (Suc p) (data E) = w @ CR # r" using d drop_nth by force
  have d2: "drop (Suc p + length w) (data E) = CR # r" using drop_appendD [OF d1] .
  have len: "Suc p + length w < length (data E)" using drop_nth [OF d2] by simp
  define b where "b = data E ! Suc p"
  have b: "drop (Suc p) (data E) = b # drop (Suc (Suc p)) (data E)"
    using len by (simp add: b_def Cons_nth_drop_Suc)
  let ?M = "reading b m"
  have M: "pos ?M = Suc p" "p_nread ?M = Suc (Suc p)" "marks ?M = (\<lambda>_. None)(M_header_value := Some p)" "user ?M = u"
    using m by (auto simp: at_mark_def at_def)
  have lim: "(Suc (Suc p) + length w) mod 2 ^ 32 = Suc (Suc p) + length w" "length w mod 2 ^ 32 = length w"
    using mx limit by simp_all
  have taken: "take (Suc (length w)) (drop p (data E)) = c # w" using d by simp
  have "\<exists>m'. http_step E ?M = Break m' \<and> pos m' = Suc p + length w \<and>
      at s_header_almost_done (p + length w + 2) (note_header (c # w) u) q' (m'\<lparr>pos := pos m' + 1\<rparr>) \<and> header_state (prs m') = h"
    using m M len mx lim ps taken u loop [of b]
    by (simp add: http_step_def step_header_value_def COUNT_HEADER_SIZE_def Let_def cb_simps clear_mark_def
        at_mark_def at_defs note_header_def)
  then obtain m' where m': "http_step E ?M = Break m'" "pos m' = Suc p + length w"
      "at s_header_almost_done (p + length w + 2) (note_header (c # w) u) q' (m'\<lparr>pos := pos m' + 1\<rparr>)"
      "header_state (prs m') = h" by blast
  have "runs E m (m'\<lparr>pos := pos m' + 1\<rparr>)"
    by (rule runs_break [OF _ _ _ m'(1)]) (use m b mx m'(2) in \<open>auto simp: at_mark_def at_def\<close>)
  with m' show ?thesis by (intro exI [of _ "m'\<lparr>pos := pos m' + 1\<rparr>"]) simp
qed

text \<open>From the colon to the next header: a blank, the value and the end of the line.\<close>

lemma colon_blank:
  assumes "at s_header_value_discard_ws p u q m" "drop p (data E) = CHR '' '' # r" "p < max_header_size E"
  shows "\<exists>m'. runs E m m' \<and> at s_header_value_discard_ws (Suc p) u q m' \<and> prs m' = prs m"
  using fixed_byte [OF assms, where f = "\<lambda>ps. ps" and st' = s_header_value_discard_ws and q' = q]
  by (auto simp: http_step_def step_header_value_discard_ws_def)

lemma value_line_end:
  assumes m: "at s_header_almost_done p u q m" and d: "drop p (data E) = LF # r" and mx: "p < max_header_size E"
    and h: "header_state (prs m) \<in> {h_general, h_content_length_num}"
  shows "\<exists>m'. runs E m m' \<and> at_header (Suc p) u q m'"
proof -
  have "\<exists>m'. runs E m m' \<and> at s_header_value_lws (Suc p) u q m' \<and> prs m' = prs m"
    using fixed_byte [OF m d mx, where f = "\<lambda>ps. ps" and st' = s_header_value_lws and q' = q]
    by (auto simp: http_step_def step_header_almost_done_def)
  then show ?thesis using h by (auto simp: at_header_def header_finished_def)
qed

lemma header_part:
  assumes m: "at_header p u q m" and k: "ordinary_name k" and v: "header_value_ok v"
    and d: "drop p (data E) = k @ '': '' @ v @ CRLF @ r"
    and mx: "p + length k + length v + 4 \<le> max_header_size E"
  shows "\<exists>m'. runs E m m' \<and> at_header (p + length k + length v + 4) (note_header v (u\<lparr>m_last_header_field := k\<rparr>)) q m'"
proof -
  obtain c w where k': "k = c # w" using k by (cases k) (auto simp: ordinary_name_def)
  obtain b v' where v': "v = b # v'" using v by (cases v) (auto simp: header_value_ok_def)
  obtain m1 where m1: "runs E m m1" "at s_header_value_discard_ws (p + length w + 2) (u\<lparr>m_last_header_field := k\<rparr>) q m1"
      "value_general (header_state (prs m1))"
    using name_part [OF m, of c w "CHR '' '' # v @ CRLF @ r" value_general] d mx k ordinary_fold [of c w] k'
    by (auto simp: ordinary_name_def)
  have d1: "drop (p + length w + 2) (data E) = CHR '' '' # v @ CRLF @ r"
    using drop_appendD [of p "data E" "k @ '':''"] d k' by (simp add: add.commute)
  obtain m2 where m2: "runs E m1 m2" "at s_header_value_discard_ws (p + length w + 3) (u\<lparr>m_last_header_field := k\<rparr>) q m2"
      "prs m2 = prs m1"
    using colon_blank [OF m1(2) d1] mx k' by (auto simp: eval_nat_numeral)
  have d2: "drop (p + length w + 3) (data E) = b # v' @ CR # LF # r"
    using drop_nth [OF d1] v' by (simp add: eval_nat_numeral)
  obtain m3 where m3: "runs E m2 m3" "at_mark M_header_value (p + length w + 3) s_header_value (Suc (p + length w + 3)) (u\<lparr>m_last_header_field := k\<rparr>) q m3"
      "header_state (prs m3) = h_general"
    using value_first_general [OF m2(2) _ d2] m1(3) m2(3) mx v v' k' by (auto simp: header_value_ok_def)
  have d3: "drop (Suc (p + length w + 3)) (data E) = v' @ CR # LF # r" using drop_nth [OF d2] by simp
  have loop: "header_value_loop E (header_state (prs m3)) (reading x m3) =
      At_CR h_general ((reading x m3)\<lparr>prs := prs m3, pos := Suc (p + length w + 3) + length v', ch := CR\<rparr>)" for x
  proof -
    have "pos (reading x m3) = Suc (p + length w + 3)" using m3(2) by (simp add: at_mark_def at_def)
    then show ?thesis
      using header_value_loop_general [of "reading x m3" E v' "LF # r"] d3 m3(3) v v' mx k' by (simp add: header_value_ok_def)
  qed
  have "plain_request (prs m3)" "parsed_of (prs m3) = q" using m3(2) by (simp_all add: at_mark_def at_def)
  then obtain m4 where m4: "runs E m3 m4"
      "at s_header_almost_done (p + length w + 3 + length v' + 2) (note_header v (u\<lparr>m_last_header_field := k\<rparr>)) q m4"
      "header_state (prs m4) = h_general"
    using value_rest [OF m3(2) _ _ _ loop, of b "LF # r" q] d2 v' k' mx by auto
  have d4: "drop (p + length w + 3 + length v' + 2) (data E) = LF # r"
    using drop_appendD [of "p + length w + 3" "data E" "b # v' @ [CR]" "LF # r"] d2 by simp
  obtain m5 where m5: "runs E m4 m5" "at_header (Suc (p + length w + 3 + length v' + 2)) (note_header v (u\<lparr>m_last_header_field := k\<rparr>)) q m5"
    using value_line_end [OF m4(2) d4] m4(3) mx k' v' by auto
  have e: "Suc (p + length w + 3 + length v' + 2) = p + length k + length v + 4" using k' v' by simp
  show ?thesis
    using m5(2) runs_trans [OF runs_trans [OF runs_trans [OF runs_trans [OF m1(1) m2(1)] m3(1)] m4(1)] m5(1)]
    unfolding e by blast
qed

lemma length_part:
  assumes m: "at_header p u (0, cl, x, a, e) m" and k: "k = ''Content-Length''" and v: "v = to_string n" and n: "n < 2 ^ 63"
    and d: "drop p (data E) = k @ '': '' @ v @ CRLF @ r"
    and mx: "p + length k + length v + 4 \<le> max_header_size E"
  shows "\<exists>m'. runs E m m' \<and> at_header (p + length k + length v + 4) (note_header v (u\<lparr>m_last_header_field := k\<rparr>)) (set_flag F_CONTENTLENGTH 0, n, x, a, e) m'"
proof -
  let ?q = "(set_flag F_CONTENTLENGTH 0, n, x, a, e)"
  define c w where c: "c = CHR ''C''" and w: "w = ''ontent-Length''"
  have "TOKEN (CHR ''C'') = CHR ''c''" "list_all (\<lambda>c. TOKEN c \<noteq> NUL) ''Content-Length''" by code_simp+
  then have k': "k = c # w" "TOKEN c = CHR ''c''" "list_all (\<lambda>c. TOKEN c \<noteq> NUL) (c # w)"
    by (simp_all add: k c w)
  obtain b v' where v': "v = b # v'" "IS_NUM b" "list_all IS_NUM v'" "number_of (digit_of b) v' = n"
    using to_string_number [of n] v by (cases "to_string n") (auto simp: number_of_def)
  obtain m1 where m1: "runs E m m1" "at s_header_value_discard_ws (p + length w + 2) (u\<lparr>m_last_header_field := k\<rparr>) (0, cl, x, a, e) m1"
      "header_state (prs m1) = h_content_length"
    using name_part [OF m, of c w "CHR '' '' # v @ CRLF @ r" "\<lambda>h. h = h_content_length"] d mx content_length_fold k'
    by (auto simp: name_start_def w)
  have d1: "drop (p + length w + 2) (data E) = CHR '' '' # v @ CRLF @ r"
    using drop_appendD [of p "data E" "k @ '':''"] d k' by (simp add: add.commute)
  obtain m2 where m2: "runs E m1 m2" "at s_header_value_discard_ws (p + length w + 3) (u\<lparr>m_last_header_field := k\<rparr>) (0, cl, x, a, e) m2"
      "prs m2 = prs m1"
    using colon_blank [OF m1(2) d1] mx k' by (auto simp: eval_nat_numeral)
  have d2: "drop (p + length w + 3) (data E) = b # v' @ CR # LF # r"
    using drop_nth [OF d1] v' by (simp add: eval_nat_numeral)
  obtain m3 where m3: "runs E m2 m3" "at_mark M_header_value (p + length w + 3) s_header_value (Suc (p + length w + 3)) (u\<lparr>m_last_header_field := k\<rparr>) (set_flag F_CONTENTLENGTH 0, digit_of b, x, a, e) m3"
      "header_state (prs m3) = h_content_length_num"
    using value_first_length [OF m2(2) _ d2] m1(3) m2(3) mx v' k' by auto
  have d3: "drop (Suc (p + length w + 3)) (data E) = v' @ CR # LF # r" using drop_nth [OF d2] by simp
  have loop: "header_value_loop E (header_state (prs m3)) (reading x m3) =
      At_CR h_content_length_num ((reading x m3)\<lparr>prs := (prs m3)\<lparr>content_length := n\<rparr>, pos := Suc (p + length w + 3) + length v', ch := CR\<rparr>)" for x
  proof -
    have "pos (reading x m3) = Suc (p + length w + 3)" using m3(2) by (simp add: at_mark_def at_def)
    moreover have "content_length (prs m3) = digit_of b" using m3(2) by (simp add: at_mark_def at_defs)
    ultimately show ?thesis
      using header_value_loop_number [of "reading x m3" E v' "LF # r"] d3 m3(3) v' n by simp
  qed
  have "plain_request ((prs m3)\<lparr>content_length := n\<rparr>)" "parsed_of ((prs m3)\<lparr>content_length := n\<rparr>) = ?q"
    using m3(2) by (simp_all add: at_mark_def at_defs)
  then obtain m4 where m4: "runs E m3 m4"
      "at s_header_almost_done (p + length w + 3 + length v' + 2) (note_header v (u\<lparr>m_last_header_field := k\<rparr>)) ?q m4"
      "header_state (prs m4) = h_content_length_num"
    using value_rest [OF m3(2) _ _ _ loop, of b "LF # r" ?q] d2 v' k' mx by auto
  have d4: "drop (p + length w + 3 + length v' + 2) (data E) = LF # r"
    using drop_appendD [of "p + length w + 3" "data E" "b # v' @ [CR]" "LF # r"] d2 by simp
  obtain m5 where m5: "runs E m4 m5" "at_header (Suc (p + length w + 3 + length v' + 2)) (note_header v (u\<lparr>m_last_header_field := k\<rparr>)) ?q m5"
    using value_line_end [OF m4(2) d4] m4(3) mx k' v' by auto
  have e: "Suc (p + length w + 3 + length v' + 2) = p + length k + length v + 4" using k' v' by simp
  show ?thesis
    using m5(2) runs_trans [OF runs_trans [OF runs_trans [OF runs_trans [OF m1(1) m2(1)] m3(1)] m4(1)] m5(1)]
    unfolding e by blast
qed

text \<open>All the headers.\<close>

lemma headers_part:
  "list_all ordinary_header hs \<Longrightarrow> at_header p u q m \<Longrightarrow> drop p (data E) = render_headers hs @ r \<Longrightarrow>
    p + length (render_headers hs) \<le> max_header_size E \<Longrightarrow>
    \<exists>m'. runs E m m' \<and> at_header (p + length (render_headers hs)) (note_headers hs u) q m'"
proof (induction hs arbitrary: p u m)
  case Nil
  then show ?case by (intro exI [of _ m]) (simp add: note_headers_def)
next
  case (Cons h hs)
  obtain k v where h: "h = (k, v)" by fastforce
  let ?u = "note_header v (u\<lparr>m_last_header_field := k\<rparr>)"
  let ?p = "p + length k + length v + 4"
  have ok: "ordinary_name k" "header_value_ok v" using Cons.prems(1) h by (simp_all add: ordinary_header_def)
  obtain m1 where m1: "runs E m m1" "at_header ?p ?u q m1"
    using header_part [OF Cons.prems(2) ok, of "render_headers hs @ r"] Cons.prems(3,4) h by auto
  have d: "drop ?p (data E) = render_headers hs @ r"
    using drop_appendD [of p "data E" "k @ '': '' @ v @ CRLF"] Cons.prems(3) h by (simp add: add.assoc eval_nat_numeral)
  have len: "?p + length (render_headers hs) = p + length (render_headers (h # hs))" using h by simp
  obtain m2 where "runs E m1 m2" "at_header (?p + length (render_headers hs)) (note_headers hs ?u) q m2"
    using Cons.IH [OF _ m1(2) d] Cons.prems(1,4) h by auto
  moreover have "note_headers hs ?u = note_headers (h # hs) u" by (simp add: note_headers_def h)
  ultimately show ?case using runs_trans [OF m1(1)] len by auto
qed

text \<open>The end of the headers and the body.\<close>

lemma last_line:
  assumes m: "at_header p u q m" and d: "drop p (data E) = CRLF @ r" and mx: "p < max_header_size E"
  shows "\<exists>m'. runs E m m' \<and> at s_headers_almost_done (Suc p) u q m'"
proof -
  let ?m = "UPDATE_STATE s_headers_almost_done (UPDATE_STATE s_header_field_start (reading CR m))"
  have "step_header_field_start (UPDATE_STATE s_header_field_start (reading CR m)) = Break ?m"
    by (simp add: step_header_field_start_def)
  moreover have "pos ?m = p" using m by (auto simp: at_header_def at_def)
  ultimately have "runs E m (?m\<lparr>pos := Suc p\<rparr>)" using d by (intro boundary [OF m _ mx]) auto
  moreover have "at s_headers_almost_done (Suc p) u q (?m\<lparr>pos := Suc p\<rparr>)"
    using m by (auto simp: at_header_def at_def)
  ultimately show ?thesis by blast
qed

lemmas ending_simps = http_step_def step_headers_almost_done_def STRICT_CHECK_def headers_complete_def
  on_headers_complete_cb_def after_headers_complete_def step_headers_done_def upgrade_requested_def Let_def at_defs
  message_complete_def CALLBACK_NOTIFY_def cb_simps on_message_complete_cb_def NEW_MESSAGE_def
  http_should_keep_alive_def http_message_needs_eof_def note_complete_def

lemma empty_body_end:
  assumes m: "at s_headers_almost_done p u (set_flag F_CONTENTLENGTH 0, 0, x, 1, 1) m" and x: "x \<noteq> HTTP_CONNECT"
    and d: "drop p (data E) = [LF]" and mx: "p < max_header_size E" and u: "m_type u = HTTP_REQUEST"
  shows "\<exists>m'. runs E m m' \<and> finished E (note_complete x u) m'"
proof -
  let ?M = "reading LF m"
  obtain m1 m2 where s: "http_step E ?M = Reexecute m1" "http_step E m1 = Break m2" "pos m2 = p"
      "finished E (note_complete x u) (m2\<lparr>pos := pos m2 + 1\<rparr>)"
    using m x u drop_nth [OF d] by (simp add: ending_simps finished_def)
  have "runs E m (m2\<lparr>pos := pos m2 + 1\<rparr>)"
    by (rule runs_again [OF _ _ _ s(1,2)]) (use m d mx s(3) in \<open>auto simp: at_def\<close>)
  with s(4) show ?thesis by blast
qed

lemma body_end:
  assumes m: "at s_headers_almost_done p u (set_flag F_CONTENTLENGTH 0, length body, x, 1, 1) m" and x: "x \<noteq> HTTP_CONNECT"
    and d: "drop p (data E) = LF # body" and mx: "p < max_header_size E" and u: "m_type u = HTTP_REQUEST"
    and body: "body \<noteq> []" "length body < 2 ^ 63"
  shows "\<exists>m'. runs E m m' \<and> finished E (note_complete x (u\<lparr>m_body := body\<rparr>)) m'"
proof -
  let ?M = "reading LF m"
  have len: "length body \<noteq> 0" "length body \<noteq> ULLONG_MAX" "length (data E) = Suc p + length body"
    using body drop_nth [OF d] d by (auto simp: ULLONG_MAX_def dest: arg_cong [of _ _ length])
  have d1: "drop (Suc p) (data E) = body" using drop_nth [OF d] by simp
  obtain m1 m2 where s: "http_step E ?M = Reexecute m1" "http_step E m1 = Break m2" "pos m2 = p"
      "p_state m2 = s_body_identity" "marks m2 = (\<lambda>_. None)" "user m2 = u" "plain_request (prs m2)"
      "parsed_of (prs m2) = (set_flag F_CONTENTLENGTH 0, length body, x, 1, 1)" "\<not> upgrade (prs m2)"
    using m x len by (simp add: ending_simps)
  let ?m = "m2\<lparr>pos := pos m2 + 1\<rparr>"
  have run: "runs E m ?m"
    by (rule runs_again [OF _ _ _ s(1,2)]) (use m d mx s(3) in \<open>auto simp: at_def\<close>)
  let ?N = "?m\<lparr>ch := data E ! Suc p\<rparr>"
  obtain m3 m4 where t: "http_step E ?N = Reexecute m3" "http_step E m3 = Break m4" "pos m4 = p + length body"
      "finished E (note_complete x (u\<lparr>m_body := body\<rparr>)) (m4\<lparr>pos := pos m4 + 1\<rparr>)"
    using s(3-9) len u d1
    by (simp add: ending_simps step_body_identity_def take_body_def MARK_def clear_mark_def step_message_done_def
        finished_def)
  have "byte_turn E ?m = Some (Break m4)"
    using s(3,4) t(1,2) by (simp add: byte_turn_def numeral_5)
  then have "runs E ?m (m4\<lparr>pos := pos m4 + 1\<rparr>)"
    by (rule runs_turn [rotated]) (use s(3) t(3) len in \<open>auto simp: Suc_le_eq\<close>)
  with run t(4) show ?thesis by (meson runs_trans)
qed

lemma finished_run:
  assumes "runs E m m'" "finished E u m'" "pos m = 0"
  shows "\<exists>M. run_loop (length (data E) + 1) E m = Some (Return (length (data E)) M) \<and> http_errno (prs M) = HPE_OK \<and> user M = u"
proof -
  obtain k where k: "k \<le> length (data E)" "\<forall>n. run_loop (n + k) E m = run_loop n E m'"
    using assms by (auto simp: runs_def finished_def)
  define n where "n = length (data E) - k"
  have n: "Suc n + k = length (data E) + 1" using k(1) by (simp add: n_def)
  have "run_loop (length (data E) + 1) E m = run_loop (Suc n) E m'"
    unfolding n [symmetric] using k(2) by blast
  moreover have "run_loop (Suc n) E m' = Some (RETURN (length (data E)) m')"
    using assms(2) by (simp add: finished_def end_of_buffer_def CALLBACK_DATA_def)
  ultimately show ?thesis using assms(2) by (simp add: RETURN_def finished_def)
qed

text \<open>The whole request.\<close>

lemma request_head:
  assumes m: "at s_start_req 0 u q m"
    and d: "data E = method_strings x @ '' '' @ w @ '' HTTP/1.1'' @ CRLF @ r"
    and x: "x \<noteq> HTTP_CONNECT" and w: "url_accepted w"
    and mx: "length (method_strings x) + length w + 12 \<le> max_header_size E"
  shows "\<exists>m'. runs E m m' \<and> at s_header_field_start (length (method_strings x) + length w + 12) (u\<lparr>m_url := w\<rparr>)
    (0, ULLONG_MAX, x, 1, 1) m' \<and> drop (length (method_strings x) + length w + 12) (data E) = r"
proof -
  obtain c v y where c: "method_strings x = c # v" "IS_ALPHA c" "c \<noteq> CR" "c \<noteq> LF" "first_method c = Some y" "method_fold y 1 v = Some x"
    using method_path by metis
  obtain m1 a b where m1: "runs E m m1" "at s_req_method (Suc 0) u (0, ULLONG_MAX, y, a, b) m1" "index (prs m1) = 1"
    using method_start [OF m _ _ c(2-5)] d c(1) mx by auto
  have d1: "drop (Suc 0) (data E) = v @ CHR '' '' # w @ CHR '' '' # ''HTTP/1.1'' @ CRLF @ r" using d c(1) by simp
  obtain m2 where m2: "runs E m1 m2" "at s_req_spaces_before_url (Suc 0 + length v + 1) u (0, ULLONG_MAX, x, a, b) m2"
    using method_bytes [OF c(6) m1(2,3) d1] mx c(1) by auto
  have d2: "drop (Suc 0 + length v + 1) (data E) = w @ CHR '' '' # ''HTTP/1.1'' @ CRLF @ r" using d c(1) by simp
  obtain m3 where m3: "runs E m2 m3"
      "at s_req_http_start (Suc 0 + length v + 1 + length w + 1) (u\<lparr>m_url := w\<rparr>) (0, ULLONG_MAX, x, a, b) m3"
    using url_part [OF m2(2) x w d2] mx c(1) by auto
  have d3: "drop (Suc 0 + length v + 1 + length w + 1) (data E) = ''HTTP/1.1'' @ CRLF @ r"
    using drop_appendD [of "Suc 0 + length v + 1" "data E" "w @ [CHR '' '']"] d2 by simp
  obtain m4 where m4: "runs E m3 m4"
      "at s_header_field_start (Suc 0 + length v + 1 + length w + 1 + 10) (u\<lparr>m_url := w\<rparr>) (0, ULLONG_MAX, x, 1, 1) m4"
    using version_line [OF m3(2) d3] mx c(1) by auto
  have d4: "drop (Suc 0 + length v + 1 + length w + 1 + 10) (data E) = r"
    using drop_appendD [of "Suc 0 + length v + 1 + length w + 1" "data E" "''HTTP/1.1'' @ CRLF" r] d3 by (simp add: eval_nat_numeral)
  have e: "Suc 0 + length v + 1 + length w + 1 + 10 = length (method_strings x) + length w + 12" using c(1) by simp
  show ?thesis
    using m4(2) d4 runs_trans [OF runs_trans [OF runs_trans [OF m1(1) m2(1)] m3(1)] m4(1)] unfolding e by blast
qed

lemma request_tail:
  assumes m: "at_header p u (set_flag F_CONTENTLENGTH 0, length body, x, 1, 1) m" and x: "x \<noteq> HTTP_CONNECT"
    and d: "drop p (data E) = CRLF @ body" and mx: "p + 2 \<le> max_header_size E" and u: "m_type u = HTTP_REQUEST"
    and body: "length body < 2 ^ 63"
  shows "\<exists>m'. runs E m m' \<and> finished E (note_complete x (if body = [] then u else u\<lparr>m_body := body\<rparr>)) m'"
proof -
  obtain m1 where m1: "runs E m m1" "at s_headers_almost_done (Suc p) u (set_flag F_CONTENTLENGTH 0, length body, x, 1, 1) m1"
    using last_line [OF m d] mx by auto
  have d1: "drop (Suc p) (data E) = LF # body" using d drop_nth by force
  obtain m2 where "runs E m1 m2" "finished E (note_complete x (if body = [] then u else u\<lparr>m_body := body\<rparr>)) m2"
  proof (cases "body = []")
    case True
    with empty_body_end [OF _ x, of "Suc p" u m1] m1(2) d1 mx u that show ?thesis by auto
  next
    case False
    with body_end [OF m1(2) x d1 _ u False body] mx that show ?thesis by auto
  qed
  with runs_trans [OF m1(1)] show ?thesis by blast
qed

lemma request_run:
  assumes m: "at s_start_req 0 u q m" and u: "m_type u = HTTP_REQUEST"
    and d: "data E = method_strings x @ '' '' @ w @ '' HTTP/1.1'' @ CRLF @ render_headers hs @ CRLF @ body"
    and hs: "hs = hs1 @ (''Content-Length'', to_string (length body)) # hs2"
    and x: "x \<noteq> HTTP_CONNECT" and w: "url_accepted w" and ok: "list_all ordinary_header (hs1 @ hs2)"
    and mx: "length (data E) \<le> max_header_size E + length body" and body: "length body < 2 ^ 63"
  shows "\<exists>m'. runs E m m' \<and> finished E (note_complete x
    (if body = [] then note_headers hs (u\<lparr>m_url := w\<rparr>) else (note_headers hs (u\<lparr>m_url := w\<rparr>))\<lparr>m_body := body\<rparr>)) m'"
proof -
  let ?k = "''Content-Length''" and ?v = "to_string (length body)"
  let ?p = "length (method_strings x) + length w + 12" and ?u = "u\<lparr>m_url := w\<rparr>"
  have "length (data E) = ?p + length (render_headers hs) + 2 + length body" using d by simp
  then have mx': "?p + length (render_headers hs) + 2 \<le> max_header_size E" using mx by simp
  have len: "length (render_headers hs) = length (render_headers hs1) + (length ?k + length ?v + 4) + length (render_headers hs2)"
    by (simp add: hs render_headers_append)
  obtain m1 where m1: "runs E m m1" "at s_header_field_start ?p ?u (0, ULLONG_MAX, x, 1, 1) m1"
      "drop ?p (data E) = render_headers hs @ CRLF @ body"
    using request_head [OF m d x w] mx' by auto
  have d1: "drop ?p (data E) = render_headers hs1 @ ?k @ '': '' @ ?v @ CRLF @ render_headers hs2 @ CRLF @ body"
    using m1(3) by (simp add: hs render_headers_append)
  have b1: "at_header ?p ?u (0, ULLONG_MAX, x, 1, 1) m1" using m1(2) by (simp add: at_header_def)
  obtain m2 where m2: "runs E m1 m2" "at_header (?p + length (render_headers hs1)) (note_headers hs1 ?u) (0, ULLONG_MAX, x, 1, 1) m2"
    using headers_part [OF _ b1 d1] ok mx' len by auto
  have d2: "drop (?p + length (render_headers hs1)) (data E) = ?k @ '': '' @ ?v @ CRLF @ render_headers hs2 @ CRLF @ body"
    using drop_appendD [OF d1] .
  let ?u2 = "note_header ?v ((note_headers hs1 ?u)\<lparr>m_last_header_field := ?k\<rparr>)"
  let ?q = "(set_flag F_CONTENTLENGTH 0, length body, x, 1, 1)"
  let ?p2 = "?p + length (render_headers hs1) + length ?k + length ?v + 4"
  obtain m3 where m3: "runs E m2 m3" "at_header ?p2 ?u2 ?q m3"
    using length_part [OF m2(2) refl refl body d2] mx' len by auto
  have d3: "drop ?p2 (data E) = render_headers hs2 @ CRLF @ body"
    using drop_appendD [of "?p + length (render_headers hs1)" "data E" "?k @ '': '' @ ?v @ CRLF"] d2
    by (simp add: add.assoc eval_nat_numeral)
  obtain m4 where m4: "runs E m3 m4" "at_header (?p2 + length (render_headers hs2)) (note_headers hs2 ?u2) ?q m4"
    using headers_part [OF _ m3(2) d3] ok mx' len by auto
  have u4: "note_headers hs2 ?u2 = note_headers hs ?u" by (simp add: hs note_headers_append note_headers_Cons)
  obtain m5 where m5: "runs E m4 m5" "finished E (note_complete x
      (if body = [] then note_headers hs ?u else (note_headers hs ?u)\<lparr>m_body := body\<rparr>)) m5"
    using request_tail [OF m4(2) x drop_appendD [OF d3] _ _ body] mx' len u unfolding u4 by auto
  with runs_trans [OF runs_trans [OF runs_trans [OF runs_trans [OF m1(1) m2(1)] m3(1)] m4(1)] m5(1)]
  show ?thesis by blast
qed

end

interpretation message_execute: message_env "new_env HTTP_MAX_HEADER_SIZE s_settting ps d" for ps d
  by unfold_locales (simp_all add: HTTP_MAX_HEADER_SIZE_def)

section \<open>The round trip\<close>

text \<open>
  A request that is meant to be read back: the method is one of the table, the version is the default,
  the URL is accepted by the automaton of the parser, the headers are in the order of a map, with names
  that have no meaning to the parser and values it reads as they stand, and the head is within the limit.
\<close>

definition sendable :: "http_method \<Rightarrow> request \<Rightarrow> bool" where
  "sendable x req \<longleftrightarrow> x \<noteq> HTTP_CONNECT \<and> rq_method req = method_strings x \<and> rq_version req \<in> {[], ''1.1''} \<and>
     url_accepted (rq_url req) \<and> sorted_wrt (<) (map fst (rq_headers req)) \<and>
     list_all ordinary_header (rq_headers req) \<and> length (rq_body req) < 2 ^ 63 \<and>
     length (render (complete_request req)) \<le> HTTP_MAX_HEADER_SIZE + length (rq_body req)"

lemma ordinary_not_length: "\<not> ordinary_name ''Content-Length''"
proof -
  have "map TOKEN ''Content-Length'' = ''content-length''" by code_simp
  then show ?thesis by (simp only: ordinary_name_def special_names_def) simp
qed

lemma completed_headers:
  assumes "list_all ordinary_header hs"
  shows "\<exists>hs1 hs2. hs = hs1 @ hs2 \<and> header_insert ''Content-Length'' v hs = hs1 @ (''Content-Length'', v) # hs2"
proof -
  have "''Content-Length'' \<notin> fst ` set hs"
    using assms ordinary_not_length by (auto simp: list_all_iff ordinary_header_def)
  then show ?thesis
    using header_set_new [of "''Content-Length''" hs v] by (auto simp: header_insert_def map_of_eq_None_iff)
qed

lemma sendable_run:
  assumes s: "sendable x req"
  shows "\<exists>ps. message_parse (http_parser_init HTTP_REQUEST) (message_init HTTP_REQUEST) (render (complete_request req)) =
    Parsed True ps (note_complete x (if rq_body req = []
      then note_headers (rq_headers (complete_request req)) ((message_init HTTP_REQUEST)\<lparr>m_url := rq_url req\<rparr>)
      else (note_headers (rq_headers (complete_request req)) ((message_init HTTP_REQUEST)\<lparr>m_url := rq_url req\<rparr>))\<lparr>m_body := rq_body req\<rparr>))"
proof -
  let ?d = "render (complete_request req)" and ?msg = "message_init HTTP_REQUEST" and ?ps = "http_parser_init HTTP_REQUEST"
  let ?hs = "rq_headers (complete_request req)" and ?body = "rq_body req"
  let ?E = "new_env HTTP_MAX_HEADER_SIZE s_settting ?ps ?d"
  let ?u = "note_complete x (if ?body = [] then note_headers ?hs (?msg\<lparr>m_url := rq_url req\<rparr>)
    else (note_headers ?hs (?msg\<lparr>m_url := rq_url req\<rparr>))\<lparr>m_body := ?body\<rparr>)"
  obtain hs1 hs2 where hs: "rq_headers req = hs1 @ hs2" "?hs = hs1 @ (''Content-Length'', to_string (length ?body)) # hs2"
    using completed_headers [of "rq_headers req" "to_string (length ?body)"] s
    by (auto simp: sendable_def complete_request_def Let_def)
  have ok: "x \<noteq> HTTP_CONNECT" "url_accepted (rq_url req)" "list_all ordinary_header (hs1 @ hs2)"
      "length ?d \<le> HTTP_MAX_HEADER_SIZE + length ?body" "length ?body < 2 ^ 63"
    using s unfolding sendable_def hs(1) by blast+
  have d: "data ?E = method_strings x @ '' '' @ rq_url req @ '' HTTP/1.1'' @ CRLF @ render_headers ?hs @ CRLF @ ?body"
    using s by (auto simp: render_def sendable_def complete_request_def Let_def)
  have at: "at s_start_req 0 ?msg (0, 0, HTTP_DELETE, 0, 0) (new_machine ?ps ?msg)"
    by (auto simp: at_defs new_machine_def http_parser_init_def initial_marks_def)
  have type: "m_type ?msg = HTTP_REQUEST" by (simp add: message_init_def)
  have len: "length (data ?E) \<le> max_header_size ?E + length ?body" using ok(4) by simp
  obtain m' where "runs ?E (new_machine ?ps ?msg) m'" "finished ?E ?u m'"
    using message_execute.request_run [OF at type d hs(2) ok(1-3) len ok(5)] by blast
  from message_execute.finished_run [OF this] obtain M where
    "run_loop (length ?d + 1) ?E (new_machine ?ps ?msg) = Some (Return (length ?d) M)"
    "http_errno (prs M) = HPE_OK" "user M = ?u"
    by (auto simp: new_machine_def)
  moreover have "?d \<noteq> []" by (simp add: render_def)
  moreover have "\<not> m_aborted ?u" by (simp add: note_complete_def message_init_def)
  ultimately show ?thesis
    by (simp add: message_parse_def http_parser_execute_def result_of_def)
qed

text \<open>
  C13: What the client sends, the message class reads: a request of the client, completed with the version
  and the length and written to a buffer, is parsed by \<open>message::parse_from_array\<close> into a completed
  message with the same method, URL, version, headers (in the order of the map, including the length that
  was added) and body.
\<close>

theorem request_roundtrip:
  assumes "sendable x req"
  shows "\<exists>ps msg. message_parse (http_parser_init HTTP_REQUEST) (message_init HTTP_REQUEST) (render (complete_request req))
      = Parsed True ps msg \<and> is_completed msg = Some True \<and> m_method msg = Some x \<and> m_url msg = rq_url req \<and>
    m_version msg = Some (1, 1) \<and> m_headers msg = rq_headers (complete_request req) \<and> m_body msg = rq_body req"
proof -
  have "sorted_wrt (<) (map fst (rq_headers (complete_request req)))"
    using assms sorted_header_set by (simp add: sendable_def complete_request_def Let_def header_insert_def)
  then have "m_headers (note_headers (rq_headers (complete_request req)) ((message_init HTTP_REQUEST)\<lparr>m_url := rq_url req\<rparr>))
      = rq_headers (complete_request req)"
    using note_headers_sorted [of "(message_init HTTP_REQUEST)\<lparr>m_url := rq_url req\<rparr>"] by (simp add: message_init_def)
  moreover obtain ps where "message_parse (http_parser_init HTTP_REQUEST) (message_init HTTP_REQUEST) (render (complete_request req)) =
      Parsed True ps (note_complete x (if rq_body req = []
        then note_headers (rq_headers (complete_request req)) ((message_init HTTP_REQUEST)\<lparr>m_url := rq_url req\<rparr>)
        else (note_headers (rq_headers (complete_request req)) ((message_init HTTP_REQUEST)\<lparr>m_url := rq_url req\<rparr>))\<lparr>m_body := rq_body req\<rparr>))"
    using sendable_run [OF assms] by blast
  ultimately show ?thesis
    by (intro exI conjI) (assumption | simp add: note_complete_def is_completed_def message_init_def)+
qed

definition example_request :: request where
  "example_request = \<lparr>rq_version = [], rq_url = ''/a?b=c'', rq_method = ''POST'', rq_path = [], rq_params = [],
     rq_headers = [(''Accept'', ''*/*''), (''Cookie'', ''k=v; l=w'')], rq_body = ''hi''\<rparr>"

lemma example_sendable: "sendable HTTP_POST example_request"
proof -
  have "url_accepted ''/a?b=c''" "list_all ordinary_header [(''Accept'', ''*/*''), (''Cookie'', ''k=v; l=w'')]"
    "sorted_wrt (<) (map fst [(''Accept'', ''*/*''), (''Cookie'', ''k=v; l=w'')])"
    "length (render (complete_request example_request)) < 200"
    by code_simp+
  then show ?thesis by (simp add: sendable_def example_request_def HTTP_MAX_HEADER_SIZE_def)
qed

lemma request_roundtrip_witness:
  "\<exists>ps msg. message_parse (http_parser_init HTTP_REQUEST) (message_init HTTP_REQUEST)
      (''POST /a?b=c HTTP/1.1'' @ CRLF @ ''Accept: */*'' @ CRLF @ ''Content-Length: 2'' @ CRLF @ ''Cookie: k=v; l=w'' @ CRLF @ CRLF @ ''hi'')
      = Parsed True ps msg \<and> m_body msg = ''hi''"
proof -
  have "render (complete_request example_request) = ''POST /a?b=c HTTP/1.1'' @ CRLF @ ''Accept: */*'' @ CRLF @
      ''Content-Length: 2'' @ CRLF @ ''Cookie: k=v; l=w'' @ CRLF @ CRLF @ ''hi''"
    by code_simp
  with request_roundtrip [OF example_sendable] show ?thesis by (auto simp: example_request_def)
qed

end
