(* ===== verification/Tcp_Transport.thy ===== *)
theory Tcp_Transport
  imports Prelude
begin

text \<open>
  The TCP transport of \<^verbatim>\<open>net/transport\<close>: \<^verbatim>\<open>session.h\<close>, \<^verbatim>\<open>tcp/session.h\<close>, \<^verbatim>\<open>session_pool.h\<close>,
  \<^verbatim>\<open>tcp/server.h\<close> and the lock of \<^verbatim>\<open>util/spin_lock.h\<close>. The one thread of the \<^verbatim>\<open>io_context\<close> runs the
  handlers one after the other; asio decides when an operation completes and how, so that completions
  are the arguments of the handlers here. Calls from other threads are taken as atomic.

  A session is owned by \<^verbatim>\<open>shared_ptr\<close>s: by the map of the pool, or by the handler that waits for it to
  be accepted. Its read handler captures a plain \<^verbatim>\<open>this\<close>: when it runs after the last owner is gone,
  it uses freed memory, \<open>Fault\<close>. Sequence numbers do not reach 2^64.
\<close>

section \<open>The lock\<close>

text \<open>
  A thread that takes the lock is in the loop \<open>Spinning\<close>, then in the critical section \<open>Inside\<close>.
\<close>

datatype lock_pc = Outside | Spinning | Inside

text \<open>One \<^verbatim>\<open>test_and_set\<close> of \<^verbatim>\<open>while (!m_flag.test_and_set()) {}\<close>, or \<^verbatim>\<open>unlock\<close>.\<close>

definition spin_step :: "bool \<times> lock_pc \<Rightarrow> bool \<times> lock_pc" where
  "spin_step c = (case c of (flag, pc) \<Rightarrow> (case pc of
       Outside \<Rightarrow> (flag, Spinning)
     | Spinning \<Rightarrow> (True, if \<not> flag then Spinning else Inside)
     | Inside \<Rightarrow> (False, Outside)))"

section \<open>Sessions\<close>

datatype link_status = Invalid | Connecting | Connected | ShuttingDown | Broken | Connectfail

record session =
  ss_status :: link_status
  ss_stopped :: bool

text \<open>The callbacks of \<^verbatim>\<open>matrix\<close>, with the session they are about.\<close>

datatype event = On_Connect nat | On_Disconnect nat | On_Receive nat string | On_Accept_Error

definition is_connected :: "session \<Rightarrow> bool" where
  "is_connected ss \<longleftrightarrow> ss_status ss = Connected"

text \<open>
  \<^verbatim>\<open>async_write(..., transfer_exactly(10))\<close>: asio calls \<^verbatim>\<open>write_some\<close> with the bytes the completion
  condition still asks for, until it asks for none or the buffer is at its end. The list says how many
  bytes each call accepts, at least one.
\<close>

fun write_exactly :: "nat \<Rightarrow> nat list \<Rightarrow> string \<Rightarrow> string option" where
  "write_exactly asked [] data = (if asked = 0 \<or> data = [] then Some [] else None)"
| "write_exactly asked (n # ns) data =
     (if asked = 0 \<or> data = [] then Some []
      else let k = min (max 1 n) (min asked (length data)) in
        map_option ((@) (take k data)) (write_exactly (asked - k) ns (drop k data)))"

definition do_send_msg :: "nat list \<Rightarrow> string \<Rightarrow> string option" where
  "do_send_msg accepted data = write_exactly 10 accepted data"

section \<open>The server\<close>

record server =
  sv_sequence_id :: nat
  sv_objects :: "nat \<rightharpoonup> session"
  sv_accepting :: "(nat \<times> session) option"
  sv_reading :: "nat set"
  sv_stopped :: bool
  sv_log :: "event list"

datatype sv_outcome = Ok server | Throw string server | Fault

definition emit :: "event \<Rightarrow> server \<Rightarrow> server" where
  "emit e sv = sv\<lparr>sv_log := sv_log sv @ [e]\<rparr>"

definition create_object :: "server \<Rightarrow> nat \<times> session \<times> server" where
  "create_object sv = (sv_sequence_id sv, \<lparr>ss_status = Invalid, ss_stopped = False\<rparr>,
     sv\<lparr>sv_sequence_id := sv_sequence_id sv + 1\<rparr>)"

definition add_object :: "nat \<Rightarrow> session \<Rightarrow> server \<Rightarrow> bool \<times> server" where
  "add_object sid ss sv =
     (if sv_objects sv sid \<noteq> None then (False, sv) else (True, sv\<lparr>sv_objects := (sv_objects sv)(sid \<mapsto> ss)\<rparr>))"

definition del_object :: "nat \<Rightarrow> server \<Rightarrow> server" where
  "del_object sid sv = sv\<lparr>sv_objects := (sv_objects sv)(sid := None)\<rparr>"

definition find_object :: "nat \<Rightarrow> server \<Rightarrow> session option" where
  "find_object sid sv = sv_objects sv sid"

definition clear :: "server \<Rightarrow> server" where
  "clear sv = sv\<lparr>sv_objects := Map.empty\<rparr>"

definition pool_size :: "server \<Rightarrow> nat" where
  "pool_size sv = card (dom (sv_objects sv))"

text \<open>\<^verbatim>\<open>do_recv_msg\<close> starts a read; \<^verbatim>\<open>connect\<close> sets the status, starts reading and tells the matrix.\<close>

definition do_recv_msg :: "nat \<Rightarrow> server \<Rightarrow> server" where
  "do_recv_msg sid sv = sv\<lparr>sv_reading := insert sid (sv_reading sv)\<rparr>"

definition connect :: "nat \<Rightarrow> session \<Rightarrow> server \<Rightarrow> session \<times> server" where
  "connect sid ss sv = (ss\<lparr>ss_status := Connected\<rparr>, emit (On_Connect sid) (do_recv_msg sid sv))"

definition disconnect_session :: "nat \<Rightarrow> session \<Rightarrow> server \<Rightarrow> session \<times> server" where
  "disconnect_session sid ss sv = (ss\<lparr>ss_status := Broken, ss_stopped := True\<rparr>, emit (On_Disconnect sid) sv)"

text \<open>
  \<^verbatim>\<open>disconnect(sid)\<close>: the status is set on the shared session, which is then removed from the map.
\<close>

definition disconnect :: "nat \<Rightarrow> server \<Rightarrow> sv_outcome" where
  "disconnect sid sv = (case find_object sid sv of
     None \<Rightarrow> Throw ''invalid session sid'' sv
   | Some ss \<Rightarrow>
       if \<not> is_connected ss then Throw ''session is not connected'' sv
       else (case disconnect_session sid ss sv of (ss', sv') \<Rightarrow>
         Ok (del_object sid (sv'\<lparr>sv_objects := (sv_objects sv')(sid \<mapsto> ss')\<rparr>))))"

definition send_msg :: "nat \<Rightarrow> server \<Rightarrow> bool" where
  "send_msg sid sv = (case find_object sid sv of None \<Rightarrow> False | Some ss \<Rightarrow> is_connected ss)"

text \<open>\<^verbatim>\<open>for_each\<close> visits the map in the order of the ids.\<close>

definition disconnect_each :: "server \<Rightarrow> nat \<Rightarrow> server" where
  "disconnect_each sv sid = (case sv_objects sv sid of
     None \<Rightarrow> sv
   | Some ss \<Rightarrow>
       if is_connected ss
       then (case disconnect_session sid ss sv of (ss', sv') \<Rightarrow> sv'\<lparr>sv_objects := (sv_objects sv')(sid \<mapsto> ss')\<rparr>)
       else sv)"

definition shutdown :: "server \<Rightarrow> server" where
  "shutdown sv = clear (foldl disconnect_each (sv\<lparr>sv_stopped := True\<rparr>) [0..<sv_sequence_id sv])"

definition do_accept :: "server \<Rightarrow> server" where
  "do_accept sv = (case create_object sv of (sid, ss, sv') \<Rightarrow> sv'\<lparr>sv_accepting := Some (sid, ss)\<rparr>)"

text \<open>The handler of \<^verbatim>\<open>async_accept\<close>; \<open>ok\<close> says that there was no error.\<close>

definition handle_accept :: "bool \<Rightarrow> server \<Rightarrow> server" where
  "handle_accept ok sv = (case sv_accepting sv of
     None \<Rightarrow> sv
   | Some (sid, ss) \<Rightarrow>
       let sv = sv\<lparr>sv_accepting := None\<rparr> in
       if sv_stopped sv then sv
       else if \<not> ok then do_accept (emit On_Accept_Error sv)
       else (case connect sid ss sv of (ss', sv') \<Rightarrow> do_accept (snd (add_object sid ss' sv'))))"

text \<open>
  The handler of \<^verbatim>\<open>async_read_some\<close>: \<open>None\<close> is an error. \<^verbatim>\<open>on_receive_error\<close> of the server
  disconnects, which removes the last owner of the session whose handler is running.
\<close>

definition handle_read :: "nat \<Rightarrow> string option \<Rightarrow> server \<Rightarrow> sv_outcome" where
  "handle_read sid res sv =
     (let sv = sv\<lparr>sv_reading := sv_reading sv - {sid}\<rparr> in
      case sv_objects sv sid of
        None \<Rightarrow> Fault
      | Some ss \<Rightarrow>
          if ss_stopped ss then Ok sv
          else (case res of
              Some msg \<Rightarrow> Ok (do_recv_msg sid (emit (On_Receive sid msg) sv))
            | None \<Rightarrow> (case disconnect sid sv of
                  Throw e sv' \<Rightarrow> Throw e sv'
                | Fault \<Rightarrow> Fault
                | Ok sv' \<Rightarrow> (case sv_objects sv' sid of
                    None \<Rightarrow> Fault
                  | Some ss' \<Rightarrow> Ok (if ss_stopped ss' then sv' else do_recv_msg sid sv')))))"

definition start :: server where
  "start = do_accept \<lparr>sv_sequence_id = 0, sv_objects = Map.empty, sv_accepting = None, sv_reading = {},
     sv_stopped = False, sv_log = []\<rparr>"

fun survives :: "sv_outcome \<Rightarrow> server \<Rightarrow> bool" where
  "survives (Ok s) sv = (s = sv)"
| "survives (Throw e s) sv = (s = sv)"
| "survives Fault sv = False"

inductive sv_step :: "server \<Rightarrow> server \<Rightarrow> bool" where
  accept: "sv_step sv (handle_accept ok sv)"
| read: "sid \<in> sv_reading sv \<Longrightarrow> survives (handle_read sid res sv) sv' \<Longrightarrow> sv_step sv sv'"
| call_disconnect: "survives (disconnect sid sv) sv' \<Longrightarrow> sv_step sv sv'"
| call_shutdown: "sv_step sv (shutdown sv)"

inductive sv_reachable :: "server \<Rightarrow> bool" where
  "sv_reachable start"
| "sv_reachable sv \<Longrightarrow> sv_step sv sv' \<Longrightarrow> sv_reachable sv'"

section \<open>Lifecycles\<close>

fun subject :: "event \<Rightarrow> nat option" where
  "subject (On_Connect sid) = Some sid"
| "subject (On_Disconnect sid) = Some sid"
| "subject (On_Receive sid msg) = Some sid"
| "subject On_Accept_Error = None"

definition trace :: "nat \<Rightarrow> event list \<Rightarrow> event list" where
  "trace sid es = filter (\<lambda>e. subject e = Some sid) es"

definition opened :: "nat \<Rightarrow> event list \<Rightarrow> bool" where
  "opened sid tr \<longleftrightarrow> (\<exists>ms. tr = On_Connect sid # map (On_Receive sid) ms)"

definition closed :: "nat \<Rightarrow> event list \<Rightarrow> bool" where
  "closed sid tr \<longleftrightarrow> (\<exists>ms. tr = On_Connect sid # map (On_Receive sid) ms @ [On_Disconnect sid])"

lemma trace_Nil [simp]: "trace sid [] = []"
  by (simp add: trace_def)

lemma trace_snoc [simp]: "trace sid (es @ [e]) = trace sid es @ (if subject e = Some sid then [e] else [])"
  by (simp add: trace_def)

lemma opened_simps:
  "opened sid [On_Connect sid]"
  "opened sid tr \<Longrightarrow> opened sid (tr @ [On_Receive sid msg])"
  "opened sid tr \<Longrightarrow> closed sid (tr @ [On_Disconnect sid])"
  "\<not> opened sid []" "\<not> closed sid []"
proof -
  show "opened sid [On_Connect sid]" by (simp add: opened_def)
  show "opened sid (tr @ [On_Receive sid msg])" if o: "opened sid tr"
  proof -
    obtain ms where "tr = On_Connect sid # map (On_Receive sid) ms" using o by (auto simp: opened_def)
    then have "tr @ [On_Receive sid msg] = On_Connect sid # map (On_Receive sid) (ms @ [msg])" by simp
    then show ?thesis unfolding opened_def by blast
  qed
qed (auto simp: opened_def closed_def)

lemma closed_not_opened: "closed sid tr \<Longrightarrow> \<not> opened sid tr"
proof
  assume "closed sid tr" "opened sid tr"
  then obtain ms ns where "map (On_Receive sid) ms @ [On_Disconnect sid] = map (On_Receive sid) ns"
    by (auto simp: closed_def opened_def)
  note this[symmetric]
  then have "On_Disconnect sid \<in> set (map (On_Receive sid) ns)" by simp
  then show False by auto
qed

text \<open>What holds of one sequence number.\<close>

definition slot_ok :: "nat \<Rightarrow> server \<Rightarrow> bool" where
  "slot_ok sid sv \<longleftrightarrow> (case sv_objects sv sid of
       Some ss \<Rightarrow> sid < sv_sequence_id sv \<and>
         (if is_connected ss then \<not> ss_stopped ss \<and> sid \<in> sv_reading sv \<and> opened sid (trace sid (sv_log sv))
          else closed sid (trace sid (sv_log sv)))
     | None \<Rightarrow> trace sid (sv_log sv) = [] \<or> closed sid (trace sid (sv_log sv)))
   \<and> (sv_sequence_id sv \<le> sid \<longrightarrow> trace sid (sv_log sv) = [])"

definition accepting_ok :: "server \<Rightarrow> bool" where
  "accepting_ok sv \<longleftrightarrow> (case sv_accepting sv of None \<Rightarrow> True
     | Some (sid, ss) \<Rightarrow> sid < sv_sequence_id sv \<and> sv_objects sv sid = None \<and> trace sid (sv_log sv) = []
         \<and> \<not> ss_stopped ss)"

definition slots_ok :: "server \<Rightarrow> bool" where
  "slots_ok sv \<longleftrightarrow> (\<forall>sid. slot_ok sid sv) \<and> accepting_ok sv"

definition server_inv :: "server \<Rightarrow> bool" where
  "server_inv sv \<longleftrightarrow> slots_ok sv \<and> (\<forall>sid ss. sv_objects sv sid = Some ss \<longrightarrow> is_connected ss)"

lemmas server_defs = emit_def create_object_def add_object_def del_object_def find_object_def clear_def
  do_recv_msg_def connect_def disconnect_session_def do_accept_def

lemma start_inv: "server_inv start"
  by (simp add: server_inv_def slots_ok_def slot_ok_def accepting_ok_def start_def server_defs)

lemma handle_accept_inv: "server_inv sv \<Longrightarrow> server_inv (handle_accept ok sv)"
proof (cases "sv_accepting sv")
  case (Some a)
  assume i: "server_inv sv"
  obtain sid ss where a: "a = (sid, ss)" by fastforce
  have sid: "sid < sv_sequence_id sv" "sv_objects sv sid = None" "trace sid (sv_log sv) = []" "\<not> ss_stopped ss"
    using i Some a by (auto simp: server_inv_def slots_ok_def accepting_ok_def)
  have slot: "slot_ok k sv" for k using i by (simp add: server_inv_def slots_ok_def)
  have new: "sv_objects sv (sv_sequence_id sv) = None" "trace (sv_sequence_id sv) (sv_log sv) = []"
    using slot[of "sv_sequence_id sv"] by (auto simp: slot_ok_def split: option.splits)
  consider "sv_stopped sv" | "\<not> sv_stopped sv" "\<not> ok" | "\<not> sv_stopped sv" ok by blast
  then show ?thesis
  proof cases
    case 1
    have "slot_ok k (handle_accept ok sv)" for k
      using slot[of k] 1 Some a by (auto simp: handle_accept_def slot_ok_def split: option.splits)
    with 1 i Some a show ?thesis
      by (simp add: handle_accept_def server_inv_def slots_ok_def accepting_ok_def)
  next
    case 2
    have "slot_ok k (handle_accept ok sv)" for k
      using slot[of k] 2 Some a by (auto simp: handle_accept_def server_defs slot_ok_def split: option.splits)
    with 2 i Some a new show ?thesis
      by (auto simp: handle_accept_def server_inv_def slots_ok_def accepting_ok_def server_defs)
  next
    case 3
    have "slot_ok k (handle_accept ok sv)" for k
      using slot[of k] 3 Some a sid
      by (auto simp: handle_accept_def server_defs slot_ok_def is_connected_def opened_simps split: option.splits)
    with 3 i Some a sid new show ?thesis
      by (auto simp: handle_accept_def server_inv_def slots_ok_def accepting_ok_def server_defs is_connected_def)
  qed
qed (simp add: handle_accept_def)

lemma disconnect_inv: "server_inv sv \<Longrightarrow> survives (disconnect sid sv) sv' \<Longrightarrow> server_inv sv'"
proof (cases "sv_objects sv sid")
  case (Some ss)
  assume i: "server_inv sv" and s: "survives (disconnect sid sv) sv'"
  have c: "is_connected ss" using i Some by (simp add: server_inv_def)
  have sv': "sv' = emit (On_Disconnect sid) (del_object sid sv)"
    using s Some c by (auto simp: disconnect_def server_defs)
  have slot: "slot_ok k sv" for k using i by (simp add: server_inv_def slots_ok_def)
  have "slot_ok k sv'" for k
    using slot[of k] slot[of sid] Some c unfolding sv'
    by (auto simp: slot_ok_def server_defs opened_simps split: option.splits)
  moreover have "accepting_ok sv'" using i Some unfolding sv'
    by (auto simp: server_inv_def slots_ok_def accepting_ok_def server_defs split: option.splits)
  moreover have "\<forall>k ss. sv_objects sv' k = Some ss \<longrightarrow> is_connected ss"
    using i unfolding sv' by (simp add: server_inv_def server_defs)
  ultimately show ?thesis by (simp add: server_inv_def slots_ok_def)
qed (simp add: disconnect_def find_object_def)

lemma disconnect_each_ok:
  "slots_ok sv \<Longrightarrow> slots_ok (disconnect_each sv sid)
     \<and> sv_sequence_id (disconnect_each sv sid) = sv_sequence_id sv
     \<and> (\<forall>k ss'. sv_objects (disconnect_each sv sid) k = Some ss' \<longrightarrow> is_connected ss' \<longrightarrow>
          k \<noteq> sid \<and> (\<exists>ss. sv_objects sv k = Some ss \<and> is_connected ss))"
proof (cases "sv_objects sv sid")
  case (Some ss)
  assume i: "slots_ok sv"
  have slot: "slot_ok k sv" for k using i by (simp add: slots_ok_def)
  show ?thesis
  proof (cases "is_connected ss")
    case True
    have "slot_ok k (disconnect_each sv sid)" for k
      using slot[of k] slot[of sid] Some True
      by (auto simp: slot_ok_def disconnect_each_def server_defs is_connected_def opened_simps split: option.splits)
    moreover have "accepting_ok (disconnect_each sv sid)" using i Some True
      by (auto simp: slots_ok_def accepting_ok_def disconnect_each_def server_defs split: option.splits)
    ultimately show ?thesis using Some True
      by (auto simp: slots_ok_def disconnect_each_def server_defs is_connected_def)
  qed (use i Some in \<open>auto simp: disconnect_each_def\<close>)
qed (auto simp: disconnect_each_def)

lemma disconnect_all_ok:
  "slots_ok sv \<Longrightarrow> slots_ok (foldl disconnect_each sv xs)
     \<and> sv_sequence_id (foldl disconnect_each sv xs) = sv_sequence_id sv
     \<and> (\<forall>k ss'. sv_objects (foldl disconnect_each sv xs) k = Some ss' \<longrightarrow> is_connected ss' \<longrightarrow>
          k \<notin> set xs \<and> (\<exists>ss. sv_objects sv k = Some ss \<and> is_connected ss))"
proof (induction xs arbitrary: sv)
  case (Cons x xs)
  note d = disconnect_each_ok[OF Cons.prems, of x]
  from Cons.IH[of "disconnect_each sv x"] d show ?case by (simp, blast)
qed auto

lemma shutdown_inv: "server_inv sv \<Longrightarrow> server_inv (shutdown sv)"
proof -
  assume i: "server_inv sv"
  let ?s = "sv\<lparr>sv_stopped := True\<rparr>"
  let ?d = "foldl disconnect_each ?s [0..<sv_sequence_id sv]"
  have s0: "slot_ok k sv" for k using i by (simp add: server_inv_def slots_ok_def)
  have "slot_ok k ?s" for k
    using s0[of k] by (auto simp: slot_ok_def split: option.splits)
  moreover have "accepting_ok ?s"
    using i by (auto simp: server_inv_def slots_ok_def accepting_ok_def split: option.splits)
  ultimately have "slots_ok ?s" by (simp add: slots_ok_def)
  note d = disconnect_all_ok[OF this, of "[0..<sv_sequence_id sv]"]
  have slot: "slot_ok k ?d" for k using d by (simp add: slots_ok_def)
  have old: "\<not> is_connected ss" if "sv_objects ?d k = Some ss" for k ss
  proof
    assume "is_connected ss"
    with d that have k: "k \<notin> set [0..<sv_sequence_id sv]" by blast
    have "k < sv_sequence_id ?d" using slot[of k] that by (simp add: slot_ok_def)
    with d k show False by simp
  qed
  have "slot_ok k (shutdown sv)" for k
    using slot[of k] old[of k] by (auto simp: shutdown_def clear_def slot_ok_def split: option.splits)
  moreover have "accepting_ok (shutdown sv)"
    using d by (auto simp: slots_ok_def shutdown_def clear_def accepting_ok_def split: option.splits)
  ultimately show ?thesis by (simp add: server_inv_def slots_ok_def) (simp add: shutdown_def clear_def)
qed

lemma handle_read_error:
  "server_inv sv \<Longrightarrow> handle_read sid None sv = Fault"
proof -
  assume i: "server_inv sv"
  show ?thesis
  proof (cases "sv_objects sv sid")
    case (Some ss)
    with i have "is_connected ss" "\<not> ss_stopped ss"
      by (auto simp: server_inv_def slots_ok_def slot_ok_def split: option.splits)
    with Some show ?thesis by (simp add: handle_read_def disconnect_def server_defs)
  qed (simp add: handle_read_def)
qed

lemma handle_read_inv: "server_inv sv \<Longrightarrow> survives (handle_read sid res sv) sv' \<Longrightarrow> server_inv sv'"
proof -
  assume i: "server_inv sv" and s: "survives (handle_read sid res sv) sv'"
  obtain msg where res: "res = Some msg" using s handle_read_error[OF i] by (cases res) auto
  obtain ss where ss: "sv_objects sv sid = Some ss" using s by (cases "sv_objects sv sid") (auto simp: handle_read_def)
  have slot: "slot_ok k sv" for k using i by (simp add: server_inv_def slots_ok_def)
  have c: "is_connected ss" using i ss by (simp add: server_inv_def)
  then have ns: "\<not> ss_stopped ss" using slot[of sid] ss by (simp add: slot_ok_def)
  have sv': "sv' = do_recv_msg sid (emit (On_Receive sid msg) (sv\<lparr>sv_reading := sv_reading sv - {sid}\<rparr>))"
    using s ss ns res by (simp add: handle_read_def)
  have "slot_ok k sv'" for k
    using slot[of k] ss c unfolding sv'
    by (auto simp: slot_ok_def server_defs opened_simps split: option.splits)
  moreover have "accepting_ok sv'" using i ss unfolding sv'
    by (auto simp: server_inv_def slots_ok_def accepting_ok_def server_defs split: option.splits)
  ultimately show ?thesis using i unfolding sv' by (simp add: server_inv_def slots_ok_def server_defs)
qed

lemma sv_step_inv: "sv_step sv sv' \<Longrightarrow> server_inv sv \<Longrightarrow> server_inv sv'"
  by (induction rule: sv_step.induct) (blast intro: handle_accept_inv handle_read_inv disconnect_inv shutdown_inv)+

lemma reachable_server_inv: "sv_reachable sv \<Longrightarrow> server_inv sv"
  by (induction rule: sv_reachable.induct) (blast intro: start_inv sv_step_inv)+

section \<open>Writing\<close>

lemma write_exactly_take: "length ns \<ge> min asked (length data) \<Longrightarrow> write_exactly asked ns data = Some (take asked data)"
proof (induction asked ns data rule: write_exactly.induct)
  case (1 asked data)
  then show ?case by (cases data) auto
next
  case (2 asked n ns data)
  show ?case
  proof (cases "asked = 0 \<or> data = []")
    case False
    define k where "k = min (max 1 n) (min asked (length data))"
    have k: "0 < k" "k \<le> asked" "k \<le> length data" using False by (auto simp: k_def)
    have "min (asked - k) (length (drop k data)) \<le> length ns" using 2(2) k by auto
    from 2(1)[OF _ k_def this] False
    have "write_exactly (asked - k) ns (drop k data) = Some (take (asked - k) (drop k data))" by simp
    moreover have "take asked data = take k data @ take (asked - k) (drop k data)"
      using k by (metis le_add_diff_inverse take_add)
    ultimately show ?thesis using False by (simp add: Let_def k_def del: One_nat_def)
  qed auto
qed

section \<open>Properties\<close>

text \<open>
  C9: Over every sequence of accepts, reads, disconnects and shutdowns that uses no freed memory, the
  callbacks of each session form a lifecycle: nothing, or one \<^verbatim>\<open>on_connect\<close>, then received messages, then
  at most one \<^verbatim>\<open>on_disconnect\<close> and nothing after it. A session is in the map exactly while its lifecycle
  is open; it is then connected and has a read outstanding.
\<close>

theorem session_lifecycle:
  assumes "sv_reachable sv"
  shows "(trace sid (sv_log sv) = [] \<or> opened sid (trace sid (sv_log sv)) \<or> closed sid (trace sid (sv_log sv)))
    \<and> (find_object sid sv \<noteq> None \<longleftrightarrow> opened sid (trace sid (sv_log sv)))
    \<and> (find_object sid sv \<noteq> None \<longrightarrow> send_msg sid sv \<and> sid \<in> sv_reading sv)"
proof -
  have i: "server_inv sv" using assms by (rule reachable_server_inv)
  then have s: "slot_ok sid sv" and c: "\<And>ss. sv_objects sv sid = Some ss \<Longrightarrow> is_connected ss"
    by (auto simp: server_inv_def slots_ok_def)
  show ?thesis
  proof (cases "sv_objects sv sid")
    case None
    with s show ?thesis using closed_not_opened opened_simps(4) by (auto simp: slot_ok_def find_object_def)
  next
    case (Some ss)
    with s c[OF Some] show ?thesis by (auto simp: slot_ok_def find_object_def send_msg_def)
  qed
qed

definition sample_server :: server where
  "sample_server = handle_accept True start"

lemma sample_server_reachable: "sv_reachable sample_server"
  unfolding sample_server_def by (rule sv_reachable.intros(2)[OF sv_reachable.intros(1) accept])

lemma session_lifecycle_witness:
  "opened 0 (trace 0 (sv_log sample_server)) \<and> send_msg 0 sample_server \<and> 0 \<in> sv_reading sample_server"
proof -
  have "find_object 0 sample_server \<noteq> None"
    by (simp add: sample_server_def handle_accept_def start_def server_defs)
  then show ?thesis using session_lifecycle[OF sample_server_reachable, of 0] by blast
qed

text \<open>
  C10: Every session that ends is used after it is freed. In any reachable state, a read that completes
  with an error, as it does when the peer closes, makes the server drop the last owner of the session
  inside the session's own handler, which then reads \<^verbatim>\<open>m_stopped\<close>; and after a successful
  \<^verbatim>\<open>disconnect\<close> the read that is still outstanding runs on the freed session, whatever its result.
\<close>

theorem ended_session_is_used_after_free:
  assumes "sv_reachable sv" and "find_object sid sv \<noteq> None"
  shows "handle_read sid None sv = Fault
    \<and> (\<exists>sv'. disconnect sid sv = Ok sv' \<and> sid \<in> sv_reading sv' \<and> handle_read sid res sv' = Fault)"
proof -
  have i: "server_inv sv" using assms(1) by (rule reachable_server_inv)
  obtain ss where ss: "sv_objects sv sid = Some ss" using assms(2) by (auto simp: find_object_def)
  have "is_connected ss" "sid \<in> sv_reading sv"
    using i ss by (auto simp: server_inv_def slots_ok_def slot_ok_def split: option.splits)
  then have "\<exists>sv'. disconnect sid sv = Ok sv' \<and> sid \<in> sv_reading sv' \<and> handle_read sid res sv' = Fault"
    using ss by (simp add: disconnect_def handle_read_def server_defs)
  with handle_read_error[OF i] show ?thesis by blast
qed

lemma ended_session_is_used_after_free_witness:
  "handle_read 0 None sample_server = Fault
    \<and> (\<exists>sv'. disconnect 0 sample_server = Ok sv' \<and> 0 \<in> sv_reading sv' \<and> handle_read 0 (Some ''x'') sv' = Fault)"
  by (rule ended_session_is_used_after_free[OF sample_server_reachable])
    (simp add: sample_server_def handle_accept_def start_def server_defs)

text \<open>
  \<^verbatim>\<open>send_msg\<close> transmits at most ten bytes: however the socket splits the transfer, the bytes that
  leave are the first ten of the message, and the rest is never sent although success is reported.
\<close>

theorem send_msg_truncates:
  assumes "length accepted \<ge> 10"
  shows "do_send_msg accepted data = Some (take 10 data)"
  unfolding do_send_msg_def using assms by (intro write_exactly_take) auto

lemma send_msg_truncates_witness:
  "do_send_msg (replicate 10 4) ''GET / HTTP/1.1'' = Some ''GET / HTTP''"
  using send_msg_truncates[of "replicate 10 4" "''GET / HTTP/1.1''"] by simp

text \<open>
  The spin lock does not exclude: whatever the flag, a thread that runs is inside after at most three
  steps, so that of two threads the second enters while the first is inside; and a lock that is
  already held is the one that is entered at once.
\<close>

theorem spin_lock_does_not_exclude:
  "(snd ((spin_step ^^ 3) (flag, Outside)) = Inside \<or> snd ((spin_step ^^ 2) (flag, Outside)) = Inside)
   \<and> snd ((spin_step ^^ 2) (fst ((spin_step ^^ 3) (False, Outside)), Outside)) = Inside
   \<and> snd ((spin_step ^^ 3) (False, Outside)) = Inside"
  by (cases flag) (simp_all add: spin_step_def eval_nat_numeral)

end
