(* ===== verification/Tcp_Client.thy ===== *)
theory Tcp_Client
  imports Tcp_Transport
begin

text \<open>
  The client side of the TCP transport, \<^verbatim>\<open>net/transport/tcp/client.h\<close>, with the callbacks and
  \<^verbatim>\<open>sync_connect\<close> of \<^verbatim>\<open>net/app/easy_tcp/client.h\<close>. Sessions and their pool are those of
  \<open>Tcp_Transport\<close>; the completions of asio and the endpoints that the resolver finds are arguments. The
  thread that runs the \<^verbatim>\<open>io_context\<close> is never joined before the destructor, so that it stays joinable:
  \<open>tc_context\<close>. \<open>Dies\<close> is the end of the process, by \<^verbatim>\<open>std::terminate\<close> or a failed assertion.
\<close>

section \<open>The client\<close>

type_synonym endpoint = "string \<times> nat"

datatype client_event = Cb_connect nat | Cb_connect_fail nat | Cb_disconnect nat | Cb_receive nat string

record tcp_client =
  tc_sequence_id :: nat
  tc_objects :: "nat \<rightharpoonup> session"
  tc_session_ref :: "nat option"
  tc_connecting :: "(nat \<times> endpoint) option"
  tc_reading :: "nat set"
  tc_context :: bool
  tc_log :: "client_event list"

datatype 'a call = Done 'a tcp_client | Raises string tcp_client | Dies string

definition new_client :: tcp_client where
  "new_client = \<lparr>tc_sequence_id = 0, tc_objects = Map.empty, tc_session_ref = None, tc_connecting = None,
     tc_reading = {}, tc_context = False, tc_log = []\<rparr>"

definition client_emit :: "client_event \<Rightarrow> tcp_client \<Rightarrow> tcp_client" where
  "client_emit e c = c\<lparr>tc_log := tc_log c @ [e]\<rparr>"

definition put_session :: "nat \<Rightarrow> session \<Rightarrow> tcp_client \<Rightarrow> tcp_client" where
  "put_session sid ss c = c\<lparr>tc_objects := (tc_objects c)(sid \<mapsto> ss)\<rparr>"

text \<open>\<^verbatim>\<open>m_session_ref.lock()\<close>: the pool is the last owner of a session.\<close>

definition lock_session :: "tcp_client \<Rightarrow> (nat \<times> session) option" where
  "lock_session c = (case tc_session_ref c of
     None \<Rightarrow> None
   | Some sid \<Rightarrow> map_option (Pair sid) (tc_objects c sid))"

text \<open>\<^verbatim>\<open>run()\<close> assigns a new thread to \<^verbatim>\<open>m_context\<close>, which must not hold a joinable one.\<close>

definition client_run :: "tcp_client \<Rightarrow> bool call" where
  "client_run c = (if tc_context c then Dies ''std::terminate'' else Done True (c\<lparr>tc_context := True\<rparr>))"

text \<open>\<open>eps\<close> is what the resolver finds, \<open>None\<close> if it throws; without any endpoint the default one is used.\<close>

definition client_connect :: "endpoint list option \<Rightarrow> tcp_client \<Rightarrow> bool call" where
  "client_connect eps c =
     (let sid = tc_sequence_id c; c = c\<lparr>tc_sequence_id := sid + 1\<rparr> in
      if tc_objects c sid \<noteq> None then Done False (c\<lparr>tc_session_ref := None\<rparr>)
      else
        let c = put_session sid \<lparr>ss_status = Invalid, ss_stopped = False\<rparr> (c\<lparr>tc_session_ref := Some sid\<rparr>) in
        case eps of
          None \<Rightarrow> Raises ''resolve'' c
        | Some es \<Rightarrow> client_run (c\<lparr>tc_connecting := Some (sid, case es of [] \<Rightarrow> (''0.0.0.0'', 0) | e # _ \<Rightarrow> e)\<rparr>))"

text \<open>The handler of \<^verbatim>\<open>async_connect\<close>.\<close>

definition client_connected :: "bool \<Rightarrow> tcp_client \<Rightarrow> tcp_client" where
  "client_connected ok c = (case tc_connecting c of
     None \<Rightarrow> c
   | Some (sid, ep) \<Rightarrow>
       (let c = c\<lparr>tc_connecting := None\<rparr> in
        case tc_objects c sid of
          None \<Rightarrow> c
        | Some ss \<Rightarrow>
            if \<not> ok then
              (let c = client_emit (Cb_connect_fail sid) (put_session sid (ss\<lparr>ss_status := Connectfail\<rparr>) c) in
               c\<lparr>tc_objects := (tc_objects c)(sid := None)\<rparr>)
            else
              (let c = put_session sid (ss\<lparr>ss_status := Connected\<rparr>) c in
               client_emit (Cb_connect sid) (c\<lparr>tc_reading := insert sid (tc_reading c)\<rparr>))))"

text \<open>
  The handler of \<^verbatim>\<open>async_read_some\<close>. The client does not override \<^verbatim>\<open>on_receive_error\<close>: after an error the
  session reads on. \<open>None\<close> is the use of a freed session.
\<close>

definition client_read :: "nat \<Rightarrow> string option \<Rightarrow> tcp_client \<Rightarrow> tcp_client option" where
  "client_read sid res c =
     (let c = c\<lparr>tc_reading := tc_reading c - {sid}\<rparr> in
      case tc_objects c sid of
        None \<Rightarrow> None
      | Some ss \<Rightarrow>
          if ss_stopped ss then Some c
          else
            let c = (case res of Some msg \<Rightarrow> client_emit (Cb_receive sid msg) c | None \<Rightarrow> c) in
            Some (c\<lparr>tc_reading := insert sid (tc_reading c)\<rparr>))"

definition client_shutdown :: "tcp_client \<Rightarrow> unit call" where
  "client_shutdown c = (case lock_session c of
     None \<Rightarrow> Dies ''assert(false)''
   | Some (sid, ss) \<Rightarrow>
       if is_connected ss
       then Done () (client_emit (Cb_disconnect sid) (put_session sid (ss\<lparr>ss_status := Broken, ss_stopped := True\<rparr>) c))
       else Done () c)"

text \<open>The destructors: \<^verbatim>\<open>~client\<close> shuts down, \<^verbatim>\<open>~session_pool\<close> joins the thread.\<close>

definition client_destroy :: "tcp_client \<Rightarrow> unit call" where
  "client_destroy c = (case client_shutdown c of
     Done u c \<Rightarrow> if tc_context c then Done u c else Dies ''std::terminate''
   | r \<Rightarrow> r)"

definition client_is_connected :: "tcp_client \<Rightarrow> bool" where
  "client_is_connected c = (case lock_session c of None \<Rightarrow> False | Some (sid, ss) \<Rightarrow> is_connected ss)"

text \<open>
  \<^verbatim>\<open>send_msg\<close>: whether it reports success, and the bytes that leave (\<open>accepted\<close> as for the session).
\<close>

definition client_send_msg :: "nat list \<Rightarrow> string \<Rightarrow> tcp_client \<Rightarrow> bool \<times> string option" where
  "client_send_msg accepted s c =
     (if client_is_connected c then (True, do_send_msg accepted s) else (False, Some []))"

text \<open>
  \<^verbatim>\<open>sync_connect\<close> of both clients: the result of the wait is not looked at, so that whatever the other
  thread did until the wait returned (a notification, a spurious wakeup, the timeout), the status counts.
\<close>

datatype io = Io_connect bool | Io_read nat "string option"

fun client_io :: "io list \<Rightarrow> tcp_client \<Rightarrow> tcp_client option" where
  "client_io [] c = Some c"
| "client_io (Io_connect ok # ios) c = client_io ios (client_connected ok c)"
| "client_io (Io_read sid res # ios) c =
     (if sid \<in> tc_reading c then Option.bind (client_read sid res c) (client_io ios) else client_io ios c)"

definition sync_connect :: "endpoint list option \<Rightarrow> io list \<Rightarrow> tcp_client \<Rightarrow> bool call" where
  "sync_connect eps ios c = (case client_connect eps c of
     Done b c \<Rightarrow>
       if \<not> b then Done False c
       else (case client_io ios c of
           None \<Rightarrow> Dies ''use after free''
         | Some c \<Rightarrow> Done (client_is_connected c) c)
   | r \<Rightarrow> r)"

text \<open>What the receive callback of \<^verbatim>\<open>easy_tcp::client\<close> has been given, if one is registered.\<close>

definition easy_received :: "bool \<Rightarrow> tcp_client \<Rightarrow> string list" where
  "easy_received registered c =
     (if registered then concat (map (\<lambda>e. case e of Cb_receive sid s \<Rightarrow> [s] | _ \<Rightarrow> []) (tc_log c)) else [])"

section \<open>Reachable clients\<close>

inductive tc_step :: "tcp_client \<Rightarrow> tcp_client \<Rightarrow> bool" where
  call_connect: "client_connect eps c = Done b c' \<Longrightarrow> tc_step c c'"
| call_connect_raises: "client_connect eps c = Raises e c' \<Longrightarrow> tc_step c c'"
| connected: "tc_step c (client_connected ok c)"
| read: "sid \<in> tc_reading c \<Longrightarrow> client_read sid res c = Some c' \<Longrightarrow> tc_step c c'"
| call_shutdown: "client_shutdown c = Done u c' \<Longrightarrow> tc_step c c'"

inductive tc_reachable :: "tcp_client \<Rightarrow> bool" where
  new: "tc_reachable new_client"
| step: "tc_reachable c \<Longrightarrow> tc_step c c' \<Longrightarrow> tc_reachable c'"

section \<open>The invariant\<close>

definition session_life :: "nat \<Rightarrow> string list \<Rightarrow> client_event list" where
  "session_life sid ms = Cb_connect sid # map (Cb_receive sid) ms"

text \<open>A session that was added to the pool and never got to connect.\<close>

definition fresh :: session where
  "fresh = \<lparr>ss_status = Invalid, ss_stopped = False\<rparr>"

definition fresh_but :: "nat option \<Rightarrow> tcp_client \<Rightarrow> bool" where
  "fresh_but x c \<longleftrightarrow> (\<forall>sid ss. tc_objects c sid = Some ss \<longrightarrow> sid < tc_sequence_id c \<and> (Some sid \<noteq> x \<longrightarrow> ss = fresh))"

text \<open>The phases of the one session that ever gets as far as connecting.\<close>

definition idle :: "tcp_client \<Rightarrow> bool" where
  "idle c \<longleftrightarrow> \<not> tc_context c \<and> tc_connecting c = None \<and> tc_reading c = {} \<and> tc_log c = [] \<and> fresh_but None c"

definition connecting :: "nat \<Rightarrow> tcp_client \<Rightarrow> bool" where
  "connecting sid c \<longleftrightarrow> (\<exists>ep. tc_connecting c = Some (sid, ep)) \<and> tc_reading c = {} \<and> tc_log c = [] \<and>
     tc_objects c sid = Some fresh"

definition failed :: "nat \<Rightarrow> tcp_client \<Rightarrow> bool" where
  "failed sid c \<longleftrightarrow> tc_connecting c = None \<and> tc_reading c = {} \<and> tc_log c = [Cb_connect_fail sid] \<and> tc_objects c sid = None"

definition live :: "nat \<Rightarrow> string list \<Rightarrow> tcp_client \<Rightarrow> bool" where
  "live sid ms c \<longleftrightarrow> tc_connecting c = None \<and> tc_reading c = {sid} \<and> tc_log c = session_life sid ms \<and>
     tc_objects c sid = Some \<lparr>ss_status = Connected, ss_stopped = False\<rparr>"

definition ended :: "nat \<Rightarrow> string list \<Rightarrow> tcp_client \<Rightarrow> bool" where
  "ended sid ms c \<longleftrightarrow> tc_connecting c = None \<and> tc_reading c \<subseteq> {sid} \<and>
     tc_log c = session_life sid ms @ [Cb_disconnect sid] \<and>
     tc_objects c sid = Some \<lparr>ss_status = Broken, ss_stopped = True\<rparr>"

definition phase :: "nat \<Rightarrow> tcp_client \<Rightarrow> bool" where
  "phase sid c \<longleftrightarrow> connecting sid c \<or> failed sid c \<or> (\<exists>ms. live sid ms c) \<or> (\<exists>ms. ended sid ms c)"

definition client_inv :: "tcp_client \<Rightarrow> bool" where
  "client_inv c \<longleftrightarrow> idle c \<or> tc_context c \<and> (\<exists>sid. sid < tc_sequence_id c \<and> fresh_but (Some sid) c \<and> phase sid c)"

lemmas phase_defs = phase_def connecting_def failed_def live_def ended_def
lemmas client_defs = client_emit_def put_session_def is_connected_def Let_def

lemma new_client_inv: "client_inv new_client"
  by (simp add: client_inv_def idle_def new_client_def fresh_but_def)

lemma client_inv_bound: "client_inv c \<Longrightarrow> tc_objects c sid = Some ss \<Longrightarrow> sid < tc_sequence_id c"
  by (auto simp: client_inv_def idle_def fresh_but_def)

lemma client_inv_new: "client_inv c \<Longrightarrow> tc_objects c (tc_sequence_id c) = None"
  using client_inv_bound [of c "tc_sequence_id c"] by (cases "tc_objects c (tc_sequence_id c)") auto

definition with_session :: "tcp_client \<Rightarrow> tcp_client" where
  "with_session c = put_session (tc_sequence_id c) fresh
     (c\<lparr>tc_sequence_id := tc_sequence_id c + 1, tc_session_ref := Some (tc_sequence_id c)\<rparr>)"

lemma client_connect_cases:
  assumes "client_inv c"
  shows "client_connect eps c = (case eps of
     None \<Rightarrow> Raises ''resolve'' (with_session c)
   | Some es \<Rightarrow> client_run ((with_session c)\<lparr>tc_connecting :=
       Some (tc_sequence_id c, case es of [] \<Rightarrow> (''0.0.0.0'', 0) | e # _ \<Rightarrow> e)\<rparr>))"
  using client_inv_new [OF assms]
  by (simp add: client_connect_def with_session_def put_session_def fresh_def Let_def split: option.split)

lemma with_session_sel [simp]:
  "tc_sequence_id (with_session c) = tc_sequence_id c + 1" "tc_connecting (with_session c) = tc_connecting c"
  "tc_objects (with_session c) = (tc_objects c)(tc_sequence_id c \<mapsto> fresh)" "tc_reading (with_session c) = tc_reading c"
  "tc_context (with_session c) = tc_context c" "tc_log (with_session c) = tc_log c"
  "tc_session_ref (with_session c) = Some (tc_sequence_id c)"
  by (simp_all add: with_session_def put_session_def)

lemma fresh_but_with_session: "fresh_but x c \<Longrightarrow> fresh_but x (with_session c)"
  by (auto simp: fresh_but_def less_SucI)

lemma phase_with_session: "sid < tc_sequence_id c \<Longrightarrow> phase sid c \<Longrightarrow> phase sid (with_session c)"
  by (auto simp: phase_defs)

lemma with_session_inv: "client_inv c \<Longrightarrow> client_inv (with_session c)"
  unfolding client_inv_def idle_def
  by (auto intro: fresh_but_with_session phase_with_session less_SucI)

lemma connect_inv:
  assumes "client_inv c"
  shows "client_connect eps c = Done b c' \<Longrightarrow> client_inv c'" "client_connect eps c = Raises e c' \<Longrightarrow> client_inv c'"
proof -
  show "client_inv c'" if d: "client_connect eps c = Done b c'"
  proof -
    obtain es where es: "eps = Some es" "\<not> tc_context c"
      using d unfolding client_connect_cases [OF assms]
      by (cases eps) (auto simp: client_run_def split: if_splits)
    then have i: "idle c" using assms by (simp add: client_inv_def)
    have c': "c' = (with_session c)\<lparr>tc_connecting := Some (tc_sequence_id c, case es of [] \<Rightarrow> (''0.0.0.0'', 0) | e # _ \<Rightarrow> e), tc_context := True\<rparr>"
      using d es unfolding client_connect_cases [OF assms] by (simp add: client_run_def)
    have "phase (tc_sequence_id c) c'" using i by (simp add: c' phase_defs idle_def)
    moreover have "fresh_but (Some (tc_sequence_id c)) c'"
      using i by (auto simp: c' fresh_but_def idle_def less_SucI)
    ultimately show ?thesis by (auto simp: client_inv_def c')
  qed
  show "client_inv c'" if "client_connect eps c = Raises e c'"
    using that with_session_inv [OF assms] unfolding client_connect_cases [OF assms]
    by (auto simp: client_run_def split: option.splits if_splits)
qed

lemma phase_change:
  "sid < tc_sequence_id c \<Longrightarrow> fresh_but (Some sid) c \<Longrightarrow> tc_sequence_id c' = tc_sequence_id c \<Longrightarrow>
    (\<And>k. k \<noteq> sid \<Longrightarrow> tc_objects c' k = tc_objects c k) \<Longrightarrow> tc_context c' \<Longrightarrow> phase sid c' \<Longrightarrow> client_inv c'"
proof -
  assume a: "sid < tc_sequence_id c" "fresh_but (Some sid) c" "tc_sequence_id c' = tc_sequence_id c"
    "\<And>k. k \<noteq> sid \<Longrightarrow> tc_objects c' k = tc_objects c k" "tc_context c'" "phase sid c'"
  have "fresh_but (Some sid) c'"
    unfolding fresh_but_def
  proof (intro allI impI)
    fix k ss
    assume "tc_objects c' k = Some ss"
    with a(1-4) show "k < tc_sequence_id c' \<and> (Some k \<noteq> Some sid \<longrightarrow> ss = fresh)"
      by (cases "k = sid") (auto simp: fresh_but_def)
  qed
  with a show "client_inv c'" unfolding client_inv_def by auto
qed

lemma connected_inv: "client_inv c \<Longrightarrow> client_inv (client_connected ok c)"
proof (cases "tc_connecting c")
  case (Some x)
  assume i: "client_inv c"
  then obtain sid where s: "tc_context c" "sid < tc_sequence_id c" "fresh_but (Some sid) c" "phase sid c"
    using Some by (auto simp: client_inv_def idle_def)
  then have p: "connecting sid c" using Some by (auto simp: phase_defs)
  then obtain ep where e: "tc_connecting c = Some (sid, ep)" "tc_reading c = {}" "tc_log c = []" "tc_objects c sid = Some fresh"
    by (auto simp: connecting_def)
  have "failed sid (client_connected False c)" "live sid [] (client_connected True c)"
    using e by (simp_all add: client_connected_def failed_def live_def client_defs session_life_def fresh_def)
  then have "phase sid (client_connected ok c)" unfolding phase_def by (cases ok) auto
  moreover have "tc_sequence_id (client_connected ok c) = tc_sequence_id c" "tc_context (client_connected ok c)"
    "\<And>k. k \<noteq> sid \<Longrightarrow> tc_objects (client_connected ok c) k = tc_objects c k"
    using e s(1) by (simp_all add: client_connected_def client_defs)
  ultimately show ?thesis by (intro phase_change [OF s(2,3)])
qed (simp add: client_connected_def)

lemma read_inv:
  assumes i: "client_inv c" and r: "sid \<in> tc_reading c"
  shows "\<exists>c'. client_read sid res c = Some c' \<and> client_inv c'"
proof -
  from i r obtain k where s: "tc_context c" "k < tc_sequence_id c" "fresh_but (Some k) c" "phase k c"
    by (auto simp: client_inv_def idle_def)
  then consider ms where "live k ms c" "sid = k" | ms where "ended k ms c" "sid = k"
    using r by (auto simp: phase_defs)
  then show ?thesis
  proof cases
    case 1
    then obtain c' where c': "client_read sid res c = Some c'" "live k (case res of None \<Rightarrow> ms | Some m \<Rightarrow> ms @ [m]) c'"
        "tc_sequence_id c' = tc_sequence_id c" "tc_objects c' = tc_objects c" "tc_context c'"
      using s(1) by (cases res) (simp_all add: client_read_def live_def client_defs session_life_def)
    moreover have "phase k c'" using c'(2) unfolding phase_def by blast
    ultimately show ?thesis using phase_change [OF s(2,3), of c'] by simp
  next
    case 2
    then obtain c' where c': "client_read sid res c = Some c'" "ended k ms c'"
        "tc_sequence_id c' = tc_sequence_id c" "tc_objects c' = tc_objects c" "tc_context c'"
      using s(1) by (auto simp: client_read_def ended_def client_defs)
    moreover have "phase k c'" using c'(2) unfolding phase_def by blast
    ultimately show ?thesis using phase_change [OF s(2,3), of c'] by simp
  qed
qed

lemma shutdown_client_inv:
  assumes i: "client_inv c" and d: "client_shutdown c = Done u c'"
  shows "client_inv c'"
proof -
  obtain sid ss where l: "lock_session c = Some (sid, ss)" using d by (cases "lock_session c") (auto simp: client_shutdown_def)
  then have o: "tc_objects c sid = Some ss" by (auto simp: lock_session_def split: option.splits)
  show ?thesis
  proof (cases "is_connected ss")
    case True
    then have n: "ss \<noteq> fresh" by (auto simp: is_connected_def fresh_def)
    with i o obtain k where s: "tc_context c" "k < tc_sequence_id c" "fresh_but (Some k) c" "phase k c"
      by (auto simp: client_inv_def idle_def fresh_but_def)
    with o n have k: "k = sid" by (auto simp: fresh_but_def)
    with s(4) o True obtain ms where "live sid ms c" by (auto simp: phase_defs is_connected_def fresh_def)
    moreover have c': "c' = client_emit (Cb_disconnect sid) (put_session sid (ss\<lparr>ss_status := Broken, ss_stopped := True\<rparr>) c)"
      using d l True by (simp add: client_shutdown_def)
    ultimately have "ended sid ms c'" using o by (simp add: client_defs live_def ended_def)
    then have "phase sid c'" unfolding phase_def by blast
    with s k show ?thesis by (intro phase_change [OF s(2,3)]) (simp_all add: c' client_defs)
  qed (use d l i in \<open>auto simp: client_shutdown_def\<close>)
qed

lemma tc_step_inv: "tc_step c c' \<Longrightarrow> client_inv c \<Longrightarrow> client_inv c'"
proof (induction rule: tc_step.induct)
  case (call_connect eps c b c')
  then show ?case by (rule connect_inv(1) [rotated])
next
  case (call_connect_raises eps c e c')
  then show ?case by (rule connect_inv(2) [rotated])
next
  case (connected c ok)
  then show ?case by (rule connected_inv)
next
  case (read sid c res c')
  with read_inv [OF read(3,1), of res] show ?case by simp
next
  case (call_shutdown c u c')
  then show ?case by (rule shutdown_client_inv [rotated])
qed

lemma tc_reachable_inv: "tc_reachable c \<Longrightarrow> client_inv c"
  by (induction rule: tc_reachable.induct) (blast intro: new_client_inv tc_step_inv)+

text \<open>A connected session is the live one.\<close>

lemma connected_is_live:
  assumes "client_inv c" "client_is_connected c"
  shows "\<exists>sid ms. live sid ms c \<and> tc_session_ref c = Some sid"
proof -
  obtain sid ss where r: "tc_session_ref c = Some sid" "tc_objects c sid = Some ss" "is_connected ss"
    using assms(2) by (auto simp: client_is_connected_def lock_session_def split: option.splits)
  then have n: "ss \<noteq> fresh" by (auto simp: is_connected_def fresh_def)
  with assms(1) r(2) obtain k where "fresh_but (Some k) c" "phase k c"
    by (auto simp: client_inv_def idle_def fresh_but_def)
  moreover from this n r(2) have "k = sid" by (auto simp: fresh_but_def)
  ultimately show ?thesis using r by (auto simp: phase_defs is_connected_def fresh_def)
qed

lemma live_read_error:
  assumes "live sid ms c"
  shows "client_read sid None c = Some c"
  using assms by (simp add: client_read_def live_def Let_def)

section \<open>Properties\<close>

text \<open>
  C14: Over every sequence of connects (also those whose resolver throws), completions, reads and shutdowns,
  the callbacks of a client are about one session only: none, a failed connect, or a connect, the
  received messages and at most one disconnect, which ends them. While the client is connected its
  session is open and has exactly one read outstanding.
\<close>

theorem client_lifecycle:
  assumes "tc_reachable c"
  shows "\<exists>sid ms. tc_log c \<in> {[], [Cb_connect_fail sid], session_life sid ms, session_life sid ms @ [Cb_disconnect sid]} \<and>
    (client_is_connected c \<longrightarrow> tc_log c = session_life sid ms \<and> tc_reading c = {sid})"
proof (cases "client_is_connected c")
  case True
  with connected_is_live [OF tc_reachable_inv [OF assms]] show ?thesis by (fastforce simp: live_def)
next
  case False
  with tc_reachable_inv [OF assms] show ?thesis by (auto simp: client_inv_def idle_def phase_defs)
qed

definition connected_client :: tcp_client where
  "connected_client = client_connected True ((with_session new_client)\<lparr>tc_connecting := Some (0, (''::1'', 80)), tc_context := True\<rparr>)"

lemma connected_client_reachable: "tc_reachable connected_client"
proof -
  have "client_connect (Some [(''::1'', 80)]) new_client =
      Done True ((with_session new_client)\<lparr>tc_connecting := Some (0, (''::1'', 80)), tc_context := True\<rparr>)"
    using client_connect_cases [OF new_client_inv] by (simp add: client_run_def) (simp add: new_client_def)
  then have "tc_reachable ((with_session new_client)\<lparr>tc_connecting := Some (0, (''::1'', 80)), tc_context := True\<rparr>)"
    by (rule tc_reachable.step [OF tc_reachable.new tc_step.call_connect])
  then show ?thesis unfolding connected_client_def by (rule tc_reachable.step [OF _ tc_step.connected])
qed

lemma connected_client_state: "client_is_connected connected_client \<and> tc_log connected_client = [Cb_connect 0] \<and> tc_context connected_client"
  by (simp add: connected_client_def client_connected_def client_defs client_is_connected_def lock_session_def with_session_def
      new_client_def fresh_def)

lemma client_lifecycle_witness: "\<exists>sid ms. tc_log connected_client = session_life sid ms"
  using client_lifecycle [OF connected_client_reachable] connected_client_state by blast

text \<open>
  C38: Once a client has connected, or tried to, it can neither reconnect nor notice that its peer is gone.
  A further \<^verbatim>\<open>connect\<close> to a resolved address ends the process, because the thread of the first is still
  joinable; a read that fails, as it does when the peer closes, changes nothing, so that the client stays
  connected and \<^verbatim>\<open>send_msg\<close> still reports success; and the destruction of a client whose connect failed
  fails an assertion.
\<close>

theorem client_never_reconnects:
  assumes "tc_reachable c" and "tc_context c"
  shows "client_connect (Some eps) c = Dies ''std::terminate'' \<and>
    (client_is_connected c \<longrightarrow>
      (\<exists>sid \<in> tc_reading c. client_read sid None c = Some c \<and> fst (client_send_msg accepted s c))) \<and>
    (tc_log c = [Cb_connect_fail sid] \<and> tc_session_ref c = Some sid \<longrightarrow> client_destroy c = Dies ''assert(false)'')"
proof (intro conjI impI)
  note i = tc_reachable_inv [OF assms(1)]
  show "client_connect (Some eps) c = Dies ''std::terminate''"
    using assms(2) unfolding client_connect_cases [OF i] by (simp add: client_run_def)
  show "\<exists>sid \<in> tc_reading c. client_read sid None c = Some c \<and> fst (client_send_msg accepted s c)"
    if conn: "client_is_connected c"
  proof -
    from connected_is_live [OF i conn] obtain sid ms where l: "live sid ms c" by blast
    then have "sid \<in> tc_reading c" by (simp add: live_def)
    with live_read_error [OF l] conn show ?thesis by (auto simp: client_send_msg_def)
  qed
  show "client_destroy c = Dies ''assert(false)''" if "tc_log c = [Cb_connect_fail sid] \<and> tc_session_ref c = Some sid"
    using i assms(2) that
    by (auto simp: client_inv_def idle_def phase_defs session_life_def client_destroy_def client_shutdown_def lock_session_def)
qed

lemma client_never_reconnects_witness:
  "client_connect (Some []) connected_client = Dies ''std::terminate'' \<and>
    (\<exists>sid \<in> tc_reading connected_client. client_read sid None connected_client = Some connected_client)"
  using client_never_reconnects [OF connected_client_reachable] connected_client_state by blast

end
