(* ===== verification/Http_Session.thy ===== *)
theory Http_Session
  imports Http_Client Tcp_Client "HOL-Library.Code_Target_Nat"
begin

text \<open>
  The \<open>client\<close> object of \<open>net/app/http/client.h\<close>: an HTTP message on a TCP client, and the calls that
  wait for it.  A waiting thread and the thread that runs the callbacks share the object; what happens
  while a call waits is a list of events, among them the moment at which the waiting thread runs again.
  The callbacks take the mutex that the call holds until it waits, so that no notification is lost
  before.
\<close>

section \<open>The object and its callbacks\<close>

record http_client =
  hc_tcp :: tcp_client
  hc_parser :: http_parser
  hc_frame :: message
  hc_rsp :: response

definition new_http_client :: http_client where
  "new_http_client = \<lparr>hc_tcp = new_client, hc_parser = http_parser_init HTTP_RESPONSE,
     hc_frame = message_init HTTP_RESPONSE,
     hc_rsp = \<lparr>rs_version = Some [], rs_status = None, rs_headers = [], rs_body = []\<rparr>\<rparr>"

text \<open>\<open>message::version\<close>, indeterminate before a message was complete, and \<open>message::method\<close>.\<close>

definition message_version :: "message \<Rightarrow> string option" where
  "message_version msg = map_option (\<lambda>(a, b). to_string a @ ''.'' @ to_string b) (m_version msg)"

definition message_method :: "message \<Rightarrow> string option" where
  "message_method msg = map_option method_strings (m_method msg)"

definition response_of :: "message \<Rightarrow> response" where
  "response_of msg = \<lparr>rs_version = message_version msg, rs_status = m_status msg,
     rs_headers = m_headers msg, rs_body = m_body msg\<rparr>"

text \<open>A callback may notify the waiting thread; \<open>Undefined\<close> is undefined behaviour or a failed assertion.\<close>

datatype reaction = Reacts bool http_client | Undefined string

definition http_on_receive :: "string \<Rightarrow> http_client \<Rightarrow> reaction" where
  "http_on_receive d hc = (case message_parse (hc_parser hc) (hc_frame hc) d of
     Aborts \<Rightarrow> Undefined ''assertion''
   | Overread ps msg \<Rightarrow> Undefined ''read behind the buffer''
   | Parsed ok ps msg \<Rightarrow>
       let hc = hc\<lparr>hc_parser := ps, hc_frame := msg\<rparr> in
       if \<not> ok then Reacts False hc
       else (case is_completed msg of
           None \<Rightarrow> Undefined ''dereference of end()''
         | Some done \<Rightarrow> if done then Reacts True (hc\<lparr>hc_rsp := response_of msg\<rparr>) else Reacts False hc))"

definition http_callback :: "client_event \<Rightarrow> http_client \<Rightarrow> reaction" where
  "http_callback e hc = (case e of
     Cb_receive sid d \<Rightarrow> http_on_receive d hc
   | _ \<Rightarrow> Reacts True hc)"

text \<open>A step of the transport runs the callbacks of the events it adds, at most one.\<close>

definition deliver :: "tcp_client \<Rightarrow> http_client \<Rightarrow> reaction" where
  "deliver c hc = (case drop (length (tc_log (hc_tcp hc))) (tc_log c) of
     [] \<Rightarrow> Reacts False (hc\<lparr>hc_tcp := c\<rparr>)
   | e # _ \<Rightarrow> http_callback e (hc\<lparr>hc_tcp := c\<rparr>))"

section \<open>Waiting\<close>

text \<open>
  What may happen while a thread waits on the condition variable: a completion, a \<open>shutdown\<close> by another
  thread, a spurious wakeup, the timeout, and \<open>Resume\<close>, the moment at which it goes on when woken.
\<close>

datatype wait_event = Completes io | Shuts_down | Wakes | Times_out | Resumes

datatype wait_result = Resumed bool http_client | Still_waiting http_client | Ends string

definition react :: "wait_event \<Rightarrow> http_client \<Rightarrow> reaction" where
  "react e hc = (case e of
     Completes (Io_connect ok) \<Rightarrow> deliver (client_connected ok (hc_tcp hc)) hc
   | Completes (Io_read sid res) \<Rightarrow>
       if sid \<in> tc_reading (hc_tcp hc)
       then (case client_read sid res (hc_tcp hc) of None \<Rightarrow> Undefined ''use after free'' | Some c \<Rightarrow> deliver c hc)
       else Reacts False hc
   | Shuts_down \<Rightarrow>
       (case client_shutdown (hc_tcp hc) of
          Done u c \<Rightarrow> deliver c hc
        | Raises x c \<Rightarrow> Undefined x
        | Dies x \<Rightarrow> Undefined x)
   | Wakes \<Rightarrow> Reacts True hc
   | Times_out \<Rightarrow> Reacts False hc
   | Resumes \<Rightarrow> Reacts False hc)"

text \<open>The second argument: whether the thread was woken, and if so, whether before the timeout.\<close>

fun await :: "wait_event list \<Rightarrow> bool option \<Rightarrow> http_client \<Rightarrow> wait_result" where
  "await [] w hc = Still_waiting hc"
| "await (e # es) w hc =
     (if e = Resumes \<and> w \<noteq> None then Resumed (the w) hc
      else case react e hc of
        Undefined x \<Rightarrow> Ends x
      | Reacts notified hc \<Rightarrow>
          await es (if w \<noteq> None then w else if notified then Some True
                    else if e = Times_out then Some False else None) hc)"

section \<open>The calls\<close>

datatype 'a answer = Answers 'a http_client | Throws string http_client | Blocked http_client | Ended string

definition http_sync_connect :: "endpoint list option \<Rightarrow> wait_event list \<Rightarrow> http_client \<Rightarrow> bool answer" where
  "http_sync_connect eps es hc = (case client_connect eps (hc_tcp hc) of
     Dies x \<Rightarrow> Ended x
   | Raises x c \<Rightarrow> Throws x (hc\<lparr>hc_tcp := c\<rparr>)
   | Done b c \<Rightarrow>
       if \<not> b then Answers False (hc\<lparr>hc_tcp := c\<rparr>)
       else (case await es None (hc\<lparr>hc_tcp := c\<rparr>) of
           Resumed in_time hc \<Rightarrow> Answers (client_is_connected (hc_tcp hc)) hc
         | Still_waiting hc \<Rightarrow> Blocked hc
         | Ends x \<Rightarrow> Ended x))"

text \<open>
  \<open>request(ip, port, req)\<close>.  \<open>eps\<close> is the result of the resolver, \<open>es\<close> and \<open>fs\<close> the events during the
  two waits; the caller's \<open>req\<close> becomes \<open>complete_request req\<close>.  The result of \<open>send_msg\<close> is not used.
\<close>

definition http_wait_response :: "wait_event list \<Rightarrow> http_client \<Rightarrow> response answer" where
  "http_wait_response fs hc = (case await fs None hc of
     Resumed in_time hc \<Rightarrow> if in_time then Answers (hc_rsp hc) hc else Throws ''timeout'' hc
   | Still_waiting hc \<Rightarrow> Blocked hc
   | Ends x \<Rightarrow> Ended x)"

definition http_request :: "endpoint list option \<Rightarrow> wait_event list \<Rightarrow> wait_event list \<Rightarrow> nat list \<Rightarrow> request
    \<Rightarrow> http_client \<Rightarrow> (response \<times> string option) answer" where
  "http_request eps es fs accepted req hc =
     (let connected = (if client_is_connected (hc_tcp hc) then Answers True hc else http_sync_connect eps es hc) in
      case connected of
        Answers b hc \<Rightarrow>
          if \<not> b then Throws ''cannot connect to host'' hc
          else (let sent = snd (client_send_msg accepted (render (complete_request req)) (hc_tcp hc)) in
            case http_wait_response fs hc of
              Answers r hc \<Rightarrow> Answers (r, sent) hc
            | Throws x hc \<Rightarrow> Throws x hc
            | Blocked hc \<Rightarrow> Blocked hc
            | Ended x \<Rightarrow> Ended x)
      | Throws x hc \<Rightarrow> Throws x hc
      | Blocked hc \<Rightarrow> Blocked hc
      | Ended x \<Rightarrow> Ended x)"

section \<open>A connected client\<close>


abbreviation reads :: "nat \<Rightarrow> string list \<Rightarrow> wait_event list" where
  "reads sid ds \<equiv> map (\<lambda>d. Completes (Io_read sid (Some d))) ds"

lemma live_read:
  assumes "live sid ms c"
  shows "\<exists>c'. client_read sid (Some d) c = Some c' \<and> live sid (ms @ [d]) c' \<and> tc_log c' = tc_log c @ [Cb_receive sid d]"
  using assms by (simp add: client_read_def live_def client_defs session_life_def)

lemma react_read:
  assumes "live sid ms (hc_tcp hc)"
  shows "\<exists>c'. live sid (ms @ [d]) c' \<and> react (Completes (Io_read sid (Some d))) hc = http_on_receive d (hc\<lparr>hc_tcp := c'\<rparr>)"
proof -
  obtain c' where c': "client_read sid (Some d) (hc_tcp hc) = Some c'" "live sid (ms @ [d]) c'"
      "tc_log c' = tc_log (hc_tcp hc) @ [Cb_receive sid d]"
    using live_read [OF assms] by blast
  have "sid \<in> tc_reading (hc_tcp hc)" using assms by (simp add: live_def)
  with c' show ?thesis by (auto simp: react_def deliver_def http_callback_def)
qed


lemma request_resumed:
  assumes "client_is_connected (hc_tcp hc)" "await fs None hc = Resumed True hc'"
  shows "http_request eps es fs accepted req hc =
    Answers (hc_rsp hc', do_send_msg accepted (render (complete_request req))) hc'"
  using assms by (simp add: http_request_def client_send_msg_def http_wait_response_def Let_def)

lemma request_ended:
  assumes "client_is_connected (hc_tcp hc)" "await fs None hc = Ends x"
  shows "http_request eps es fs accepted req hc = Ended x"
  using assms by (simp add: http_request_def http_wait_response_def Let_def)

section \<open>Properties\<close>


definition idle_http :: http_client where
  "idle_http = new_http_client\<lparr>hc_tcp := connected_client\<rparr>"

definition small_request :: request where
  "small_request = \<lparr>rq_version = [], rq_url = ''/'', rq_method = ''GET'', rq_path = [], rq_params = [],
     rq_headers = [], rq_body = []\<rparr>"

lemma idle_http_facts:
  "tc_reachable (hc_tcp idle_http)" "client_is_connected (hc_tcp idle_http)"
  using connected_client_reachable connected_client_state by (simp_all add: idle_http_def)




text \<open>
  C39: Three ways in which a request goes wrong although it is answered or should fail.  A piece that
  leaves the response incomplete before a header \<open>Connection\<close> was seen makes \<open>is_completed\<close> dereference
  the end of the map.  And when the waiting thread is woken by a shutdown of the connection, or by nothing
  at all, \<open>request\<close> returns the response of an earlier call, or an indeterminate one, as if it were its own.
\<close>

theorem http_request_defects:
  assumes "tc_reachable (hc_tcp hc)" and "client_is_connected (hc_tcp hc)"
  shows "(message_parse (hc_parser hc) (hc_frame hc) d = Parsed True ps msg \<and> \<not> m_completed msg \<and>
      map_of (m_headers msg) ''Connection'' = None \<longrightarrow>
      (\<exists>sid \<in> tc_reading (hc_tcp hc).
        http_request eps es (reads sid [d] @ fs) accepted req hc = Ended ''dereference of end()'')) \<and>
    (\<exists>hc'. http_request eps es [Shuts_down, Resumes] accepted req hc =
      Answers (hc_rsp hc, do_send_msg accepted (render (complete_request req))) hc') \<and>
    (\<exists>hc'. http_request eps es [Wakes, Resumes] accepted req hc =
      Answers (hc_rsp hc, do_send_msg accepted (render (complete_request req))) hc')"
proof -
  obtain sid ms where l: "live sid ms (hc_tcp hc)" "tc_session_ref (hc_tcp hc) = Some sid"
    using connected_is_live [OF tc_reachable_inv [OF assms(1)] assms(2)] by blast
  have sid: "sid \<in> tc_reading (hc_tcp hc)" using l by (simp add: live_def)
  show ?thesis
  proof (intro conjI impI)
    assume p: "message_parse (hc_parser hc) (hc_frame hc) d = Parsed True ps msg \<and> \<not> m_completed msg \<and>
      map_of (m_headers msg) ''Connection'' = None"
    obtain c' where "react (Completes (Io_read sid (Some d))) hc = http_on_receive d (hc\<lparr>hc_tcp := c'\<rparr>)"
      using react_read [OF l(1)] by blast
    with p have "await (reads sid [d] @ fs) None hc = Ends ''dereference of end()''"
      by (simp add: http_on_receive_def is_completed_def)
    with sid show "\<exists>sid \<in> tc_reading (hc_tcp hc).
        http_request eps es (reads sid [d] @ fs) accepted req hc = Ended ''dereference of end()''"
      using request_ended [OF assms(2)] by blast
  next
    have "\<exists>hc'. await [Shuts_down, Resumes] None hc = Resumed True hc' \<and> hc_rsp hc' = hc_rsp hc"
      using l by (simp add: react_def client_shutdown_def lock_session_def live_def client_defs deliver_def http_callback_def)
    then obtain hc' where "await [Shuts_down, Resumes] None hc = Resumed True hc'" "hc_rsp hc' = hc_rsp hc" by blast
    with request_resumed [OF assms(2) this(1)]
    show "\<exists>hc'. http_request eps es [Shuts_down, Resumes] accepted req hc =
      Answers (hc_rsp hc, do_send_msg accepted (render (complete_request req))) hc'" by auto
  next
    have "await [Wakes, Resumes] None hc = Resumed True hc" by (simp add: react_def)
    from request_resumed [OF assms(2) this]
    show "\<exists>hc'. http_request eps es [Wakes, Resumes] accepted req hc =
      Answers (hc_rsp hc, do_send_msg accepted (render (complete_request req))) hc'" by auto
  qed
qed

lemma http_request_defects_witness:
  "\<exists>hc'. http_request None [] [Wakes, Resumes] [10] small_request idle_http =
    Answers (\<lparr>rs_version = Some [], rs_status = None, rs_headers = [], rs_body = []\<rparr>,
      do_send_msg [10] (render (complete_request small_request))) hc'"
proof -
  have "hc_rsp idle_http = \<lparr>rs_version = Some [], rs_status = None, rs_headers = [], rs_body = []\<rparr>"
    by (simp add: idle_http_def new_http_client_def)
  then show ?thesis using http_request_defects [OF idle_http_facts] by metis
qed

end
