(* ===== verification/Http_Message_Defects.thy ===== *)
theory Http_Message_Defects
  imports Http_Message "HOL-Library.Code_Target_Nat"
begin

text \<open>
  Runs of the message class on concrete buffers: what its callbacks make of a message that arrives in
  pieces, and of a second message in the same object.
\<close>

definition parsed_as :: "(message \<Rightarrow> bool) \<Rightarrow> parse_result \<Rightarrow> bool" where
  "parsed_as P r = (case r of Parsed ok ps msg \<Rightarrow> ok \<and> P msg | _ \<Rightarrow> False)"

lemma split_before_colon: "message_new HTTP_REQUEST [''GET / HTTP/1.1'' @ [LF, CHR ''A''], '':x''] = Aborts"
  by code_simp

lemma split_url: "parsed_as (\<lambda>msg. m_url msg = ''b'') (message_new HTTP_REQUEST [''GET /a'', ''b ''])"
  by code_simp

lemma second_response:
  "parsed_as (\<lambda>msg. is_completed msg = Some True \<and> m_status msg = Some 204)
     (message_new HTTP_RESPONSE [''HTTP/1.1 204'' @ [LF, LF], ''H''])"
  by code_simp

text \<open>
  The message class loses what arrives in pieces.  A buffer that ends between a header name and its
  colon makes the next one fail the assertion of \<open>on_header_value\<close>; of a URL that is split over two
  buffers only the second part is kept; and a second response in the same object, of which one byte has
  arrived, is reported as completed, with the status of the first.
\<close>

theorem message_split_defects:
  "message_new HTTP_REQUEST [''GET / HTTP/1.1'' @ [LF, CHR ''A''], '':x''] = Aborts \<and>
   parsed_as (\<lambda>msg. m_url msg = ''b'') (message_new HTTP_REQUEST [''GET /a'', ''b '']) \<and>
   parsed_as (\<lambda>msg. is_completed msg = Some True \<and> m_status msg = Some 204)
     (message_new HTTP_RESPONSE [''HTTP/1.1 204'' @ [LF, LF], ''H''])"
  by (intro conjI split_before_colon split_url second_response)

end
