(* ===== verification/Ieee_Double.thy ===== *)
theory Ieee_Double
  imports Prelude "HOL-Library.Log_Nat"
begin

text \<open>
  The \<^verbatim>\<open>double\<close> of the source on the platforms it names: IEEE 754 binary64 with rounding to the nearest
  number and ties to the even one. A finite number is an integer multiple of 2^-1074, the least positive
  double, so that sums and products with whole numbers are exact integers before they are rounded. The sign
  of a zero is left out; nothing in the modelled code can tell the two zeros apart.
\<close>

section \<open>Numbers and rounding\<close>

datatype double = Fin int | Inf bool | NaN

text \<open>The bits of the significand below the 53 that are kept.\<close>

definition excess :: "int \<Rightarrow> nat" where
  "excess m = nat (bitlen \<bar>m\<bar>) - 53"

definition round_shift :: "nat \<Rightarrow> int \<Rightarrow> int" where
  "round_shift e m = (let q = m div 2 ^ e; r = m mod 2 ^ e in
     if 2 * r < 2 ^ e then q else if 2 * r > 2 ^ e then q + 1 else if even q then q else q + 1)"

definition rnd :: "int \<Rightarrow> int" where
  "rnd m = round_shift (excess m) m * 2 ^ excess m"

text \<open>One, and the least power of two that is too great, in units of 2^-1074.\<close>

definition d_unit :: int where
  "d_unit = 2 ^ 1074"

definition d_limit :: int where
  "d_limit = 2 ^ 2098"

definition mk_double :: "int \<Rightarrow> double" where
  "mk_double m = (if \<bar>rnd m\<bar> < d_limit then Fin (rnd m) else Inf (m < 0))"

fun is_double :: "double \<Rightarrow> bool" where
  "is_double (Fin m) \<longleftrightarrow> rnd m = m \<and> \<bar>m\<bar> < d_limit"
| "is_double _ \<longleftrightarrow> True"

text \<open>A whole number as a double, when it has one.\<close>

definition whole :: "int \<Rightarrow> double" where
  "whole n = Fin (n * d_unit)"

section \<open>Operations\<close>

fun d_neg :: "double \<Rightarrow> double" where
  "d_neg (Fin a) = Fin (- a)"
| "d_neg (Inf s) = Inf (\<not> s)"
| "d_neg NaN = NaN"

fun d_add :: "double \<Rightarrow> double \<Rightarrow> double" where
  "d_add (Fin a) (Fin b) = mk_double (a + b)"
| "d_add (Inf s) (Inf t) = (if s = t then Inf s else NaN)"
| "d_add (Inf s) (Fin b) = Inf s"
| "d_add (Fin a) (Inf t) = Inf t"
| "d_add _ _ = NaN"

definition d_sub :: "double \<Rightarrow> double \<Rightarrow> double" where
  "d_sub a b = d_add a (d_neg b)"

fun d_less :: "double \<Rightarrow> double \<Rightarrow> bool" where
  "d_less (Fin a) (Fin b) \<longleftrightarrow> a < b"
| "d_less (Inf s) (Inf t) \<longleftrightarrow> s \<and> \<not> t"
| "d_less (Inf s) (Fin b) \<longleftrightarrow> s"
| "d_less (Fin a) (Inf t) \<longleftrightarrow> \<not> t"
| "d_less _ _ \<longleftrightarrow> False"

text \<open>
  The product of a double and a \<^verbatim>\<open>uint64_t\<close>: the integer becomes a double first, rounded to 53 bits, and
  then the product is rounded.
\<close>

fun d_times_u64 :: "double \<Rightarrow> u64 \<Rightarrow> double" where
  "d_times_u64 (Fin p) v = mk_double (p * rnd (uint v))"
| "d_times_u64 (Inf s) v = (if v = 0 then NaN else Inf s)"
| "d_times_u64 NaN v = NaN"

section \<open>Rounding\<close>

lemma unit_pos [simp]: "0 < d_unit"
  by (simp add: d_unit_def)

lemma excess_neg [simp]: "excess (- m) = excess m"
  by (simp add: excess_def)

lemma round_shift_le: "x \<le> k * 2 ^ e \<Longrightarrow> round_shift e x \<le> k"
proof -
  assume x: "x \<le> k * 2 ^ e"
  show ?thesis
  proof (cases "x = k * 2 ^ e")
    case True
    then show ?thesis by (simp add: round_shift_def)
  next
    case False
    with x have "x < k * 2 ^ e" by simp
    then have "x div 2 ^ e < k" by (smt (verit) pos_imp_zdiv_neg_iff div_mult_mod_eq mult_right_mono pos_mod_sign zero_less_power)
    then show ?thesis by (auto simp: round_shift_def Let_def)
  qed
qed

lemma round_shift_ge: "k * 2 ^ e \<le> x \<Longrightarrow> k \<le> round_shift e x"
proof -
  assume "k * 2 ^ e \<le> x"
  then have "k \<le> x div 2 ^ e" by (metis nonzero_mult_div_cancel_right zdiv_mono1 zero_less_power zero_less_numeral power_not_zero zero_neq_numeral)
  then show ?thesis by (auto simp: round_shift_def Let_def)
qed

lemma round_shift_exact: "2 ^ e dvd x \<Longrightarrow> round_shift e x * 2 ^ e = x"
  by (auto simp: round_shift_def)

text \<open>Numbers with a significand of 53 bits are not changed by rounding.\<close>

lemma bitlen_le: "\<bar>m\<bar> < 2 ^ n \<Longrightarrow> nat (bitlen \<bar>m\<bar>) \<le> n"
  using bitlen_le_iff_power[of "\<bar>m\<bar>" n] by simp

lemma less_bitlen: "\<bar>m\<bar> < 2 ^ nat (bitlen \<bar>m\<bar>)"
  using bitlen_bounds[of "\<bar>m\<bar>"] by (cases "m = 0") auto

lemma bitlen_ge: "m \<noteq> 0 \<Longrightarrow> 2 ^ nat (bitlen \<bar>m\<bar> - 1) \<le> \<bar>m\<bar>"
  by (rule conjunct1[OF bitlen_bounds]) simp

lemma excess_le: "\<bar>m\<bar> < 2 ^ (53 + e) \<Longrightarrow> excess m \<le> e"
  using bitlen_le[of m "53 + e"] by (simp add: excess_def)

lemma rnd_fixed:
  assumes "\<bar>k\<bar> \<le> 2 ^ 53"
  shows "rnd (k * 2 ^ e) = k * 2 ^ e"
proof -
  have "2 ^ excess (k * 2 ^ e) dvd k * 2 ^ e"
  proof (cases "\<bar>k\<bar> = 2 ^ 53")
    case True
    then have "\<bar>k * 2 ^ e\<bar> < 2 ^ (53 + Suc e)" by (simp add: abs_mult power_add)
    then have "excess (k * 2 ^ e) \<le> Suc e" by (rule excess_le)
    then have "2 ^ excess (k * 2 ^ e) dvd (2 :: int) ^ Suc e" by (rule le_imp_power_dvd)
    moreover have "even \<bar>k\<bar>" unfolding True by simp
    then have "(2 :: int) ^ Suc e dvd k * 2 ^ e" by simp
    ultimately show ?thesis by (rule dvd_trans)
  next
    case False
    with assms have "\<bar>k\<bar> < 2 ^ 53" by linarith
    then have "\<bar>k * 2 ^ e\<bar> < 2 ^ (53 + e)" by (simp add: abs_mult power_add)
    then have "excess (k * 2 ^ e) \<le> e" by (rule excess_le)
    then have "2 ^ excess (k * 2 ^ e) dvd (2 :: int) ^ e" by (rule le_imp_power_dvd)
    then show ?thesis by (rule dvd_mult)
  qed
  then show ?thesis unfolding rnd_def by (rule round_shift_exact)
qed

lemma rnd_idem: "rnd (rnd x) = rnd x"
proof (cases "excess x = 0")
  case True
  then have "rnd x = x" by (simp add: rnd_def round_shift_def)
  then show ?thesis by simp
next
  case False
  then have e: "nat (bitlen \<bar>x\<bar>) = 53 + excess x" by (simp add: excess_def)
  then have "\<bar>x\<bar> < 2 ^ 53 * 2 ^ excess x" using less_bitlen[of x] by (simp add: power_add)
  then have "x \<le> 2 ^ 53 * 2 ^ excess x" "- (2 ^ 53) * 2 ^ excess x \<le> x" by auto
  then have "\<bar>round_shift (excess x) x\<bar> \<le> 2 ^ 53"
    using round_shift_le[of x "2 ^ 53" "excess x"] round_shift_ge[of "- (2 ^ 53)" "excess x" x] by linarith
  from rnd_fixed[OF this, of "excess x"] show ?thesis unfolding rnd_def[of x] .
qed

lemma rnd_le:
  assumes x: "x \<le> f" and f: "rnd f = f"
  shows "rnd x \<le> f"
proof (cases "excess x \<le> excess f")
  case True
  have "2 ^ excess f dvd rnd f" unfolding rnd_def by simp
  then have "2 ^ excess f dvd f" unfolding f .
  then have "2 ^ excess x dvd f" by (rule dvd_trans[OF le_imp_power_dvd[OF True]])
  then obtain k where k: "f = k * 2 ^ excess x" by (auto elim!: dvdE simp: mult.commute)
  have "round_shift (excess x) x \<le> k" using x unfolding k by (rule round_shift_le)
  then show ?thesis unfolding rnd_def k by (rule mult_right_mono) simp
next
  case False
  then have b: "nat (bitlen \<bar>f\<bar>) \<le> 52 + excess x" "nat (bitlen \<bar>x\<bar> - 1) = 52 + excess x"
    using False unfolding excess_def by linarith+
  define B where "B = (2 :: int) ^ (52 + excess x)"
  have "x \<noteq> 0" using b(2) by (auto simp: bitlen_def floorlog_def)
  from bitlen_ge[OF this] have l: "B \<le> \<bar>x\<bar>" unfolding b(2) B_def .
  have "(2 :: int) ^ nat (bitlen \<bar>f\<bar>) \<le> B" unfolding B_def using b(1) by (rule power_increasing) simp
  then have lf: "\<bar>f\<bar> < B" by (rule order_less_le_trans[OF less_bitlen])
  have B: "- (2 ^ 52) * 2 ^ excess x = - B" by (simp only: B_def power_add mult_minus_left)
  have "x \<le> - B" using l lf x by linarith
  then have "x \<le> - (2 ^ 52) * 2 ^ excess x" unfolding B .
  then have "round_shift (excess x) x \<le> - (2 ^ 52)" by (rule round_shift_le)
  then have "rnd x \<le> - (2 ^ 52) * 2 ^ excess x" unfolding rnd_def by (rule mult_right_mono) simp
  then show ?thesis unfolding B using lf by linarith
qed

lemma mk_double_is: "is_double (mk_double m)"
  by (simp add: mk_double_def rnd_idem)

lemma rnd_sign: "m < 0 \<Longrightarrow> rnd m \<le> 0" "0 \<le> m \<Longrightarrow> 0 \<le> rnd m"
  using rnd_le[of m 0] rnd_fixed[of 0] round_shift_ge[of 0 "excess m" m] by (auto simp: rnd_def)

lemma add_is: "is_double (d_add a b)" if "is_double a" "is_double b"
  by (cases "(a, b)" rule: d_add.cases) (simp_all add: mk_double_is)

lemma sub_is: "is_double a \<Longrightarrow> is_double b \<Longrightarrow> is_double (d_sub a b)"
  by (cases "(a, d_neg b)" rule: d_add.cases) (simp_all add: d_sub_def mk_double_is)

lemma times_is: "is_double (d_times_u64 p v)"
  by (cases p) (simp_all add: mk_double_is)

text \<open>Taking something that is not negative off a double never makes it greater.\<close>

lemma sub_not_greater:
  assumes "is_double a" and "\<not> d_less b (Fin 0)"
  shows "\<not> d_less a (d_sub a b)"
proof (cases a)
  case (Fin m)
  then have m: "rnd m = m" "\<bar>m\<bar> < d_limit" using assms(1) by auto
  show ?thesis
  proof (cases b)
    case b: (Fin n)
    have "0 \<le> n" using assms(2) b by simp
    then have "rnd (m - n) \<le> m" using rnd_le m(1) by simp
    moreover have "m - n < 0 \<or> 0 \<le> rnd (m - n)" using rnd_sign(2)[of "m - n"] by linarith
    ultimately show ?thesis using Fin b m(2) by (auto simp: d_sub_def mk_double_def)
  qed (use Fin assms(2) in \<open>auto simp: d_sub_def\<close>)
next
  case (Inf s)
  then show ?thesis using assms(2) by (cases b) (auto simp: d_sub_def)
qed simp

lemma times_nonneg: "\<not> d_less p (Fin 0) \<Longrightarrow> \<not> d_less (d_times_u64 p v) (Fin 0)"
proof (cases p)
  case (Fin m)
  assume "\<not> d_less p (Fin 0)"
  with Fin have "0 \<le> m" by simp
  moreover have "0 \<le> rnd (uint v)" by (rule rnd_sign(2)) simp
  ultimately have "0 \<le> m * rnd (uint v)" by simp
  with rnd_sign(2)[OF this] show ?thesis using Fin by (simp add: mk_double_def)
qed (simp_all split: if_splits)

section \<open>Whole numbers up to 2^53\<close>

lemma whole_mk: "\<bar>n\<bar> \<le> 2 ^ 53 \<Longrightarrow> mk_double (n * d_unit) = whole n"
proof -
  assume n: "\<bar>n\<bar> \<le> 2 ^ 53"
  then have "\<bar>n\<bar> * d_unit \<le> 2 ^ 53 * d_unit" by (rule mult_right_mono) (simp add: less_imp_le)
  also have "\<dots> < d_limit" by (simp add: d_unit_def d_limit_def)
  finally have "\<bar>n * d_unit\<bar> < d_limit" using unit_pos by (simp add: abs_mult less_imp_le)
  moreover have "rnd (n * d_unit) = n * d_unit" unfolding d_unit_def by (rule rnd_fixed[OF n])
  ultimately show ?thesis by (simp add: mk_double_def whole_def)
qed

lemma whole_is: "\<bar>n\<bar> \<le> 2 ^ 53 \<Longrightarrow> is_double (whole n)"
  by (metis whole_mk mk_double_is)

lemma whole_nonneg: "\<not> d_less (whole n) (Fin 0) \<longleftrightarrow> 0 \<le> n"
  using unit_pos by (simp add: whole_def zero_le_mult_iff not_less del: unit_pos)

lemma whole_add: "\<bar>a + b\<bar> \<le> 2 ^ 53 \<Longrightarrow> d_add (whole a) (whole b) = whole (a + b)"
  using whole_mk[of "a + b"] by (simp add: whole_def distrib_right)

lemma whole_sub: "\<bar>a - b\<bar> \<le> 2 ^ 53 \<Longrightarrow> d_sub (whole a) (whole b) = whole (a - b)"
  using whole_add[of a "- b"] by (simp add: d_sub_def whole_def)

lemma whole_times:
  assumes "0 \<le> p" and "p * uint v \<le> 2 ^ 53"
  shows "d_times_u64 (whole p) v = whole (p * uint v)"
proof (cases "p = 0")
  case True
  then show ?thesis using whole_mk[of 0] by (simp add: whole_def)
next
  case False
  then have "uint v \<le> p * uint v" using assms(1) by (simp add: mult_le_cancel_right1)
  then have "rnd (uint v) = uint v" using rnd_fixed[of "uint v" 0] assms(2) by simp
  then show ?thesis using whole_mk[of "p * uint v"] assms by (simp add: whole_def mult.assoc mult.left_commute mult.commute abs_mult)
qed

text \<open>From 2^53 on a unit is lost: 2^53 + 1 lies between two doubles and goes to the even one, 2^53.\<close>

lemma rnd_tie: "rnd ((2 ^ 53 + 1) * 2 ^ e) = 2 ^ 53 * 2 ^ e"
proof -
  define B where "B = (2 :: int) ^ e"
  have B: "0 < B" by (simp add: B_def)
  define m where "m = (2 ^ 53 + 1) * B"
  have p: "2 ^ (53 + e) = 2 ^ 53 * B" "2 ^ (53 + Suc e) = 2 ^ 54 * B" "2 ^ Suc e = 2 * B"
    unfolding B_def power_add by simp_all
  have "\<bar>m\<bar> < 2 ^ (53 + Suc e)" using B unfolding p m_def by simp
  then have "excess m \<le> Suc e" by (rule excess_le)
  moreover have "2 ^ (53 + e) \<le> \<bar>m\<bar>" using B unfolding p m_def by simp
  then have "(2 :: int) ^ (53 + e) < 2 ^ nat (bitlen \<bar>m\<bar>)" by (rule order_le_less_trans[OF _ less_bitlen])
  then have "53 + e < nat (bitlen \<bar>m\<bar>)" by (rule power_less_imp_less_exp[rotated]) simp
  then have "Suc e \<le> excess m" unfolding excess_def by linarith
  ultimately have x: "excess m = Suc e" by (rule antisym)
  have "m = B + 2 ^ 52 * (2 * B)" by (simp add: m_def algebra_simps)
  then have "m div (2 * B) = 2 ^ 52" "m mod (2 * B) = B" using B by (simp_all add: div_add1_eq mod_add_eq)
  then have "rnd m = 2 ^ 52 * (2 * B)" unfolding rnd_def x round_shift_def p(3) Let_def by simp
  then show ?thesis by (simp add: m_def B_def)
qed

lemma whole_sticks: "d_add (whole (2 ^ 53)) (whole 1) = whole (2 ^ 53)"
proof -
  have r: "rnd (2 ^ 53 * d_unit + d_unit) = 2 ^ 53 * d_unit"
    using rnd_tie[of 1074] by (simp only: d_unit_def distrib_right mult_1)
  have "2 ^ 53 * d_unit < d_limit" by (simp add: d_unit_def d_limit_def)
  then show ?thesis using unit_pos by (simp add: whole_def mk_double_def r[simplified] less_imp_le)
qed

end
