(* ===== verification/Easy_Exchange.thy ===== *)
theory Easy_Exchange
  imports String_Util Ieee_Double
begin

unbundle bit_operations_syntax

text \<open>
  The toy exchange, \<^verbatim>\<open>easy_exchange\<close>: the stock table and its keys (\<^verbatim>\<open>quote.h\<close>, \<^verbatim>\<open>quote.cpp\<close>), the
  account (\<^verbatim>\<open>asset_def.h\<close>) and the command interpreter (\<^verbatim>\<open>exchange.cpp\<close>). All tasks that touch this
  state are run by the one worker of \<^verbatim>\<open>m_deal_thread\<close>, one after the other.

  Prices, balances and the fund are doubles, rounded after every operation; a price the program draws is
  a whole number below 100, since \<^verbatim>\<open>rand() % 10000 / 100\<close> is an integer division. The display name of
  a stock is left out.
\<close>

section \<open>Stocks and ticks\<close>

type_synonym code_key = u32

record stock =
  st_market :: u8
  st_code :: string

text \<open>White space, in the locale of the program.\<close>

definition blank :: "char \<Rightarrow> bool" where
  "blank c \<longleftrightarrow> c = CHR '' '' \<or> (9 \<le> (of_char c :: int) \<and> of_char c \<le> (13 :: int))"

text \<open>
  \<^verbatim>\<open>std::stoul\<close>: white space and a sign are skipped, what follows the digits is ignored, and a number with
  a minus is negated in the unsigned type. Without a digit it throws \<^verbatim>\<open>invalid_argument\<close>, and for a number
  that does not fit \<^verbatim>\<open>out_of_range\<close>; both are \<open>None\<close>.
\<close>

definition stoul :: "string \<Rightarrow> u64 option" where
  "stoul s = (let t = dropWhile blank s;
       neg = (t \<noteq> [] \<and> hd t = CHR ''-'');
       t = (if t \<noteq> [] \<and> (hd t = CHR ''-'' \<or> hd t = CHR ''+'') then tl t else t);
       ds = takeWhile is_digit_char t; n = decimal 0 ds
     in if ds = [] \<or> 2 ^ 64 \<le> n then None else Some (word_of_int (if neg then - n else n)))"

definition generate_code_key :: "stock \<Rightarrow> code_key option" where
  "generate_code_key s = Option.bind (stoul (st_code s)) (\<lambda>n.
     let key = 0 OR (drop_bit 4 (ucast (st_market s)) :: u32);
         key = push_bit 24 key
     in Some (key OR ucast n))"

definition mk_stock :: "nat \<Rightarrow> string \<Rightarrow> stock" where
  "mk_stock m c = \<lparr>st_market = of_nat m, st_code = c\<rparr>"

definition s_vec_stock :: "stock list" where
  "s_vec_stock = [
     mk_stock 0x21 ''600001'', mk_stock 0x21 ''600002'', mk_stock 0x21 ''600003'', mk_stock 0x22 ''600010'',
     mk_stock 0x22 ''600011'', mk_stock 0x23 ''600021'', mk_stock 0x11 ''300033'', mk_stock 0x11 ''300001'',
     mk_stock 0x11 ''300010'', mk_stock 0x12 ''000009'', mk_stock 0x12 ''000019'', mk_stock 0x13 ''000099'',
     mk_stock 0x21 ''600101'', mk_stock 0x21 ''600102'', mk_stock 0x21 ''600103'', mk_stock 0x22 ''600110'',
     mk_stock 0x22 ''600111'', mk_stock 0x23 ''600121'', mk_stock 0x11 ''300133'', mk_stock 0x11 ''300101'',
     mk_stock 0x11 ''300110'', mk_stock 0x12 ''000109'', mk_stock 0x12 ''000119'', mk_stock 0x13 ''000199'',
     mk_stock 0x21 ''600201'', mk_stock 0x21 ''600202'', mk_stock 0x21 ''600203'', mk_stock 0x22 ''600210'',
     mk_stock 0x22 ''600211'', mk_stock 0x23 ''600221'', mk_stock 0x11 ''300233'', mk_stock 0x11 ''300201'',
     mk_stock 0x11 ''300210'', mk_stock 0x12 ''000209'', mk_stock 0x12 ''000219'', mk_stock 0x13 ''000299'']"

record tick =
  tk_stock :: stock
  tk_last_price :: double
  tk_yesterday_close_price :: double
  tk_volume :: u64
  tk_buy_price :: "double list"
  tk_buy_volume :: "u64 list"
  tk_sell_price :: "double list"
  tk_sell_volume :: "u64 list"
  tk_code_key :: code_key

text \<open>A value of \<^verbatim>\<open>rand()\<close> is an argument; the integer quotient becomes a double.\<close>

definition draw_price :: "nat \<Rightarrow> double" where
  "draw_price r = whole (int (r mod 10000 div 100))"

definition tick_init :: "nat \<Rightarrow> nat \<Rightarrow> tick option" where
  "tick_init r i = Option.bind (rd s_vec_stock i) (\<lambda>s. Option.bind (generate_code_key s) (\<lambda>k.
     Some \<lparr>tk_stock = s, tk_last_price = whole 0, tk_yesterday_close_price = draw_price r, tk_volume = 0,
       tk_buy_price = replicate 10 (whole 0), tk_buy_volume = replicate 10 0,
       tk_sell_price = replicate 10 (whole 0), tk_sell_volume = replicate 10 0, tk_code_key = k\<rparr>))"

section \<open>The account\<close>

record account =
  ac_op_flag :: bool
  ac_position :: "code_key \<rightharpoonup> u64"
  ac_fund :: double

text \<open>
  \<^verbatim>\<open>while (m_op_flag.test_and_set()) body\<close>. A body that returns from the function gives \<open>Inl\<close>. When
  the flag is set on entry the loop ends only if the body returns.
\<close>

partial_function (option) flag_loop ::
  "(account \<Rightarrow> account + account) \<Rightarrow> account \<Rightarrow> (account + account) option" where
  "flag_loop body a =
     (if ac_op_flag a
      then (case body a of Inl r \<Rightarrow> Some (Inl r) | Inr b \<Rightarrow> flag_loop body (b\<lparr>ac_op_flag := True\<rparr>))
      else Some (Inr (a\<lparr>ac_op_flag := True\<rparr>)))"

text \<open>
  The compare-and-exchange of \<^verbatim>\<open>buy_stock\<close>, which stores the rounded difference, after \<open>n\<close> spurious failures; only a failure is followed by
  the check of the funds. \<open>None\<close> is the failed trade.
\<close>

fun take_fund :: "nat \<Rightarrow> double \<Rightarrow> account \<Rightarrow> account option" where
  "take_fund 0 balance a = Some (a\<lparr>ac_fund := d_sub (ac_fund a) balance\<rparr>)"
| "take_fund (Suc n) balance a =
     (if d_less (ac_fund a) (d_sub (ac_fund a) balance) then None else take_fund n balance a)"

definition buy_body :: "code_key \<Rightarrow> u64 \<Rightarrow> account \<Rightarrow> account + account" where
  "buy_body code volume a = Inr (a\<lparr>ac_position := (ac_position a)(code \<mapsto>
     (case ac_position a code of Some p \<Rightarrow> p + volume | None \<Rightarrow> volume))\<rparr>)"

definition buy_stock :: "nat \<Rightarrow> code_key \<Rightarrow> double \<Rightarrow> u64 \<Rightarrow> account \<Rightarrow> (bool \<times> account) option" where
  "buy_stock n code price volume a = (case take_fund n (d_times_u64 price volume) a of
     None \<Rightarrow> Some (False, a)
   | Some a1 \<Rightarrow> (case flag_loop (buy_body code volume) a1 of
       Some (Inr a2) \<Rightarrow> Some (True, a2\<lparr>ac_op_flag := False\<rparr>)
     | Some (Inl a2) \<Rightarrow> Some (False, a2)
     | None \<Rightarrow> None))"

definition sell_body :: "code_key \<Rightarrow> u64 \<Rightarrow> account \<Rightarrow> account + account" where
  "sell_body code volume a = (case ac_position a code of
     None \<Rightarrow> Inl (a\<lparr>ac_op_flag := False\<rparr>)
   | Some p \<Rightarrow>
       if p > volume then Inr (a\<lparr>ac_position := (ac_position a)(code \<mapsto> p - volume)\<rparr>)
       else if p = volume then Inr (a\<lparr>ac_position := (ac_position a)(code := None)\<rparr>)
       else Inl (a\<lparr>ac_op_flag := False\<rparr>))"

definition sell_stock :: "code_key \<Rightarrow> double \<Rightarrow> u64 \<Rightarrow> account \<Rightarrow> (bool \<times> account) option" where
  "sell_stock code price volume a = (case flag_loop (sell_body code volume) a of
     Some (Inr a1) \<Rightarrow>
       Some (True, a1\<lparr>ac_op_flag := False, ac_fund := d_add (ac_fund a1) (d_times_u64 price volume)\<rparr>)
   | Some (Inl a1) \<Rightarrow> Some (False, a1)
   | None \<Rightarrow> None)"

definition get_avaliable :: "account \<Rightarrow> double" where
  "get_avaliable a = ac_fund a"

text \<open>
  \<^verbatim>\<open>get_position(key)\<close>. The body of the loop, the only place that reads the map, does not run when the
  flag is clear, and with the flag set the loop does not end: the local variable is still 0 if it ends.
\<close>

definition get_position :: "code_key \<Rightarrow> account \<Rightarrow> (u64 \<times> account) option" where
  "get_position key a =
     (case flag_loop Inr a of
        Some (Inr a1) \<Rightarrow> Some (0, a1\<lparr>ac_op_flag := False\<rparr>)
      | _ \<Rightarrow> None)"

text \<open>\<^verbatim>\<open>get_position()\<close>, the whole map, in the same way.\<close>

definition get_positions :: "account \<Rightarrow> ((code_key \<rightharpoonup> u64) \<times> account) option" where
  "get_positions a =
     (case flag_loop Inr a of
        Some (Inr a1) \<Rightarrow> Some (Map.empty, a1\<lparr>ac_op_flag := False\<rparr>)
      | _ \<Rightarrow> None)"

section \<open>The exchange\<close>

datatype notice_level = Nil_Level | Info | Warn | Error

datatype notice = No_Notice | Invalid_Code_Or_Market | Invalid_Volume | Insufficient_Funds
  | Insufficient_Position | Invalid_Operate

record exchange =
  ex_quote_tick :: "code_key \<rightharpoonup> tick list"
  ex_account :: account
  ex_command_buf :: string
  ex_notice :: notice
  ex_notice_level :: notice_level

definition gen_tick :: "nat \<Rightarrow> nat \<Rightarrow> exchange \<Rightarrow> exchange option" where
  "gen_tick r i x = Option.bind (tick_init r i) (\<lambda>t. Option.bind (generate_code_key (tk_stock t)) (\<lambda>key.
     Some (x\<lparr>ex_quote_tick := (ex_quote_tick x)(key \<mapsto> [t])\<rparr>)))"

fun gen_ticks :: "nat \<Rightarrow> nat list \<Rightarrow> exchange \<Rightarrow> exchange option" where
  "gen_ticks r [] x = Some x"
| "gen_ticks r (i # is) x = Option.bind (gen_tick r i x) (gen_ticks r is)"

definition new_account :: account where
  "new_account = \<lparr>ac_op_flag = False, ac_position = Map.empty, ac_fund = whole 0\<rparr>"

text \<open>\<^verbatim>\<open>while (i++ < 30) gen_tick(i)\<close> runs for 1 to 30.\<close>

definition new_exchange :: "nat \<Rightarrow> exchange option" where
  "new_exchange r = gen_ticks r [1..<31]
     \<lparr>ex_quote_tick = Map.empty, ex_account = new_account, ex_command_buf = [], ex_notice = No_Notice,
       ex_notice_level = Nil_Level\<rparr>"

definition on_update_tick :: "(code_key \<Rightarrow> nat) \<Rightarrow> exchange \<Rightarrow> exchange" where
  "on_update_tick r x = x\<lparr>ex_quote_tick := (\<lambda>k. map_option
     (\<lambda>ts. ts @ [(last ts)\<lparr>tk_last_price := draw_price (r k)\<rparr>]) (ex_quote_tick x k))\<rparr>"

definition notify :: "notice \<Rightarrow> notice_level \<Rightarrow> exchange \<Rightarrow> exchange" where
  "notify n l x = x\<lparr>ex_notice := n, ex_notice_level := l\<rparr>"

text \<open>The body of \<^verbatim>\<open>do ... while (0)\<close> once the line has been scanned; \<open>n\<close> is for \<open>take_fund\<close>.\<close>

definition lookup_key :: "u16 \<Rightarrow> string \<Rightarrow> exchange \<Rightarrow> code_key" where
  "lookup_key market code x =
     (case find (\<lambda>s. ucast (st_market s) = market \<and> st_code s = code) s_vec_stock of
        None \<Rightarrow> 0
      | Some s \<Rightarrow> (case generate_code_key s of
          None \<Rightarrow> 0
        | Some key \<Rightarrow> if ex_quote_tick x key = None then 0 else key))"

definition deal :: "nat \<Rightarrow> string \<Rightarrow> u16 \<Rightarrow> string \<Rightarrow> int \<Rightarrow> exchange \<Rightarrow> exchange option" where
  "deal n op market code volume x =
     (if market = 0 \<or> length code \<noteq> 6 then Some (notify Invalid_Code_Or_Market Error x)
      else if volume < 100 \<or> volume mod 100 \<noteq> 0 then Some (notify Invalid_Volume Error x)
      else let key = lookup_key market code x in
        if key = 0 then Some (notify Invalid_Code_Or_Market Error x)
        else let price = tk_last_price (last (the (ex_quote_tick x key))) in
          if op = ''buy'' then map_option (\<lambda>(ok, a). (if ok then id else notify Insufficient_Funds Warn)
              (x\<lparr>ex_account := a\<rparr>)) (buy_stock n key price (word_of_int volume) (ex_account x))
          else if op = ''sell'' then map_option (\<lambda>(ok, a). (if ok then id else notify Insufficient_Position Warn)
              (x\<lparr>ex_account := a\<rparr>)) (sell_stock key price (word_of_int volume) (ex_account x))
          else Some (notify Invalid_Operate Error x))"

text \<open>
  \<^verbatim>\<open>sscanf(..., "%s %d %s %d", ...)\<close>. A conversion that fails ends the scan and leaves the later
  variables at zero. A word of 32 characters or more overflows its array, a number that does not fit
  an \<^verbatim>\<open>int\<close> is undefined: \<open>None\<close>. \<^verbatim>\<open>%d\<close> is given the address of the \<^verbatim>\<open>uint16_t\<close> \<^verbatim>\<open>market\<close> and stores four
  bytes there. Every command does so; were that \<open>None\<close> too, no command would have a meaning. The model follows
  what little-endian machines do: \<^verbatim>\<open>market\<close> holds the low sixteen bits, and the two bytes that land behind the
  variable, in storage the function does not read again, are left out.
\<close>

definition scan_word :: "string \<Rightarrow> (string \<times> string) option" where
  "scan_word s = (let t = dropWhile blank s; w = takeWhile (\<lambda>c. \<not> blank c) t in
     if w = [] then None else Some (w, drop (length w) t))"

definition scan_int :: "string \<Rightarrow> (int \<times> string) option" where
  "scan_int s = (let t = dropWhile blank s;
       neg = (t \<noteq> [] \<and> hd t = CHR ''-'');
       t = (if t \<noteq> [] \<and> (hd t = CHR ''-'' \<or> hd t = CHR ''+'') then tl t else t);
       ds = takeWhile is_digit_char t
     in if ds = [] then None
        else Some (if neg then - decimal 0 ds else decimal 0 ds, drop (length ds) t))"

definition scan_line :: "string \<Rightarrow> (string \<times> u16 \<times> string \<times> int) option" where
  "scan_line s = (case scan_word s of
     None \<Rightarrow> Some ([], 0, [], 0)
   | Some (op, s1) \<Rightarrow> if length op \<ge> 32 then None else (case scan_int s1 of
       None \<Rightarrow> Some (op, 0, [], 0)
     | Some (m, s2) \<Rightarrow> if int_result m = None then None else (case scan_word s2 of
         None \<Rightarrow> Some (op, word_of_int m, [], 0)
       | Some (code, s3) \<Rightarrow> if length code \<ge> 32 then None else (case scan_int s3 of
           None \<Rightarrow> Some (op, word_of_int m, code, 0)
         | Some (v, s4) \<Rightarrow> if int_result v = None then None else Some (op, word_of_int m, code, v)))))"

definition on_command :: "nat \<Rightarrow> char \<Rightarrow> exchange \<Rightarrow> exchange option" where
  "on_command n c x =
     (let x = x\<lparr>ex_command_buf := ex_command_buf x @ [c]\<rparr> in
      if c = CHR 0x0A \<or> c = CHR 0x0D
      then Option.bind (scan_line (takeWhile (\<lambda>c. c \<noteq> CHR 0x00) (ex_command_buf x))) (\<lambda>(op, market, code, volume).
        map_option (\<lambda>x. x\<lparr>ex_command_buf := []\<rparr>) (deal n op market code volume x))
      else Some x)"

fun on_commands :: "nat \<Rightarrow> string \<Rightarrow> exchange \<Rightarrow> exchange option" where
  "on_commands n [] x = Some x"
| "on_commands n (c # cs) x = Option.bind (on_command n c x) (on_commands n cs)"

text \<open>\<^verbatim>\<open>while (std::cin >> c)\<close>: the extraction of a character skips white space.\<close>

definition wait_input :: "nat \<Rightarrow> string \<Rightarrow> exchange \<Rightarrow> exchange option" where
  "wait_input n input x = on_commands n (filter (\<lambda>c. \<not> blank c) input) x"

text \<open>
  What \<^verbatim>\<open>show\<close> prints, without the escape sequences and the words around the values: a row for each stock with
  quotes in the order of the keys, the balance, the notice unless it is empty, and the command so far.
\<close>

datatype shown = Row string double u64 | Balance double | Shown_Notice notice_level notice | Prompt string

fun show_rows :: "tick list \<Rightarrow> account \<Rightarrow> (shown list \<times> account) option" where
  "show_rows [] a = Some ([], a)"
| "show_rows (t # ts) a = Option.bind (get_position (tk_code_key t) a) (\<lambda>(p, a).
     map_option (\<lambda>(rows, a). (Row (st_code (tk_stock t)) (tk_last_price t) p # rows, a)) (show_rows ts a))"

definition shown_ticks :: "exchange \<Rightarrow> tick list" where
  "shown_ticks x = map (\<lambda>k. last (the (ex_quote_tick x k))) (sorted_list_of_set (dom (ex_quote_tick x)))"

definition shows_exchange :: "exchange \<Rightarrow> (shown list \<times> exchange) option" where
  "shows_exchange x = map_option (\<lambda>(rows, a).
     (rows @ [Balance (get_avaliable a)] @
        (if ex_notice x = No_Notice then [] else [Shown_Notice (ex_notice_level x) (ex_notice x)]) @
        [Prompt (takeWhile (\<lambda>c. c \<noteq> CHR 0x00) (ex_command_buf x))],
      x\<lparr>ex_account := a\<rparr>)) (show_rows (shown_ticks x) (ex_account x))"

section \<open>Keys\<close>

lemma stoul_digits:
  assumes "s \<noteq> []" "\<forall>c\<in>set s. is_digit_char c" "decimal 0 s < 2 ^ 64"
  shows "stoul s = Some (word_of_int (decimal 0 s))"
proof -
  have c: "is_digit_char (hd s)" using assms(1,2) by simp
  then have h: "\<not> blank (hd s)" "hd s \<noteq> CHR ''-''" "hd s \<noteq> CHR ''+''"
    by (auto simp: blank_def is_digit_char_def char_digit_def)
  then have d: "dropWhile blank s = s" using assms(1) by (cases s) simp_all
  have t: "takeWhile is_digit_char s = s" using assms(2) by (simp add: takeWhile_eq_all_conv)
  show ?thesis using assms(1,3) h by (simp add: stoul_def Let_def d t)
qed

definition code_ok :: "stock \<Rightarrow> bool" where
  "code_ok s \<longleftrightarrow> (case stoul (st_code s) of None \<Rightarrow> False | Some n \<Rightarrow> n < 2 ^ 24)"

lemma key_fields:
  assumes "stoul (st_code s) = Some n" "n < 2 ^ 24"
  shows "\<exists>k. generate_code_key s = Some k \<and> take_bit 24 k = ucast n \<and> drop_bit 24 k = ucast (drop_bit 4 (st_market s))"
proof -
  have n: "take_bit 24 n = n" using assms(2) by (simp add: take_bit_nat_less_self_iff less_mask_eq take_bit_eq_mask)
  have hi: "\<not> bit n i" if "24 \<le> i" for i
    using that n by (metis bit_take_bit_iff not_less)
  let ?k = "push_bit 24 (drop_bit 4 (ucast (st_market s))) OR ucast n :: u32"
  have "take_bit 24 ?k = ucast n"
    by (rule bit_word_eqI) (auto simp: bit_simps hi not_less)
  moreover have "drop_bit 24 ?k = ucast (drop_bit 4 (st_market s))"
    by (rule bit_word_eqI) (auto simp: bit_simps hi dest: bit_imp_le_length)
  ultimately show ?thesis using assms(1) by (simp add: generate_code_key_def Let_def)
qed

section \<open>The account\<close>

lemma flag_loop_clear: "\<not> ac_op_flag a \<Longrightarrow> flag_loop body a = Some (Inr (a\<lparr>ac_op_flag := True\<rparr>))"
  by (subst flag_loop.simps) simp

lemma take_fund_nonneg:
  "is_double (ac_fund a) \<Longrightarrow> \<not> d_less balance (Fin 0)
   \<Longrightarrow> take_fund n balance a = Some (a\<lparr>ac_fund := d_sub (ac_fund a) balance\<rparr>)"
  by (induction n) (simp_all add: sub_not_greater)

lemma buy_clear:
  "\<not> ac_op_flag a \<Longrightarrow> is_double (ac_fund a) \<Longrightarrow> \<not> d_less price (Fin 0)
   \<Longrightarrow> buy_stock n code price volume a = Some (True, a\<lparr>ac_fund := d_sub (ac_fund a) (d_times_u64 price volume)\<rparr>)"
  by (simp add: buy_stock_def take_fund_nonneg times_nonneg flag_loop_clear)

lemma sell_clear:
  "\<not> ac_op_flag a
   \<Longrightarrow> sell_stock code price volume a = Some (True, a\<lparr>ac_fund := d_add (ac_fund a) (d_times_u64 price volume)\<rparr>)"
  by (simp add: sell_stock_def flag_loop_clear)

datatype 'p trade = Buy code_key (price: 'p) u64 nat | Sell code_key (price: 'p) u64

fun trade_step :: "double trade \<Rightarrow> account \<Rightarrow> (bool \<times> account) option" where
  "trade_step (Buy c p v n) a = buy_stock n c p v a"
| "trade_step (Sell c p v) a = sell_stock c p v a"

fun run_trades :: "double trade list \<Rightarrow> account \<Rightarrow> (bool list \<times> account) option" where
  "run_trades [] a = Some ([], a)"
| "run_trades (t # ts) a = Option.bind (trade_step t a)
     (\<lambda>(ok, b). map_option (\<lambda>(oks, d). (ok # oks, d)) (run_trades ts b))"

text \<open>The fund after a trade, and the cost of a trade at a whole price.\<close>

fun settle :: "double trade \<Rightarrow> double \<Rightarrow> double" where
  "settle (Buy c p v n) f = d_sub f (d_times_u64 p v)"
| "settle (Sell c p v) f = d_add f (d_times_u64 p v)"

fun cost :: "int trade \<Rightarrow> int" where
  "cost (Buy c p v n) = p * uint v"
| "cost (Sell c p v) = - (p * uint v)"

lemma settle_is: "is_double f \<Longrightarrow> is_double (settle t f)"
  by (cases t) (simp_all add: add_is sub_is times_is)

lemma trade_step_clear:
  "\<not> ac_op_flag a \<Longrightarrow> is_double (ac_fund a) \<Longrightarrow> \<not> d_less (price t) (Fin 0)
   \<Longrightarrow> trade_step t a = Some (True, a\<lparr>ac_fund := settle t (ac_fund a)\<rparr>)"
  by (cases t) (simp_all add: buy_clear sell_clear)

lemma run_trades_clear:
  "\<not> ac_op_flag a \<Longrightarrow> is_double (ac_fund a) \<Longrightarrow> \<forall>t\<in>set ts. \<not> d_less (price t) (Fin 0)
   \<Longrightarrow> run_trades ts a = Some (replicate (length ts) True, a\<lparr>ac_fund := fold settle ts (ac_fund a)\<rparr>)"
  by (induction ts arbitrary: a) (simp_all add: trade_step_clear settle_is)

text \<open>Rounding changes nothing while the amounts stay whole and within 2^53.\<close>

lemma settle_whole:
  assumes "0 \<le> price t" and "\<bar>f\<bar> + \<bar>cost t\<bar> \<le> 2 ^ 53"
  shows "settle (map_trade whole t) (whole f) = whole (f - cost t)"
proof (cases t)
  case (Buy c p v n)
  then have p: "0 \<le> p" "\<bar>f\<bar> + \<bar>p * uint v\<bar> \<le> 2 ^ 53" using assms by auto
  then have "p * uint v \<le> 2 ^ 53" "\<bar>f - p * uint v\<bar> \<le> 2 ^ 53" by linarith+
  then show ?thesis using Buy whole_times[OF p(1)] whole_sub by simp
next
  case (Sell c p v)
  then have p: "0 \<le> p" "\<bar>f\<bar> + \<bar>p * uint v\<bar> \<le> 2 ^ 53" using assms by auto
  then have "p * uint v \<le> 2 ^ 53" "\<bar>f + p * uint v\<bar> \<le> 2 ^ 53" by linarith+
  then show ?thesis using Sell whole_times[OF p(1)] whole_add by simp
qed

lemma price_map: "price (map_trade g t) = g (price t)"
  by (cases t) simp_all

lemma settle_whole_all:
  "\<forall>t\<in>set us. 0 \<le> price t \<Longrightarrow> \<bar>f\<bar> + sum_list (map (\<lambda>t. \<bar>cost t\<bar>) us) \<le> 2 ^ 53
   \<Longrightarrow> fold settle (map (map_trade whole) us) (whole f) = whole (f - sum_list (map cost us))"
proof (induction us arbitrary: f)
  case (Cons t us)
  have "0 \<le> sum_list (map (\<lambda>t. \<bar>cost t\<bar>) us)" by (intro sum_list_nonneg) auto
  with Cons.prems have "settle (map_trade whole t) (whole f) = whole (f - cost t)"
    by (intro settle_whole) auto
  with Cons show ?case by (simp add: algebra_simps)
qed simp

section \<open>The running exchange\<close>

inductive ex_step :: "exchange \<Rightarrow> exchange \<Rightarrow> bool" where
  tick: "ex_step x (on_update_tick r x)"
| command: "on_command n c x = Some x' \<Longrightarrow> ex_step x x'"

inductive ex_reachable :: "exchange \<Rightarrow> bool" where
  "new_exchange r = Some x \<Longrightarrow> ex_reachable x"
| "ex_reachable x \<Longrightarrow> ex_step x x' \<Longrightarrow> ex_reachable x'"

definition listed :: "stock list" where
  "listed = take 30 (tl s_vec_stock)"

definition quotes_ok :: "(code_key \<rightharpoonup> tick list) \<Rightarrow> bool" where
  "quotes_ok q \<longleftrightarrow> (\<forall>k ts. q k = Some ts \<longrightarrow> ts \<noteq> [] \<and>
     (\<forall>t\<in>set ts. tk_code_key t = k \<and> (\<exists>p. tk_last_price t = whole p \<and> 0 \<le> p \<and> p < 100)))"

definition exchange_inv :: "exchange \<Rightarrow> bool" where
  "exchange_inv x \<longleftrightarrow> \<not> ac_op_flag (ex_account x) \<and> ac_position (ex_account x) = Map.empty
     \<and> is_double (ac_fund (ex_account x)) \<and> quotes_ok (ex_quote_tick x)
     \<and> Some ` dom (ex_quote_tick x) = generate_code_key ` set listed"

lemma draw_price_range: "\<exists>p. draw_price r = whole p \<and> 0 \<le> p \<and> p < 100"
proof -
  have "r mod 10000 div 100 < 100" by (simp add: less_mult_imp_div_less)
  then show ?thesis by (auto simp: draw_price_def)
qed

lemma tick_init_Some:
  "tick_init r i = Some t \<Longrightarrow> i < length s_vec_stock \<and> tk_stock t = s_vec_stock ! i
     \<and> generate_code_key (s_vec_stock ! i) = Some (tk_code_key t) \<and> tk_last_price t = whole 0"
  by (auto simp: tick_init_def rd_Some_iff bind_Some_iff)

lemma gen_tick_Some:
  "gen_tick r i x = Some x' \<Longrightarrow> \<exists>t. i < length s_vec_stock \<and> generate_code_key (s_vec_stock ! i) = Some (tk_code_key t)
     \<and> tk_last_price t = whole 0 \<and> x' = x\<lparr>ex_quote_tick := (ex_quote_tick x)(tk_code_key t \<mapsto> [t])\<rparr>"
  by (fastforce simp: gen_tick_def bind_Some_iff dest: tick_init_Some)

lemma gen_ticks_Some:
  "gen_ticks r is x = Some x' \<Longrightarrow> quotes_ok (ex_quote_tick x) \<Longrightarrow>
   quotes_ok (ex_quote_tick x') \<and> ex_account x' = ex_account x \<and>
   Some ` dom (ex_quote_tick x') = Some ` dom (ex_quote_tick x) \<union> (\<lambda>i. generate_code_key (s_vec_stock ! i)) ` set is"
proof (induction "is" arbitrary: x)
  case (Cons i "is")
  then obtain y where y: "gen_tick r i x = Some y" "gen_ticks r is y = Some x'" by (auto simp: bind_Some_iff)
  from gen_tick_Some[OF y(1)] obtain t where t: "generate_code_key (s_vec_stock ! i) = Some (tk_code_key t)"
    "tk_last_price t = whole 0" "y = x\<lparr>ex_quote_tick := (ex_quote_tick x)(tk_code_key t \<mapsto> [t])\<rparr>" by blast
  have "quotes_ok (ex_quote_tick y)" using Cons.prems(2) t by (auto simp: quotes_ok_def)
  from Cons.IH[OF y(2) this] t(1)
  show ?case unfolding t(3) by (simp only: exchange.simps exchange.update_convs dom_fun_upd image_insert list.set) auto
qed simp

lemma new_exchange_inv: "new_exchange r = Some x \<Longrightarrow> exchange_inv x"
proof -
  assume n: "new_exchange r = Some x"
  have "(\<lambda>i. s_vec_stock ! i) ` set [1..<31] = set listed"
    by (simp add: s_vec_stock_def listed_def numeral_eq_Suc upt_rec insert_commute)
  then have "(\<lambda>i. generate_code_key (s_vec_stock ! i)) ` set [1..<31] = generate_code_key ` set listed"
    by (metis image_image)
  with gen_ticks_Some[OF n[unfolded new_exchange_def]] show ?thesis
    by (simp add: exchange_inv_def quotes_ok_def new_account_def whole_is)
qed

lemma update_tick_inv: "exchange_inv x \<Longrightarrow> exchange_inv (on_update_tick r x)"
proof -
  assume i: "exchange_inv x"
  have "dom (ex_quote_tick (on_update_tick r x)) = dom (ex_quote_tick x)"
    by (auto simp: on_update_tick_def)
  moreover have "quotes_ok (ex_quote_tick (on_update_tick r x))"
    using i draw_price_range by (auto simp: exchange_inv_def quotes_ok_def on_update_tick_def)
  ultimately show ?thesis using i by (simp add: exchange_inv_def) (simp add: on_update_tick_def)
qed

lemma deal_ok:
  assumes "exchange_inv x"
  shows "\<exists>x'. deal n op market code volume x = Some x' \<and> exchange_inv x'"
proof -
  let ?key = "lookup_key market code x"
  have f: "\<not> ac_op_flag (ex_account x)" using assms by (simp add: exchange_inv_def)
  have p: "\<not> d_less (tk_last_price (last (the (ex_quote_tick x ?key)))) (Fin 0)" if "?key \<noteq> 0"
  proof -
    obtain ts where ts: "ex_quote_tick x ?key = Some ts"
      using \<open>?key \<noteq> 0\<close> by (auto simp: lookup_key_def split: option.splits if_splits)
    with assms have "last ts \<in> set ts" "\<forall>t\<in>set ts. \<exists>p. tk_last_price t = whole p \<and> 0 \<le> p"
      by (fastforce simp: exchange_inv_def quotes_ok_def)+
    then have "\<exists>p. tk_last_price (last ts) = whole p \<and> 0 \<le> p" by blast
    with ts show ?thesis using whole_nonneg by (metis option.sel)
  qed
  show ?thesis using assms f p
    by (auto simp: deal_def Let_def buy_clear sell_clear exchange_inv_def notify_def add_is sub_is times_is)
qed

lemma on_command_ok: "exchange_inv x \<Longrightarrow> on_command n c x = Some x' \<Longrightarrow> exchange_inv x'"
proof -
  assume i: "exchange_inv x" and c: "on_command n c x = Some x'"
  let ?x = "x\<lparr>ex_command_buf := ex_command_buf x @ [c]\<rparr>"
  have e: "exchange_inv ?x" using i by (simp add: exchange_inv_def)
  have b: "exchange_inv (y\<lparr>ex_command_buf := []\<rparr>)" if "exchange_inv y" for y
    using that by (simp add: exchange_inv_def)
  show ?thesis
  proof (cases "c = CHR 0x0A \<or> c = CHR 0x0D")
    case True
    with c obtain op market code volume y where y: "deal n op market code volume ?x = Some y"
      "x' = y\<lparr>ex_command_buf := []\<rparr>"
      by (auto simp: on_command_def Let_def bind_Some_iff)
    then show ?thesis using b deal_ok[OF e, of n op market code volume] by auto
  qed (use c e in \<open>simp add: on_command_def\<close>)
qed

lemma ex_reachable_inv: "ex_reachable x \<Longrightarrow> exchange_inv x"
proof (induction rule: ex_reachable.induct)
  case (2 x x')
  then show ?case by (auto elim!: ex_step.cases intro: update_tick_inv on_command_ok)
qed (rule new_exchange_inv)

lemma on_command_plain: "c \<noteq> CHR 0x0A \<Longrightarrow> c \<noteq> CHR 0x0D
   \<Longrightarrow> on_command n c x = Some (x\<lparr>ex_command_buf := ex_command_buf x @ [c]\<rparr>)"
  by (simp add: on_command_def Let_def)

lemma on_commands_plain:
  "\<forall>c\<in>set cs. \<not> blank c \<Longrightarrow> on_commands n cs x = Some (x\<lparr>ex_command_buf := ex_command_buf x @ cs\<rparr>)"
proof (induction cs arbitrary: x)
  case (Cons c cs)
  have "blank (CHR 0x0A)" "blank (CHR 0x0D)" by (simp_all add: blank_def)
  with Cons.prems have "c \<noteq> CHR 0x0A" "c \<noteq> CHR 0x0D" by auto
  moreover have "\<forall>c\<in>set cs. \<not> blank c" using Cons.prems by simp
  ultimately show ?case by (simp add: on_command_plain Cons.IH)
qed simp

lemma table_codes: "\<forall>s\<in>set s_vec_stock. stoul (st_code s) \<noteq> None"
  by (simp add: s_vec_stock_def mk_stock_def stoul_digits is_digit_char_def char_digit_def)

lemma length_table: "length s_vec_stock = 36"
  by (simp add: s_vec_stock_def)

lemma gen_tick_ok: "i < length s_vec_stock \<Longrightarrow> \<exists>y. gen_tick r i x = Some y"
proof -
  assume i: "i < length s_vec_stock"
  then obtain k where "stoul (st_code (s_vec_stock ! i)) = Some k"
    using table_codes nth_mem by blast
  then obtain key where "generate_code_key (s_vec_stock ! i) = Some key"
    by (simp add: generate_code_key_def Let_def)
  with i show ?thesis by (simp add: gen_tick_def tick_init_def rd_in)
qed

lemma gen_ticks_ok: "\<forall>i\<in>set is. i < length s_vec_stock \<Longrightarrow> \<exists>x'. gen_ticks r is x = Some x'"
proof (induction "is" arbitrary: x)
  case (Cons i "is")
  from Cons.prems gen_tick_ok[of i r x] obtain y where y: "gen_tick r i x = Some y" by auto
  have "\<exists>x'. gen_ticks r is y = Some x'" using Cons by simp
  with y show ?case by simp
qed simp

lemma new_exchange_Some: "\<exists>x. new_exchange r = Some x"
  unfolding new_exchange_def by (rule gen_ticks_ok) (simp add: length_table del: upt.simps)

text \<open>With a clear flag every stock is shown with the position 0.\<close>

lemma get_position_clear: "\<not> ac_op_flag a \<Longrightarrow> get_position k a = Some (0, a)"
  by (simp add: get_position_def flag_loop.simps)

lemma show_rows_clear:
  "\<not> ac_op_flag a \<Longrightarrow> show_rows ts a = Some (map (\<lambda>t. Row (st_code (tk_stock t)) (tk_last_price t) 0) ts, a)"
  by (induction ts) (simp_all add: get_position_clear)

lemma shows_exchange_reachable:
  assumes "ex_reachable x"
  shows "\<exists>out. shows_exchange x = Some (out, x) \<and> (\<forall>c p v. Row c p v \<in> set out \<longrightarrow> v = 0)"
proof -
  have "exchange_inv x" using assms by (rule ex_reachable_inv)
  then have "\<not> ac_op_flag (ex_account x)" by (simp add: exchange_inv_def)
  from show_rows_clear [OF this] show ?thesis by (auto simp: shows_exchange_def)
qed

section \<open>Properties\<close>

text \<open>
  A code key holds what the comment promises: for codes below 2^24, as all six-digit codes are, two
  stocks have the same key exactly when the exchange, the upper half of the market byte, and the number
  of the code agree. The 36 stocks of the table have 36 different keys.
\<close>

theorem code_key_identifies:
  assumes "code_ok s" and "code_ok t"
  shows "(generate_code_key s = generate_code_key t
      \<longleftrightarrow> drop_bit 4 (st_market s) = drop_bit 4 (st_market t) \<and> stoul (st_code s) = stoul (st_code t))
    \<and> distinct (map generate_code_key s_vec_stock)"
proof
  obtain m n where m: "stoul (st_code s) = Some m" "m < 2 ^ 24" and n: "stoul (st_code t) = Some n" "n < 2 ^ 24"
    using assms by (auto simp: code_ok_def split: option.splits)
  obtain k l where k: "generate_code_key s = Some k" "take_bit 24 k = ucast m" "drop_bit 24 k = ucast (drop_bit 4 (st_market s))"
    and l: "generate_code_key t = Some l" "take_bit 24 l = ucast n" "drop_bit 24 l = ucast (drop_bit 4 (st_market t))"
    using key_fields[OF m] key_fields[OF n] by blast
  have u: "uint (ucast v :: u32) = uint v" if "v < 2 ^ 24" for v :: u64
  proof -
    have "uint v < 2 ^ 24" using that by (simp add: word_less_alt)
    then show ?thesis by (simp add: unsigned_ucast_eq take_bit_int_eq_self_iff)
  qed
  have "(ucast m :: u32) = ucast n \<longleftrightarrow> m = n"
    using u[OF m(2)] u[OF n(2)] by (metis word_uint_eq_iff)
  moreover have "(ucast (drop_bit 4 (st_market s)) :: u32) = ucast (drop_bit 4 (st_market t))
      \<longleftrightarrow> drop_bit 4 (st_market s) = drop_bit 4 (st_market t)"
  proof -
    have "uint (ucast v :: u32) = uint v" for v :: u8
      using unsigned_less[of v, where 'a = int] by (simp add: unsigned_ucast_eq take_bit_int_eq_self_iff)
    then show ?thesis by (metis word_uint_eq_iff)
  qed
  moreover have "k = l \<longleftrightarrow> take_bit 24 k = take_bit 24 l \<and> drop_bit 24 k = drop_bit 24 l"
    by (metis bits_ident)
  ultimately show "generate_code_key s = generate_code_key t
      \<longleftrightarrow> drop_bit 4 (st_market s) = drop_bit 4 (st_market t) \<and> stoul (st_code s) = stoul (st_code t)"
    using k l m(1) n(1) by (simp add: conj_commute)
  show "distinct (map generate_code_key s_vec_stock)"
    by (simp add: s_vec_stock_def mk_stock_def generate_code_key_def stoul_digits is_digit_char_def char_digit_def)
qed

lemma code_key_identifies_witness:
  "(generate_code_key (mk_stock 0x11 ''000009'') = generate_code_key (mk_stock 0x12 ''000009'')
      \<longleftrightarrow> drop_bit 4 (st_market (mk_stock 0x11 ''000009'')) = drop_bit 4 (st_market (mk_stock 0x12 ''000009''))
        \<and> stoul (st_code (mk_stock 0x11 ''000009'')) = stoul (st_code (mk_stock 0x12 ''000009'')))
    \<and> distinct (map generate_code_key s_vec_stock)"
  by (rule code_key_identifies)
    (simp_all add: code_ok_def mk_stock_def stoul_digits is_digit_char_def char_digit_def)

text \<open>
  C21: The ledger of an account with a clear flag, in the arithmetic of the program: whatever the trades, at
  prices that are not negative, and however often the compare-and-exchange fails spuriously, each trade reports
  success, the position map does not change, and the fund becomes what one rounded product and one rounded
  difference or sum for each trade make of it. While fund, prices and volumes are whole and all amounts
  together stay within 2^53, nothing is rounded and the fund falls by exactly the sum of the costs; beyond
  that it need not. The loops on \<^verbatim>\<open>m_op_flag\<close> run their body when the flag was set and skip it when it
  was clear, so that no purchase is recorded, no sale is checked against the position, and the fund may
  become negative.
\<close>

theorem account_ledger:
  assumes "\<not> ac_op_flag a" and "is_double (ac_fund a)" and "\<forall>t\<in>set ts. \<not> d_less (price t) (Fin 0)"
  shows "run_trades ts a = Some (replicate (length ts) True, a\<lparr>ac_fund := fold settle ts (ac_fund a)\<rparr>)
    \<and> (\<forall>f us. ac_fund a = whole f \<and> ts = map (map_trade whole) us
         \<and> \<bar>f\<bar> + sum_list (map (\<lambda>t. \<bar>cost t\<bar>) us) \<le> 2 ^ 53
       \<longrightarrow> fold settle ts (ac_fund a) = whole (f - sum_list (map cost us)))"
proof -
  have "\<forall>t\<in>set us. 0 \<le> price t" if "ts = map (map_trade whole) us" for us
    using assms(3) that by (simp add: price_map whole_nonneg)
  then show ?thesis using run_trades_clear[OF assms] settle_whole_all by auto
qed

lemma account_ledger_witness:
  "run_trades (map (map_trade whole) [Buy 7 50 100 2, Sell 9 10 300]) new_account
     = Some ([True, True], new_account\<lparr>ac_fund := whole (-2000)\<rparr>)"
proof -
  let ?us = "[Buy 7 50 100 2, Sell 9 10 300] :: int trade list"
  have "\<not> ac_op_flag new_account" "is_double (ac_fund new_account)"
    "\<forall>t\<in>set (map (map_trade whole) ?us). \<not> d_less (price t) (Fin 0)"
    by (simp_all add: new_account_def whole_is whole_nonneg)
  note l = account_ledger[OF this]
  have "fold settle (map (map_trade whole) ?us) (ac_fund new_account) = whole (0 - sum_list (map cost ?us))"
    by (rule conjunct2[OF l, rule_format]) (simp add: new_account_def)
  also have "\<dots> = whole (-2000)" by simp
  finally have f: "fold settle (map (map_trade whole) ?us) (ac_fund new_account) = whole (-2000)" .
  have r: "replicate (length (map (map_trade whole) ?us)) True = [True, True]" by (simp add: numeral_2_eq_2)
  show ?thesis using conjunct1[OF l] unfolding f r .
qed

text \<open>What rounding does beyond: a fund of 2^53 is not moved by the sale of one share at one.\<close>

lemma fund_sticks:
  "\<not> ac_op_flag a \<Longrightarrow> ac_fund a = whole (2 ^ 53) \<Longrightarrow> sell_stock c (whole 1) 1 a = Some (True, a)"
  using whole_times[of 1 1] whole_sticks by (simp add: sell_clear)

text \<open>
  C22: In every state the exchange reaches by ticks and command characters, a scanned command line is
  carried out to its end, the flag is clear and nobody holds a position, every stored price is below
  100, every tick is filed under its own key, and the stocks with quotes are those of the table from
  the second to the thirty-first: the first one is never listed.
\<close>

theorem exchange_invariant:
  assumes "ex_reachable x"
  shows "(\<exists>x'. deal n op market code volume x = Some x') \<and> exchange_inv x
    \<and> lookup_key 0x21 ''600001'' x = 0 \<and> generate_code_key (hd s_vec_stock) \<noteq> None"
proof -
  have i: "exchange_inv x" using assms by (rule ex_reachable_inv)
  have k: "generate_code_key (mk_stock 0x21 ''600001'') \<notin> generate_code_key ` set listed"
      "generate_code_key (mk_stock 0x21 ''600001'') \<noteq> None"
    by (simp_all add: listed_def s_vec_stock_def mk_stock_def generate_code_key_def stoul_digits
        is_digit_char_def char_digit_def)
  then obtain key where key: "generate_code_key (mk_stock 0x21 ''600001'') = Some key" by blast
  with i k have "ex_quote_tick x key = None" by (auto simp: exchange_inv_def dom_def)
  moreover have "find (\<lambda>s. ucast (st_market s) = (0x21 :: u16) \<and> st_code s = ''600001'') s_vec_stock
      = Some (mk_stock 0x21 ''600001'')"
    by (simp add: s_vec_stock_def mk_stock_def)
  ultimately have "lookup_key 0x21 ''600001'' x = 0" using key by (simp add: lookup_key_def)
  moreover have "hd s_vec_stock = mk_stock 0x21 ''600001''" by (simp add: s_vec_stock_def)
  ultimately show ?thesis using deal_ok[OF i, of n op market code volume] i k(2) by auto
qed

lemma exchange_invariant_witness:
  "\<exists>x. new_exchange 4207 = Some x \<and> (\<exists>x'. deal 0 ''buy'' 0x21 ''600002'' 300 x = Some x') \<and> exchange_inv x
    \<and> lookup_key 0x21 ''600001'' x = 0 \<and> generate_code_key (hd s_vec_stock) \<noteq> None"
proof -
  obtain x where "new_exchange 4207 = Some x" using new_exchange_Some by blast
  then show ?thesis using exchange_invariant[where x = x and n = 0 and op = "''buy''" and market = "0x21" and code = "''600002''" and volume = 300]
      ex_reachable.intros(1) by blast
qed

text \<open>
  No command typed at the terminal is ever executed: \<^verbatim>\<open>cin >> c\<close> skips white space, so the end of
  a line never reaches \<^verbatim>\<open>on_command\<close>, and all that any input does is append its other characters to
  the command buffer.
\<close>

theorem terminal_commands_never_run:
  "wait_input n input x = Some (x\<lparr>ex_command_buf := ex_command_buf x @ filter (\<lambda>c. \<not> blank c) input\<rparr>)"
  by (simp add: wait_input_def on_commands_plain)

end
