(* ===== verification/Int_Sorts.thy ===== *)
theory Int_Sorts
  imports Prelude "HOL-Library.Multiset"
begin

unbundle bit_operations_syntax

text \<open>
  The two in-place sorts of \<^verbatim>\<open>practice\<close>: \<^verbatim>\<open>heap_sort.cpp\<close>, which sorts, and \<^verbatim>\<open>quicksort.cpp\<close>, which
  does not. Both exchange elements with the same three exclusive-ors, which is a problem when the two
  elements are one.
\<close>

section \<open>Swapping\<close>

definition xor_swap :: "nat \<Rightarrow> nat \<Rightarrow> u32 list \<Rightarrow> u32 list" where
  "xor_swap i j a =
     (let a = a[i := (a ! i) XOR (a ! j)];
          a = a[j := (a ! j) XOR (a ! i)]
      in a[i := (a ! i) XOR (a ! j)])"

section \<open>Heap sort\<close>

definition before :: "bool \<Rightarrow> u32 \<Rightarrow> u32 \<Rightarrow> bool" where
  "before asc x y \<longleftrightarrow> (if asc then sint x < sint y else sint x > sint y)"

text \<open>\<open>if (a[i] < a[j]) swap(a[i], a[j])\<close>; an index outside the vector is undefined.\<close>

definition order_swap :: "bool \<Rightarrow> nat \<Rightarrow> nat \<Rightarrow> u32 list \<Rightarrow> u32 list option" where
  "order_swap asc i j a =
     (if i < length a \<and> j < length a then Some (if before asc (a ! i) (a ! j) then xor_swap i j a else a)
      else None)"

fun adjust_loop :: "bool \<Rightarrow> nat \<Rightarrow> nat \<Rightarrow> u32 list \<Rightarrow> u32 list option" where
  "adjust_loop asc hi 0 a = Some a"
| "adjust_loop asc hi (Suc i) a =
     (let idx = Suc i; child_left = idx * 2; child_right = idx * 2 + 1 in
      Option.bind (order_swap asc (idx - 1) (child_left - 1) a) (\<lambda>a.
      Option.bind (if child_right \<le> hi then order_swap asc (idx - 1) (child_right - 1) a else Some a) (\<lambda>a.
        adjust_loop asc hi i a)))"

definition heap_adjust :: "u32 list \<Rightarrow> nat \<Rightarrow> bool \<Rightarrow> u32 list option" where
  "heap_adjust a hi asc = Option.bind (adjust_loop asc hi (hi div 2) a) (\<lambda>a.
     if hi - 1 < length a then Some (xor_swap 0 (hi - 1) a) else None)"

fun heap_sort_loop :: "bool \<Rightarrow> nat \<Rightarrow> u32 list \<Rightarrow> u32 list option" where
  "heap_sort_loop asc 0 a = Some a"
| "heap_sort_loop asc (Suc n) a =
     (if Suc n > 1 then Option.bind (heap_adjust a (Suc n) asc) (heap_sort_loop asc n) else Some a)"

definition heap_sort :: "u32 list \<Rightarrow> bool \<Rightarrow> u32 list option" where
  "heap_sort a asc = heap_sort_loop asc (length a) a"

section \<open>Quick sort\<close>

text \<open>The two inner loops move an index while the test holds and the end is not reached.\<close>

function up_loop :: "u32 list \<Rightarrow> int \<Rightarrow> int \<Rightarrow> int \<Rightarrow> int option" where
  "up_loop arr middle hi left =
     Option.bind (rdi arr left) (\<lambda>x. Option.bind (rdi arr middle) (\<lambda>p.
       if sint x < sint p \<and> \<not> left \<ge> hi then up_loop arr middle hi (left + 1) else Some left))"
  by pat_completeness auto

termination
  by (relation "measure (\<lambda>(arr, middle, hi, left). nat (hi - left))") auto

function down_loop :: "u32 list \<Rightarrow> int \<Rightarrow> int \<Rightarrow> int \<Rightarrow> int option" where
  "down_loop arr middle lo right =
     Option.bind (rdi arr right) (\<lambda>x. Option.bind (rdi arr middle) (\<lambda>p.
       if sint x > sint p \<and> \<not> right \<le> lo then down_loop arr middle lo (right - 1) else Some right))"
  by pat_completeness auto

termination
  by (relation "measure (\<lambda>(arr, middle, lo, right). nat (right - lo))") auto

text \<open>\<^verbatim>\<open>for (;;)\<close>: it may not end, \<open>None\<close>.\<close>

partial_function (option) partition_loop ::
  "u32 list \<Rightarrow> int \<Rightarrow> int \<Rightarrow> int \<Rightarrow> int \<Rightarrow> int \<Rightarrow> (u32 list \<times> int) option" where
  [code]: "partition_loop arr middle lo hi left right =
     Option.bind (up_loop arr middle hi left) (\<lambda>left. Option.bind (down_loop arr middle lo right) (\<lambda>right.
       if left \<ge> right then Some (arr, right)
       else partition_loop (xor_swap (nat left) (nat right) arr) middle lo hi left right))"

partial_function (option) quick_sort :: "u32 list \<Rightarrow> int \<Rightarrow> int \<Rightarrow> u32 list option" where
  [code]: "quick_sort arr lo hi =
     (if lo \<ge> hi then Some arr
      else Option.bind (partition_loop arr lo lo hi (lo + 1) hi) (\<lambda>(arr, right).
        Option.bind (quick_sort (xor_swap (nat lo) (nat right) arr) lo (right - 1)) (\<lambda>arr.
          quick_sort arr (right + 1) hi)))"

section \<open>Lemmas about swapping\<close>

lemma xor_swap_distinct:
  "i < length a \<Longrightarrow> j < length a \<Longrightarrow> i \<noteq> j \<Longrightarrow> xor_swap i j a = a[i := a ! j, j := a ! i]"
  by (rule nth_equalityI)
    (auto simp: xor_swap_def Let_def nth_list_update xor.assoc xor.left_commute xor.commute)

lemma xor_swap_same: "i < length a \<Longrightarrow> xor_swap i i a = a[i := 0]"
  by (simp add: xor_swap_def Let_def)

lemma mset_swap_list: "i < length a \<Longrightarrow> j < length a \<Longrightarrow> mset (a[i := a ! j, j := a ! i]) = mset a"
  by (simp add: mset_swap)

section \<open>The maximum reaches the root\<close>

definition key :: "bool \<Rightarrow> u32 \<Rightarrow> int" where
  "key asc x = (if asc then sint x else - sint x)"

lemma before_key: "before asc x y \<longleftrightarrow> key asc x < key asc y"
  by (simp add: before_def key_def)

text \<open>\<open>topmost i p\<close>: the first node on the way from \<open>p\<close> to the root whose parent is below \<open>i\<close>.\<close>

function topmost :: "nat \<Rightarrow> nat \<Rightarrow> nat" where
  "topmost i p = (if p div 2 < i \<or> p = 0 then p else topmost i (p div 2))"
  by pat_completeness auto

termination
  by (relation "measure snd") auto

declare topmost.simps [simp del]

lemma top_here: "p div 2 < i \<or> p = 0 \<Longrightarrow> topmost i p = p"
  by (subst topmost.simps) simp

lemma top_up: "i \<le> p div 2 \<Longrightarrow> p \<noteq> 0 \<Longrightarrow> topmost i p = topmost i (p div 2)"
  by (subst topmost.simps) simp

lemma top_range: "0 < i \<Longrightarrow> 0 < p \<Longrightarrow> 0 < topmost i p \<and> topmost i p \<le> p"
proof (induction i p rule: topmost.induct)
  case (1 i p)
  show ?case
  proof (cases "p div 2 < i")
    case True
    with 1 show ?thesis by (simp add: top_here)
  next
    case False
    then have "0 < topmost i (p div 2) \<and> topmost i (p div 2) \<le> p div 2" using 1 by simp
    moreover have "p div 2 \<le> p" by simp
    ultimately show ?thesis using False 1(3) by (auto simp: top_up)
  qed
qed

lemma top_step: "0 < i \<Longrightarrow> 0 < p \<Longrightarrow> topmost i p = (if topmost (Suc i) p div 2 = i then i else topmost (Suc i) p)"
proof (induction "Suc i" p rule: topmost.induct)
  case (1 p)
  consider "p div 2 < i" | "p div 2 = i" | "i < p div 2" by linarith
  then show ?case
  proof cases
    case 1
    then show ?thesis by (simp add: top_here)
  next
    case 2
    then show ?thesis using 1(2,3) by (simp add: top_up[of i p] top_here)
  next
    case 3
    then have "topmost i (p div 2) = (if topmost (Suc i) (p div 2) div 2 = i then i else topmost (Suc i) (p div 2))"
      using 1 by simp
    with 3 1(3) show ?thesis by (simp add: top_up)
  qed
qed

lemma top_one: "0 < p \<Longrightarrow> topmost 1 p = 1"
proof (induction "1 :: nat" p rule: topmost.induct)
  case (1 p)
  show ?case
  proof (cases "p = 1")
    case False
    with 1 have "0 < p div 2" by (simp add: div_greater_zero_iff)
    with 1 False show ?thesis by (simp add: top_up)
  qed (simp add: top_here)
qed

text \<open>Positions count from one, as in the source; \<open>a ! (p - 1)\<close> is the element at position \<open>p\<close>.\<close>

definition tops_max :: "bool \<Rightarrow> nat \<Rightarrow> nat \<Rightarrow> u32 list \<Rightarrow> bool" where
  "tops_max asc hi i a \<longleftrightarrow> (\<forall>p. 0 < p \<and> p \<le> hi \<longrightarrow> key asc (a ! (p - 1)) \<le> key asc (a ! (topmost i p - 1)))"

text \<open>What the two exchanges at node \<open>i\<close> do, and all that the invariant needs of them.\<close>

definition node_ordered :: "bool \<Rightarrow> nat \<Rightarrow> nat \<Rightarrow> u32 list \<Rightarrow> u32 list \<Rightarrow> bool" where
  "node_ordered asc hi i a b \<longleftrightarrow> length b = length a \<and> mset b = mset a
     \<and> (\<forall>p. p \<noteq> i \<and> (p \<noteq> 2 * i) \<and> (p \<noteq> 2 * i + 1 \<or> hi < p) \<and> 0 < p \<longrightarrow> b ! (p - 1) = a ! (p - 1))
     \<and> (\<forall>p\<in>{i, 2 * i, 2 * i + 1}. p \<le> hi \<longrightarrow>
          key asc (a ! (p - 1)) \<le> key asc (b ! (i - 1)) \<and> key asc (b ! (p - 1)) \<le> key asc (b ! (i - 1)))"

lemma order_swap_ok:
  assumes "i < length a" "j < length a" "i \<noteq> j"
  shows "\<exists>b. order_swap asc i j a = Some b \<and> length b = length a \<and> mset b = mset a
    \<and> (\<forall>p. p \<noteq> i \<and> p \<noteq> j \<longrightarrow> b ! p = a ! p) \<and> key asc (b ! j) \<le> key asc (b ! i)
    \<and> key asc (a ! i) \<le> key asc (b ! i) \<and> key asc (a ! j) \<le> key asc (b ! i)"
  using assms by (auto simp: order_swap_def before_key xor_swap_distinct mset_swap_list nth_list_update)

text \<open>The two exchanges of one round of the loop.\<close>

definition node_swaps :: "bool \<Rightarrow> nat \<Rightarrow> nat \<Rightarrow> u32 list \<Rightarrow> u32 list option" where
  "node_swaps asc hi i a = Option.bind (order_swap asc (i - 1) (2 * i - 1) a) (\<lambda>a.
     if 2 * i + 1 \<le> hi then order_swap asc (i - 1) (2 * i) a else Some a)"

lemma adjust_loop_Suc:
  "adjust_loop asc hi (Suc i) a = Option.bind (node_swaps asc hi (Suc i) a) (adjust_loop asc hi i)"
  by (simp add: node_swaps_def Let_def mult.commute[of _ 2] del: mult_Suc_right mult_Suc cong: if_cong)

lemma pred_neq: "0 < p \<Longrightarrow> 0 < q \<Longrightarrow> p - Suc 0 = q - Suc 0 \<longleftrightarrow> p = q"
  by linarith

lemma node_swaps_ok:
  assumes "0 < i" "2 * i \<le> hi" "hi \<le> length a"
  shows "\<exists>b. node_swaps asc hi i a = Some b \<and> node_ordered asc hi i a b"
proof -
  have "i - 1 < length a" "2 * i - 1 < length a" "i - 1 \<noteq> 2 * i - 1" using assms by linarith+
  from order_swap_ok[OF this, of asc] obtain b where
    b: "order_swap asc (i - 1) (2 * i - 1) a = Some b" "length b = length a" "mset b = mset a"
      "\<forall>p. p \<noteq> i - 1 \<and> p \<noteq> 2 * i - 1 \<longrightarrow> b ! p = a ! p"
      "key asc (b ! (2 * i - 1)) \<le> key asc (b ! (i - 1))" "key asc (a ! (i - 1)) \<le> key asc (b ! (i - 1))"
      "key asc (a ! (2 * i - 1)) \<le> key asc (b ! (i - 1))"
    by blast
  show ?thesis
  proof (cases "2 * i + 1 \<le> hi")
    case False
    with b have "node_swaps asc hi i a = Some b" by (simp add: node_swaps_def)
    moreover have "node_ordered asc hi i a b" using b False assms(1) by (auto simp: node_ordered_def pred_neq)
    ultimately show ?thesis by blast
  next
    case True
    then have "i - 1 < length b" "2 * i < length b" "i - 1 \<noteq> 2 * i" using assms b(2) by linarith+
    from order_swap_ok[OF this, of asc] obtain c where
      c: "order_swap asc (i - 1) (2 * i) b = Some c" "length c = length b" "mset c = mset b"
        "\<forall>p. p \<noteq> i - 1 \<and> p \<noteq> 2 * i \<longrightarrow> c ! p = b ! p"
        "key asc (c ! (2 * i)) \<le> key asc (c ! (i - 1))" "key asc (b ! (i - 1)) \<le> key asc (c ! (i - 1))"
        "key asc (b ! (2 * i)) \<le> key asc (c ! (i - 1))"
      by blast
    have n: "2 * i - 1 \<noteq> i - 1" "2 * i - 1 \<noteq> 2 * i" "2 * i \<noteq> i - 1" using assms(1) by linarith+
    then have "c ! (2 * i - 1) = b ! (2 * i - 1)" "b ! (2 * i) = a ! (2 * i)" using b(4) c(4) by simp_all
    note e = this
    have "c ! (p - 1) = a ! (p - 1)" if "p \<noteq> i" "p \<noteq> 2 * i" "p \<noteq> 2 * i + 1" "0 < p" for p
    proof -
      have "p - 1 \<noteq> i - 1" "p - 1 \<noteq> 2 * i - 1" "p - 1 \<noteq> 2 * i" using that assms(1) by linarith+
      with b(4) c(4) show ?thesis by simp
    qed
    moreover have "key asc (a ! (i - 1)) \<le> key asc (c ! (i - 1))"
      "key asc (a ! (2 * i - 1)) \<le> key asc (c ! (i - 1))" "key asc (c ! (2 * i - 1)) \<le> key asc (c ! (i - 1))"
      "key asc (a ! (2 * i)) \<le> key asc (c ! (i - 1))" using b(5-7) c(5-7) e by simp_all
    ultimately have "node_ordered asc hi i a c"
      unfolding node_ordered_def using b(2,3) c(2,3,5) True by simp
    moreover have "node_swaps asc hi i a = Some c" using b c True by (simp add: node_swaps_def)
    ultimately show ?thesis by blast
  qed
qed

lemma tops_max_step:
  assumes t: "tops_max asc hi (Suc i) a" and o: "node_ordered asc hi i a b" and i: "0 < i" "2 * i \<le> hi"
  shows "tops_max asc hi i b"
  unfolding tops_max_def
proof (intro allI impI)
  fix p assume p: "0 < p \<and> p \<le> hi"
  let ?q = "topmost (Suc i) p"
  have q: "0 < ?q" "?q \<le> hi" using top_range[of "Suc i" p] p by auto
  have ap: "key asc (a ! (p - 1)) \<le> key asc (a ! (?q - 1))" using t p by (simp add: tops_max_def)
  have same: "b ! (r - 1) = a ! (r - 1)" if "r \<notin> {i, 2 * i, 2 * i + 1}" "0 < r" for r
    using o that by (auto simp: node_ordered_def)
  have big: "key asc (a ! (r - 1)) \<le> key asc (b ! (i - 1))" "key asc (b ! (r - 1)) \<le> key asc (b ! (i - 1))"
    if "r \<in> {i, 2 * i, 2 * i + 1}" "r \<le> hi" for r
    using o that by (auto simp: node_ordered_def)
  show "key asc (b ! (p - 1)) \<le> key asc (b ! (topmost i p - 1))"
  proof (cases "?q div 2 = i")
    case True
    then have "?q \<in> {i, 2 * i, 2 * i + 1}" by auto
    then have "key asc (a ! (?q - 1)) \<le> key asc (b ! (i - 1))" using big q by blast
    then have "key asc (b ! (p - 1)) \<le> key asc (b ! (i - 1))"
      using big(2)[of p] same[of p] ap p by (cases "p \<in> {i, 2 * i, 2 * i + 1}") auto
    then show ?thesis using True top_step[of i p] i p by simp
  next
    case False
    then have e: "topmost i p = ?q" using top_step[of i p] i p by simp
    have np: "p \<noteq> 2 * i" "p \<noteq> 2 * i + 1" using False top_here[of p "Suc i"] by auto
    have nq: "?q \<noteq> 2 * i" "?q \<noteq> 2 * i + 1" using False by auto
    show ?thesis
    proof (cases "p = i")
      case True
      then have "p div 2 \<le> i" by simp
      then have "?q = p" by (intro top_here) linarith
      then show ?thesis using e by simp
    next
      case pi: False
      then have "b ! (p - 1) = a ! (p - 1)" using same np p by simp
      moreover have "key asc (a ! (?q - 1)) \<le> key asc (b ! (?q - 1))"
        using big(1)[of i] same[of ?q] nq q i by (cases "?q = i") auto
      ultimately show ?thesis using ap e by simp
    qed
  qed
qed

lemma tops_max_start: "tops_max asc hi (Suc (hi div 2)) a"
  unfolding tops_max_def
proof (intro allI impI)
  fix p assume "0 < p \<and> p \<le> hi"
  then have "p div 2 < Suc (hi div 2)" by (simp add: div_le_mono le_imp_less_Suc)
  then show "key asc (a ! (p - 1)) \<le> key asc (a ! (topmost (Suc (hi div 2)) p - 1))" by (simp add: top_here)
qed

text \<open>Elements behind \<open>hi\<close> stay where they are.\<close>

lemma adjust_loop_ok:
  "tops_max asc hi (Suc i) a \<Longrightarrow> 2 * i \<le> hi \<Longrightarrow> hi \<le> length a \<Longrightarrow>
   \<exists>b. adjust_loop asc hi i a = Some b \<and> tops_max asc hi 1 b \<and> length b = length a \<and> mset b = mset a
     \<and> drop hi b = drop hi a"
proof (induction i arbitrary: a)
  case (Suc i)
  obtain b where b: "node_swaps asc hi (Suc i) a = Some b" "node_ordered asc hi (Suc i) a b"
    using node_swaps_ok[of "Suc i" hi a asc] Suc.prems by auto
  have t: "tops_max asc hi (Suc i) b"
    using tops_max_step[OF _ b(2)] Suc.prems by simp
  have len: "length b = length a" and ms: "mset b = mset a" using b(2) by (simp_all add: node_ordered_def)
  have "drop hi b = drop hi a"
  proof (rule nth_equalityI)
    fix j assume "j < length (drop hi b)"
    let ?p = "Suc (hi + j)"
    have "?p \<noteq> Suc i" "?p \<noteq> 2 * Suc i" "?p \<noteq> 2 * Suc i + 1 \<or> hi < ?p" "0 < ?p" using Suc.prems(2) by auto
    then have "b ! (?p - 1) = a ! (?p - 1)" using b(2) unfolding node_ordered_def by blast
    then show "drop hi b ! j = drop hi a ! j" using len Suc.prems(3) by simp
  qed (simp add: len)
  moreover obtain c where "adjust_loop asc hi i b = Some c" "tops_max asc hi 1 c" "length c = length b"
    "mset c = mset b" "drop hi c = drop hi b"
    using Suc.IH[OF t] Suc.prems len by auto
  ultimately show ?case using b(1) len ms by (simp add: adjust_loop_Suc del: adjust_loop.simps)
qed simp

lemma heap_adjust_ok:
  assumes "1 < hi" "hi \<le> length a"
  shows "\<exists>b. heap_adjust a hi asc = Some b \<and> length b = length a \<and> mset (take hi b) = mset (take hi a)
    \<and> drop hi b = drop hi a \<and> (\<forall>x\<in>set (take hi b). key asc x \<le> key asc (b ! (hi - 1)))"
proof -
  obtain b where b: "adjust_loop asc hi (hi div 2) a = Some b" "tops_max asc hi 1 b" "length b = length a"
    "mset b = mset a" "drop hi b = drop hi a"
    using adjust_loop_ok[OF tops_max_start, of hi a asc] assms by auto
  let ?c = "b[0 := b ! (hi - 1), hi - 1 := b ! 0]"
  have l: "0 < length b" "hi - 1 < length b" "0 \<noteq> hi - 1" using assms b(3) by linarith+
  have c: "heap_adjust a hi asc = Some ?c"
    using b(1) l xor_swap_distinct[of 0 b "hi - 1"] by (simp add: heap_adjust_def)
  have d: "drop hi ?c = drop hi a" using b(5) assms(1) by simp
  have m: "mset ?c = mset a" using mset_swap_list[OF l(1,2)] b(4) by simp
  have "mset (take hi ?c) + mset (drop hi ?c) = mset (take hi a) + mset (drop hi a)"
    unfolding mset_append[symmetric] append_take_drop_id by (rule m)
  then have t: "mset (take hi ?c) = mset (take hi a)" using d by simp
  have top: "key asc (b ! j) \<le> key asc (b ! 0)" if "j < hi" for j
    using b(2) that top_one[of "Suc j"] unfolding tops_max_def by (metis Suc_leI diff_Suc_1 diff_self_eq_0 zero_less_Suc)
  have "key asc x \<le> key asc (?c ! (hi - 1))" if x: "x \<in> set (take hi ?c)" for x
  proof -
    have "mset (take hi b) + mset (drop hi b) = mset (take hi a) + mset (drop hi a)"
      unfolding mset_append[symmetric] append_take_drop_id by (rule b(4))
    then have "set (take hi ?c) = set (take hi b)" using t b(5) by (metis add_right_imp_eq set_mset_mset)
    with x have "x \<in> set (take hi b)" by simp
    then obtain j where "j < hi" "x = b ! j" using assms b(3) by (auto simp: in_set_conv_nth)
    then show ?thesis using top l by simp
  qed
  with c d t b(3) show ?thesis by (intro exI[of _ ?c]) simp
qed

text \<open>The part behind \<open>n\<close> is sorted, and no smaller than the part before.\<close>

definition split_sorted :: "bool \<Rightarrow> nat \<Rightarrow> u32 list \<Rightarrow> bool" where
  "split_sorted asc n a \<longleftrightarrow> sorted (map (key asc) (drop n a))
     \<and> (\<forall>x\<in>set (take n a). \<forall>y\<in>set (drop n a). key asc x \<le> key asc y)"

lemma heap_sort_loop_ok:
  "split_sorted asc n a \<Longrightarrow> n \<le> length a \<Longrightarrow>
   \<exists>b. heap_sort_loop asc n a = Some b \<and> mset b = mset a \<and> sorted (map (key asc) b)"
proof (induction n arbitrary: a)
  case 0
  then show ?case by (simp add: split_sorted_def)
next
  case (Suc n)
  show ?case
  proof (cases "n = 0")
    case True
    then have "sorted (map (key asc) (take 1 a @ drop 1 a))"
      using Suc.prems unfolding map_append split_sorted_def by (cases a) (auto simp: sorted_append)
    then show ?thesis using True by (simp del: take_Suc)
  next
    case False
    then obtain b where b: "heap_adjust a (Suc n) asc = Some b" "length b = length a"
      "mset (take (Suc n) b) = mset (take (Suc n) a)" "drop (Suc n) b = drop (Suc n) a"
      "\<forall>x\<in>set (take (Suc n) b). key asc x \<le> key asc (b ! n)"
      using heap_adjust_ok[of "Suc n" a asc] Suc.prems by auto
    have dn: "drop n b = b ! n # drop (Suc n) b" using Suc.prems(2) b(2) by (simp add: Cons_nth_drop_Suc)
    have tn: "take (Suc n) b = take n b @ [b ! n]" using Suc.prems(2) b(2) by (simp add: take_Suc_conv_app_nth)
    have st: "set (take (Suc n) b) = set (take (Suc n) a)" using b(3) by (rule mset_eq_setD)
    have le: "\<forall>x\<in>set (take (Suc n) b). \<forall>y\<in>set (drop (Suc n) b). key asc x \<le> key asc y"
      using Suc.prems(1) b(4) st unfolding split_sorted_def by auto
    have so: "sorted (map (key asc) (drop (Suc n) b))" using Suc.prems(1) b(4) by (simp add: split_sorted_def)
    have "split_sorted asc n b" using le so b(5) unfolding split_sorted_def dn tn by auto
    then obtain c where "heap_sort_loop asc n b = Some c" "mset c = mset b" "sorted (map (key asc) c)"
      using Suc.IH[of b] Suc.prems(2) b(2) by auto
    moreover have "mset b = mset a"
    proof -
      have "mset (take (Suc n) b) + mset (drop (Suc n) b) = mset (take (Suc n) a) + mset (drop (Suc n) a)"
        using b(3,4) by simp
      then show ?thesis unfolding mset_append[symmetric] append_take_drop_id .
    qed
    ultimately show ?thesis using b(1) False by simp
  qed
qed

lemma partition_loop_stuck:
  assumes "partition_loop arr m lo hi l r = Some y"
  shows "(arr, m, lo, hi, l, r) \<noteq> ([1, 1, 1], 0, 0, 2, 1, 2)"
proof (rule partition_loop.raw_induct[where P = "\<lambda>arr m lo hi l r y. (arr, m, lo, hi, l, r) \<noteq> ([1, 1, 1], 0, 0, 2, 1, 2)",
      OF _ assms])
  fix loop :: "u32 list \<Rightarrow> int \<Rightarrow> int \<Rightarrow> int \<Rightarrow> int \<Rightarrow> int \<Rightarrow> (u32 list \<times> int) option"
  fix arr :: "u32 list" and m lo hi l r :: int and y
  assume ih: "\<And>arr m lo hi l r y. loop arr m lo hi l r = Some y
      \<Longrightarrow> (arr, m, lo, hi, l, r) \<noteq> ([1, 1, 1], 0, 0, 2, 1, 2)"
    and step: "Option.bind (up_loop arr m hi l) (\<lambda>left. Option.bind (down_loop arr m lo r) (\<lambda>right.
      if left \<ge> right then Some (arr, right)
      else loop (xor_swap (nat left) (nat right) arr) m lo hi left right)) = Some y"
  show "(arr, m, lo, hi, l, r) \<noteq> ([1, 1, 1], 0, 0, 2, 1, 2)"
  proof
    assume "(arr, m, lo, hi, l, r) = ([1, 1, 1], 0, 0, 2, 1, 2)"
    with step have "loop [1, 1, 1] 0 0 2 1 2 = Some y" by (simp add: rdi_def rd_def xor_swap_def)
    from ih[OF this] show False by simp
  qed
qed

section \<open>Properties\<close>

text \<open>
  C18: \<^verbatim>\<open>heap_sort\<close> sorts: for every vector and either direction it stays inside the vector, ends, and
  leaves a permutation in order. One bottom-up pass, which does not sift down, is enough to bring the
  extreme element of the unsorted part to its root, from where it is moved behind.
\<close>

theorem heap_sort_sorts:
  "\<exists>b. heap_sort a asc = Some b \<and> mset b = mset a \<and> sorted (map (key asc) b)"
  unfolding heap_sort_def by (rule heap_sort_loop_ok) (simp_all add: split_sorted_def)

text \<open>
  \<^verbatim>\<open>quick_sort\<close> is wrong on sorted and on repeated input: when the pivot is already in place it is
  exchanged with itself, and the three exclusive-ors turn it into 0, so that 1, 2 becomes 0, 2; and on
  three equal elements neither index ever moves, so that partitioning does not end.
\<close>

theorem quick_sort_defects:
  "quick_sort [1, 2] 0 1 = Some [0, 2] \<and> quick_sort [1, 1, 1] 0 2 = None"
proof -
  have "quick_sort [1, 2] 0 1 = Some [0, 2]" by code_simp
  moreover have "partition_loop [1, 1, 1] 0 0 2 1 2 = None"
    using partition_loop_stuck[of "[1, 1, 1]" 0 0 2 1 2] by (cases "partition_loop [1, 1, 1] 0 0 2 1 2") blast+
  then have "quick_sort [1, 1, 1] 0 2 = None" by (subst quick_sort.simps) simp
  ultimately show ?thesis by simp
qed

end
