(* ===== verification/Tree_Store.thy ===== *)
theory Tree_Store
  imports Prelude "HOL-Library.Tree" "HOL-Library.Monad_Syntax"
begin

text \<open>
  Binary trees of nodes in a store, with pointers to the children and to the parent, as the trees of
  \<^verbatim>\<open>practice\<close> have them.  A pointer is an address or null, a store maps the addresses of live nodes to
  their contents.  \<open>rep\<close> says that the nodes reachable from the root of a tree form it, and the root has a given parent, whose labels are
  the address and the data of each node; \<open>rep_ctx\<close> says it of the nodes above a subtree.  The first
  argument makes a node from its data, parent and children.
\<close>

section \<open>Stores\<close>

type_synonym ptr = "nat option"

record 'n store =
  cells :: "nat \<rightharpoonup> 'n"
  next_free :: nat

definition new_store :: "'n store" where
  "new_store = \<lparr>cells = Map.empty, next_free = 0\<rparr>"

text \<open>Reading or writing through null or a freed address is \<open>None\<close>.\<close>

definition deref :: "'n store \<Rightarrow> ptr \<Rightarrow> 'n option" where
  "deref s p = Option.bind p (cells s)"

definition modify :: "ptr \<Rightarrow> ('n \<Rightarrow> 'n) \<Rightarrow> 'n store \<Rightarrow> 'n store option" where
  "modify p f s = (case p of
     None \<Rightarrow> None
   | Some a \<Rightarrow> (case cells s a of None \<Rightarrow> None | Some n \<Rightarrow> Some (s\<lparr>cells := (cells s)(a \<mapsto> f n)\<rparr>)))"

definition alloc :: "'n \<Rightarrow> 'n store \<Rightarrow> nat \<times> 'n store" where
  "alloc n s = (next_free s, s\<lparr>cells := (cells s)(next_free s \<mapsto> n), next_free := next_free s + 1\<rparr>)"

definition free :: "ptr \<Rightarrow> 'n store \<Rightarrow> 'n store option" where
  "free p s = (case deref s p of
     None \<Rightarrow> None
   | Some n \<Rightarrow> Some (s\<lparr>cells := (cells s)(the p := None)\<rparr>))"

text \<open>The traversals take an order and a callback, which works on the store and on what it captures.\<close>

datatype foreach_type = Front | Mid | Back

type_synonym ('n, 'b) visitor = "nat \<Rightarrow> 'n store \<times> 'b \<Rightarrow> ('n store \<times> 'b) option"

lemma fold_snoc: "fold (\<lambda>v out. out @ [v]) xs ys = ys @ xs"
  by (induction xs arbitrary: ys) auto

lemma fold_count: "fold (\<lambda>v n. Suc n) xs k = length xs + k"
  by (induction xs arbitrary: k) auto

lemma deref_simps [simp]: "deref s None = None" "deref s (Some a) = cells s a"
  by (simp_all add: deref_def)

lemma modify_simps [simp]:
  "modify None f s = None"
  "cells s a = Some n \<Longrightarrow> modify (Some a) f s = Some (s\<lparr>cells := (cells s)(a \<mapsto> f n)\<rparr>)"
  by (simp_all add: modify_def)

lemma free_simps [simp]: "cells s a = Some n \<Longrightarrow> free (Some a) s = Some (s\<lparr>cells := (cells s)(a := None)\<rparr>)"
  by (simp add: free_def)

definition store_ok :: "'n store \<Rightarrow> bool" where
  "store_ok s \<longleftrightarrow> (\<forall>a \<ge> next_free s. cells s a = None)"

lemma store_ok_new [simp]: "store_ok new_store"
  by (simp add: store_ok_def new_store_def)

lemma store_ok_fresh: "store_ok s \<Longrightarrow> cells s (next_free s) = None"
  by (simp add: store_ok_def)

lemma store_ok_upd: "store_ok s \<Longrightarrow> a < next_free s \<Longrightarrow> store_ok (s\<lparr>cells := (cells s)(a := x)\<rparr>)"
  by (simp add: store_ok_def)

lemma store_ok_bound: "store_ok s \<Longrightarrow> cells s a = Some n \<Longrightarrow> a < next_free s"
  unfolding store_ok_def by (metis not_less option.distinct(1))

lemma store_ok_dom: "store_ok s \<Longrightarrow> dom h \<subseteq> dom (cells s) \<Longrightarrow> store_ok (s\<lparr>cells := h\<rparr>)"
  unfolding store_ok_def by (auto simp: dom_def subset_iff)

lemma store_ok_same:
  "store_ok s \<Longrightarrow> next_free s' = next_free s \<Longrightarrow> dom (cells s') = dom (cells s) \<Longrightarrow> store_ok s'"
  unfolding store_ok_def by (metis domIff)

section \<open>Trees\<close>

type_synonym 'd atree = "(nat \<times> 'd) tree"

definition addrs :: "'d atree \<Rightarrow> nat list" where
  "addrs t = map fst (inorder t)"

definition labels :: "'d atree \<Rightarrow> 'd list" where
  "labels t = map snd (inorder t)"

lemma addrs_simps [simp]:
  "addrs \<langle>\<rangle> = []" "addrs \<langle>l, (a, d), r\<rangle> = addrs l @ a # addrs r"
  by (simp_all add: addrs_def)

lemma labels_simps [simp]:
  "labels \<langle>\<rangle> = []" "labels \<langle>l, (a, d), r\<rangle> = labels l @ d # labels r"
  by (simp_all add: labels_def)

definition root_ptr :: "'d atree \<Rightarrow> ptr" where
  "root_ptr t = (case t of \<langle>\<rangle> \<Rightarrow> None | \<langle>l, (a, d), r\<rangle> \<Rightarrow> Some a)"

lemma root_ptr_simps [simp]: "root_ptr \<langle>\<rangle> = None" "root_ptr \<langle>l, (a, d), r\<rangle> = Some a"
  by (simp_all add: root_ptr_def)

lemma root_ptr_None [simp]: "root_ptr t = None \<longleftrightarrow> t = \<langle>\<rangle>"
  by (cases t) auto

lemma root_ptr_Some: "root_ptr t = Some a \<longleftrightarrow> (\<exists>l d r. t = \<langle>l, (a, d), r\<rangle>)"
  by (cases t) auto

lemma root_ptr_in: "root_ptr t = Some a \<Longrightarrow> a \<in> set (addrs t)"
  by (auto simp: root_ptr_Some)

fun rep :: "('d \<Rightarrow> ptr \<Rightarrow> ptr \<Rightarrow> ptr \<Rightarrow> 'n) \<Rightarrow> (nat \<rightharpoonup> 'n) \<Rightarrow> ptr \<Rightarrow> 'd atree \<Rightarrow> bool" where
  "rep mk h par \<langle>\<rangle> \<longleftrightarrow> True"
| "rep mk h par \<langle>l, (a, d), r\<rangle> \<longleftrightarrow>
     h a = Some (mk d par (root_ptr l) (root_ptr r)) \<and> rep mk h (Some a) l \<and> rep mk h (Some a) r"

lemma rep_upd [simp]: "a \<notin> set (addrs t) \<Longrightarrow> rep mk (h(a := x)) par t = rep mk h par t"
  by (induction t arbitrary: par) (auto split: prod.splits)

lemma rep_cong: "(\<And>a. a \<in> set (addrs t) \<Longrightarrow> h' a = h a) \<Longrightarrow> rep mk h' par t = rep mk h par t"
  by (induction t arbitrary: par) auto

lemma rep_dom: "rep mk h par t \<Longrightarrow> a \<in> set (addrs t) \<Longrightarrow> \<exists>n. h a = Some n"
  by (induction t arbitrary: par) auto

section \<open>Contexts\<close>

text \<open>A context leads from a subtree up to the root.\<close>

datatype 'd frame = In_left nat 'd "'d atree" | In_right "'d atree" nat 'd

fun plug :: "'d frame list \<Rightarrow> 'd atree \<Rightarrow> 'd atree" where
  "plug [] t = t"
| "plug (In_left b d r # c) t = plug c \<langle>t, (b, d), r\<rangle>"
| "plug (In_right l b d # c) t = plug c \<langle>l, (b, d), t\<rangle>"

fun before :: "('d atree \<Rightarrow> 'e list) \<Rightarrow> (nat \<times> 'd \<Rightarrow> 'e) \<Rightarrow> 'd frame list \<Rightarrow> 'e list" where
  "before f g [] = []"
| "before f g (In_left b d r # c) = before f g c"
| "before f g (In_right l b d # c) = before f g c @ f l @ [g (b, d)]"

fun behind :: "('d atree \<Rightarrow> 'e list) \<Rightarrow> (nat \<times> 'd \<Rightarrow> 'e) \<Rightarrow> 'd frame list \<Rightarrow> 'e list" where
  "behind f g [] = []"
| "behind f g (In_left b d r # c) = g (b, d) # f r @ behind f g c"
| "behind f g (In_right l b d # c) = behind f g c"

abbreviation ctx_addrs :: "'d frame list \<Rightarrow> nat list" where
  "ctx_addrs c \<equiv> before addrs fst c @ behind addrs fst c"

lemma addrs_plug: "addrs (plug c t) = before addrs fst c @ addrs t @ behind addrs fst c"
  by (induction c t rule: plug.induct) auto

lemma labels_plug: "labels (plug c t) = before labels snd c @ labels t @ behind labels snd c"
  by (induction c t rule: plug.induct) auto

lemma plug_append: "plug (c @ c') t = plug c' (plug c t)"
  by (induction c t rule: plug.induct) auto

lemma before_append [simp]: "before f g (c @ c') = before f g c' @ before f g c"
  by (induction f g c rule: before.induct) auto

lemma behind_append [simp]: "behind f g (c @ c') = behind f g c @ behind f g c'"
  by (induction f g c rule: behind.induct) auto

lemma behind_right: "\<forall>x \<in> set c. \<exists>l b d. x = In_right l b d \<Longrightarrow> behind f g c = []"
  by (induction f g c rule: behind.induct) auto

lemma plug_neq_Leaf [simp]: "plug c t = \<langle>\<rangle> \<longleftrightarrow> c = [] \<and> t = \<langle>\<rangle>"
  by (induction c t rule: plug.induct) auto

fun ctx_parent :: "'d frame list \<Rightarrow> ptr" where
  "ctx_parent [] = None"
| "ctx_parent (In_left b d r # c) = Some b"
| "ctx_parent (In_right l b d # c) = Some b"

text \<open>The nodes of the context, when the hole holds the pointer \<open>p\<close>.\<close>

fun rep_ctx :: "('d \<Rightarrow> ptr \<Rightarrow> ptr \<Rightarrow> ptr \<Rightarrow> 'n) \<Rightarrow> (nat \<rightharpoonup> 'n) \<Rightarrow> ptr \<Rightarrow> 'd frame list \<Rightarrow> bool" where
  "rep_ctx mk h p [] \<longleftrightarrow> True"
| "rep_ctx mk h p (In_left b d r # c) \<longleftrightarrow>
     h b = Some (mk d (ctx_parent c) p (root_ptr r)) \<and> rep mk h (Some b) r \<and> rep_ctx mk h (Some b) c"
| "rep_ctx mk h p (In_right l b d # c) \<longleftrightarrow>
     h b = Some (mk d (ctx_parent c) (root_ptr l) p) \<and> rep mk h (Some b) l \<and> rep_ctx mk h (Some b) c"

lemma rep_ctx_upd [simp]: "a \<notin> set (ctx_addrs c) \<Longrightarrow> rep_ctx mk (h(a := x)) p c = rep_ctx mk h p c"
  by (induction mk h p c rule: rep_ctx.induct) auto

lemma rep_ctx_cong:
  "(\<And>a. a \<in> set (ctx_addrs c) \<Longrightarrow> h' a = h a) \<Longrightarrow> rep_ctx mk h' p c = rep_ctx mk h p c"
proof (induction mk h p c rule: rep_ctx.induct)
  case (2 mk h p b d r c)
  then show ?case using rep_cong [of r h' h] by auto
next
  case (3 mk h p l b d c)
  then show ?case using rep_cong [of l h' h] by auto
qed simp

text \<open>Writes elsewhere leave a tree and a context alone.\<close>

lemma rep_frame:
  "rep mk h par t \<Longrightarrow> \<forall>x. x \<notin> A \<longrightarrow> h' x = h x \<Longrightarrow> set (addrs t) \<inter> A = {} \<Longrightarrow> rep mk h' par t"
  by (subst rep_cong [of t h' h]) auto

lemma rep_ctx_frame:
  "rep_ctx mk h p c \<Longrightarrow> \<forall>x. x \<notin> A \<longrightarrow> h' x = h x \<Longrightarrow> set (ctx_addrs c) \<inter> A = {} \<Longrightarrow> rep_ctx mk h' p c"
  by (subst rep_ctx_cong [of c h' h]) auto

lemma rep_plug: "rep mk h None (plug c t) \<longleftrightarrow> rep mk h (ctx_parent c) t \<and> rep_ctx mk h (root_ptr t) c"
  by (induction c t rule: plug.induct) auto

text \<open>Only the first frame of a context sees the hole.\<close>

lemma ctx_parent_None [simp]: "ctx_parent c = None \<longleftrightarrow> c = []"
  by (cases c rule: ctx_parent.cases) auto

lemma root_ptr_plug: "c \<noteq> [] \<Longrightarrow> root_ptr (plug c t) = root_ptr (plug c t')"
proof (induction c t arbitrary: t' rule: plug.induct)
  case (2 b d r c t)
  then show ?case by (cases "c = []") simp_all
next
  case (3 l b d c t)
  then show ?case by (cases "c = []") simp_all
qed simp

text \<open>A store that holds a tree and nothing else.\<close>

definition held :: "('d \<Rightarrow> ptr \<Rightarrow> ptr \<Rightarrow> ptr \<Rightarrow> 'n) \<Rightarrow> 'n store \<Rightarrow> 'd atree \<Rightarrow> bool" where
  "held mk s t \<longleftrightarrow> rep mk (cells s) None t \<and> distinct (addrs t) \<and> dom (cells s) = set (addrs t) \<and> store_ok s"

lemma held_plug:
  "held mk s (plug c t) \<longleftrightarrow>
     rep mk (cells s) (ctx_parent c) t \<and> rep_ctx mk (cells s) (root_ptr t) c \<and>
     distinct (before addrs fst c @ addrs t @ behind addrs fst c) \<and>
     dom (cells s) = set (addrs t) \<union> set (ctx_addrs c) \<and> store_ok s"
  by (auto simp: held_def rep_plug addrs_plug)

lemma held_cell: "held mk s (plug c \<langle>l, (a, d), r\<rangle>) \<Longrightarrow> cells s a = Some (mk d (ctx_parent c) (root_ptr l) (root_ptr r))"
  by (simp add: held_plug)

lemma held_freed:
  assumes "rep mk h (ctx_parent c) t" and "rep_ctx mk h (root_ptr t) c"
    and "distinct (a # before addrs fst c @ addrs t @ behind addrs fst c)"
    and "dom h = dom (cells s)" and "dom (cells s) = insert a (set (addrs t) \<union> set (ctx_addrs c))" and "store_ok s"
  shows "held mk (s\<lparr>cells := h(a := None)\<rparr>) (plug c t)"
proof -
  have "store_ok (s\<lparr>cells := h(a := None)\<rparr>)"
    using assms(4,6) by (intro store_ok_dom) auto
  with assms show ?thesis by (auto simp: held_plug)
qed

lemma store_ok_held: "held mk s t \<Longrightarrow> a \<in> set (addrs t) \<Longrightarrow> a < next_free s"
  by (metis held_def domD store_ok_bound)

section \<open>Nodes with links\<close>

text \<open>What the proofs about pointer surgery need of a node type: its links can be read and set one by one.\<close>

locale node_layout =
  fixes mk :: "'d \<Rightarrow> ptr \<Rightarrow> ptr \<Rightarrow> ptr \<Rightarrow> 'n"
    and get_left get_right :: "'n \<Rightarrow> ptr"
    and set_par set_left set_right :: "ptr \<Rightarrow> 'n \<Rightarrow> 'n"
  assumes get_left_law [simp]: "get_left (mk d par l r) = l"
    and get_right_law [simp]: "get_right (mk d par l r) = r"
    and set_par_law [simp]: "set_par q (mk d par l r) = mk d q l r"
    and set_left_law [simp]: "set_left q (mk d par l r) = mk d par q r"
    and set_right_law [simp]: "set_right q (mk d par l r) = mk d par l q"
begin

lemma reparent:
  assumes "rep mk (cells s) q t" and "distinct (addrs t)" and "t \<noteq> \<langle>\<rangle>"
  shows "\<exists>h. modify (root_ptr t) (set_par par) s = Some (s\<lparr>cells := h\<rparr>) \<and> rep mk h par t \<and>
    dom h = dom (cells s) \<and> (\<forall>x. x \<notin> set (addrs t) \<longrightarrow> h x = cells s x)"
proof -
  obtain l a v r where t: "t = \<langle>l, (a, v), r\<rangle>"
    using assms(3) by (metis tree.exhaust surj_pair)
  show ?thesis
    by (rule exI [of _ "(cells s)(a \<mapsto> mk v par (root_ptr l) (root_ptr r))"])
      (use assms in \<open>auto simp: t\<close>)
qed

lemma relink_parent:
  assumes "rep_ctx mk (cells s) (Some a) c" and "c \<noteq> []" and "a \<notin> set (ctx_addrs c)" and "distinct (ctx_addrs c)"
  shows "\<exists>q h. deref s (ctx_parent c) = Some q \<and> (get_left q = Some a \<or> get_right q = Some a) \<and>
    modify (ctx_parent c) (if get_left q = Some a then set_left p else set_right p) s = Some (s\<lparr>cells := h\<rparr>) \<and>
    rep_ctx mk h p c \<and> dom h = dom (cells s) \<and> (\<forall>x. x \<notin> set (ctx_addrs c) \<longrightarrow> h x = cells s x)"
proof (cases c rule: list.exhaust)
  case (Cons f c')
  show ?thesis
  proof (cases f)
    case (In_left b v r)
    show ?thesis
      by (rule exI [of _ "mk v (ctx_parent c') (Some a) (root_ptr r)"],
          rule exI [of _ "(cells s)(b \<mapsto> mk v (ctx_parent c') p (root_ptr r))"])
        (use assms in \<open>auto simp: Cons In_left\<close>)
  next
    case (In_right l b v)
    from assms(3) have "root_ptr l \<noteq> Some a"
      using root_ptr_in by (fastforce simp: Cons In_right)
    then show ?thesis
      by (intro exI [of _ "mk v (ctx_parent c') (root_ptr l) (Some a)"]
          exI [of _ "(cells s)(b \<mapsto> mk v (ctx_parent c') (root_ptr l) p)"])
        (use assms in \<open>auto simp: Cons In_right\<close>)
  qed
qed (use assms in simp)

end

section \<open>The way down\<close>

text \<open>A search compares its key with a node's data and stays there or goes on to one of the sides.\<close>

datatype turn = Stay | Go_left | Go_right

fun descend :: "('d \<Rightarrow> turn) \<Rightarrow> 'd atree \<Rightarrow> 'd frame list \<Rightarrow> 'd atree \<times> 'd frame list" where
  "descend f \<langle>\<rangle> c = (\<langle>\<rangle>, c)"
| "descend f \<langle>l, (a, d), r\<rangle> c = (case f d of
     Stay \<Rightarrow> (\<langle>l, (a, d), r\<rangle>, c)
   | Go_left \<Rightarrow> descend f l (In_left a d r # c)
   | Go_right \<Rightarrow> descend f r (In_right l a d # c))"

lemma descend_plug: "descend f t c = (t', c') \<Longrightarrow> plug c' t' = plug c t"
  by (induction f t c rule: descend.induct) (auto split: turn.splits)

lemma descend_stay: "descend f t c = (\<langle>l, (a, d), r\<rangle>, c') \<Longrightarrow> f d = Stay"
  by (induction f t c rule: descend.induct) (auto split: turn.splits)

text \<open>The last turn leads to the hole.\<close>

fun last_turn :: "('d \<Rightarrow> turn) \<Rightarrow> 'd frame list \<Rightarrow> bool" where
  "last_turn f [] \<longleftrightarrow> True"
| "last_turn f (In_left a d r # c) \<longleftrightarrow> f d = Go_left"
| "last_turn f (In_right l a d # c) \<longleftrightarrow> f d = Go_right"

lemma descend_last_turn: "descend f t c = (t', c') \<Longrightarrow> last_turn f c \<Longrightarrow> last_turn f c'"
  by (induction f t c rule: descend.induct) (auto split: turn.splits)

text \<open>
  In a tree where the nodes to the left of a left turn, and to the right of a right turn, turn the same way,
  a search that finds nothing ends between the nodes that sent it right and those that sent it left.
\<close>

definition ordered_for :: "('d \<Rightarrow> turn) \<Rightarrow> 'd list \<Rightarrow> bool" where
  "ordered_for f ds \<longleftrightarrow>
     sorted_wrt (\<lambda>d e. (f e = Go_right \<longrightarrow> f d = Go_right) \<and> (f d = Go_left \<longrightarrow> f e = Go_left)) ds"

lemma ordered_for_append:
  "ordered_for f (ds @ d # es) \<Longrightarrow> f d = Go_left \<Longrightarrow> e \<in> set es \<Longrightarrow> f e = Go_left"
  "ordered_for f (ds @ d # es) \<Longrightarrow> f d = Go_right \<Longrightarrow> e \<in> set ds \<Longrightarrow> f e = Go_right"
  "ordered_for f (ds @ d # es) \<Longrightarrow> ordered_for f ds" "ordered_for f (ds @ d # es) \<Longrightarrow> ordered_for f es"
  by (auto simp: ordered_for_def sorted_wrt_append)

lemma descend_between:
  assumes "descend f t c = (t', c')" and "ordered_for f (labels t)"
    and "\<forall>d \<in> set (before labels snd c). f d = Go_right" and "\<forall>d \<in> set (behind labels snd c). f d = Go_left"
  shows "(\<forall>d \<in> set (before labels snd c'). f d = Go_right) \<and> (\<forall>d \<in> set (behind labels snd c'). f d = Go_left)"
  using assms
proof (induction f t c rule: descend.induct)
  case (2 f l a d r c)
  from 2(4) have ord: "ordered_for f (labels l @ d # labels r)" by simp
  show ?case
  proof (cases "f d")
    case Stay
    with 2(3,5,6) show ?thesis by simp
  next
    case Go_left
    moreover have "\<forall>e \<in> set (labels r). f e = Go_left"
      using ordered_for_append(1) [OF ord Go_left] by blast
    ultimately show ?thesis
      using 2(3,5,6) ordered_for_append(3) [OF ord] by (intro 2(1)) auto
  next
    case Go_right
    moreover have "\<forall>e \<in> set (labels l). f e = Go_right"
      using ordered_for_append(2) [OF ord Go_right] by blast
    ultimately show ?thesis
      using 2(3,5,6) ordered_for_append(4) [OF ord] by (intro 2(2)) auto
  qed
qed simp

lemma descend_finds:
  assumes "descend f t [] = (t', c)" and "ordered_for f (labels t)"
  shows "t' = \<langle>\<rangle> \<longleftrightarrow> (\<forall>d \<in> set (labels t). f d \<noteq> Stay)"
proof -
  have t: "labels t = before labels snd c @ labels t' @ behind labels snd c"
    using descend_plug [OF assms(1)] by (metis labels_plug plug.simps(1))
  have away: "(\<forall>d \<in> set (before labels snd c). f d = Go_right) \<and> (\<forall>d \<in> set (behind labels snd c). f d = Go_left)"
    using descend_between [OF assms] by simp
  show ?thesis
  proof (cases t')
    case Leaf
    with t away show ?thesis by auto
  next
    case (Node l x r)
    moreover obtain a d where "x = (a, d)" by (cases x)
    ultimately show ?thesis
      using descend_stay [of f t "[]" l a d r c] assms(1) t by auto
  qed
qed

section \<open>Collections in a store\<close>

datatype tree_op = Insert int | Erase int

fun run_ops :: "(int \<Rightarrow> 's \<Rightarrow> 's option) \<Rightarrow> (int \<Rightarrow> 's \<Rightarrow> 's option) \<Rightarrow> tree_op list \<Rightarrow> 's \<Rightarrow> 's option" where
  "run_ops ins del [] s = Some s"
| "run_ops ins del (Insert x # ops) s = do { s \<leftarrow> ins x s; run_ops ins del ops s }"
| "run_ops ins del (Erase x # ops) s = do { s \<leftarrow> del x s; run_ops ins del ops s }"

fun abs_ops :: "(int \<Rightarrow> 'm \<Rightarrow> 'm) \<Rightarrow> (int \<Rightarrow> 'm \<Rightarrow> 'm) \<Rightarrow> tree_op list \<Rightarrow> 'm \<Rightarrow> 'm" where
  "abs_ops add sub [] m = m"
| "abs_ops add sub (Insert x # ops) m = abs_ops add sub ops (add x m)"
| "abs_ops add sub (Erase x # ops) m = abs_ops add sub ops (sub x m)"

text \<open>A structure in a store that stands for an abstract collection, operation by operation.\<close>

locale stored_collection =
  fixes stands_for :: "'s \<Rightarrow> 'm \<Rightarrow> bool"
    and ins del :: "int \<Rightarrow> 's \<Rightarrow> 's option"
    and add sub :: "int \<Rightarrow> 'm \<Rightarrow> 'm"
  assumes ins_law: "stands_for s m \<Longrightarrow> \<exists>s'. ins x s = Some s' \<and> stands_for s' (add x m)"
    and del_law: "stands_for s m \<Longrightarrow> \<exists>s'. del x s = Some s' \<and> stands_for s' (sub x m)"
begin

lemma run_law: "stands_for s m \<Longrightarrow> \<exists>s'. run_ops ins del ops s = Some s' \<and> stands_for s' (abs_ops add sub ops m)"
proof (induction ops arbitrary: s m)
  case (Cons op ops)
  show ?case
  proof (cases op)
    case (Insert x)
    obtain s1 where "ins x s = Some s1" "stands_for s1 (add x m)"
      using ins_law [OF Cons.prems] by blast
    with Cons.IH [of s1 "add x m"] Insert show ?thesis by simp
  next
    case (Erase x)
    obtain s1 where "del x s = Some s1" "stands_for s1 (sub x m)"
      using del_law [OF Cons.prems] by blast
    with Cons.IH [of s1 "sub x m"] Erase show ?thesis by simp
  qed
qed simp

end

end
