(* ===== verification/Search_Tree.thy ===== *)
theory Search_Tree
  imports Tree_Store
begin

text \<open>
  The binary search tree of \<^verbatim>\<open>practice/tree.h\<close>, with \<open>int\<close> for its element type as in \<^verbatim>\<open>practice/tree.cpp\<close>.
  The root node is never freed by an erase: an empty tree is a root that is marked invalid.
\<close>

section \<open>The code\<close>

record tnode =
  t_left :: ptr
  t_right :: ptr
  t_parent :: ptr
  t_value :: int
  t_valid :: bool

definition new_tnode :: tnode where
  "new_tnode = \<lparr>t_left = None, t_right = None, t_parent = None, t_value = 0, t_valid = True\<rparr>"

definition create_root_of :: "int \<Rightarrow> tnode store \<Rightarrow> nat \<times> tnode store" where
  "create_root_of t s = alloc (new_tnode\<lparr>t_value := t\<rparr>) s"

definition create_root :: "tnode store \<Rightarrow> nat \<times> tnode store" where
  "create_root s = alloc (new_tnode\<lparr>t_valid := False\<rparr>) s"

definition stops :: "ptr \<Rightarrow> tnode store \<times> 'b \<Rightarrow> bool option" where
  "stops p w = (if p = None then Some True else do { n \<leftarrow> deref (fst w) p; Some (\<not> t_valid n) })"

partial_function (option) foreach_front :: "(tnode, 'b) visitor \<Rightarrow> ptr \<Rightarrow> tnode store \<times> 'b \<Rightarrow> (tnode store \<times> 'b) option" where
  "foreach_front cb p w = do {
     stop \<leftarrow> stops p w;
     if stop then Some w
     else do {
       w \<leftarrow> cb (the p) w;
       n \<leftarrow> deref (fst w) p;
       w \<leftarrow> foreach_front cb (t_left n) w;
       n \<leftarrow> deref (fst w) p;
       foreach_front cb (t_right n) w } }"

partial_function (option) foreach_middle :: "(tnode, 'b) visitor \<Rightarrow> ptr \<Rightarrow> tnode store \<times> 'b \<Rightarrow> (tnode store \<times> 'b) option" where
  "foreach_middle cb p w = do {
     stop \<leftarrow> stops p w;
     if stop then Some w
     else do {
       n \<leftarrow> deref (fst w) p;
       w \<leftarrow> foreach_middle cb (t_left n) w;
       w \<leftarrow> cb (the p) w;
       n \<leftarrow> deref (fst w) p;
       foreach_middle cb (t_right n) w } }"

partial_function (option) foreach_back :: "(tnode, 'b) visitor \<Rightarrow> ptr \<Rightarrow> tnode store \<times> 'b \<Rightarrow> (tnode store \<times> 'b) option" where
  "foreach_back cb p w = do {
     stop \<leftarrow> stops p w;
     if stop then Some w
     else do {
       n \<leftarrow> deref (fst w) p;
       w \<leftarrow> foreach_back cb (t_left n) w;
       n \<leftarrow> deref (fst w) p;
       w \<leftarrow> foreach_back cb (t_right n) w;
       cb (the p) w } }"

text \<open>What \<^verbatim>\<open>print\<close> writes between its brackets, value by value.\<close>

definition print_values :: "ptr \<Rightarrow> foreach_type \<Rightarrow> tnode store \<Rightarrow> int list option" where
  "print_values root type s = do {
     let cb = (\<lambda>a (s, out). do { n \<leftarrow> deref s (Some a); Some (s, out @ [t_value n]) });
     (_, out) \<leftarrow> (case type of
        Front \<Rightarrow> foreach_front cb root (s, [])
      | Mid \<Rightarrow> foreach_middle cb root (s, [])
      | Back \<Rightarrow> foreach_back cb root (s, []));
     Some out }"

partial_function (option) tree_find :: "ptr \<Rightarrow> int \<Rightarrow> tnode store \<Rightarrow> ptr option" where
  "tree_find root t s = (if root = None then Some None
   else do {
     n \<leftarrow> deref s root;
     if \<not> t_valid n then Some None
     else if t_value n = t then Some root
     else if t_value n > t then tree_find (t_left n) t s
     else tree_find (t_right n) t s })"

partial_function (option) tree_insert :: "ptr \<Rightarrow> int \<Rightarrow> tnode store \<Rightarrow> tnode store option" where
  "tree_insert root t s = do {
     n \<leftarrow> deref s root;
     if \<not> t_valid n then do {
       s \<leftarrow> modify root (t_valid_update (\<lambda>_. True)) s;
       modify root (t_value_update (\<lambda>_. t)) s }
     else if t = t_value n then Some s
     else if t_value n > t then
       (if t_left n = None then do {
          let (nnode, s) = alloc new_tnode s;
          s \<leftarrow> modify (Some nnode) (t_value_update (\<lambda>_. t)) s;
          s \<leftarrow> modify (Some nnode) (t_parent_update (\<lambda>_. root)) s;
          modify root (t_left_update (\<lambda>_. Some nnode)) s }
        else tree_insert (t_left n) t s)
     else
       (if t_right n = None then do {
          let (nnode, s) = alloc new_tnode s;
          s \<leftarrow> modify (Some nnode) (t_value_update (\<lambda>_. t)) s;
          s \<leftarrow> modify (Some nnode) (t_parent_update (\<lambda>_. root)) s;
          modify root (t_right_update (\<lambda>_. Some nnode)) s }
        else tree_insert (t_right n) t s) }"

text \<open>The child link of \<open>par\<close> that leads to \<open>old\<close>, the right one if the left does not, is set to \<open>new\<close>.\<close>

definition relink :: "ptr \<Rightarrow> ptr \<Rightarrow> ptr \<Rightarrow> tnode store \<Rightarrow> tnode store option" where
  "relink par old new s = do {
     q \<leftarrow> deref s par;
     if t_left q = old then modify par (t_left_update (\<lambda>_. new)) s
     else modify par (t_right_update (\<lambda>_. new)) s }"

definition set_parent :: "ptr \<Rightarrow> ptr \<Rightarrow> tnode store \<Rightarrow> tnode store option" where
  "set_parent p par s = modify p (t_parent_update (\<lambda>_. par)) s"

text \<open>\<^verbatim>\<open>if (p) p->parent = par;\<close>\<close>

definition adopt :: "ptr \<Rightarrow> ptr \<Rightarrow> tnode store \<Rightarrow> tnode store option" where
  "adopt p par s = (if p \<noteq> None then set_parent p par s else Some s)"

definition erase_leaf :: "ptr \<Rightarrow> tnode store \<Rightarrow> tnode store option" where
  "erase_leaf p s = do {
     n \<leftarrow> deref s p;
     if t_parent n \<noteq> None then do {
       s \<leftarrow> relink (t_parent n) p None s;
       free p s }
     else modify p (t_valid_update (\<lambda>_. False)) s }"

definition erase_single :: "ptr \<Rightarrow> tnode store \<Rightarrow> tnode store option" where
  "erase_single p s = do {
     n \<leftarrow> deref s p;
     let nxt = (if t_left n \<noteq> None then t_left n else t_right n);
     if t_parent n \<noteq> None then do {
       s \<leftarrow> relink (t_parent n) p nxt s;
       n \<leftarrow> deref s p;
       s \<leftarrow> set_parent nxt (t_parent n) s;
       free p s }
     else do {
       m \<leftarrow> deref s nxt;
       s \<leftarrow> modify p (t_value_update (\<lambda>_. t_value m)) s;
       s \<leftarrow> modify p (t_left_update (\<lambda>_. t_left m)) s;
       s \<leftarrow> modify p (t_right_update (\<lambda>_. t_right m)) s;
       s \<leftarrow> adopt (t_left m) p s;
       s \<leftarrow> adopt (t_right m) p s;
       free nxt s } }"

partial_function (option) rightmost :: "ptr \<Rightarrow> tnode store \<Rightarrow> ptr option" where
  "rightmost p s = do {
     n \<leftarrow> deref s p;
     if t_right n \<noteq> None then rightmost (t_right n) s else Some p }"

definition erase_double :: "ptr \<Rightarrow> tnode store \<Rightarrow> tnode store option" where
  "erase_double p s = do {
     n \<leftarrow> deref s p;
     last \<leftarrow> rightmost (t_left n) s;
     m \<leftarrow> deref s last;
     s \<leftarrow> modify p (t_value_update (\<lambda>_. t_value m)) s;
     m \<leftarrow> deref s last;
     s \<leftarrow> (if t_parent m = p then modify (t_parent m) (t_left_update (\<lambda>_. t_left m)) s
           else modify (t_parent m) (t_right_update (\<lambda>_. t_left m)) s);
     s \<leftarrow> adopt (t_left m) (t_parent m) s;
     free last s }"

definition erase_node :: "ptr \<Rightarrow> tnode store \<Rightarrow> tnode store option" where
  "erase_node p s = do {
     n \<leftarrow> deref s p;
     if t_left n = None \<and> t_right n = None then erase_leaf p s
     else if t_left n = None \<or> t_right n = None then erase_single p s
     else erase_double p s }"

partial_function (option) tree_erase :: "ptr \<Rightarrow> int \<Rightarrow> tnode store \<Rightarrow> tnode store option" where
  "tree_erase node t s = (if node = None then Some s
   else do {
     n \<leftarrow> deref s node;
     if \<not> t_valid n then Some s
     else if t = t_value n then erase_node node s
     else if t_value n > t then tree_erase (t_left n) t s
     else tree_erase (t_right n) t s })"

definition tree_size :: "ptr \<Rightarrow> tnode store \<Rightarrow> nat option" where
  "tree_size root s = map_option snd (foreach_back (\<lambda>a (s, cnt). Some (s, cnt + 1)) root (s, 0))"

definition tree_destroy :: "ptr \<Rightarrow> tnode store \<Rightarrow> tnode store option" where
  "tree_destroy root s =
     map_option fst (foreach_back (\<lambda>a (s, u). map_option (\<lambda>s. (s, u)) (free (Some a) s)) root (s, ()))"

declare foreach_front.simps [code] foreach_middle.simps [code] foreach_back.simps [code] tree_find.simps [code]
  tree_insert.simps [code] rightmost.simps [code] tree_erase.simps [code]

section \<open>Nodes and trees\<close>

definition mkt :: "int \<Rightarrow> ptr \<Rightarrow> ptr \<Rightarrow> ptr \<Rightarrow> tnode" where
  "mkt v par l r = \<lparr>t_left = l, t_right = r, t_parent = par, t_value = v, t_valid = True\<rparr>"

lemma mkt_simps [simp]:
  "t_left (mkt v par l r) = l" "t_right (mkt v par l r) = r" "t_parent (mkt v par l r) = par"
  "t_value (mkt v par l r) = v" "t_valid (mkt v par l r)"
  "t_left_update (\<lambda>_. x) (mkt v par l r) = mkt v par x r"
  "t_right_update (\<lambda>_. x) (mkt v par l r) = mkt v par l x"
  "t_parent_update (\<lambda>_. x) (mkt v par l r) = mkt v x l r"
  "t_value_update (\<lambda>_. w) (mkt v par l r) = mkt w par l r"
  by (simp_all add: mkt_def)

interpretation tree_nodes: node_layout mkt t_left t_right "\<lambda>p. t_parent_update (\<lambda>_. p)" "\<lambda>p. t_left_update (\<lambda>_. p)"
    "\<lambda>p. t_right_update (\<lambda>_. p)"
  by unfold_locales simp_all

lemma adopt_rep:
  assumes "rep mkt (cells s) q t" and "distinct (addrs t)"
  shows "\<exists>h. adopt (root_ptr t) par s = Some (s\<lparr>cells := h\<rparr>) \<and> rep mkt h par t \<and>
    dom h = dom (cells s) \<and> (\<forall>x. x \<notin> set (addrs t) \<longrightarrow> h x = cells s x)"
proof (cases "t = \<langle>\<rangle>")
  case True
  then show ?thesis by (intro exI [of _ "cells s"]) (simp add: adopt_def)
next
  case False
  then show ?thesis
    using tree_nodes.reparent [OF assms] by (simp add: adopt_def set_parent_def del: not_None_eq)
qed

lemma relink_ctx:
  assumes "rep_ctx mkt (cells s) (Some a) c" and "c \<noteq> []" and "a \<notin> set (ctx_addrs c)" and "distinct (ctx_addrs c)"
  shows "\<exists>h. relink (ctx_parent c) (Some a) p s = Some (s\<lparr>cells := h\<rparr>) \<and> rep_ctx mkt h p c \<and>
    dom h = dom (cells s) \<and> (\<forall>x. x \<notin> set (ctx_addrs c) \<longrightarrow> h x = cells s x)"
  using tree_nodes.relink_parent [OF assms, of p] by (auto simp: relink_def if_distrib [of "\<lambda>f. modify _ f _"] cong: if_cong)

section \<open>Erasing a node\<close>

text \<open>Taking a node with at most one child out of a tree, when it is not the root.\<close>

definition unlinked :: "nat \<Rightarrow> int frame list \<Rightarrow> int atree \<Rightarrow> tnode store \<Rightarrow> tnode store \<Rightarrow> tnode store \<Rightarrow> bool" where
  "unlinked a c t s s1 s2 \<longleftrightarrow>
     relink (ctx_parent c) (Some a) (root_ptr t) s = Some s1 \<and> adopt (root_ptr t) (ctx_parent c) s1 = Some s2 \<and>
     cells s1 a = cells s a \<and> cells s2 a = cells s a \<and> held mkt (s2\<lparr>cells := (cells s2)(a := None)\<rparr>) (plug c t)"

lemma splice_out:
  assumes "held mkt s (plug c \<langle>l, (a, v), r\<rangle>)" and "c \<noteq> []" and "l = \<langle>\<rangle> \<and> t = r \<or> r = \<langle>\<rangle> \<and> t = l"
  obtains s1 s2 where "unlinked a c t s s1 s2"
proof -
  note h = assms(1) [unfolded held_plug, simplified]
  have t: "rep mkt (cells s) (Some a) t" "addrs l @ addrs r = addrs t"
    using assms(3) h by auto
  have d: "distinct (a # before addrs fst c @ addrs t @ behind addrs fst c)"
    using h t(2) [symmetric] by auto
  obtain h1 where h1: "relink (ctx_parent c) (Some a) (root_ptr t) s = Some (s\<lparr>cells := h1\<rparr>)" "rep_ctx mkt h1 (root_ptr t) c"
    "dom h1 = dom (cells s)" "\<forall>x. x \<notin> set (ctx_addrs c) \<longrightarrow> h1 x = cells s x"
    using relink_ctx [of s a c "root_ptr t"] h assms(2) by auto
  have t1: "rep mkt h1 (Some a) t"
    by (rule rep_frame [OF t(1) h1(4)]) (use d in auto)
  obtain h2 where h2: "adopt (root_ptr t) (ctx_parent c) (s\<lparr>cells := h1\<rparr>) = Some (s\<lparr>cells := h2\<rparr>)"
    "rep mkt h2 (ctx_parent c) t" "dom h2 = dom h1" "\<forall>x. x \<notin> set (addrs t) \<longrightarrow> h2 x = h1 x"
    using adopt_rep [of "s\<lparr>cells := h1\<rparr>" "Some a" t "ctx_parent c"] t1 d by auto
  have c2: "rep_ctx mkt h2 (root_ptr t) c"
    by (rule rep_ctx_frame [OF h1(2) h2(4)]) (use d in auto)
  have dom: "dom (cells s) = insert a (set (addrs t) \<union> set (ctx_addrs c))"
    using h by (auto simp flip: t(2))
  have "held mkt (s\<lparr>cells := h2(a := None)\<rparr>) (plug c t)"
    by (rule held_freed) (use h h2(2,3) c2 h1(3) d dom in auto)
  then show thesis
    using h1(1,4) h2(1,4) d
    by (intro that [of "s\<lparr>cells := h1\<rparr>" "s\<lparr>cells := h2\<rparr>"]) (auto simp: unlinked_def)
qed

lemma erase_leaf_inner:
  assumes "held mkt s (plug c \<langle>\<langle>\<rangle>, (a, v), \<langle>\<rangle>\<rangle>)" and "c \<noteq> []"
  obtains s' where "erase_leaf (Some a) s = Some s'" and "held mkt s' (plug c \<langle>\<rangle>)"
proof -
  obtain s1 s2 where s: "unlinked a c \<langle>\<rangle> s s1 s2"
    using splice_out [OF assms] by blast
  show thesis
  proof
    show "erase_leaf (Some a) s = Some (s2\<lparr>cells := (cells s2)(a := None)\<rparr>)"
      using s held_cell [OF assms(1)] assms(2) by (auto simp: erase_leaf_def adopt_def unlinked_def)
    show "held mkt (s2\<lparr>cells := (cells s2)(a := None)\<rparr>) (plug c \<langle>\<rangle>)"
      using s by (simp add: unlinked_def)
  qed
qed

lemma erase_single_inner:
  assumes "held mkt s (plug c \<langle>l, (a, v), r\<rangle>)" and "c \<noteq> []" and "l = \<langle>\<rangle> \<and> t = r \<or> r = \<langle>\<rangle> \<and> t = l" and "t \<noteq> \<langle>\<rangle>"
  obtains s' where "erase_single (Some a) s = Some s'" and "held mkt s' (plug c t)"
proof -
  obtain s1 s2 where s: "unlinked a c t s s1 s2"
    using splice_out [OF assms(1-3)] by blast
  have nxt: "(if root_ptr l \<noteq> None then root_ptr l else root_ptr r) = root_ptr t"
    using assms(3,4) by auto
  have set: "set_parent (root_ptr t) (ctx_parent c) s1 = Some s2"
    using s assms(4) by (simp add: unlinked_def adopt_def del: not_None_eq)
  show thesis
  proof
    show "erase_single (Some a) s = Some (s2\<lparr>cells := (cells s2)(a := None)\<rparr>)"
      using held_cell [OF assms(1)] s set assms(2) nxt
      by (cases "root_ptr l = None")
        (simp_all add: erase_single_def unlinked_def del: not_None_eq root_ptr_None)
    show "held mkt (s2\<lparr>cells := (cells s2)(a := None)\<rparr>) (plug c t)"
      using s by (simp add: unlinked_def)
  qed
qed

lemma rightmost_ctx:
  "rep mkt (cells s) par t \<Longrightarrow> t \<noteq> \<langle>\<rangle> \<Longrightarrow>
   \<exists>c l b e. t = plug c \<langle>l, (b, e), \<langle>\<rangle>\<rangle> \<and> rightmost (root_ptr t) s = Some (Some b) \<and> (\<forall>f \<in> set c. \<exists>l b d. f = In_right l b d)"
proof (induction t arbitrary: par)
  case (Node l x r)
  obtain a d where x: "x = (a, d)" by (cases x)
  show ?case
  proof (cases "r = \<langle>\<rangle>")
    case True
    with Node.prems show ?thesis
      by (intro exI [of _ "[]"]) (auto simp: x rightmost.simps)
  next
    case False
    with Node.prems obtain c l' b e where c: "r = plug c \<langle>l', (b, e), \<langle>\<rangle>\<rangle>" "rightmost (root_ptr r) s = Some (Some b)"
      "\<forall>f \<in> set c. \<exists>l b d. f = In_right l b d"
      using Node.IH(2) [of "Some a"] by (auto simp: x)
    have "rightmost (root_ptr \<langle>l, x, r\<rangle>) s = Some (Some b)"
      using Node.prems False c(2) by (subst rightmost.simps) (simp add: x del: not_None_eq)
    with c show ?thesis
      by (intro exI [of _ "c @ [In_right l a d]"]) (auto simp: x plug_append)
  qed
qed simp

text \<open>The root keeps its place and takes over its only child's value and children.\<close>

lemma erase_single_root:
  assumes "held mkt s \<langle>l, (a, v), r\<rangle>" and "l = \<langle>\<rangle> \<and> t = r \<or> r = \<langle>\<rangle> \<and> t = l" and "t = \<langle>cl, (b, e), cr\<rangle>"
  obtains s' where "erase_single (Some a) s = Some s'" and "held mkt s' \<langle>cl, (a, e), cr\<rangle>"
proof -
  note h = assms(1) [unfolded held_def, simplified]
  have t: "rep mkt (cells s) (Some a) t" "addrs l @ addrs r = addrs t"
    using assms(2) h by auto
  have d: "distinct (a # b # addrs cl @ addrs cr)"
    using h assms(2,3) by auto
  define h0 where "h0 = (cells s)(a \<mapsto> mkt e None (root_ptr cl) (root_ptr cr))"
  have h0: "rep mkt h0 (Some b) cl" "rep mkt h0 (Some b) cr" "h0 b = cells s b"
    "cells s b = Some (mkt e (Some a) (root_ptr cl) (root_ptr cr))"
    using t(1) d by (auto simp: h0_def assms(3))
  obtain h1 where h1: "adopt (root_ptr cl) (Some a) (s\<lparr>cells := h0\<rparr>) = Some (s\<lparr>cells := h1\<rparr>)" "rep mkt h1 (Some a) cl"
    "dom h1 = dom h0" "\<forall>x. x \<notin> set (addrs cl) \<longrightarrow> h1 x = h0 x"
    using adopt_rep [of "s\<lparr>cells := h0\<rparr>" "Some b" cl "Some a"] h0 d by auto
  have r1: "rep mkt h1 (Some b) cr"
    by (rule rep_frame [OF h0(2) h1(4)]) (use d in auto)
  obtain h2 where h2: "adopt (root_ptr cr) (Some a) (s\<lparr>cells := h1\<rparr>) = Some (s\<lparr>cells := h2\<rparr>)" "rep mkt h2 (Some a) cr"
    "dom h2 = dom h1" "\<forall>x. x \<notin> set (addrs cr) \<longrightarrow> h2 x = h1 x"
    using adopt_rep [of "s\<lparr>cells := h1\<rparr>" "Some b" cr "Some a"] r1 d by auto
  have l2: "rep mkt h2 (Some a) cl"
    by (rule rep_frame [OF h1(2) h2(4)]) (use d in auto)
  have at: "h2 a = Some (mkt e None (root_ptr cl) (root_ptr cr))" "h2 b = cells s b"
    using h1(4) h2(4) d h0 by (auto simp: h0_def)
  have nxt: "(if root_ptr l \<noteq> None then root_ptr l else root_ptr r) = Some b"
    using assms(2,3) by auto
  show thesis
  proof
    show "erase_single (Some a) s = Some (s\<lparr>cells := h2(b := None)\<rparr>)"
      using h h0(3,4) h1(1) h2(1) at nxt d
      by (cases "root_ptr l = None")
        (simp_all add: erase_single_def h0_def del: not_None_eq root_ptr_None)
    have "dom (cells s) = insert a (insert b (set (addrs cl) \<union> set (addrs cr)))"
      using h assms(2,3) by auto
    then show "held mkt (s\<lparr>cells := h2(b := None)\<rparr>) \<langle>cl, (a, e), cr\<rangle>"
      using held_freed [of mkt h2 "[]" "\<langle>cl, (a, e), cr\<rangle>" b s] h d at(1) l2 h2(2,3) h1(3)
      by (auto simp: h0_def)
  qed
qed

text \<open>With two children the value of the rightmost node on the left moves up, and that node goes.\<close>

lemma erase_double_node:
  assumes "held mkt s (plug c \<langle>l, (a, v), r\<rangle>)" and "l \<noteq> \<langle>\<rangle>"
  obtains s' l' e where "erase_double (Some a) s = Some s'" and "held mkt s' (plug c \<langle>l', (a, e), r\<rangle>)"
    and "labels l' @ [e] = labels l"
proof -
  note h = assms(1) [unfolded held_plug, simplified]
  obtain c' ll b e where c': "l = plug c' \<langle>ll, (b, e), \<langle>\<rangle>\<rangle>" "rightmost (root_ptr l) s = Some (Some b)"
    "\<forall>f \<in> set c'. \<exists>l b d. f = In_right l b d"
    using rightmost_ctx [of s "Some a" l] h assms(2) by blast
  define C where "C = c' @ In_left a e r # c"
  define s0 where "s0 = s\<lparr>cells := (cells s)(a \<mapsto> mkt e (ctx_parent c) (root_ptr l) (root_ptr r))\<rparr>"
  have "held mkt s0 (plug c \<langle>l, (a, e), r\<rangle>)"
    using h by (auto simp: held_plug s0_def intro!: store_ok_dom)
  then have held: "held mkt s0 (plug C \<langle>ll, (b, e), \<langle>\<rangle>\<rangle>)"
    by (simp add: C_def plug_append c'(1))
  then obtain s1 s2 where s: "unlinked b C ll s0 s1 s2"
    using splice_out [of s0 C ll b e "\<langle>\<rangle>" ll] by (auto simp: C_def)
  have b: "cells s0 b = Some (mkt e (ctx_parent C) (root_ptr ll) None)"
    using held_cell [OF held] by simp
  have ab: "a \<noteq> b" "cells s b = cells s0 b"
    using h by (auto simp: c'(1) addrs_plug s0_def)
  have relink: "relink (ctx_parent C) (Some b) (root_ptr ll) s0 =
    (if ctx_parent C = Some a then modify (ctx_parent C) (t_left_update (\<lambda>_. root_ptr ll)) s0
     else modify (ctx_parent C) (t_right_update (\<lambda>_. root_ptr ll)) s0)"
  proof (cases c' rule: list.exhaust)
    case Nil
    then show ?thesis by (simp add: relink_def C_def s0_def c'(1))
  next
    case (Cons f c2)
    with c'(3) obtain l2 b2 d2 where f: "f = In_right l2 b2 d2" by auto
    have "distinct (before addrs fst C @ addrs \<langle>ll, (b, e), \<langle>\<rangle>\<rangle> @ behind addrs fst C)"
      "rep_ctx mkt (cells s0) (Some b) C"
      using held by (simp_all add: held_plug)
    moreover from this(1) have "root_ptr l2 \<noteq> Some b" "b2 \<noteq> a"
      using root_ptr_in [of l2 b] by (auto simp: C_def Cons f)
    ultimately show ?thesis by (simp add: relink_def C_def Cons f)
  qed
  show thesis
  proof (rule that [of "s2\<lparr>cells := (cells s2)(b := None)\<rparr>" "plug c' ll" e])
    show "erase_double (Some a) s = Some (s2\<lparr>cells := (cells s2)(b := None)\<rparr>)"
      using h c'(2) ab b s [unfolded unlinked_def relink] held_cell [OF assms(1)]
      by (auto simp: erase_double_def s0_def [symmetric] simp del: not_None_eq)
    show "held mkt (s2\<lparr>cells := (cells s2)(b := None)\<rparr>) (plug c \<langle>plug c' ll, (a, e), r\<rangle>)"
      using s by (simp add: unlinked_def C_def plug_append)
    show "labels (plug c' ll) @ [e] = labels l"
      using behind_right [OF c'(3), of labels snd] by (simp add: c'(1) labels_plug)
  qed
qed

section \<open>The set a tree stands for\<close>

definition holds :: "tnode store \<Rightarrow> nat \<Rightarrow> int list \<Rightarrow> bool" where
  "holds s root xs \<longleftrightarrow>
     (\<exists>t. held mkt s t \<and> root_ptr t = Some root \<and> labels t = xs) \<or>
     (\<exists>v. xs = [] \<and> cells s = [root \<mapsto> (mkt v None None None)\<lparr>t_valid := False\<rparr>] \<and> store_ok s)"

lemma holds_tree: "held mkt s t \<Longrightarrow> root_ptr t = Some root \<Longrightarrow> labels t = xs \<Longrightarrow> holds s root xs"
  by (auto simp: holds_def)

lemma erase_node_at:
  assumes "held mkt s (plug c \<langle>l, (a, v), r\<rangle>)" and "root_ptr (plug c \<langle>l, (a, v), r\<rangle>) = Some root"
  shows "\<exists>s'. erase_node (Some a) s = Some s' \<and>
    holds s' root (before labels snd c @ labels l @ labels r @ behind labels snd c)"
proof -
  note cell = held_cell [OF assms(1)]
  have root: "root_ptr (plug c t) = Some root" if "c \<noteq> [] \<or> root_ptr t = Some a" for t
    using assms(2) that root_ptr_plug [of c t "\<langle>l, (a, v), r\<rangle>"] by (cases "c = []") auto
  consider (leaf) "l = \<langle>\<rangle>" "r = \<langle>\<rangle>" | (single) t where "l = \<langle>\<rangle> \<and> t = r \<or> r = \<langle>\<rangle> \<and> t = l" "t \<noteq> \<langle>\<rangle>"
    | (double) "l \<noteq> \<langle>\<rangle>" "r \<noteq> \<langle>\<rangle>" by blast
  then show ?thesis
  proof cases
    case leaf
    show ?thesis
    proof (cases "c = []")
      case True
      have "cells s = [a \<mapsto> mkt v None None None]"
        using assms(1) cell leaf True by (auto simp: held_def dom_eq_singleton_conv)
      moreover have "store_ok (s\<lparr>cells := [a \<mapsto> n]\<rparr>)" for n
        by (rule store_ok_dom) (use assms(1) calculation in \<open>auto simp: held_def split: if_splits\<close>)
      ultimately show ?thesis
        using True leaf assms(2) by (auto simp: erase_node_def erase_leaf_def holds_def)
    next
      case False
      with leaf assms(1) obtain s' where "erase_leaf (Some a) s = Some s'" "held mkt s' (plug c \<langle>\<rangle>)"
        using erase_leaf_inner [of s c a v] by blast
      with cell leaf root [of "\<langle>\<rangle>"] False show ?thesis
        by (auto simp: erase_node_def labels_plug intro!: holds_tree)
    qed
  next
    case single
    then have node: "erase_node (Some a) s = erase_single (Some a) s"
      using cell by (auto simp: erase_node_def)
    have ls: "labels t = labels l @ labels r" using single by auto
    show ?thesis
    proof (cases "c = []")
      case True
      obtain cl b e cr where t: "t = \<langle>cl, (b, e), cr\<rangle>" using single(2) by (cases t) auto
      obtain s' where "erase_single (Some a) s = Some s'" "held mkt s' \<langle>cl, (a, e), cr\<rangle>"
        using erase_single_root [of s l a v r t] single(1) t assms(1) True by auto
      with node ls t True root [of "\<langle>cl, (a, e), cr\<rangle>"] show ?thesis
        by (auto intro!: holds_tree)
    next
      case False
      then obtain s' where "erase_single (Some a) s = Some s'" "held mkt s' (plug c t)"
        using erase_single_inner [OF assms(1) _ single] by blast
      with node ls False root [of t] show ?thesis
        by (auto simp: labels_plug intro!: holds_tree)
    qed
  next
    case double
    then obtain s' l' e where "erase_double (Some a) s = Some s'" "held mkt s' (plug c \<langle>l', (a, e), r\<rangle>)"
      "labels l' @ [e] = labels l"
      using erase_double_node [OF assms(1)] by blast
    with double cell root [of "\<langle>l', (a, e), r\<rangle>"] show ?thesis
      by (auto simp: erase_node_def labels_plug simp flip: \<open>labels l' @ [e] = labels l\<close> intro!: holds_tree)
  qed
qed

section \<open>Searching and inserting\<close>

definition seek :: "int \<Rightarrow> int \<Rightarrow> turn" where
  "seek x v = (if v = x then Stay else if v > x then Go_left else Go_right)"

lemma seek_eq [simp]:
  "seek x v = Stay \<longleftrightarrow> v = x" "seek x v = Go_left \<longleftrightarrow> x < v" "seek x v = Go_right \<longleftrightarrow> v < x"
  by (auto simp: seek_def)

lemma seek_simps [simp]: "seek x x = Stay" "x < v \<Longrightarrow> seek x v = Go_left" "v < x \<Longrightarrow> seek x v = Go_right"
  by (auto simp: seek_def)

lemma seek_ordered: "sorted_wrt (<) xs \<Longrightarrow> ordered_for (seek x) xs"
  unfolding ordered_for_def by (erule sorted_wrt_mono_rel [rotated]) auto

lemma tree_find_descend:
  "rep mkt (cells s) par t \<Longrightarrow> tree_find (root_ptr t) x s = Some (root_ptr (fst (descend (seek x) t c)))"
proof (induction t arbitrary: par c)
  case Leaf
  show ?case by (simp add: tree_find.simps)
next
  case (Node l y r)
  obtain a v where "y = (a, v)" by (cases y)
  with Node.prems Node.IH(1) [of "Some a" "In_left a v r # c"] Node.IH(2) [of "Some a" "In_right l a v # c"]
  show ?case by (cases "seek x v"; subst tree_find.simps) auto
qed

lemma tree_erase_descend:
  "rep mkt (cells s) par t \<Longrightarrow> tree_erase (root_ptr t) x s =
     (let p = root_ptr (fst (descend (seek x) t c)) in if p = None then Some s else erase_node p s)"
proof (induction t arbitrary: par c)
  case Leaf
  show ?case by (simp add: tree_erase.simps)
next
  case (Node l y r)
  obtain a v where "y = (a, v)" by (cases y)
  with Node.prems Node.IH(1) [of "Some a" "In_left a v r # c"] Node.IH(2) [of "Some a" "In_right l a v # c"]
  show ?case by (cases "seek x v"; subst tree_erase.simps) (auto simp: Let_def)
qed

lemma held_attach_left:
  assumes "held mkt s (plug (In_left b v r # c) \<langle>\<rangle>)"
  shows "held mkt (s\<lparr>next_free := Suc (next_free s), cells := (cells s)(next_free s \<mapsto> mkt x (Some b) None None,
      b \<mapsto> mkt v (ctx_parent c) (Some (next_free s)) (root_ptr r))\<rparr>)
    (plug (In_left b v r # c) \<langle>\<langle>\<rangle>, (next_free s, x), \<langle>\<rangle>\<rangle>)"
proof -
  have "next_free s \<notin> set (addrs (plug (In_left b v r # c) \<langle>\<rangle>))"
    using store_ok_held [OF assms] by blast
  with assms show ?thesis
    by (auto simp: held_plug addrs_plug store_ok_def)
qed

lemma held_attach_right:
  assumes "held mkt s (plug (In_right l b v # c) \<langle>\<rangle>)"
  shows "held mkt (s\<lparr>next_free := Suc (next_free s), cells := (cells s)(next_free s \<mapsto> mkt x (Some b) None None,
      b \<mapsto> mkt v (ctx_parent c) (root_ptr l) (Some (next_free s)))\<rparr>)
    (plug (In_right l b v # c) \<langle>\<langle>\<rangle>, (next_free s, x), \<langle>\<rangle>\<rangle>)"
proof -
  have "next_free s \<notin> set (addrs (plug (In_right l b v # c) \<langle>\<rangle>))"
    using store_ok_held [OF assms] by blast
  with assms show ?thesis
    by (auto simp: held_plug addrs_plug store_ok_def)
qed

lemma new_tnode_mkt: "new_tnode = mkt 0 None None None"
  by (simp add: new_tnode_def mkt_def)

lemma tree_insert_descend:
  assumes "held mkt s (plug c t)" and "descend (seek x) t c = (t', c')" and "t \<noteq> \<langle>\<rangle>"
  shows "\<exists>s'. tree_insert (root_ptr t) x s = Some s' \<and>
    (if t' = \<langle>\<rangle> then held mkt s' (plug c' \<langle>\<langle>\<rangle>, (next_free s, x), \<langle>\<rangle>\<rangle>) else s' = s)"
  using assms
proof (induction t arbitrary: c)
  case (Node l y r)
  obtain a v where y: "y = (a, v)" by (cases y)
  note cell = held_cell [OF Node.prems(1) [unfolded y]]
  have a: "a < next_free s"
    using store_ok_held [OF Node.prems(1), of a] by (simp add: y addrs_plug)
  show ?case
  proof (cases "seek x v")
    case Stay
    with cell Node.prems(2) show ?thesis by (subst tree_insert.simps) (auto simp: y)
  next
    case Go_left
    then have "descend (seek x) l (In_left a v r # c) = (t', c')" "held mkt s (plug (In_left a v r # c) l)"
      using Node.prems by (simp_all add: y)
    with Go_left cell a held_attach_left [of s a v r c x] Node.IH(1) [of "In_left a v r # c"] show ?thesis
      by (cases "l = \<langle>\<rangle>"; subst tree_insert.simps) (auto simp: y alloc_def new_tnode_mkt fun_upd_twist)
  next
    case Go_right
    then have "descend (seek x) r (In_right l a v # c) = (t', c')" "held mkt s (plug (In_right l a v # c) r)"
      using Node.prems by (simp_all add: y)
    with Go_right cell a held_attach_right [of s l a v c x] Node.IH(2) [of "In_right l a v # c"] show ?thesis
      by (cases "r = \<langle>\<rangle>"; subst tree_insert.simps) (auto simp: y alloc_def new_tnode_mkt fun_upd_twist)
  qed
qed simp

section \<open>Going through a tree\<close>

definition reads :: "tnode store \<Rightarrow> (tnode, 'b) visitor \<Rightarrow> (int \<Rightarrow> 'b \<Rightarrow> 'b) \<Rightarrow> bool" where
  "reads s cb f \<longleftrightarrow> (\<forall>a n b. cells s a = Some n \<longrightarrow> cb a (s, b) = Some (s, f (t_value n) b))"

lemma foreach_front_reads:
  "rep mkt (cells s) par t \<Longrightarrow> reads s cb f \<Longrightarrow>
   foreach_front cb (root_ptr t) (s, b) = Some (s, fold f (map snd (preorder t)) b)"
proof (induction t arbitrary: par b)
  case (Node l x r)
  obtain a v where "x = (a, v)" by (cases x)
  with Node.prems Node.IH(1) [of "Some a" "f v b"] Node.IH(2) [of "Some a" "fold f (map snd (preorder l)) (f v b)"]
  show ?case by (subst foreach_front.simps) (auto simp: stops_def reads_def)
qed (simp add: foreach_front.simps stops_def)

lemma foreach_middle_reads:
  "rep mkt (cells s) par t \<Longrightarrow> reads s cb f \<Longrightarrow>
   foreach_middle cb (root_ptr t) (s, b) = Some (s, fold f (labels t) b)"
proof (induction t arbitrary: par b)
  case (Node l x r)
  obtain a v where "x = (a, v)" by (cases x)
  with Node.prems Node.IH(1) [of "Some a" b] Node.IH(2) [of "Some a" "f v (fold f (labels l) b)"]
  show ?case by (subst foreach_middle.simps) (auto simp: stops_def reads_def)
qed (simp add: foreach_middle.simps stops_def)

lemma foreach_back_reads:
  "rep mkt (cells s) par t \<Longrightarrow> reads s cb f \<Longrightarrow>
   foreach_back cb (root_ptr t) (s, b) = Some (s, fold f (map snd (postorder t)) b)"
proof (induction t arbitrary: par b)
  case (Node l x r)
  obtain a v where "x = (a, v)" by (cases x)
  with Node.prems Node.IH(1) [of "Some a" b] Node.IH(2) [of "Some a" "fold f (map snd (postorder l)) b"]
  show ?case by (subst foreach_back.simps) (auto simp: stops_def reads_def)
qed (simp add: foreach_back.simps stops_def)

text \<open>Each of the three orders prints the values of the tree in that order.\<close>

lemma print_values_held:
  assumes "held mkt s t" and "root_ptr t = Some root"
  shows "print_values (Some root) Front s = Some (map snd (preorder t))"
    and "print_values (Some root) Mid s = Some (labels t)"
    and "print_values (Some root) Back s = Some (map snd (postorder t))"
proof -
  let ?cb = "\<lambda>a (s, out). do { n \<leftarrow> deref s (Some a); Some (s, out @ [t_value n]) }"
  have "reads s ?cb (\<lambda>v out. out @ [v])"
    by (simp add: reads_def)
  note rs = foreach_front_reads [OF _ this] foreach_middle_reads [OF _ this] foreach_back_reads [OF _ this]
  show "print_values (Some root) Front s = Some (map snd (preorder t))"
    "print_values (Some root) Mid s = Some (labels t)" "print_values (Some root) Back s = Some (map snd (postorder t))"
    using assms rs [of None t "[]"] by (simp_all add: print_values_def held_def fold_snoc)
qed

lemma tree_size_held:
  assumes "held mkt s t" and "root_ptr t = Some root"
  shows "tree_size (Some root) s = Some (length (labels t))"
proof -
  have "reads s (\<lambda>a (s, n). Some (s, n + 1)) (\<lambda>v n. Suc n)"
    by (simp add: reads_def)
  from foreach_back_reads [OF _ this, of None t 0] assms show ?thesis
    by (simp add: tree_size_def held_def fold_count labels_def)
qed

lemma foreach_back_free:
  "rep mkt (cells s) par t \<Longrightarrow> distinct (addrs t) \<Longrightarrow>
   foreach_back (\<lambda>a (s, u). map_option (\<lambda>s. (s, u)) (free (Some a) s)) (root_ptr t) (s, u) =
     Some (s\<lparr>cells := cells s |` (- set (addrs t))\<rparr>, u)"
proof (induction t arbitrary: par s)
  case Leaf
  show ?case by (simp add: foreach_back.simps stops_def restrict_map_def)
next
  case (Node l x r)
  obtain a v where x: "x = (a, v)" by (cases x)
  define s1 where "s1 = s\<lparr>cells := cells s |` (- set (addrs l))\<rparr>"
  define s2 where "s2 = s1\<lparr>cells := cells s1 |` (- set (addrs r))\<rparr>"
  have r: "rep mkt (cells s1) (Some a) r"
    by (rule rep_frame [where h = "cells s" and A = "set (addrs l)"])
      (use Node.prems in \<open>auto simp: x s1_def\<close>)
  have cell: "cells s a = Some (mkt v par (root_ptr l) (root_ptr r))" "cells s1 a = cells s a" "cells s2 a = cells s a"
    using Node.prems by (auto simp: x s1_def s2_def)
  have "s2\<lparr>cells := (cells s2)(a := None)\<rparr> = s\<lparr>cells := cells s |` (- set (addrs \<langle>l, (a, v), r\<rangle>))\<rparr>"
    by (auto simp: s1_def s2_def restrict_map_def fun_eq_iff)
  moreover have "foreach_back (\<lambda>a (s, u). map_option (\<lambda>s. (s, u)) (free (Some a) s)) (root_ptr l) (s, u) = Some (s1, u)"
    using Node.IH(1) [of s "Some a"] Node.prems by (simp add: x s1_def)
  moreover have "foreach_back (\<lambda>a (s, u). map_option (\<lambda>s. (s, u)) (free (Some a) s)) (root_ptr r) (s1, u) = Some (s2, u)"
    using Node.IH(2) [of s1 "Some a"] Node.prems r by (simp add: x s2_def)
  ultimately show ?case
    using cell by (subst foreach_back.simps) (simp add: stops_def x)
qed

section \<open>A set of integers\<close>

definition tree_stands_for :: "nat \<Rightarrow> tnode store \<Rightarrow> int set \<Rightarrow> bool" where
  "tree_stands_for root s A \<longleftrightarrow> (\<exists>xs. holds s root xs \<and> sorted_wrt (<) xs \<and> set xs = A)"

lemma tree_insert_law:
  assumes "tree_stands_for root s A"
  shows "\<exists>s'. tree_insert (Some root) x s = Some s' \<and> tree_stands_for root s' (insert x A)"
proof -
  obtain xs where xs: "holds s root xs" "sorted_wrt (<) xs" "set xs = A"
    using assms by (auto simp: tree_stands_for_def)
  from xs(1) consider (tree) t where "held mkt s t" "root_ptr t = Some root" "labels t = xs"
    | (empty) v where "xs = []" "cells s = [root \<mapsto> (mkt v None None None)\<lparr>t_valid := False\<rparr>]" "store_ok s"
    by (auto simp: holds_def)
  then show ?thesis
  proof cases
    case tree
    obtain t' c where d: "descend (seek x) t [] = (t', c)" by fastforce
    have plug: "plug c t' = t" using descend_plug [OF d] by simp
    have t: "t \<noteq> \<langle>\<rangle>" using tree(2) by auto
    obtain s' where s': "tree_insert (Some root) x s = Some s'"
      "if t' = \<langle>\<rangle> then held mkt s' (plug c \<langle>\<langle>\<rangle>, (next_free s, x), \<langle>\<rangle>\<rangle>) else s' = s"
      using tree_insert_descend [of s "[]" t x t' c] d tree t by auto
    have found: "t' = \<langle>\<rangle> \<longleftrightarrow> x \<notin> A"
      using descend_finds [OF d] seek_ordered [of xs x] xs tree(3) by auto
    show ?thesis
    proof (cases "t' = \<langle>\<rangle>")
      case True
      have ls: "before labels snd c @ behind labels snd c = xs"
        using plug tree(3) True labels_plug [of c t'] by simp
      have "(\<forall>d \<in> set (before labels snd c). d < x) \<and> (\<forall>d \<in> set (behind labels snd c). x < d)"
        using descend_between [OF d] seek_ordered [of xs x] xs tree(3) by simp
      with xs(2) have "sorted_wrt (<) (before labels snd c @ x # behind labels snd c)"
        by (auto simp: sorted_wrt_append simp flip: ls)
      moreover have "root_ptr (plug c \<langle>\<langle>\<rangle>, (next_free s, x), \<langle>\<rangle>\<rangle>) = Some root"
        using plug t True tree(2) root_ptr_plug [of c "\<langle>\<rangle>" "\<langle>\<langle>\<rangle>, (next_free s, x), \<langle>\<rangle>\<rangle>"] by (cases "c = []") auto
      ultimately show ?thesis
        using s' True xs(3) ls
        by (intro exI [of _ s']) (auto simp: tree_stands_for_def labels_plug
            intro!: exI [of _ "before labels snd c @ x # behind labels snd c"] holds_tree)
    next
      case False
      with s' found assms show ?thesis by (auto simp: insert_absorb)
    qed
  next
    case empty
    have "store_ok (s\<lparr>cells := [root \<mapsto> n]\<rparr>)" for n
      by (rule store_ok_dom [OF empty(3)]) (use empty(2) in \<open>auto split: if_splits\<close>)
    with empty xs(3) show ?thesis
      by (subst tree_insert.simps) (auto simp: tree_stands_for_def held_def intro!: exI [of _ "[x]"]
          holds_tree [where t = "\<langle>\<langle>\<rangle>, (root, x), \<langle>\<rangle>\<rangle>"] split: if_splits)
  qed
qed

lemma tree_erase_law:
  assumes "tree_stands_for root s A"
  shows "\<exists>s'. tree_erase (Some root) x s = Some s' \<and> tree_stands_for root s' (A - {x})"
proof -
  obtain xs where xs: "holds s root xs" "sorted_wrt (<) xs" "set xs = A"
    using assms by (auto simp: tree_stands_for_def)
  from xs(1) consider (tree) t where "held mkt s t" "root_ptr t = Some root" "labels t = xs"
    | (empty) v where "xs = []" "cells s = [root \<mapsto> (mkt v None None None)\<lparr>t_valid := False\<rparr>]"
    by (auto simp: holds_def)
  then show ?thesis
  proof cases
    case tree
    obtain t' c where d: "descend (seek x) t [] = (t', c)" by fastforce
    have plug: "plug c t' = t" using descend_plug [OF d] by simp
    have found: "t' = \<langle>\<rangle> \<longleftrightarrow> x \<notin> A"
      using descend_finds [OF d] seek_ordered [of xs x] xs tree(3) by auto
    have run: "tree_erase (Some root) x s = (if t' = \<langle>\<rangle> then Some s else erase_node (root_ptr t') s)"
      using tree_erase_descend [of s None t x "[]"] tree d by (simp add: held_def)
    show ?thesis
    proof (cases t')
      case Leaf
      with run found assms show ?thesis by auto
    next
      case (Node l y r)
      moreover obtain a v where y: "y = (a, v)" by (cases y)
      moreover have v: "v = x" using descend_stay [of "seek x" t "[]" l a v r c] d Node y by simp
      ultimately obtain s' where "erase_node (Some a) s = Some s'"
        "holds s' root (before labels snd c @ labels l @ labels r @ behind labels snd c)"
        using erase_node_at [of s c l a v r root] plug tree by auto
      moreover have "xs = before labels snd c @ labels l @ x # labels r @ behind labels snd c"
        using plug tree(3) labels_plug [of c t'] Node y v by simp
      ultimately show ?thesis
        using run xs(2,3) Node y
        by (intro exI [of _ s']) (auto simp: tree_stands_for_def sorted_wrt_append
            intro!: exI [of _ "before labels snd c @ labels l @ labels r @ behind labels snd c"])
    qed
  next
    case empty
    with assms xs(3) show ?thesis by (subst tree_erase.simps) auto
  qed
qed

interpretation search_tree: stored_collection "tree_stands_for root" "\<lambda>x. tree_insert (Some root) x"
    "\<lambda>x. tree_erase (Some root) x" insert "\<lambda>x A. A - {x}" for root
  by unfold_locales (rule tree_insert_law, assumption, rule tree_erase_law, assumption)

text \<open>Finding, printing, counting and destroying, for a tree that stands for \<open>A\<close>.\<close>

definition serves :: "nat \<Rightarrow> tnode store \<Rightarrow> int set \<Rightarrow> bool" where
  "serves root s A \<longleftrightarrow>
     (\<forall>x. \<exists>p. tree_find (Some root) x s = Some p \<and>
        (case p of None \<Rightarrow> x \<notin> A | Some a \<Rightarrow> x \<in> A \<and> map_option t_value (cells s a) = Some x)) \<and>
     print_values (Some root) Mid s = Some (sorted_list_of_set A) \<and>
     tree_size (Some root) s = Some (card A) \<and>
     (\<exists>s'. tree_destroy (Some root) s = Some s' \<and> dom (cells s') = (if A = {} then {root} else {}))"

lemma tree_serves_held:
  assumes "held mkt s t" and "root_ptr t = Some root" and "sorted_wrt (<) (labels t)"
  shows "serves root s (set (labels t))"
proof -
  have find: "\<exists>p. tree_find (Some root) x s = Some p \<and>
      (case p of None \<Rightarrow> x \<notin> set (labels t) | Some a \<Rightarrow> x \<in> set (labels t) \<and> map_option t_value (cells s a) = Some x)" for x
  proof -
    obtain t' c where d: "descend (seek x) t [] = (t', c)" by fastforce
    have found: "t' = \<langle>\<rangle> \<longleftrightarrow> x \<notin> set (labels t)"
      using descend_finds [OF d] seek_ordered [OF assms(3), of x] by auto
    have run: "tree_find (Some root) x s = Some (root_ptr t')"
      using tree_find_descend [of s None t x "[]"] assms(1,2) d by (simp add: held_def)
    show ?thesis
    proof (cases t')
      case Leaf
      with run found show ?thesis by simp
    next
      case (Node l y r)
      moreover obtain a v where y: "y = (a, v)" by (cases y)
      moreover have "v = x" using descend_stay [of "seek x" t "[]" l a v r c] d Node y by simp
      moreover have "held mkt s (plug c t')" using descend_plug [OF d] assms(1) by simp
      ultimately show ?thesis using run found held_cell [of mkt s c l a v r] by simp
    qed
  qed
  have "t \<noteq> \<langle>\<rangle>" using assms(2) by auto
  then have "labels t \<noteq> []" by (cases t) auto
  moreover have "tree_destroy (Some root) s = Some (s\<lparr>cells := Map.empty\<rparr>)"
  proof -
    have "cells s |` (- set (addrs t)) = Map.empty"
      using assms(1) by (auto simp: held_def restrict_map_def fun_eq_iff domIff)
    then show ?thesis
      using foreach_back_free [of s None t "()"] assms(1,2) by (simp add: tree_destroy_def held_def)
  qed
  ultimately show ?thesis
    using find print_values_held(2) [OF assms(1,2)] tree_size_held [OF assms(1,2)] assms(3)
    by (auto simp: serves_def sorted_list_of_set_unique strict_sorted_iff distinct_card sorted_list_of_set_sort_remdups
        sorted_sort_id distinct_remdups_id)
qed

lemma tree_serves:
  assumes "tree_stands_for root s A"
  shows "serves root s A"
proof -
  obtain xs where xs: "holds s root xs" "sorted_wrt (<) xs" "set xs = A"
    using assms by (auto simp: tree_stands_for_def)
  from xs(1) consider (tree) t where "held mkt s t" "root_ptr t = Some root" "labels t = xs"
    | (empty) v where "xs = []" "cells s = [root \<mapsto> (mkt v None None None)\<lparr>t_valid := False\<rparr>]"
    by (auto simp: holds_def)
  then show ?thesis
  proof cases
    case tree
    then show ?thesis using tree_serves_held [of s t root] xs(2,3) by simp
  next
    case empty
    then show ?thesis
      using xs(3) by (auto simp: serves_def tree_find.simps print_values_def foreach_middle.simps foreach_back.simps
          tree_size_def tree_destroy_def stops_def)
  qed
qed

lemma create_root_stands_for: "tree_stands_for (fst (create_root new_store)) (snd (create_root new_store)) {}"
  by (auto simp: tree_stands_for_def holds_def create_root_def alloc_def new_store_def new_tnode_mkt store_ok_def)

text \<open>
  C19: The binary search tree is a set of integers.  After \<^verbatim>\<open>create_root\<close> any sequence of insertions and
  erasures runs without a bad dereference and without end, and leaves a tree in which \<^verbatim>\<open>find\<close> returns a node
  with the value that was sought exactly for the members of the set that the same operations build, the in-order
  printout is that set in ascending order, \<^verbatim>\<open>size\<close> is its cardinality, and \<^verbatim>\<open>destroy\<close> frees every node.  One
  node stays behind: when the set is empty the root is still allocated, but marked invalid, and \<^verbatim>\<open>destroy\<close>
  skips it.
\<close>

theorem search_tree_is_a_set:
  "let root = fst (create_root new_store); s0 = snd (create_root new_store);
       A = abs_ops insert (\<lambda>x A. A - {x}) ops {}
   in \<exists>s. run_ops (\<lambda>x. tree_insert (Some root) x) (\<lambda>x. tree_erase (Some root) x) ops s0 = Some s \<and> serves root s A"
  using search_tree.run_law [OF create_root_stands_for, of ops] tree_serves by (force simp: Let_def)

end
