(* ===== verification/Red_Black_Tree.thy ===== *)
theory Red_Black_Tree
  imports Tree_Store
begin

text \<open>
  The red-black tree of \<^verbatim>\<open>practice/rbtree.h\<close>, with \<open>int\<close> for its element type as in \<^verbatim>\<open>practice/rbtree.cpp\<close>.
  The functions take the root pointer by reference, so that the world of a call is the store and that pointer.
\<close>

section \<open>The code\<close>

datatype color = Red | Black

record rnode =
  r_parent :: ptr
  r_left :: ptr
  r_right :: ptr
  r_color :: color
  r_value :: int

record rb =
  rb_store :: "rnode store"
  rb_root :: ptr

definition look :: "ptr \<Rightarrow> rb \<Rightarrow> rnode option" where
  "look p w = deref (rb_store w) p"

definition update :: "ptr \<Rightarrow> (rnode \<Rightarrow> rnode) \<Rightarrow> rb \<Rightarrow> rb option" where
  "update p f w = map_option (\<lambda>s. w\<lparr>rb_store := s\<rparr>) (modify p f (rb_store w))"

definition link_parent :: "ptr \<Rightarrow> ptr \<Rightarrow> rb \<Rightarrow> rb option" where
  "link_parent p q w = update p (r_parent_update (\<lambda>_. q)) w"

definition link_left :: "ptr \<Rightarrow> ptr \<Rightarrow> rb \<Rightarrow> rb option" where
  "link_left p q w = update p (r_left_update (\<lambda>_. q)) w"

definition link_right :: "ptr \<Rightarrow> ptr \<Rightarrow> rb \<Rightarrow> rb option" where
  "link_right p q w = update p (r_right_update (\<lambda>_. q)) w"

definition set_color :: "ptr \<Rightarrow> color \<Rightarrow> rb \<Rightarrow> rb option" where
  "set_color p col w = update p (r_color_update (\<lambda>_. col)) w"

definition is_red :: "ptr \<Rightarrow> rb \<Rightarrow> bool option" where
  "is_red p w = map_option (\<lambda>n. r_color n = Red) (look p w)"

text \<open>\<^verbatim>\<open>p && p->is_red()\<close> and \<^verbatim>\<open>if (p) p->parent = q;\<close>\<close>

definition red_child :: "ptr \<Rightarrow> rb \<Rightarrow> bool option" where
  "red_child p w = (if p = None then Some False else is_red p w)"

definition adopt_child :: "ptr \<Rightarrow> ptr \<Rightarrow> rb \<Rightarrow> rb option" where
  "adopt_child p q w = (if p \<noteq> None then link_parent p q w else Some w)"

definition left_revolve :: "ptr \<Rightarrow> rb \<Rightarrow> rb option" where
  "left_revolve x w = do {
     nx \<leftarrow> look x w;
     let y = r_right nx;
     ny \<leftarrow> look y w;
     w \<leftarrow> link_right x (r_left ny) w;
     ny \<leftarrow> look y w;
     w \<leftarrow> adopt_child (r_left ny) x w;
     nx \<leftarrow> look x w;
     w \<leftarrow> link_parent y (r_parent nx) w;
     nx \<leftarrow> look x w;
     w \<leftarrow> (if r_parent nx = None then Some (w\<lparr>rb_root := y\<rparr>)
           else do {
             p \<leftarrow> look (r_parent nx) w;
             if x = r_left p then link_left (r_parent nx) y w
             else if x = r_right p then link_right (r_parent nx) y w
             else Some w });
     w \<leftarrow> link_left y x w;
     link_parent x y w }"

definition right_revolve :: "ptr \<Rightarrow> rb \<Rightarrow> rb option" where
  "right_revolve y w = do {
     ny \<leftarrow> look y w;
     let x = r_left ny;
     nx \<leftarrow> look x w;
     w \<leftarrow> link_left y (r_right nx) w;
     nx \<leftarrow> look x w;
     w \<leftarrow> adopt_child (r_right nx) y w;
     ny \<leftarrow> look y w;
     w \<leftarrow> link_parent x (r_parent ny) w;
     ny \<leftarrow> look y w;
     w \<leftarrow> (if r_parent ny = None then Some (w\<lparr>rb_root := x\<rparr>)
           else do {
             p \<leftarrow> look (r_parent ny) w;
             if y = r_left p then link_left (r_parent ny) x w
             else if y = r_right p then link_right (r_parent ny) x w
             else Some w });
     w \<leftarrow> link_right x y w;
     link_parent y x w }"

text \<open>Case 1 of both branches: the colours of the uncle, the parent and the grandparent.\<close>

definition recolor :: "ptr \<Rightarrow> ptr \<Rightarrow> ptr \<Rightarrow> rb \<Rightarrow> rb option" where
  "recolor u p g w = do {
     w \<leftarrow> set_color u Black w;
     w \<leftarrow> set_color p Black w;
     set_color g Red w }"

text \<open>One round of the loop, with the node of the next round.\<close>

definition insert_round :: "ptr \<Rightarrow> ptr \<Rightarrow> rb \<Rightarrow> (ptr \<times> rb) option" where
  "insert_round node p w = do {
     np \<leftarrow> look p w;
     let g = r_parent np;
     ng \<leftarrow> look g w;
     if p = r_left ng then do {
       let u = r_right ng;
       ured \<leftarrow> red_child u w;
       if ured then do { w \<leftarrow> recolor u p g w; Some (g, w) }
       else do {
         np \<leftarrow> look p w;
         (node, w) \<leftarrow> (if r_right np = node then do { w \<leftarrow> left_revolve p w; Some (p, w) } else Some (node, w));
         np \<leftarrow> look p w;
         if r_left np = node then do {
           w \<leftarrow> set_color p Black w;
           w \<leftarrow> set_color g Red w;
           w \<leftarrow> right_revolve g w;
           Some (node, w) }
         else Some (node, w) } }
     else do {
       let u = r_left ng;
       ured \<leftarrow> red_child u w;
       if ured then do { w \<leftarrow> recolor u p g w; Some (g, w) }
       else do {
         np \<leftarrow> look p w;
         (node, p, w) \<leftarrow> (if r_left np = node then do { w \<leftarrow> right_revolve p w; Some (p, node, w) } else Some (node, p, w));
         w \<leftarrow> set_color p Black w;
         w \<leftarrow> set_color g Red w;
         w \<leftarrow> left_revolve g w;
         Some (node, w) } } }"

partial_function (option) insert_fixup :: "ptr \<Rightarrow> rb \<Rightarrow> rb option" where
  "insert_fixup node w = do {
     n \<leftarrow> look node w;
     let p = r_parent n;
     go \<leftarrow> red_child p w;
     if go then do {
       (node, w) \<leftarrow> insert_round node p w;
       insert_fixup node w }
     else set_color (rb_root w) Black w }"

partial_function (option) insert_place :: "ptr \<Rightarrow> ptr \<Rightarrow> ptr \<Rightarrow> rb \<Rightarrow> ptr option" where
  "insert_place node x y w = (if x = None then Some y
   else do {
     n \<leftarrow> look node w;
     nx \<leftarrow> look x w;
     if r_value n < r_value nx then insert_place node (r_left nx) x w
     else insert_place node (r_right nx) x w })"

definition insert_node :: "ptr \<Rightarrow> rb \<Rightarrow> rb option" where
  "insert_node node w = do {
     y \<leftarrow> insert_place node (rb_root w) None w;
     w \<leftarrow> link_parent node y w;
     w \<leftarrow> (if y \<noteq> None then do {
             n \<leftarrow> look node w;
             ny \<leftarrow> look y w;
             if r_value n < r_value ny then link_left y node w else link_right y node w }
           else Some (w\<lparr>rb_root := node\<rparr>));
     w \<leftarrow> set_color node Red w;
     insert_fixup node w }"

definition rb_insert :: "int \<Rightarrow> rb \<Rightarrow> rb option" where
  "rb_insert t w = do {
     let (node, s) = alloc \<lparr>r_parent = None, r_left = None, r_right = None, r_color = Red, r_value = 0\<rparr> (rb_store w);
     w \<leftarrow> update (Some node) (r_value_update (\<lambda>_. t)) (w\<lparr>rb_store := s\<rparr>);
     insert_node (Some node) w }"

text \<open>What a round of \<^verbatim>\<open>erase_fixup\<close> does: \<open>continue\<close> with a node and its parent, or \<open>break\<close>.\<close>

datatype 'w round = Continue ptr ptr 'w | Break ptr 'w

definition no_red_child :: "ptr \<Rightarrow> rb \<Rightarrow> bool option" where
  "no_red_child s w = do {
     n \<leftarrow> look s w;
     lred \<leftarrow> red_child (r_left n) w;
     if lred then Some False else map_option Not (red_child (r_right n) w) }"

definition erase_round_left :: "ptr \<Rightarrow> ptr \<Rightarrow> rb \<Rightarrow> rb round option" where
  "erase_round_left node parent w = do {
     np \<leftarrow> look parent w;
     let s = r_right np;
     sred \<leftarrow> is_red s w;
     if sred then do {
       w \<leftarrow> set_color s Black w;
       w \<leftarrow> set_color parent Red w;
       w \<leftarrow> left_revolve parent w;
       Some (Continue node parent w) }
     else do {
       none \<leftarrow> no_red_child s w;
       if none then do {
         w \<leftarrow> set_color s Red w;
         n \<leftarrow> look parent w;
         Some (Continue parent (r_parent n) w) }
       else do {
         ns \<leftarrow> look s w;
         lred \<leftarrow> red_child (r_left ns) w;
         rred \<leftarrow> red_child (r_right ns) w;
         if lred \<and> \<not> rred then do {
           w \<leftarrow> set_color (r_left ns) Black w;
           w \<leftarrow> set_color s Red w;
           w \<leftarrow> right_revolve s w;
           Some (Continue node parent w) }
         else if rred then do {
           np \<leftarrow> look parent w;
           w \<leftarrow> set_color s (r_color np) w;
           w \<leftarrow> set_color parent Black w;
           ns \<leftarrow> look s w;
           w \<leftarrow> set_color (r_right ns) Black w;
           w \<leftarrow> left_revolve parent w;
           Some (Break node w) }
         else Some (Continue node parent w) } } }"

definition erase_round_right :: "ptr \<Rightarrow> ptr \<Rightarrow> rb \<Rightarrow> rb round option" where
  "erase_round_right node parent w = do {
     np \<leftarrow> look parent w;
     let s = r_left np;
     sred \<leftarrow> is_red s w;
     if sred then do {
       w \<leftarrow> set_color s Black w;
       w \<leftarrow> set_color parent Red w;
       w \<leftarrow> right_revolve parent w;
       Some (Continue node parent w) }
     else do {
       none \<leftarrow> no_red_child s w;
       if none then do {
         w \<leftarrow> set_color s Red w;
         n \<leftarrow> look parent w;
         Some (Continue parent (r_parent n) w) }
       else do {
         ns \<leftarrow> look s w;
         lred \<leftarrow> red_child (r_left ns) w;
         rred \<leftarrow> red_child (r_right ns) w;
         if rred \<and> \<not> lred then do {
           w \<leftarrow> set_color (r_right ns) Black w;
           w \<leftarrow> set_color s Red w;
           w \<leftarrow> left_revolve s w;
           Some (Continue node parent w) }
         else if lred then do {
           np \<leftarrow> look parent w;
           w \<leftarrow> set_color s (r_color np) w;
           w \<leftarrow> set_color parent Black w;
           ns \<leftarrow> look s w;
           w \<leftarrow> set_color (r_left ns) Black w;
           w \<leftarrow> right_revolve parent w;
           Some (Break node w) }
         else Some (Continue node parent w) } } }"

definition paint_black :: "ptr \<Rightarrow> rb \<Rightarrow> rb option" where
  "paint_black node w = (if node \<noteq> None then set_color node Black w else Some w)"

partial_function (option) erase_fixup :: "ptr \<Rightarrow> ptr \<Rightarrow> rb \<Rightarrow> rb option" where
  "erase_fixup node parent w = do {
     go \<leftarrow> (if node = rb_root w then Some False else map_option Not (red_child node w));
     if go then do {
       np \<leftarrow> look parent w;
       r \<leftarrow> (if node = r_left np then erase_round_left node parent w else erase_round_right node parent w);
       (case r of
          Continue node parent w \<Rightarrow> erase_fixup node parent w
        | Break node w \<Rightarrow> paint_black node w) }
     else paint_black node w }"

text \<open>The link that leads to \<open>old\<close>, from the parent \<open>par\<close> or from the root pointer, is set to \<open>new\<close>.\<close>

definition replace_child :: "ptr \<Rightarrow> ptr \<Rightarrow> ptr \<Rightarrow> rb \<Rightarrow> rb option" where
  "replace_child par old new w = (if par = None then Some (w\<lparr>rb_root := new\<rparr>)
   else do {
     np \<leftarrow> look par w;
     if r_left np = old then link_left par new w else link_right par new w })"

definition delete_node :: "ptr \<Rightarrow> rb \<Rightarrow> rb option" where
  "delete_node p w = map_option (\<lambda>s. w\<lparr>rb_store := s\<rparr>) (free p (rb_store w))"

definition rb_erase_leaf :: "ptr \<Rightarrow> rb \<Rightarrow> rb option" where
  "rb_erase_leaf node w = do {
     n \<leftarrow> look node w;
     if r_parent n = None then do {
       w \<leftarrow> delete_node (rb_root w) w;
       Some (w\<lparr>rb_root := None\<rparr>) }
     else do {
       w \<leftarrow> replace_child (r_parent n) node None w;
       red \<leftarrow> is_red node w;
       w \<leftarrow> (if \<not> red then do { n \<leftarrow> look node w; erase_fixup None (r_parent n) w } else Some w);
       delete_node node w } }"

definition rb_erase_single :: "ptr \<Rightarrow> rb \<Rightarrow> rb option" where
  "rb_erase_single node w = do {
     n \<leftarrow> look node w;
     let child = (if r_left n \<noteq> None then r_left n else r_right n);
     w \<leftarrow> replace_child (r_parent n) node child w;
     n \<leftarrow> look node w;
     w \<leftarrow> link_parent child (r_parent n) w;
     n \<leftarrow> look node w;
     w \<leftarrow> (if r_color n = Black then erase_fixup child (r_parent n) w else Some w);
     delete_node node w }"

partial_function (option) leftmost :: "ptr \<Rightarrow> rb \<Rightarrow> ptr option" where
  "leftmost p w = do {
     n \<leftarrow> look p w;
     if r_left n \<noteq> None then leftmost (r_left n) w else Some p }"

text \<open>The replacement leaves its place, unless it is the right child itself.\<close>

definition detach_replacement :: "ptr \<Rightarrow> ptr \<Rightarrow> rb \<Rightarrow> rb option" where
  "detach_replacement node repl w = do {
     m \<leftarrow> look repl w;
     w \<leftarrow> adopt_child (r_right m) (r_parent m) w;
     m \<leftarrow> look repl w;
     w \<leftarrow> link_left (r_parent m) (r_right m) w;
     n \<leftarrow> look node w;
     w \<leftarrow> link_right repl (r_right n) w;
     n \<leftarrow> look node w;
     link_parent (r_right n) repl w }"

text \<open>The replacement takes the place and the colour of the node.\<close>

definition take_place :: "ptr \<Rightarrow> ptr \<Rightarrow> rb \<Rightarrow> rb option" where
  "take_place node repl w = do {
     n \<leftarrow> look node w;
     w \<leftarrow> link_left repl (r_left n) w;
     n \<leftarrow> look node w;
     w \<leftarrow> link_parent (r_left n) repl w;
     n \<leftarrow> look node w;
     w \<leftarrow> replace_child (r_parent n) node repl w;
     n \<leftarrow> look node w;
     w \<leftarrow> link_parent repl (r_parent n) w;
     n \<leftarrow> look node w;
     set_color repl (r_color n) w }"

definition rb_erase_double :: "ptr \<Rightarrow> rb \<Rightarrow> rb option" where
  "rb_erase_double node w = do {
     n \<leftarrow> look node w;
     repl \<leftarrow> leftmost (r_right n) w;
     m \<leftarrow> look repl w;
     let child = r_right m;
     let color = r_color m;
     let parent = (if r_parent m = node then repl else r_parent m);
     w \<leftarrow> (if r_parent m = node then Some w else detach_replacement node repl w);
     w \<leftarrow> take_place node repl w;
     w \<leftarrow> (if color = Black then erase_fixup child parent w else Some w);
     delete_node node w }"

definition rb_erase_node :: "ptr \<Rightarrow> rb \<Rightarrow> rb option" where
  "rb_erase_node node w = do {
     n \<leftarrow> look node w;
     if r_left n = None \<and> r_right n = None then rb_erase_leaf node w
     else if r_left n = None \<or> r_right n = None then rb_erase_single node w
     else rb_erase_double node w }"

partial_function (option) rb_find :: "ptr \<Rightarrow> int \<Rightarrow> rb \<Rightarrow> ptr option" where
  "rb_find root t w = (if root = None then Some None
   else do {
     n \<leftarrow> look root w;
     if r_value n = t then Some root
     else if r_value n > t then rb_find (r_left n) t w
     else rb_find (r_right n) t w })"

definition rb_erase :: "int \<Rightarrow> rb \<Rightarrow> rb option" where
  "rb_erase t w = do {
     node \<leftarrow> rb_find (rb_root w) t w;
     if node \<noteq> None then rb_erase_node node w else Some w }"

partial_function (option) rb_foreach_front :: "(rnode, 'b) visitor \<Rightarrow> ptr \<Rightarrow> rnode store \<times> 'b \<Rightarrow> (rnode store \<times> 'b) option" where
  "rb_foreach_front cb p w = (if p = None then Some w
   else do {
     w \<leftarrow> cb (the p) w;
     n \<leftarrow> deref (fst w) p;
     w \<leftarrow> rb_foreach_front cb (r_left n) w;
     n \<leftarrow> deref (fst w) p;
     rb_foreach_front cb (r_right n) w })"

partial_function (option) rb_foreach_middle :: "(rnode, 'b) visitor \<Rightarrow> ptr \<Rightarrow> rnode store \<times> 'b \<Rightarrow> (rnode store \<times> 'b) option" where
  "rb_foreach_middle cb p w = (if p = None then Some w
   else do {
     n \<leftarrow> deref (fst w) p;
     w \<leftarrow> rb_foreach_middle cb (r_left n) w;
     w \<leftarrow> cb (the p) w;
     n \<leftarrow> deref (fst w) p;
     rb_foreach_middle cb (r_right n) w })"

partial_function (option) rb_foreach_back :: "(rnode, 'b) visitor \<Rightarrow> ptr \<Rightarrow> rnode store \<times> 'b \<Rightarrow> (rnode store \<times> 'b) option" where
  "rb_foreach_back cb p w = (if p = None then Some w
   else do {
     n \<leftarrow> deref (fst w) p;
     w \<leftarrow> rb_foreach_back cb (r_left n) w;
     n \<leftarrow> deref (fst w) p;
     w \<leftarrow> rb_foreach_back cb (r_right n) w;
     cb (the p) w })"

text \<open>What \<^verbatim>\<open>print\<close> writes between its brackets: each value with its colour.\<close>

definition rb_print_values :: "foreach_type \<Rightarrow> rb \<Rightarrow> (int \<times> color) list option" where
  "rb_print_values type w = do {
     let cb = (\<lambda>a (s, out). do { n \<leftarrow> deref s (Some a); Some (s, out @ [(r_value n, r_color n)]) });
     (_, out) \<leftarrow> (case type of
        Front \<Rightarrow> rb_foreach_front cb (rb_root w) (rb_store w, [])
      | Mid \<Rightarrow> rb_foreach_middle cb (rb_root w) (rb_store w, [])
      | Back \<Rightarrow> rb_foreach_back cb (rb_root w) (rb_store w, []));
     Some out }"

definition rb_size :: "rb \<Rightarrow> nat option" where
  "rb_size w = map_option snd (rb_foreach_back (\<lambda>a (s, cnt). Some (s, cnt + 1)) (rb_root w) (rb_store w, 0))"

definition rb_destroy :: "rb \<Rightarrow> rnode store option" where
  "rb_destroy w =
     map_option fst (rb_foreach_back (\<lambda>a (s, u). map_option (\<lambda>s. (s, u)) (free (Some a) s)) (rb_root w) (rb_store w, ()))"

declare insert_fixup.simps [code] insert_place.simps [code] erase_fixup.simps [code] leftmost.simps [code]
  rb_find.simps [code] rb_foreach_front.simps [code] rb_foreach_middle.simps [code] rb_foreach_back.simps [code]

section \<open>Nodes and trees\<close>

type_synonym rtree = "(int \<times> color) atree"

definition mkr :: "int \<times> color \<Rightarrow> ptr \<Rightarrow> ptr \<Rightarrow> ptr \<Rightarrow> rnode" where
  "mkr d par l r = \<lparr>r_parent = par, r_left = l, r_right = r, r_color = snd d, r_value = fst d\<rparr>"

lemma mkr_simps [simp]:
  "r_left (mkr d par l r) = l" "r_right (mkr d par l r) = r" "r_parent (mkr d par l r) = par"
  "r_value (mkr d par l r) = fst d" "r_color (mkr d par l r) = snd d"
  "r_left_update (\<lambda>_. x) (mkr d par l r) = mkr d par x r"
  "r_right_update (\<lambda>_. x) (mkr d par l r) = mkr d par l x"
  "r_parent_update (\<lambda>_. x) (mkr d par l r) = mkr d x l r"
  "r_color_update (\<lambda>_. col) (mkr d par l r) = mkr (fst d, col) par l r"
  "r_value_update (\<lambda>_. v) (mkr d par l r) = mkr (v, snd d) par l r"
  by (simp_all add: mkr_def)

interpretation rb_nodes: node_layout mkr r_left r_right "\<lambda>p. r_parent_update (\<lambda>_. p)" "\<lambda>p. r_left_update (\<lambda>_. p)"
    "\<lambda>p. r_right_update (\<lambda>_. p)"
  by unfold_locales simp_all

abbreviation mem :: "rb \<Rightarrow> nat \<rightharpoonup> rnode" where
  "mem w \<equiv> cells (rb_store w)"

abbreviation with_mem :: "rb \<Rightarrow> (nat \<rightharpoonup> rnode) \<Rightarrow> rb" where
  "with_mem w h \<equiv> w\<lparr>rb_store := (rb_store w)\<lparr>cells := h\<rparr>\<rparr>"

text \<open>The store holds a tree, and the cells of \<open>E\<close> besides.\<close>

definition shaped :: "nat set \<Rightarrow> rb \<Rightarrow> rtree \<Rightarrow> bool" where
  "shaped E w t \<longleftrightarrow> rep mkr (mem w) None t \<and> distinct (addrs t) \<and> dom (mem w) = set (addrs t) \<union> E \<and>
     E \<inter> set (addrs t) = {} \<and> store_ok (rb_store w) \<and> rb_root w = root_ptr t"

lemma shaped_plug:
  "shaped E w (plug c t) \<longleftrightarrow>
     rep mkr (mem w) (ctx_parent c) t \<and> rep_ctx mkr (mem w) (root_ptr t) c \<and>
     distinct (before addrs fst c @ addrs t @ behind addrs fst c) \<and>
     dom (mem w) = set (addrs t) \<union> set (ctx_addrs c) \<union> E \<and> E \<inter> (set (addrs t) \<union> set (ctx_addrs c)) = {} \<and>
     store_ok (rb_store w) \<and> rb_root w = root_ptr (plug c t)"
  by (auto simp: shaped_def rep_plug addrs_plug)

lemma look_Some [simp]: "look (Some a) w = mem w a"
  by (simp add: look_def)

lemma update_Some: "mem w a = Some n \<Longrightarrow> update (Some a) f w = Some (with_mem w ((mem w)(a \<mapsto> f n)))"
  by (simp add: update_def)

lemmas links = link_parent_def link_left_def link_right_def set_color_def update_Some

lemma adopt_child_rep:
  assumes "rep mkr (mem w) q t" and "distinct (addrs t)"
  shows "\<exists>h. adopt_child (root_ptr t) par w = Some (with_mem w h) \<and> rep mkr h par t \<and>
    dom h = dom (mem w) \<and> (\<forall>x. x \<notin> set (addrs t) \<longrightarrow> h x = mem w x)"
proof (cases "t = \<langle>\<rangle>")
  case True
  then show ?thesis by (intro exI [of _ "mem w"]) (simp add: adopt_child_def)
next
  case False
  with rb_nodes.reparent [OF assms, of par] obtain h where
    h: "modify (root_ptr t) (r_parent_update (\<lambda>_. par)) (rb_store w) = Some ((rb_store w)\<lparr>cells := h\<rparr>)"
    "rep mkr h par t" "dom h = dom (mem w)" "\<forall>x. x \<notin> set (addrs t) \<longrightarrow> h x = mem w x" by blast
  with False show ?thesis
    by (intro exI [of _ h]) (simp add: adopt_child_def link_parent_def update_def)
qed

text \<open>The link to a subtree, in its parent or in the root pointer.\<close>

definition relinked :: "rb \<Rightarrow> ptr \<Rightarrow> (int \<times> color) frame list \<Rightarrow> (nat \<rightharpoonup> rnode) \<Rightarrow> rb" where
  "relinked w p c h = (with_mem w h)\<lparr>rb_root := if c = [] then p else rb_root w\<rparr>"

lemma relink_rep:
  assumes "rep_ctx mkr (mem w) (Some a) c" and "a \<notin> set (ctx_addrs c)" and "distinct (ctx_addrs c)"
  shows "\<exists>h. replace_child (ctx_parent c) (Some a) p w = Some (relinked w p c h) \<and>
    (if ctx_parent c = None then Some (w\<lparr>rb_root := p\<rparr>)
     else do {
       n \<leftarrow> look (ctx_parent c) w;
       if Some a = r_left n then link_left (ctx_parent c) p w
       else if Some a = r_right n then link_right (ctx_parent c) p w
       else Some w }) = Some (relinked w p c h) \<and>
    rep_ctx mkr h p c \<and> dom h = dom (mem w) \<and> (\<forall>x. x \<notin> set (ctx_addrs c) \<longrightarrow> h x = mem w x)"
proof (cases "c = []")
  case True
  then show ?thesis by (intro exI [of _ "mem w"]) (simp add: relinked_def replace_child_def)
next
  case False
  from rb_nodes.relink_parent [OF assms(1) this assms(2,3), of p] obtain q h where
    q: "deref (rb_store w) (ctx_parent c) = Some q" "r_left q = Some a \<or> r_right q = Some a"
    "modify (ctx_parent c) (if r_left q = Some a then r_left_update (\<lambda>_. p) else r_right_update (\<lambda>_. p)) (rb_store w) =
       Some ((rb_store w)\<lparr>cells := h\<rparr>)"
    "rep_ctx mkr h p c" "dom h = dom (mem w)" "\<forall>x. x \<notin> set (ctx_addrs c) \<longrightarrow> h x = mem w x" by blast
  with False show ?thesis
    by (intro exI [of _ h]) (auto simp: relinked_def replace_child_def look_def link_left_def link_right_def update_def
        split: if_splits)
qed

end
