(* ===== verification/Red_Black_Steps.thy ===== *)
theory Red_Black_Steps
  imports Red_Black_Tree
begin

text \<open>
  What rotations, recolourings and relinkings of the red-black tree do to the tree that the store holds.
\<close>

section \<open>Rotations\<close>

lemma mem_with_mem: "mem (with_mem w h) = h"
  by simp

lemma left_revolve_shaped:
  assumes "shaped E w (plug c \<langle>A, (x, d), \<langle>B, (y, e), C\<rangle>\<rangle>)"
  obtains w' where "left_revolve (Some x) w = Some w'" and "shaped E w' (plug c \<langle>\<langle>A, (x, d), B\<rangle>, (y, e), C\<rangle>)"
proof -
  note s = assms [unfolded shaped_plug, simplified]
  have d: "distinct (x # y # addrs A @ addrs B @ addrs C @ ctx_addrs c)"
    using s by auto
  define w1 where "w1 = with_mem w ((mem w)(x \<mapsto> mkr d (ctx_parent c) (root_ptr A) (root_ptr B)))"
  have 1: "rep mkr (mem w1) (Some y) B" "rep_ctx mkr (mem w1) (Some x) c"
    using s d by (simp_all add: w1_def)
  obtain h2 where h2: "adopt_child (root_ptr B) (Some x) w1 = Some (with_mem w1 h2)" "rep mkr h2 (Some x) B"
    "dom h2 = dom (mem w1)" "\<forall>z. z \<notin> set (addrs B) \<longrightarrow> h2 z = mem w1 z"
    using adopt_child_rep [OF 1(1), of "Some x"] d by auto
  define w3 where "w3 = with_mem w1 (h2(y \<mapsto> mkr e (ctx_parent c) (root_ptr B) (root_ptr C)))"
  have "rep_ctx mkr h2 (Some x) c"
    by (rule rep_ctx_frame [OF 1(2) h2(4)]) (use d in auto)
  then have 3: "rep_ctx mkr (mem w3) (Some x) c"
    using d by (simp add: w3_def)
  obtain h4 where h4: "(if ctx_parent c = None then Some (w3\<lparr>rb_root := Some y\<rparr>)
     else do {
       n \<leftarrow> look (ctx_parent c) w3;
       if Some x = r_left n then link_left (ctx_parent c) (Some y) w3
       else if Some x = r_right n then link_right (ctx_parent c) (Some y) w3
       else Some w3 }) = Some (relinked w3 (Some y) c h4)" "rep_ctx mkr h4 (Some y) c" "dom h4 = dom (mem w3)"
    "\<forall>z. z \<notin> set (ctx_addrs c) \<longrightarrow> h4 z = mem w3 z"
    using relink_rep [OF 3, of "Some y"] d by auto
  define w4 where "w4 = relinked w3 (Some y) c h4"
  define w5 where "w5 = with_mem w4 (h4(y \<mapsto> mkr e (ctx_parent c) (Some x) (root_ptr C)))"
  define h where "h = h4(y \<mapsto> mkr e (ctx_parent c) (Some x) (root_ptr C), x \<mapsto> mkr d (Some y) (root_ptr A) (root_ptr B))"
  have at: "mem w x = Some (mkr d (ctx_parent c) (root_ptr A) (Some y))" "mem w y = Some (mkr e (Some x) (root_ptr B) (root_ptr C))"
    "mem w1 y = mem w y" "mem w1 x = Some (mkr d (ctx_parent c) (root_ptr A) (root_ptr B))" "h2 y = mem w y" "h2 x = mem w1 x"
    "mem w3 x = mem w1 x" "h4 x = mem w1 x" "h4 y = Some (mkr e (ctx_parent c) (root_ptr B) (root_ptr C))" "mem w4 = h4"
    "mem w5 x = h4 x"
    using s d h2(4) h4(4) by (auto simp: w3_def w1_def w4_def w5_def relinked_def)
  have steps: "link_right (Some x) (root_ptr B) w = Some w1" "link_parent (Some y) (ctx_parent c) (with_mem w1 h2) = Some w3"
    "link_left (Some y) (Some x) w4 = Some w5" "link_parent (Some x) (Some y) w5 = Some (with_mem w4 h)"
    using at by (simp_all add: links w1_def w3_def w5_def h_def)
  have rest: "h z = mem w z" if "z \<in> set (addrs A) \<union> set (addrs C) \<union> E" for z
  proof -
    have "z \<noteq> x" "z \<noteq> y" "z \<notin> set (addrs B)" "z \<notin> set (ctx_addrs c)"
      using that s d by auto
    then show ?thesis using h2(4) h4(4) by (simp add: h_def w3_def w1_def)
  qed
  show thesis
  proof
    show "left_revolve (Some x) w = Some (with_mem w4 h)"
      unfolding left_revolve_def
      by (simp only: look_Some at mkr_simps mem_with_mem Let_def steps h2(1) h4(1) [folded w4_def] Option.bind.bind_lunit)
    have "rep mkr h (Some x) A" "rep mkr h (Some y) C"
      using s rest by (simp_all add: rep_cong [of A h "mem w"] rep_cong [of C h "mem w"])
    moreover have "rep mkr h (Some x) B"
      using h2(2) d h4(4) by (subst rep_cong [of B h h2]) (auto simp: h_def w3_def)
    moreover have "rep_ctx mkr h (Some y) c"
      using h4(2) d by (simp add: h_def)
    moreover have dom: "dom h = dom (mem w)"
      using h4(3) h2(3) at by (auto simp: h_def w3_def w1_def)
    moreover have "store_ok ((rb_store w)\<lparr>cells := h\<rparr>)"
      using s dom by (intro store_ok_dom) auto
    moreover have "rb_root (with_mem w4 h) = root_ptr (plug c \<langle>\<langle>A, (x, d), B\<rangle>, (y, e), C\<rangle>)"
      using s root_ptr_plug [of c "\<langle>\<langle>A, (x, d), B\<rangle>, (y, e), C\<rangle>" "\<langle>A, (x, d), \<langle>B, (y, e), C\<rangle>\<rangle>"]
      by (auto simp: w4_def relinked_def w3_def w1_def)
    ultimately show "shaped E (with_mem w4 h) (plug c \<langle>\<langle>A, (x, d), B\<rangle>, (y, e), C\<rangle>)"
      unfolding shaped_plug using s d by (simp add: h_def w4_def relinked_def w3_def w1_def)
  qed
qed

lemma right_revolve_shaped:
  assumes "shaped E w (plug c \<langle>\<langle>C, (y, e), B\<rangle>, (x, d), A\<rangle>)"
  obtains w' where "right_revolve (Some x) w = Some w'" and "shaped E w' (plug c \<langle>C, (y, e), \<langle>B, (x, d), A\<rangle>\<rangle>)"
proof -
  note s = assms [unfolded shaped_plug, simplified]
  have d: "distinct (x # y # addrs A @ addrs B @ addrs C @ ctx_addrs c)"
    using s by auto
  define w1 where "w1 = with_mem w ((mem w)(x \<mapsto> mkr d (ctx_parent c) (root_ptr B) (root_ptr A)))"
  have 1: "rep mkr (mem w1) (Some y) B" "rep_ctx mkr (mem w1) (Some x) c"
    using s d by (simp_all add: w1_def)
  obtain h2 where h2: "adopt_child (root_ptr B) (Some x) w1 = Some (with_mem w1 h2)" "rep mkr h2 (Some x) B"
    "dom h2 = dom (mem w1)" "\<forall>z. z \<notin> set (addrs B) \<longrightarrow> h2 z = mem w1 z"
    using adopt_child_rep [OF 1(1), of "Some x"] d by auto
  define w3 where "w3 = with_mem w1 (h2(y \<mapsto> mkr e (ctx_parent c) (root_ptr C) (root_ptr B)))"
  have "rep_ctx mkr h2 (Some x) c"
    by (rule rep_ctx_frame [OF 1(2) h2(4)]) (use d in auto)
  then have 3: "rep_ctx mkr (mem w3) (Some x) c"
    using d by (simp add: w3_def)
  obtain h4 where h4: "(if ctx_parent c = None then Some (w3\<lparr>rb_root := Some y\<rparr>)
     else do {
       n \<leftarrow> look (ctx_parent c) w3;
       if Some x = r_left n then link_left (ctx_parent c) (Some y) w3
       else if Some x = r_right n then link_right (ctx_parent c) (Some y) w3
       else Some w3 }) = Some (relinked w3 (Some y) c h4)" "rep_ctx mkr h4 (Some y) c" "dom h4 = dom (mem w3)"
    "\<forall>z. z \<notin> set (ctx_addrs c) \<longrightarrow> h4 z = mem w3 z"
    using relink_rep [OF 3, of "Some y"] d by auto
  define w4 where "w4 = relinked w3 (Some y) c h4"
  define w5 where "w5 = with_mem w4 (h4(y \<mapsto> mkr e (ctx_parent c) (root_ptr C) (Some x)))"
  define h where "h = h4(y \<mapsto> mkr e (ctx_parent c) (root_ptr C) (Some x), x \<mapsto> mkr d (Some y) (root_ptr B) (root_ptr A))"
  have at: "mem w x = Some (mkr d (ctx_parent c) (Some y) (root_ptr A))" "mem w y = Some (mkr e (Some x) (root_ptr C) (root_ptr B))"
    "mem w1 y = mem w y" "mem w1 x = Some (mkr d (ctx_parent c) (root_ptr B) (root_ptr A))" "h2 y = mem w y" "h2 x = mem w1 x"
    "mem w3 x = mem w1 x" "h4 x = mem w1 x" "h4 y = Some (mkr e (ctx_parent c) (root_ptr C) (root_ptr B))" "mem w4 = h4"
    "mem w5 x = h4 x"
    using s d h2(4) h4(4) by (auto simp: w3_def w1_def w4_def w5_def relinked_def)
  have steps: "link_left (Some x) (root_ptr B) w = Some w1" "link_parent (Some y) (ctx_parent c) (with_mem w1 h2) = Some w3"
    "link_right (Some y) (Some x) w4 = Some w5" "link_parent (Some x) (Some y) w5 = Some (with_mem w4 h)"
    using at by (simp_all add: links w1_def w3_def w5_def h_def)
  have rest: "h z = mem w z" if "z \<in> set (addrs A) \<union> set (addrs C) \<union> E" for z
  proof -
    have "z \<noteq> x" "z \<noteq> y" "z \<notin> set (addrs B)" "z \<notin> set (ctx_addrs c)"
      using that s d by auto
    then show ?thesis using h2(4) h4(4) by (simp add: h_def w3_def w1_def)
  qed
  show thesis
  proof
    show "right_revolve (Some x) w = Some (with_mem w4 h)"
      unfolding right_revolve_def
      by (simp only: look_Some at mkr_simps mem_with_mem Let_def steps h2(1) h4(1) [folded w4_def] Option.bind.bind_lunit)
    have "rep mkr h (Some x) A" "rep mkr h (Some y) C"
      using s rest by (simp_all add: rep_cong [of A h "mem w"] rep_cong [of C h "mem w"])
    moreover have "rep mkr h (Some x) B"
      using h2(2) d h4(4) by (subst rep_cong [of B h h2]) (auto simp: h_def w3_def)
    moreover have "rep_ctx mkr h (Some y) c"
      using h4(2) d by (simp add: h_def)
    moreover have dom: "dom h = dom (mem w)"
      using h4(3) h2(3) at by (auto simp: h_def w3_def w1_def)
    moreover have "store_ok ((rb_store w)\<lparr>cells := h\<rparr>)"
      using s dom by (intro store_ok_dom) auto
    moreover have "rb_root (with_mem w4 h) = root_ptr (plug c \<langle>C, (y, e), \<langle>B, (x, d), A\<rangle>\<rangle>)"
      using s root_ptr_plug [of c "\<langle>C, (y, e), \<langle>B, (x, d), A\<rangle>\<rangle>" "\<langle>\<langle>C, (y, e), B\<rangle>, (x, d), A\<rangle>"]
      by (auto simp: w4_def relinked_def w3_def w1_def)
    ultimately show "shaped E (with_mem w4 h) (plug c \<langle>C, (y, e), \<langle>B, (x, d), A\<rangle>\<rangle>)"
      unfolding shaped_plug using s d by (simp add: h_def w4_def relinked_def w3_def w1_def)
  qed
qed

section \<open>Colours and heights\<close>

definition colour :: "rtree \<Rightarrow> color" where
  "colour t = (case t of \<langle>\<rangle> \<Rightarrow> Black | \<langle>l, (a, d), r\<rangle> \<Rightarrow> snd d)"

lemma colour_simps [simp]: "colour \<langle>\<rangle> = Black" "colour \<langle>l, (a, d), r\<rangle> = snd d"
  by (simp_all add: colour_def)

lemma color_neq [simp]: "col \<noteq> Red \<longleftrightarrow> col = Black" "col \<noteq> Black \<longleftrightarrow> col = Red"
  by (cases col; simp)+

text \<open>No red node has a red child.\<close>

fun invc :: "rtree \<Rightarrow> bool" where
  "invc \<langle>\<rangle> \<longleftrightarrow> True"
| "invc \<langle>l, (a, d), r\<rangle> \<longleftrightarrow> invc l \<and> invc r \<and> (snd d = Red \<longrightarrow> colour l = Black \<and> colour r = Black)"

text \<open>Every path down has \<open>n\<close> black nodes.\<close>

fun bal :: "nat \<Rightarrow> rtree \<Rightarrow> bool" where
  "bal n \<langle>\<rangle> \<longleftrightarrow> n = 0"
| "bal n \<langle>l, (a, d), r\<rangle> \<longleftrightarrow> (if snd d = Red then bal n l \<and> bal n r
     else (case n of 0 \<Rightarrow> False | Suc m \<Rightarrow> bal m l \<and> bal m r))"

definition red_black :: "rtree \<Rightarrow> bool" where
  "red_black t \<longleftrightarrow> colour t = Black \<and> invc t \<and> (\<exists>n. bal n t)"

fun ctx_colour :: "(int \<times> color) frame list \<Rightarrow> color" where
  "ctx_colour [] = Black"
| "ctx_colour (In_left b d r # c) = snd d"
| "ctx_colour (In_right l b d # c) = snd d"

lemma colour_plug: "c \<noteq> [] \<Longrightarrow> colour (plug c t) = colour (plug c t')"
proof (induction c t arbitrary: t' rule: plug.induct)
  case (2 b d r c t)
  then show ?case by (cases "c = []") simp_all
next
  case (3 l b d c t)
  then show ?case by (cases "c = []") simp_all
qed simp

lemma invc_plug:
  "invc (plug c t) \<longleftrightarrow> invc t \<and> invc (plug c \<langle>\<rangle>) \<and> (ctx_colour c = Red \<longrightarrow> colour t = Black)"
proof (induction c arbitrary: t)
  case (Cons f c)
  show ?case
  proof (cases f)
    case (In_left b d r)
    with Cons.IH [of "\<langle>t, (b, d), r\<rangle>"] Cons.IH [of "\<langle>\<langle>\<rangle>, (b, d), r\<rangle>"] show ?thesis by auto
  next
    case (In_right l b d)
    with Cons.IH [of "\<langle>l, (b, d), t\<rangle>"] Cons.IH [of "\<langle>l, (b, d), \<langle>\<rangle>\<rangle>"] show ?thesis by auto
  qed
qed simp

text \<open>A subtree may be replaced by one of the same height.\<close>

lemma bal_plug: "bal n (plug c t) \<Longrightarrow> \<exists>k. bal k t \<and> (\<forall>t'. bal k t' \<longrightarrow> bal n (plug c t'))"
proof (induction c arbitrary: t)
  case (Cons f c)
  show ?case
  proof (cases f)
    case (In_left b d r)
    with Cons.IH [of "\<langle>t, (b, d), r\<rangle>"] Cons.prems obtain k where
      k: "bal k \<langle>t, (b, d), r\<rangle>" "\<forall>t'. bal k t' \<longrightarrow> bal n (plug c t')" by auto
    then show ?thesis
      by (intro exI [of _ "if snd d = Red then k else k - 1"]) (auto simp: In_left split: nat.splits if_splits)
  next
    case (In_right l b d)
    with Cons.IH [of "\<langle>l, (b, d), t\<rangle>"] Cons.prems obtain k where
      k: "bal k \<langle>l, (b, d), t\<rangle>" "\<forall>t'. bal k t' \<longrightarrow> bal n (plug c t')" by auto
    then show ?thesis
      by (intro exI [of _ "if snd d = Red then k else k - 1"]) (auto simp: In_right split: nat.splits if_splits)
  qed
qed auto

lemma bal_swap: "bal n (plug c t) \<Longrightarrow> (\<And>k. bal k t \<Longrightarrow> bal k t') \<Longrightarrow> bal n (plug c t')"
  using bal_plug by blast

section \<open>Looking and painting\<close>

lemma look_shaped: "shaped E w (plug c \<langle>l, (a, d), r\<rangle>) \<Longrightarrow> mem w a = Some (mkr d (ctx_parent c) (root_ptr l) (root_ptr r))"
  by (simp add: shaped_plug)

lemma root_shaped: "shaped E w t \<Longrightarrow> rb_root w = root_ptr t"
  by (simp add: shaped_def)

lemma red_child_shaped: "shaped E w (plug c t) \<Longrightarrow> red_child (root_ptr t) w = Some (colour t = Red)"
proof (cases t)
  case (Node l x r)
  assume w: "shaped E w (plug c t)"
  obtain a d where "x = (a, d)" by (cases x)
  with Node look_shaped [of E w c l a d r] w show ?thesis
    by (simp add: red_child_def is_red_def)
qed (simp add: red_child_def)

lemma is_red_shaped: "shaped E w (plug c t) \<Longrightarrow> t \<noteq> \<langle>\<rangle> \<Longrightarrow> is_red (root_ptr t) w = Some (colour t = Red)"
  using red_child_shaped [of E w c t] by (auto simp: red_child_def)

definition paint :: "color \<Rightarrow> rtree \<Rightarrow> rtree" where
  "paint col t = (case t of \<langle>\<rangle> \<Rightarrow> \<langle>\<rangle> | \<langle>l, (a, d), r\<rangle> \<Rightarrow> \<langle>l, (a, (fst d, col)), r\<rangle>)"

lemma paint_simps [simp]: "paint col \<langle>\<rangle> = \<langle>\<rangle>" "paint col \<langle>l, (a, d), r\<rangle> = \<langle>l, (a, (fst d, col)), r\<rangle>"
  by (simp_all add: paint_def)

lemma set_color_shaped:
  assumes "shaped E w (plug c t)" and "t \<noteq> \<langle>\<rangle>"
  obtains w' where "set_color (root_ptr t) col w = Some w'" and "shaped E w' (plug c (paint col t))"
proof -
  obtain l a d r where t: "t = \<langle>l, (a, d), r\<rangle>" using assms(2) by (metis tree.exhaust surj_pair)
  note s = assms(1) [unfolded shaped_plug t, simplified]
  let ?h = "(mem w)(a \<mapsto> mkr (fst d, col) (ctx_parent c) (root_ptr l) (root_ptr r))"
  show thesis
  proof
    show "set_color (root_ptr t) col w = Some (with_mem w ?h)"
      using s by (simp add: t links)
    have "store_ok ((rb_store w)\<lparr>cells := ?h\<rparr>)"
      using s by (intro store_ok_dom) auto
    moreover have "root_ptr (plug c (paint col t)) = root_ptr (plug c t)"
      using root_ptr_plug [of c "paint col t" t] by (cases "c = []") (simp_all add: t)
    ultimately show "shaped E (with_mem w ?h) (plug c (paint col t))"
      using s by (auto simp: shaped_plug t)
  qed
qed

end
