(* ===== verification/Red_Black_Insert.thy ===== *)
theory Red_Black_Insert
  imports Red_Black_Steps "HOL-Library.Multiset"
begin

text \<open>
  Insertion into the red-black tree: what each round of \<open>insert_fixup\<close> does to the tree, and that it ends in a
  red-black tree with the same values in the same order.
\<close>

section \<open>The rounds\<close>

lemma siblings_differ:
  "shaped E w (plug c \<langle>l, (a, d), r\<rangle>) \<Longrightarrow> l \<noteq> \<langle>\<rangle> \<or> r \<noteq> \<langle>\<rangle> \<Longrightarrow> root_ptr l \<noteq> root_ptr r"
  "shaped E w (plug c \<langle>l, (a, d), r\<rangle>) \<Longrightarrow> root_ptr l \<noteq> Some a"
  "shaped E w (plug c \<langle>l, (a, d), r\<rangle>) \<Longrightarrow> root_ptr r \<noteq> Some a"
proof -
  assume s: "shaped E w (plug c \<langle>l, (a, d), r\<rangle>)"
  then have d: "distinct (addrs l @ a # addrs r)" by (auto simp: shaped_plug)
  then show "root_ptr l \<noteq> Some a" "root_ptr r \<noteq> Some a"
    using root_ptr_in [of l a] root_ptr_in [of r a] by auto
  assume "l \<noteq> \<langle>\<rangle> \<or> r \<noteq> \<langle>\<rangle>"
  with d show "root_ptr l \<noteq> root_ptr r"
    using root_ptr_in [of l] root_ptr_in [of r] by (cases "root_ptr l"; cases "root_ptr r") auto
qed

lemma round_red_uncle:
  assumes "shaped E w (plug c \<langle>P, (g, gd), u\<rangle>)" and "root_ptr P = Some p" and "colour u = Red"
  obtains w' where "insert_round node (Some p) w = Some (Some g, w')"
    and "shaped E w' (plug c \<langle>paint Black P, (g, (fst gd, Red)), paint Black u\<rangle>)"
proof -
  obtain A d B where P: "P = \<langle>A, (p, d), B\<rangle>" using assms(2) by (auto simp: root_ptr_Some)
  have u: "u \<noteq> \<langle>\<rangle>" "P \<noteq> \<langle>\<rangle>" using assms(3) P by auto
  have p: "mem w p = Some (mkr d (Some g) (root_ptr A) (root_ptr B))"
    using look_shaped [of E w "In_left g gd u # c" A p d B] assms(1) P by simp
  have red: "red_child (root_ptr u) w = Some True"
    using red_child_shaped [of E w "In_right P g gd # c" u] assms(1,3) by simp
  obtain w1 where w1: "set_color (root_ptr u) Black w = Some w1" "shaped E w1 (plug c \<langle>P, (g, gd), paint Black u\<rangle>)"
    using set_color_shaped [of E w "In_right P g gd # c" u Black] assms(1) u by auto
  obtain w2 where w2: "set_color (Some p) Black w1 = Some w2"
    "shaped E w2 (plug c \<langle>paint Black P, (g, gd), paint Black u\<rangle>)"
    using set_color_shaped [of E w1 "In_left g gd (paint Black u) # c" P Black] w1(2) assms(2) u(2) by auto
  obtain w3 where w3: "set_color (Some g) Red w2 = Some w3"
    "shaped E w3 (plug c \<langle>paint Black P, (g, (fst gd, Red)), paint Black u\<rangle>)"
    using set_color_shaped [OF w2(2), of Red] by auto
  show thesis
    using look_shaped [OF assms(1)] p red w1(1) w2(1) w3 assms(2)
    by (intro that [of w3]) (simp_all add: insert_round_def recolor_def)
qed

lemma round_red_uncle_mirror:
  assumes "shaped E w (plug c \<langle>u, (g, gd), P\<rangle>)" and "root_ptr P = Some p" and "colour u = Red"
  obtains w' where "insert_round node (Some p) w = Some (Some g, w')"
    and "shaped E w' (plug c \<langle>paint Black u, (g, (fst gd, Red)), paint Black P\<rangle>)"
proof -
  obtain A d B where P: "P = \<langle>A, (p, d), B\<rangle>" using assms(2) by (auto simp: root_ptr_Some)
  have u: "u \<noteq> \<langle>\<rangle>" "P \<noteq> \<langle>\<rangle>" using assms(3) P by auto
  have p: "mem w p = Some (mkr d (Some g) (root_ptr A) (root_ptr B))"
    using look_shaped [of E w "In_right u g gd # c" A p d B] assms(1) P by simp
  have red: "red_child (root_ptr u) w = Some True"
    using red_child_shaped [of E w "In_left g gd P # c" u] assms(1,3) by simp
  obtain w1 where w1: "set_color (root_ptr u) Black w = Some w1" "shaped E w1 (plug c \<langle>paint Black u, (g, gd), P\<rangle>)"
    using set_color_shaped [of E w "In_left g gd P # c" u Black] assms(1) u by auto
  obtain w2 where w2: "set_color (Some p) Black w1 = Some w2"
    "shaped E w2 (plug c \<langle>paint Black u, (g, gd), paint Black P\<rangle>)"
    using set_color_shaped [of E w1 "In_right (paint Black u) g gd # c" P Black] w1(2) assms(2) u(2) by auto
  obtain w3 where w3: "set_color (Some g) Red w2 = Some w3"
    "shaped E w3 (plug c \<langle>paint Black u, (g, (fst gd, Red)), paint Black P\<rangle>)"
    using set_color_shaped [OF w2(2), of Red] by auto
  have "Some p \<noteq> root_ptr u"
    using siblings_differ(1) [OF assms(1)] assms(2) u by auto
  then show thesis
    using look_shaped [OF assms(1)] p red w1(1) w2(1) w3
    by (intro that [of w3]) (simp_all add: insert_round_def recolor_def)
qed

lemma round_outer:
  assumes "shaped E w (plug c \<langle>\<langle>t, (p, pd), r\<rangle>, (g, gd), u\<rangle>)" and "t \<noteq> \<langle>\<rangle>" and "colour u = Black"
  obtains w' where "insert_round (root_ptr t) (Some p) w = Some (root_ptr t, w')"
    and "shaped E w' (plug c \<langle>t, (p, (fst pd, Black)), \<langle>r, (g, (fst gd, Red)), u\<rangle>\<rangle>)"
proof -
  have s: "shaped E w (plug (In_left g gd u # c) \<langle>t, (p, pd), r\<rangle>)" using assms(1) by simp
  have ne: "root_ptr r \<noteq> root_ptr t" using siblings_differ(1) [OF s] assms(2) by metis
  have red: "red_child (root_ptr u) w = Some False"
    using red_child_shaped [of E w "In_right \<langle>t, (p, pd), r\<rangle> g gd # c" u] assms(1,3) by simp
  obtain w1 where w1: "set_color (Some p) Black w = Some w1"
    "shaped E w1 (plug c \<langle>\<langle>t, (p, (fst pd, Black)), r\<rangle>, (g, gd), u\<rangle>)"
    using set_color_shaped [OF s, of Black] by auto
  obtain w2 where w2: "set_color (Some g) Red w1 = Some w2"
    "shaped E w2 (plug c \<langle>\<langle>t, (p, (fst pd, Black)), r\<rangle>, (g, (fst gd, Red)), u\<rangle>)"
    using set_color_shaped [OF w1(2), of Red] by auto
  obtain w3 where w3: "right_revolve (Some g) w2 = Some w3"
    "shaped E w3 (plug c \<langle>t, (p, (fst pd, Black)), \<langle>r, (g, (fst gd, Red)), u\<rangle>\<rangle>)"
    using right_revolve_shaped [OF w2(2)] by blast
  show thesis
    using look_shaped [OF assms(1)] look_shaped [OF s] red ne w1(1) w2(1) w3
    by (intro that [of w3]) (simp_all add: insert_round_def)
qed

lemma round_outer_mirror:
  assumes "shaped E w (plug c \<langle>u, (g, gd), \<langle>r, (p, pd), t\<rangle>\<rangle>)" and "t \<noteq> \<langle>\<rangle>" and "colour u = Black"
  obtains w' where "insert_round (root_ptr t) (Some p) w = Some (root_ptr t, w')"
    and "shaped E w' (plug c \<langle>\<langle>u, (g, (fst gd, Red)), r\<rangle>, (p, (fst pd, Black)), t\<rangle>)"
proof -
  have s: "shaped E w (plug (In_right u g gd # c) \<langle>r, (p, pd), t\<rangle>)" using assms(1) by simp
  have ne: "root_ptr r \<noteq> root_ptr t" "Some p \<noteq> root_ptr u"
    using siblings_differ(1) [OF s] siblings_differ(1) [OF assms(1)] assms(2) by auto
  have red: "red_child (root_ptr u) w = Some False"
    using red_child_shaped [of E w "In_left g gd \<langle>r, (p, pd), t\<rangle> # c" u] assms(1,3) by simp
  obtain w1 where w1: "set_color (Some p) Black w = Some w1"
    "shaped E w1 (plug c \<langle>u, (g, gd), \<langle>r, (p, (fst pd, Black)), t\<rangle>\<rangle>)"
    using set_color_shaped [OF s, of Black] by auto
  obtain w2 where w2: "set_color (Some g) Red w1 = Some w2"
    "shaped E w2 (plug c \<langle>u, (g, (fst gd, Red)), \<langle>r, (p, (fst pd, Black)), t\<rangle>\<rangle>)"
    using set_color_shaped [OF w1(2), of Red] by auto
  obtain w3 where w3: "left_revolve (Some g) w2 = Some w3"
    "shaped E w3 (plug c \<langle>\<langle>u, (g, (fst gd, Red)), r\<rangle>, (p, (fst pd, Black)), t\<rangle>)"
    using left_revolve_shaped [OF w2(2)] by blast
  show thesis
    using look_shaped [OF assms(1)] look_shaped [OF s] red ne w1(1) w2(1) w3
    by (intro that [of w3]) (simp_all add: insert_round_def)
qed

lemma round_inner:
  assumes "shaped E w (plug c \<langle>\<langle>r, (p, pd), \<langle>A, (x, d), B\<rangle>\<rangle>, (g, gd), u\<rangle>)" and "colour u = Black"
  obtains w' where "insert_round (Some x) (Some p) w = Some (Some p, w')"
    and "shaped E w' (plug c \<langle>\<langle>\<langle>r, (p, pd), A\<rangle>, (x, d), B\<rangle>, (g, gd), u\<rangle>)"
proof -
  have s: "shaped E w (plug (In_left g gd u # c) \<langle>r, (p, pd), \<langle>A, (x, d), B\<rangle>\<rangle>)" using assms(1) by simp
  have red: "red_child (root_ptr u) w = Some False"
    using red_child_shaped [of E w "In_right \<langle>r, (p, pd), \<langle>A, (x, d), B\<rangle>\<rangle> g gd # c" u] assms by simp
  obtain w1 where w1: "left_revolve (Some p) w = Some w1"
    "shaped E w1 (plug (In_left g gd u # c) \<langle>\<langle>r, (p, pd), A\<rangle>, (x, d), B\<rangle>)"
    using left_revolve_shaped [OF s] by blast
  then have s1: "shaped E w1 (plug (In_left x d B # In_left g gd u # c) \<langle>r, (p, pd), A\<rangle>)" by simp
  show thesis
    using look_shaped [OF assms(1)] look_shaped [OF s] look_shaped [OF s1] red siblings_differ(2) [OF s1] w1
    by (intro that [of w1]) (simp_all add: insert_round_def)
qed

lemma round_inner_mirror:
  assumes "shaped E w (plug c \<langle>u, (g, gd), \<langle>\<langle>A, (x, d), B\<rangle>, (p, pd), r\<rangle>\<rangle>)" and "colour u = Black"
  obtains w' where "insert_round (Some x) (Some p) w = Some (Some p, w')"
    and "shaped E w' (plug c \<langle>\<langle>u, (g, (fst gd, Red)), A\<rangle>, (x, (fst d, Black)), \<langle>B, (p, pd), r\<rangle>\<rangle>)"
proof -
  have s: "shaped E w (plug (In_right u g gd # c) \<langle>\<langle>A, (x, d), B\<rangle>, (p, pd), r\<rangle>)" using assms(1) by simp
  have ne: "Some p \<noteq> root_ptr u"
    using siblings_differ(1) [OF assms(1)] by auto
  have red: "red_child (root_ptr u) w = Some False"
    using red_child_shaped [of E w "In_left g gd \<langle>\<langle>A, (x, d), B\<rangle>, (p, pd), r\<rangle> # c" u] assms by simp
  obtain w1 where w1: "right_revolve (Some p) w = Some w1"
    "shaped E w1 (plug (In_right u g gd # c) \<langle>A, (x, d), \<langle>B, (p, pd), r\<rangle>\<rangle>)"
    using right_revolve_shaped [OF s] by blast
  obtain w2 where w2: "set_color (Some x) Black w1 = Some w2"
    "shaped E w2 (plug c \<langle>u, (g, gd), \<langle>A, (x, (fst d, Black)), \<langle>B, (p, pd), r\<rangle>\<rangle>\<rangle>)"
    using set_color_shaped [OF w1(2), of Black] by auto
  obtain w3 where w3: "set_color (Some g) Red w2 = Some w3"
    "shaped E w3 (plug c \<langle>u, (g, (fst gd, Red)), \<langle>A, (x, (fst d, Black)), \<langle>B, (p, pd), r\<rangle>\<rangle>\<rangle>)"
    using set_color_shaped [OF w2(2), of Red] by auto
  obtain w4 where w4: "left_revolve (Some g) w3 = Some w4"
    "shaped E w4 (plug c \<langle>\<langle>u, (g, (fst gd, Red)), A\<rangle>, (x, (fst d, Black)), \<langle>B, (p, pd), r\<rangle>\<rangle>)"
    using left_revolve_shaped [OF w3(2)] by blast
  show thesis
    using look_shaped [OF assms(1)] look_shaped [OF s] red ne w1(1) w2(1) w3(1) w4
    by (intro that [of w4]) (simp_all add: insert_round_def)
qed

section \<open>The loop\<close>

definition vals :: "rtree \<Rightarrow> int list" where
  "vals t = map fst (labels t)"

lemma vals_plug: "vals (plug c t) = map fst (before labels snd c) @ vals t @ map fst (behind labels snd c)"
  by (simp add: vals_def labels_plug)

lemma vals_simps [simp]: "vals \<langle>\<rangle> = []" "vals \<langle>l, (a, d), r\<rangle> = vals l @ fst d # vals r" "vals (paint col t) = vals t"
  by (auto simp: vals_def paint_def split: tree.splits prod.splits)

lemma vals_swap: "vals t = vals t' \<Longrightarrow> vals (plug c t) = vals (plug c t')"
  by (simp add: vals_plug)

text \<open>From here the loop ends in a red-black tree with the values of \<open>t\<close>.\<close>

definition fixed :: "nat set \<Rightarrow> rb \<Rightarrow> ptr \<Rightarrow> rtree \<Rightarrow> bool" where
  "fixed E w node t \<longleftrightarrow> (\<exists>w' t'. insert_fixup node w = Some w' \<and> shaped E w' t' \<and> red_black t' \<and> vals t' = vals t)"

text \<open>A red node at the hole of a context, with everything in order but for its parent's colour.\<close>

definition pending :: "(int \<times> color) frame list \<Rightarrow> rtree \<Rightarrow> bool" where
  "pending c t \<longleftrightarrow> t \<noteq> \<langle>\<rangle> \<and> colour t = Red \<and> invc t \<and> invc (plug c \<langle>\<rangle>) \<and> (c \<noteq> [] \<longrightarrow> colour (plug c \<langle>\<rangle>) = Black) \<and>
     (\<exists>n. bal n (plug c t))"

lemma red_parent: "shaped E w (plug c t) \<Longrightarrow> red_child (ctx_parent c) w = Some (ctx_colour c = Red)"
proof (cases c rule: ctx_parent.cases)
  case (2 b d r c')
  assume "shaped E w (plug c t)"
  with red_child_shaped [of E w c' "\<langle>t, (b, d), r\<rangle>"] 2 show ?thesis by simp
next
  case (3 l b d c')
  assume "shaped E w (plug c t)"
  with red_child_shaped [of E w c' "\<langle>l, (b, d), t\<rangle>"] 3 show ?thesis by simp
qed (simp add: red_child_def)

lemma insert_fixup_step:
  assumes "shaped E w (plug c t)" and "t \<noteq> \<langle>\<rangle>"
  shows "insert_fixup (root_ptr t) w =
    (if ctx_colour c = Red then do { (node, w) \<leftarrow> insert_round (root_ptr t) (ctx_parent c) w; insert_fixup node w }
     else set_color (rb_root w) Black w)"
proof -
  obtain l a d r where t: "t = \<langle>l, (a, d), r\<rangle>" using assms(2) by (metis tree.exhaust surj_pair)
  show ?thesis
    using look_shaped [of E w c l a d r] red_parent [OF assms(1)] assms(1)
    by (subst insert_fixup.simps) (simp add: t)
qed

lemma bal_paint: "bal n t \<Longrightarrow> \<exists>m. bal m (paint Black t)"
proof (cases t)
  case (Node l x r)
  moreover obtain a d where "x = (a, d)" by (cases x)
  moreover assume "bal n t"
  ultimately show ?thesis
    by (intro exI [of _ "if snd d = Red then Suc n else n"]) (auto split: if_splits)
qed auto

lemma invc_paint: "invc t \<Longrightarrow> invc (paint Black t)"
  by (cases t rule: invc.cases) auto

lemma colour_paint [simp]: "colour (paint Black t) = Black"
  by (auto simp: paint_def colour_def split: tree.splits prod.splits)

lemma fixed_stop:
  assumes "shaped E w (plug c t)" and "t \<noteq> \<langle>\<rangle>" and "ctx_colour c = Black" and "bal n (plug c t)" and "invc (plug c t)"
  shows "fixed E w (root_ptr t) (plug c t)"
proof -
  obtain w' where w': "set_color (root_ptr (plug c t)) Black w = Some w'" "shaped E w' (paint Black (plug c t))"
    using set_color_shaped [of E w "[]" "plug c t" Black] assms(1,2) by auto
  have "insert_fixup (root_ptr t) w = Some w'"
    using insert_fixup_step [OF assms(1,2)] assms(1,3) w'(1) by (simp add: shaped_def)
  moreover have "red_black (paint Black (plug c t))"
    using bal_paint [OF assms(4)] invc_paint [OF assms(5)] by (simp add: red_black_def)
  ultimately show ?thesis using w'(2) by (auto simp: fixed_def intro: exI [of _ "paint Black (plug c t)"])
qed

lemma fixed_round:
  assumes "shaped E w (plug c t)" and "t \<noteq> \<langle>\<rangle>" and "ctx_colour c = Red"
    and "insert_round (root_ptr t) (ctx_parent c) w = Some (node, w')" and "fixed E w' node T" and "vals T = vals (plug c t)"
  shows "fixed E w (root_ptr t) (plug c t)"
  using insert_fixup_step [OF assms(1,2)] assms(3-6) by (auto simp: fixed_def)

lemma fixed_outer:
  assumes "shaped E w (plug (In_left p pd r # In_left g gd u # c) t)" and "pending (In_left p pd r # In_left g gd u # c) t"
    and "snd pd = Red" and "colour u = Black"
  shows "fixed E w (root_ptr t) (plug (In_left p pd r # In_left g gd u # c) t)"
proof -
  have pen: "t \<noteq> \<langle>\<rangle>" "invc t" "invc r" "invc u" "colour r = Black" "snd gd = Black" "invc (plug c \<langle>\<rangle>)"
    using assms(2,3) invc_plug [of c "\<langle>\<langle>\<langle>\<rangle>, (p, pd), r\<rangle>, (g, gd), u\<rangle>"] by (auto simp: pending_def)
  obtain w' where w': "insert_round (root_ptr t) (Some p) w = Some (root_ptr t, w')"
    "shaped E w' (plug c \<langle>t, (p, (fst pd, Black)), \<langle>r, (g, (fst gd, Red)), u\<rangle>\<rangle>)"
    using round_outer [of E w c t p pd r g gd u] assms(1,4) pen(1) by auto
  obtain n where n: "bal n (plug c \<langle>\<langle>t, (p, pd), r\<rangle>, (g, gd), u\<rangle>)"
    using assms(2) by (auto simp: pending_def)
  have "bal n (plug c \<langle>t, (p, (fst pd, Black)), \<langle>r, (g, (fst gd, Red)), u\<rangle>\<rangle>)"
    by (rule bal_swap [OF n]) (use assms(3) pen in \<open>auto split: nat.splits\<close>)
  moreover have "invc (plug c \<langle>t, (p, (fst pd, Black)), \<langle>r, (g, (fst gd, Red)), u\<rangle>\<rangle>)"
    using pen assms(4) by (subst invc_plug) simp
  ultimately have fx: "fixed E w' (root_ptr t) (plug c \<langle>t, (p, (fst pd, Black)), \<langle>r, (g, (fst gd, Red)), u\<rangle>\<rangle>)"
    using fixed_stop [of E w' "In_left p (fst pd, Black) \<langle>r, (g, (fst gd, Red)), u\<rangle> # c" t n] w'(2) pen(1) by simp
  show ?thesis
    by (rule fixed_round [OF assms(1) pen(1) _ _ fx]) (use w'(1) assms(3) in \<open>auto intro: vals_swap\<close>)
qed

lemma fixed_outer_mirror:
  assumes "shaped E w (plug (In_right r p pd # In_right u g gd # c) t)" and "pending (In_right r p pd # In_right u g gd # c) t"
    and "snd pd = Red" and "colour u = Black"
  shows "fixed E w (root_ptr t) (plug (In_right r p pd # In_right u g gd # c) t)"
proof -
  have pen: "t \<noteq> \<langle>\<rangle>" "invc t" "invc r" "invc u" "colour r = Black" "snd gd = Black" "invc (plug c \<langle>\<rangle>)"
    using assms(2,3) invc_plug [of c "\<langle>u, (g, gd), \<langle>r, (p, pd), \<langle>\<rangle>\<rangle>\<rangle>"] by (auto simp: pending_def)
  obtain w' where w': "insert_round (root_ptr t) (Some p) w = Some (root_ptr t, w')"
    "shaped E w' (plug c \<langle>\<langle>u, (g, (fst gd, Red)), r\<rangle>, (p, (fst pd, Black)), t\<rangle>)"
    using round_outer_mirror [of E w c u g gd r p pd t] assms(1,4) pen(1) by auto
  obtain n where n: "bal n (plug c \<langle>u, (g, gd), \<langle>r, (p, pd), t\<rangle>\<rangle>)"
    using assms(2) by (auto simp: pending_def)
  have "bal n (plug c \<langle>\<langle>u, (g, (fst gd, Red)), r\<rangle>, (p, (fst pd, Black)), t\<rangle>)"
    by (rule bal_swap [OF n]) (use assms(3) pen in \<open>auto split: nat.splits\<close>)
  moreover have "invc (plug c \<langle>\<langle>u, (g, (fst gd, Red)), r\<rangle>, (p, (fst pd, Black)), t\<rangle>)"
    using pen assms(4) by (subst invc_plug) simp
  ultimately have fx: "fixed E w' (root_ptr t) (plug c \<langle>\<langle>u, (g, (fst gd, Red)), r\<rangle>, (p, (fst pd, Black)), t\<rangle>)"
    using fixed_stop [of E w' "In_right \<langle>u, (g, (fst gd, Red)), r\<rangle> p (fst pd, Black) # c" t n] w'(2) pen(1) by simp
  show ?thesis
    by (rule fixed_round [OF assms(1) pen(1) _ _ fx]) (use w'(1) assms(3) in \<open>auto intro: vals_swap\<close>)
qed

lemma fixed_inner:
  assumes "shaped E w (plug (In_right r p pd # In_left g gd u # c) t)" and "pending (In_right r p pd # In_left g gd u # c) t"
    and "snd pd = Red" and "colour u = Black"
  shows "fixed E w (root_ptr t) (plug (In_right r p pd # In_left g gd u # c) t)"
proof -
  obtain A x d B where t: "t = \<langle>A, (x, d), B\<rangle>" using assms(2) by (metis pending_def tree.exhaust surj_pair)
  have pen: "snd d = Red" "invc A" "invc B" "colour A = Black" "colour B = Black" "invc r" "invc u" "colour r = Black"
      "snd gd = Black" "invc (plug c \<langle>\<rangle>)" "c \<noteq> [] \<longrightarrow> colour (plug c \<langle>\<rangle>) = Black"
    using assms(2,3) invc_plug [of c "\<langle>\<langle>r, (p, pd), \<langle>\<rangle>\<rangle>, (g, gd), u\<rangle>"] colour_plug [of c "\<langle>\<rangle>" "\<langle>\<langle>r, (p, pd), \<langle>\<rangle>\<rangle>, (g, gd), u\<rangle>"]
    by (auto simp: pending_def t)
  obtain w' where w': "insert_round (Some x) (Some p) w = Some (Some p, w')"
    "shaped E w' (plug c \<langle>\<langle>\<langle>r, (p, pd), A\<rangle>, (x, d), B\<rangle>, (g, gd), u\<rangle>)"
    using round_inner [of E w c r p pd A x d B g gd u] assms(1,4) by (auto simp: t)
  obtain n where n: "bal n (plug c \<langle>\<langle>r, (p, pd), t\<rangle>, (g, gd), u\<rangle>)"
    using assms(2) by (auto simp: pending_def)
  have "bal n (plug c \<langle>\<langle>\<langle>r, (p, pd), A\<rangle>, (x, d), B\<rangle>, (g, gd), u\<rangle>)"
    by (rule bal_swap [OF n]) (use assms(3) pen(1,9) t in \<open>auto split: nat.splits\<close>)
  moreover have "invc (plug (In_left x d B # In_left g gd u # c) \<langle>\<rangle>)"
    using pen assms(4) invc_plug [of c "\<langle>\<langle>\<langle>\<rangle>, (x, d), B\<rangle>, (g, gd), u\<rangle>"] by simp
  moreover have "colour (plug c \<langle>\<langle>\<langle>\<rangle>, (x, d), B\<rangle>, (g, gd), u\<rangle>) = Black"
    using pen colour_plug [of c "\<langle>\<langle>\<langle>\<rangle>, (x, d), B\<rangle>, (g, gd), u\<rangle>" "\<langle>\<rangle>"] by (cases "c = []") auto
  ultimately have "pending (In_left x d B # In_left g gd u # c) \<langle>r, (p, pd), A\<rangle>"
    using pen assms(3) by (auto simp: pending_def)
  with fixed_outer [of E w' x d B g gd u c "\<langle>r, (p, pd), A\<rangle>"] w'(2) pen(1) assms(4)
  have fx: "fixed E w' (Some p) (plug c \<langle>\<langle>\<langle>r, (p, pd), A\<rangle>, (x, d), B\<rangle>, (g, gd), u\<rangle>)" by simp
  show ?thesis
    by (rule fixed_round [OF assms(1) _ _ _ fx]) (use w'(1) assms(3) in \<open>auto simp: t intro: vals_swap\<close>)
qed

lemma fixed_inner_mirror:
  assumes "shaped E w (plug (In_left p pd r # In_right u g gd # c) t)" and "pending (In_left p pd r # In_right u g gd # c) t"
    and "snd pd = Red" and "colour u = Black"
  shows "fixed E w (root_ptr t) (plug (In_left p pd r # In_right u g gd # c) t)"
proof -
  obtain A x d B where t: "t = \<langle>A, (x, d), B\<rangle>" using assms(2) by (metis pending_def tree.exhaust surj_pair)
  have pen: "snd d = Red" "invc A" "invc B" "colour A = Black" "colour B = Black" "invc r" "invc u" "colour r = Black"
      "snd gd = Black" "invc (plug c \<langle>\<rangle>)"
    using assms(2,3) invc_plug [of c "\<langle>u, (g, gd), \<langle>\<langle>\<rangle>, (p, pd), r\<rangle>\<rangle>"] by (auto simp: pending_def t)
  let ?T = "\<langle>\<langle>u, (g, (fst gd, Red)), A\<rangle>, (x, (fst d, Black)), \<langle>B, (p, pd), r\<rangle>\<rangle>"
  obtain w' where w': "insert_round (Some x) (Some p) w = Some (Some p, w')" "shaped E w' (plug c ?T)"
    using round_inner_mirror [of E w c u g gd A x d B p pd r] assms(1,4) by (auto simp: t)
  obtain n where n: "bal n (plug c \<langle>u, (g, gd), \<langle>t, (p, pd), r\<rangle>\<rangle>)"
    using assms(2) by (auto simp: pending_def)
  have "bal n (plug c ?T)"
    by (rule bal_swap [OF n]) (use assms(3) pen t in \<open>auto split: nat.splits\<close>)
  moreover have "invc (plug c ?T)"
    using pen assms(3,4) by (subst invc_plug) simp
  ultimately have fx: "fixed E w' (Some p) (plug c ?T)"
    using fixed_stop [of E w' "In_right \<langle>u, (g, (fst gd, Red)), A\<rangle> x (fst d, Black) # c" "\<langle>B, (p, pd), r\<rangle>" n] w'(2) by simp
  show ?thesis
    by (rule fixed_round [OF assms(1) _ _ _ fx]) (use w'(1) assms(3) in \<open>auto simp: t intro: vals_swap\<close>)
qed

text \<open>A red uncle passes the problem on to the grandparent.\<close>

lemma bal_paint_red: "colour t = Red \<Longrightarrow> bal n t \<Longrightarrow> bal (Suc n) (paint Black t)"
  by (cases t rule: invc.cases) auto

lemma pending_up:
  assumes "colour P = Red" and "colour u = Red" and "snd gd = Black" and "invc (paint Black P)" and "invc (paint Black u)"
    and "invc (plug c \<langle>\<rangle>)" and "c \<noteq> [] \<longrightarrow> colour (plug c \<langle>\<rangle>) = Black" and "bal n (plug c \<langle>P, (g, gd), u\<rangle>)"
  shows "pending c \<langle>paint Black P, (g, (fst gd, Red)), paint Black u\<rangle>"
proof -
  have "bal n (plug c \<langle>paint Black P, (g, (fst gd, Red)), paint Black u\<rangle>)"
    by (rule bal_swap [OF assms(8)]) (use assms(1-3) in \<open>auto intro: bal_paint_red split: nat.splits\<close>)
  with assms(4-7) show ?thesis by (auto simp: pending_def)
qed

lemma pending_frames:
  assumes "pending c t" and "ctx_colour c = Red"
  obtains (LL) p pd r g gd u c' where "c = In_left p pd r # In_left g gd u # c'" "snd pd = Red"
    | (RL) r p pd g gd u c' where "c = In_right r p pd # In_left g gd u # c'" "snd pd = Red"
    | (LR) p pd r u g gd c' where "c = In_left p pd r # In_right u g gd # c'" "snd pd = Red"
    | (RR) r p pd u g gd c' where "c = In_right r p pd # In_right u g gd # c'" "snd pd = Red"
proof -
  obtain f c1 where c: "c = f # c1" using assms(2) by (cases c) auto
  have "c1 \<noteq> []"
    using assms by (cases f) (auto simp: c pending_def)
  then obtain f2 c2 where "c1 = f2 # c2" by (cases c1) auto
  with c assms(2) show thesis by (cases f; cases f2) (auto intro: that)
qed

lemma pending_grand:
  assumes "pending c t" and "plug c \<langle>\<rangle> = plug c' T" and "T = \<langle>X, (g, gd), u\<rangle> \<or> T = \<langle>u, (g, gd), X\<rangle>" and "colour X = Red"
  shows "snd gd = Black \<and> invc X \<and> invc (paint Black u) \<and> invc (plug c' \<langle>\<rangle>) \<and>
    (c' \<noteq> [] \<longrightarrow> colour (plug c' \<langle>\<rangle>) = Black)"
proof -
  have "invc T" "invc (plug c' \<langle>\<rangle>)"
    using assms(1,2) invc_plug [of c' T] by (auto simp: pending_def)
  moreover have "c' \<noteq> [] \<longrightarrow> colour (plug c' \<langle>\<rangle>) = Black"
    using assms(1,2) colour_plug [of c' T "\<langle>\<rangle>"] by (auto simp: pending_def)
  ultimately show ?thesis using assms(3,4) invc_paint [of u] by auto
qed

lemma insert_fixup_fixes:
  "shaped E w (plug c t) \<Longrightarrow> pending c t \<Longrightarrow> fixed E w (root_ptr t) (plug c t)"
proof (induction "length c" arbitrary: c t w rule: less_induct)
  case less
  have t: "t \<noteq> \<langle>\<rangle>" using less.prems by (simp add: pending_def)
  obtain n where n: "bal n (plug c t)" using less.prems by (auto simp: pending_def)
  show ?case
  proof (cases "ctx_colour c")
    case Black
    then have "invc (plug c t)" using less.prems by (subst invc_plug) (simp add: pending_def)
    with fixed_stop [OF less.prems(1) t Black n] show ?thesis .
  next
    case Red
    have up: "fixed E w (root_ptr t) (plug c t)"
      if P: "root_ptr P = Some p" "colour P = Red" "colour u = Red" "snd gd = Black" "invc (paint Black P)" "invc (paint Black u)"
        "invc (plug c' \<langle>\<rangle>)" "c' \<noteq> [] \<longrightarrow> colour (plug c' \<langle>\<rangle>) = Black" "length c' < length c" "ctx_parent c = Some p"
        and T: "plug c t = plug c' \<langle>P, (g, gd), u\<rangle> \<or> plug c t = plug c' \<langle>u, (g, gd), P\<rangle>" for P p u g gd c'
      using T
    proof
      assume T: "plug c t = plug c' \<langle>P, (g, gd), u\<rangle>"
      obtain w' where w': "insert_round (root_ptr t) (Some p) w = Some (Some g, w')"
        "shaped E w' (plug c' \<langle>paint Black P, (g, (fst gd, Red)), paint Black u\<rangle>)"
        using round_red_uncle [of E w c' P g gd u p "root_ptr t"] less.prems(1) P(1,3) T by auto
      have "pending c' \<langle>paint Black P, (g, (fst gd, Red)), paint Black u\<rangle>"
        using pending_up [OF P(2-8), of n g] n T by simp
      note fx = less.hyps [OF P(9) w'(2) this, simplified]
      show ?thesis
        by (rule fixed_round [OF less.prems(1) t Red _ fx]) (use w'(1) P(10) T in \<open>auto intro: vals_swap\<close>)
    next
      assume T: "plug c t = plug c' \<langle>u, (g, gd), P\<rangle>"
      obtain w' where w': "insert_round (root_ptr t) (Some p) w = Some (Some g, w')"
        "shaped E w' (plug c' \<langle>paint Black u, (g, (fst gd, Red)), paint Black P\<rangle>)"
        using round_red_uncle_mirror [of E w c' u g gd P p "root_ptr t"] less.prems(1) P(1,3) T by auto
      have "pending c' \<langle>paint Black u, (g, (fst gd, Red)), paint Black P\<rangle>"
        using pending_up [OF P(3,2,4,6,5,7,8), of n g] n T by simp
      note fx = less.hyps [OF P(9) w'(2) this, simplified]
      show ?thesis
        by (rule fixed_round [OF less.prems(1) t Red _ fx]) (use w'(1) P(10) T in \<open>auto intro: vals_swap\<close>)
    qed
    from less.prems(2) Red show ?thesis
    proof (cases rule: pending_frames)
      case (LL p pd r g gd u c')
      show ?thesis
      proof (cases "colour u")
        case Black
        with LL less.prems show ?thesis using fixed_outer [of E w p pd r g gd u c' t] by simp
      next
        case Red
        show ?thesis
          by (rule up [of "\<langle>t, (p, pd), r\<rangle>" p u gd c' g])
            (use LL Red less.prems(2) pending_grand [OF less.prems(2), of c' "\<langle>\<langle>\<langle>\<rangle>, (p, pd), r\<rangle>, (g, gd), u\<rangle>" "\<langle>\<langle>\<rangle>, (p, pd), r\<rangle>" g gd u]
              in \<open>auto simp: pending_def\<close>)
      qed
    next
      case (RL r p pd g gd u c')
      show ?thesis
      proof (cases "colour u")
        case Black
        with RL less.prems show ?thesis using fixed_inner [of E w r p pd g gd u c' t] by simp
      next
        case Red
        show ?thesis
          by (rule up [of "\<langle>r, (p, pd), t\<rangle>" p u gd c' g])
            (use RL Red less.prems(2) pending_grand [OF less.prems(2), of c' "\<langle>\<langle>r, (p, pd), \<langle>\<rangle>\<rangle>, (g, gd), u\<rangle>" "\<langle>r, (p, pd), \<langle>\<rangle>\<rangle>" g gd u]
              in \<open>auto simp: pending_def\<close>)
      qed
    next
      case (LR p pd r u g gd c')
      show ?thesis
      proof (cases "colour u")
        case Black
        with LR less.prems show ?thesis using fixed_inner_mirror [of E w p pd r u g gd c' t] by simp
      next
        case Red
        show ?thesis
          by (rule up [of "\<langle>t, (p, pd), r\<rangle>" p u gd c' g])
            (use LR Red less.prems(2) pending_grand [OF less.prems(2), of c' "\<langle>u, (g, gd), \<langle>\<langle>\<rangle>, (p, pd), r\<rangle>\<rangle>" "\<langle>\<langle>\<rangle>, (p, pd), r\<rangle>" g gd u]
              in \<open>auto simp: pending_def\<close>)
      qed
    next
      case (RR r p pd u g gd c')
      show ?thesis
      proof (cases "colour u")
        case Black
        with RR less.prems show ?thesis using fixed_outer_mirror [of E w r p pd u g gd c' t] by simp
      next
        case Red
        show ?thesis
          by (rule up [of "\<langle>r, (p, pd), t\<rangle>" p u gd c' g])
            (use RR Red less.prems(2) pending_grand [OF less.prems(2), of c' "\<langle>u, (g, gd), \<langle>r, (p, pd), \<langle>\<rangle>\<rangle>\<rangle>" "\<langle>r, (p, pd), \<langle>\<rangle>\<rangle>" g gd u]
              in \<open>auto simp: pending_def\<close>)
      qed
    qed
  qed
qed

section \<open>Insertion\<close>

definition go :: "int \<Rightarrow> int \<times> color \<Rightarrow> turn" where
  "go v d = (if v < fst d then Go_left else Go_right)"

lemma go_eq [simp]: "go v d = Go_left \<longleftrightarrow> v < fst d" "go v d = Go_right \<longleftrightarrow> fst d \<le> v" "go v d \<noteq> Stay"
  by (auto simp: go_def)

lemma go_simps [simp]: "v < fst d \<Longrightarrow> go v d = Go_left" "\<not> v < fst d \<Longrightarrow> go v d = Go_right"
  by (simp_all add: go_def)

lemma go_ordered: "sorted (vals t) \<Longrightarrow> ordered_for (go v) (labels t)"
  unfolding ordered_for_def vals_def sorted_map by (erule sorted_wrt_mono_rel [rotated]) auto

lemma insert_place_descend:
  assumes "mem w a = Some n"
  shows "rep mkr (mem w) q t \<Longrightarrow>
    insert_place (Some a) (root_ptr t) (ctx_parent c) w = Some (ctx_parent (snd (descend (go (r_value n)) t c)))"
proof (induction t arbitrary: q c)
  case Leaf
  show ?case by (simp add: insert_place.simps)
next
  case (Node l x r)
  obtain b d where "x = (b, d)" by (cases x)
  with Node.prems Node.IH(1) [of "Some b" "In_left b d r # c"] Node.IH(2) [of "Some b" "In_right l b d # c"] assms
  show ?case by (cases "r_value n < fst d"; subst insert_place.simps) (simp_all del: not_less)
qed

text \<open>The new node is linked into the hole where the search ended.\<close>

lemma insert_node_fixes:
  assumes "shaped {a} w (plug c \<langle>\<rangle>)" and "mem w a = Some (mkr (v, col) q None None)"
    and "descend (go v) (plug c \<langle>\<rangle>) [] = (\<langle>\<rangle>, c)" and "red_black (plug c \<langle>\<rangle>)"
  shows "\<exists>w' t. insert_node (Some a) w = Some w' \<and> shaped {} w' t \<and> red_black t \<and>
    vals t = map fst (before labels snd c) @ v # map fst (behind labels snd c)"
proof -
  note s = assms(1) [unfolded shaped_plug, simplified]
  have place: "insert_place (Some a) (rb_root w) None w = Some (ctx_parent c)"
    using insert_place_descend [OF assms(2), of None "plug c \<langle>\<rangle>" "[]"] assms(1,3) by (simp add: shaped_def)
  have turn: "last_turn (go v) c" using descend_last_turn [OF assms(3)] by simp
  define w1 where "w1 = with_mem w ((mem w)(a \<mapsto> mkr (v, col) (ctx_parent c) None None))"
  define t :: rtree where "t = \<langle>\<langle>\<rangle>, (a, (v, Red)), \<langle>\<rangle>\<rangle>"
  have w1: "link_parent (Some a) (ctx_parent c) w = Some w1"
    using assms(2) by (simp add: links w1_def)
  have linked: "\<exists>w2. (if ctx_parent c \<noteq> None then do {
             n \<leftarrow> look (Some a) w1;
             ny \<leftarrow> look (ctx_parent c) w1;
             if r_value n < r_value ny then link_left (ctx_parent c) (Some a) w1 else link_right (ctx_parent c) (Some a) w1 }
           else Some (w1\<lparr>rb_root := Some a\<rparr>)) = Some w2 \<and> shaped {} w2 (plug c \<langle>\<langle>\<rangle>, (a, (v, col)), \<langle>\<rangle>\<rangle>)"
  proof (cases c rule: ctx_parent.cases)
    case 1
    have "store_ok ((rb_store w)\<lparr>cells := mem w1\<rparr>)"
      using s assms(2) by (intro store_ok_dom) (auto simp: w1_def)
    with s 1 show ?thesis by (simp add: w1_def shaped_def)
  next
    case (2 b d r c')
    let ?h = "(mem w1)(b \<mapsto> mkr d (ctx_parent c') (Some a) (root_ptr r))"
    have "store_ok ((rb_store w)\<lparr>cells := ?h\<rparr>)"
      using s assms(2) by (intro store_ok_dom) (auto simp: w1_def 2)
    moreover have "root_ptr (plug c \<langle>\<langle>\<rangle>, (a, (v, col)), \<langle>\<rangle>\<rangle>) = root_ptr (plug c \<langle>\<rangle>)"
      using root_ptr_plug [of c] 2 by simp
    ultimately show ?thesis using s turn
      by (intro exI [of _ "with_mem w1 ?h"]) (auto simp: w1_def shaped_plug links 2)
  next
    case (3 l b d c')
    let ?h = "(mem w1)(b \<mapsto> mkr d (ctx_parent c') (root_ptr l) (Some a))"
    have "store_ok ((rb_store w)\<lparr>cells := ?h\<rparr>)"
      using s assms(2) by (intro store_ok_dom) (auto simp: w1_def 3)
    moreover have "root_ptr (plug c \<langle>\<langle>\<rangle>, (a, (v, col)), \<langle>\<rangle>\<rangle>) = root_ptr (plug c \<langle>\<rangle>)"
      using root_ptr_plug [of c] 3 by simp
    ultimately show ?thesis using s turn
      by (intro exI [of _ "with_mem w1 ?h"]) (auto simp: w1_def shaped_plug links 3)
  qed
  then obtain w2 where w2: "(if ctx_parent c \<noteq> None then do {
             n \<leftarrow> look (Some a) w1;
             ny \<leftarrow> look (ctx_parent c) w1;
             if r_value n < r_value ny then link_left (ctx_parent c) (Some a) w1 else link_right (ctx_parent c) (Some a) w1 }
           else Some (w1\<lparr>rb_root := Some a\<rparr>)) = Some w2" "shaped {} w2 (plug c \<langle>\<langle>\<rangle>, (a, (v, col)), \<langle>\<rangle>\<rangle>)" by blast
  obtain w3 where w3: "set_color (Some a) Red w2 = Some w3" "shaped {} w3 (plug c t)"
    using set_color_shaped [OF w2(2), of Red] by (auto simp: t_def)
  have run: "insert_node (Some a) w = insert_fixup (root_ptr t) w3"
    unfolding insert_node_def place Option.bind.bind_lunit w1 w2(1) w3(1) by (simp add: t_def)
  obtain n where n: "bal n (plug c \<langle>\<rangle>)" using assms(4) by (auto simp: red_black_def)
  have "bal n (plug c t)"
    by (rule bal_swap [OF n]) (simp add: t_def)
  with assms(4) have "pending c t" by (auto simp: pending_def red_black_def t_def)
  with insert_fixup_fixes [OF w3(2)] run show ?thesis
    by (auto simp: fixed_def vals_plug t_def)
qed

definition rb_stands_for :: "rb \<Rightarrow> int multiset \<Rightarrow> bool" where
  "rb_stands_for w M \<longleftrightarrow> (\<exists>t. shaped {} w t \<and> red_black t \<and> sorted (vals t) \<and> mset (vals t) = M)"

lemma rb_insert_law:
  assumes "rb_stands_for w M"
  shows "\<exists>w'. rb_insert x w = Some w' \<and> rb_stands_for w' (add_mset x M)"
proof -
  obtain t where t: "shaped {} w t" "red_black t" "sorted (vals t)" "mset (vals t) = M"
    using assms by (auto simp: rb_stands_for_def)
  obtain t' c where d: "descend (go x) t [] = (t', c)" by fastforce
  have t': "t' = \<langle>\<rangle>" using descend_finds [OF d] go_ordered [OF t(3)] by simp
  have plug: "plug c \<langle>\<rangle> = t" using descend_plug [OF d] t' by simp
  let ?a = "next_free (rb_store w)"
  define w1 where "w1 = w\<lparr>rb_store := (rb_store w)\<lparr>next_free := ?a + 1, cells := (mem w)(?a \<mapsto> mkr (x, Red) None None None)\<rparr>\<rparr>"
  have fresh: "?a \<notin> set (addrs t)"
    using t(1) store_ok_fresh [of "rb_store w"] by (auto simp: shaped_def dest: equalityD2)
  have run: "rb_insert x w = insert_node (Some ?a) w1"
    by (simp add: rb_insert_def alloc_def update_def w1_def mkr_def)
  have "shaped {?a} w1 t"
    using t(1) fresh by (auto simp: shaped_def w1_def store_ok_def)
  moreover have "mem w1 ?a = Some (mkr (x, Red) None None None)"
    by (simp add: w1_def)
  ultimately obtain w' u where u: "insert_node (Some ?a) w1 = Some w'" "shaped {} w' u" "red_black u"
    "vals u = map fst (before labels snd c) @ x # map fst (behind labels snd c)"
    using insert_node_fixes [of ?a w1 c x Red None] plug d t' t(2) by auto
  have ls: "map fst (before labels snd c) @ map fst (behind labels snd c) = vals t"
    using vals_plug [of c "\<langle>\<rangle>"] plug by simp
  have "(\<forall>d \<in> set (before labels snd c). fst d \<le> x) \<and> (\<forall>d \<in> set (behind labels snd c). x < fst d)"
    using descend_between [OF d go_ordered [OF t(3)]] by simp
  with t(3) have "sorted (vals u)"
    by (auto simp: u(4) sorted_append simp flip: ls)
  moreover have "mset (vals u) = add_mset x M"
    using t(4) by (simp add: u(4) flip: ls)
  ultimately show ?thesis using run u(1-3) by (auto simp: rb_stands_for_def)
qed

end
