(* ===== verification/Red_Black_Erase.thy ===== *)
theory Red_Black_Erase
  imports Red_Black_Insert
begin

text \<open>
  Erasure from the red-black tree: the rounds of \<open>erase_fixup\<close> on a tree with one subtree that lost a black node,
  the pointer surgery that takes a node out, and that the result is a red-black tree without one occurrence of
  the value.
\<close>

section \<open>One step of the loop\<close>

lemma root_in_ctx: "c \<noteq> [] \<Longrightarrow> \<exists>b \<in> set (ctx_addrs c). root_ptr (plug c t) = Some b"
proof (induction c arbitrary: t)
  case (Cons f c)
  show ?case
  proof (cases "c = []")
    case True
    then show ?thesis by (cases f) auto
  next
    case False
    with Cons.IH show ?thesis by (cases f) fastforce+
  qed
qed simp

lemma hole_not_root:
  assumes "shaped E w (plug c t)" and "c \<noteq> []"
  shows "root_ptr t \<noteq> rb_root w"
proof -
  obtain b where "b \<in> set (ctx_addrs c)" "rb_root w = Some b"
    using root_in_ctx [OF assms(2), of t] assms(1) by (auto simp: shaped_def)
  moreover have "b \<notin> set (addrs t)"
    using assms(1) \<open>b \<in> set (ctx_addrs c)\<close> by (auto simp: shaped_plug)
  ultimately show ?thesis using root_ptr_in [of t b] by auto
qed

lemma paint_black_shaped:
  assumes "shaped E w (plug c t)"
  obtains w' where "paint_black (root_ptr t) w = Some w'" and "shaped E w' (plug c (paint Black t))"
proof (cases "t = \<langle>\<rangle>")
  case True
  with assms show ?thesis by (intro that [of w]) (simp_all add: paint_black_def)
next
  case False
  from set_color_shaped [OF assms this, of Black] obtain w' where
    "set_color (root_ptr t) Black w = Some w'" "shaped E w' (plug c (paint Black t))" by blast
  with False show ?thesis by (intro that [of w']) (simp_all add: paint_black_def)
qed

definition finish_round :: "rb round \<Rightarrow> rb option" where
  "finish_round r = (case r of Continue node parent w \<Rightarrow> erase_fixup node parent w | Break node w \<Rightarrow> paint_black node w)"

lemma finish_round_simps [simp]:
  "finish_round (Continue node parent w) = erase_fixup node parent w" "finish_round (Break node w) = paint_black node w"
  by (simp_all add: finish_round_def)

lemma erase_fixup_stop:
  assumes "shaped E w (plug c t)" and "c = [] \<or> colour t = Red"
  shows "erase_fixup (root_ptr t) q w = paint_black (root_ptr t) w"
  using assms(2) red_child_shaped [OF assms(1)] root_shaped [OF assms(1)] by (subst erase_fixup.simps) auto

lemma erase_fixup_left:
  assumes "shaped E w (plug (In_left p pd S # c) t)" and "colour t = Black"
  shows "erase_fixup (root_ptr t) (Some p) w = Option.bind (erase_round_left (root_ptr t) (Some p) w) finish_round"
  using red_child_shaped [OF assms(1)] hole_not_root [OF assms(1)] look_shaped [of E w c t p pd S] assms
  by (subst erase_fixup.simps) (simp add: finish_round_def [abs_def])

lemma erase_fixup_right:
  assumes "shaped E w (plug (In_right S p pd # c) t)" and "colour t = Black" and "S \<noteq> \<langle>\<rangle>"
  shows "erase_fixup (root_ptr t) (Some p) w = Option.bind (erase_round_right (root_ptr t) (Some p) w) finish_round"
  using red_child_shaped [OF assms(1)] hole_not_root [OF assms(1)] look_shaped [of E w c S p pd t]
    siblings_differ(1) [of E w c S p pd t] assms
  by (subst erase_fixup.simps) (auto simp add: finish_round_def [abs_def])

section \<open>The rounds\<close>

lemma no_red_child_shaped:
  assumes "shaped E w (plug c \<langle>l, (s, d), r\<rangle>)"
  shows "no_red_child (Some s) w = Some (colour l = Black \<and> colour r = Black)"
    and "red_child (root_ptr l) w = Some (colour l = Red)" and "red_child (root_ptr r) w = Some (colour r = Red)"
    and "is_red (Some s) w = Some (snd d = Red)" and "mem w s = Some (mkr d (ctx_parent c) (root_ptr l) (root_ptr r))"
proof -
  show l: "red_child (root_ptr l) w = Some (colour l = Red)"
    using red_child_shaped [of E w "In_left s d r # c" l] assms by simp
  show r: "red_child (root_ptr r) w = Some (colour r = Red)"
    using red_child_shaped [of E w "In_right l s d # c" r] assms by simp
  show m: "mem w s = Some (mkr d (ctx_parent c) (root_ptr l) (root_ptr r))"
    using look_shaped [OF assms] .
  show "is_red (Some s) w = Some (snd d = Red)" using m by (simp add: is_red_def)
  show "no_red_child (Some s) w = Some (colour l = Black \<and> colour r = Black)"
    using l r m by (simp add: no_red_child_def)
qed

lemma left_red_sibling:
  assumes "shaped E w (plug c \<langle>t, (p, pd), \<langle>sl, (s, sd), sr\<rangle>\<rangle>)" and "snd sd = Red"
  obtains w' where "erase_round_left node (Some p) w = Some (Continue node (Some p) w')"
    and "shaped E w' (plug c \<langle>\<langle>t, (p, (fst pd, Red)), sl\<rangle>, (s, (fst sd, Black)), sr\<rangle>)"
proof -
  let ?c = "In_right t p pd # c"
  have s: "shaped E w (plug ?c \<langle>sl, (s, sd), sr\<rangle>)" using assms(1) by simp
  obtain w1 where w1: "set_color (Some s) Black w = Some w1" "shaped E w1 (plug c \<langle>t, (p, pd), \<langle>sl, (s, (fst sd, Black)), sr\<rangle>\<rangle>)"
    using set_color_shaped [OF s, of Black] by auto
  obtain w2 where w2: "set_color (Some p) Red w1 = Some w2"
    "shaped E w2 (plug c \<langle>t, (p, (fst pd, Red)), \<langle>sl, (s, (fst sd, Black)), sr\<rangle>\<rangle>)"
    using set_color_shaped [OF w1(2), of Red] by auto
  obtain w3 where w3: "left_revolve (Some p) w2 = Some w3"
    "shaped E w3 (plug c \<langle>\<langle>t, (p, (fst pd, Red)), sl\<rangle>, (s, (fst sd, Black)), sr\<rangle>)"
    using left_revolve_shaped [OF w2(2)] by blast
  show thesis
    using look_shaped [OF assms(1)] no_red_child_shaped(4) [OF s] assms(2) w1(1) w2(1) w3
    by (intro that [of w3]) (simp_all add: erase_round_left_def)
qed

lemma left_black_nephews:
  assumes "shaped E w (plug c \<langle>t, (p, pd), \<langle>sl, (s, sd), sr\<rangle>\<rangle>)" and "snd sd = Black" and "colour sl = Black" and "colour sr = Black"
  obtains w' where "erase_round_left node (Some p) w = Some (Continue (Some p) (ctx_parent c) w')"
    and "shaped E w' (plug c \<langle>t, (p, pd), \<langle>sl, (s, (fst sd, Red)), sr\<rangle>\<rangle>)"
proof -
  let ?c = "In_right t p pd # c"
  have s: "shaped E w (plug ?c \<langle>sl, (s, sd), sr\<rangle>)" using assms(1) by simp
  obtain w1 where w1: "set_color (Some s) Red w = Some w1" "shaped E w1 (plug c \<langle>t, (p, pd), \<langle>sl, (s, (fst sd, Red)), sr\<rangle>\<rangle>)"
    using set_color_shaped [OF s, of Red] by auto
  show thesis
    using look_shaped [OF assms(1)] look_shaped [OF w1(2)] no_red_child_shaped [OF s] assms(2-4) w1
    by (intro that [of w1]) (simp_all add: erase_round_left_def)
qed

lemma left_near_nephew:
  assumes "shaped E w (plug c \<langle>t, (p, pd), \<langle>\<langle>A, (x, xd), B\<rangle>, (s, sd), sr\<rangle>\<rangle>)" and "snd sd = Black" and "snd xd = Red"
    and "colour sr = Black"
  obtains w' where "erase_round_left node (Some p) w = Some (Continue node (Some p) w')"
    and "shaped E w' (plug c \<langle>t, (p, pd), \<langle>A, (x, (fst xd, Black)), \<langle>B, (s, (fst sd, Red)), sr\<rangle>\<rangle>\<rangle>)"
proof -
  let ?c = "In_right t p pd # c"
  have s: "shaped E w (plug ?c \<langle>\<langle>A, (x, xd), B\<rangle>, (s, sd), sr\<rangle>)" using assms(1) by simp
  obtain w1 where w1: "set_color (Some x) Black w = Some w1" "shaped E w1 (plug ?c \<langle>\<langle>A, (x, (fst xd, Black)), B\<rangle>, (s, sd), sr\<rangle>)"
    using set_color_shaped [of E w "In_left s sd sr # ?c" "\<langle>A, (x, xd), B\<rangle>" Black] s by auto
  obtain w2 where w2: "set_color (Some s) Red w1 = Some w2"
    "shaped E w2 (plug ?c \<langle>\<langle>A, (x, (fst xd, Black)), B\<rangle>, (s, (fst sd, Red)), sr\<rangle>)"
    using set_color_shaped [OF w1(2), of Red] by auto
  obtain w3 where w3: "right_revolve (Some s) w2 = Some w3"
    "shaped E w3 (plug ?c \<langle>A, (x, (fst xd, Black)), \<langle>B, (s, (fst sd, Red)), sr\<rangle>\<rangle>)"
    using right_revolve_shaped [OF w2(2)] by blast
  show thesis
    using look_shaped [OF assms(1)] no_red_child_shaped [OF s] assms(2-4) w1(1) w2(1) w3
    by (intro that [of w3]) (simp_all add: erase_round_left_def)
qed

lemma left_far_nephew:
  assumes "shaped E w (plug c \<langle>t, (p, pd), \<langle>sl, (s, sd), sr\<rangle>\<rangle>)" and "snd sd = Black" and "colour sr = Red"
  obtains w' where "erase_round_left node (Some p) w = Some (Break node w')"
    and "shaped E w' (plug c \<langle>\<langle>t, (p, (fst pd, Black)), sl\<rangle>, (s, (fst sd, snd pd)), paint Black sr\<rangle>)"
proof -
  let ?c = "In_right t p pd # c"
  have s: "shaped E w (plug ?c \<langle>sl, (s, sd), sr\<rangle>)" using assms(1) by simp
  have sr: "sr \<noteq> \<langle>\<rangle>" using assms(3) by auto
  obtain w1 where w1: "set_color (Some s) (snd pd) w = Some w1" "shaped E w1 (plug c \<langle>t, (p, pd), \<langle>sl, (s, (fst sd, snd pd)), sr\<rangle>\<rangle>)"
    using set_color_shaped [OF s, of "snd pd"] by auto
  obtain w2 where w2: "set_color (Some p) Black w1 = Some w2"
    "shaped E w2 (plug c \<langle>t, (p, (fst pd, Black)), \<langle>sl, (s, (fst sd, snd pd)), sr\<rangle>\<rangle>)"
    using set_color_shaped [OF w1(2), of Black] by auto
  let ?c2 = "In_right t p (fst pd, Black) # c"
  have s2: "shaped E w2 (plug ?c2 \<langle>sl, (s, (fst sd, snd pd)), sr\<rangle>)" using w2(2) by simp
  obtain w3 where w3: "set_color (root_ptr sr) Black w2 = Some w3"
    "shaped E w3 (plug c \<langle>t, (p, (fst pd, Black)), \<langle>sl, (s, (fst sd, snd pd)), paint Black sr\<rangle>\<rangle>)"
    using set_color_shaped [of E w2 "In_right sl s (fst sd, snd pd) # ?c2" sr Black] s2 sr by auto
  obtain w4 where w4: "left_revolve (Some p) w3 = Some w4"
    "shaped E w4 (plug c \<langle>\<langle>t, (p, (fst pd, Black)), sl\<rangle>, (s, (fst sd, snd pd)), paint Black sr\<rangle>)"
    using left_revolve_shaped [OF w3(2)] by blast
  show thesis
    using look_shaped [OF assms(1)] no_red_child_shaped [OF s] no_red_child_shaped(5) [OF s2] assms(2,3) w1(1) w2(1) w3(1) w4
    by (intro that [of w4]) (simp_all add: erase_round_left_def)
qed

lemma right_red_sibling:
  assumes "shaped E w (plug c \<langle>\<langle>sr, (s, sd), sl\<rangle>, (p, pd), t\<rangle>)" and "snd sd = Red"
  obtains w' where "erase_round_right node (Some p) w = Some (Continue node (Some p) w')"
    and "shaped E w' (plug c \<langle>sr, (s, (fst sd, Black)), \<langle>sl, (p, (fst pd, Red)), t\<rangle>\<rangle>)"
proof -
  let ?c = "In_left p pd t # c"
  have s: "shaped E w (plug ?c \<langle>sr, (s, sd), sl\<rangle>)" using assms(1) by simp
  obtain w1 where w1: "set_color (Some s) Black w = Some w1" "shaped E w1 (plug c \<langle>\<langle>sr, (s, (fst sd, Black)), sl\<rangle>, (p, pd), t\<rangle>)"
    using set_color_shaped [OF s, of Black] by auto
  obtain w2 where w2: "set_color (Some p) Red w1 = Some w2"
    "shaped E w2 (plug c \<langle>\<langle>sr, (s, (fst sd, Black)), sl\<rangle>, (p, (fst pd, Red)), t\<rangle>)"
    using set_color_shaped [OF w1(2), of Red] by auto
  obtain w3 where w3: "right_revolve (Some p) w2 = Some w3"
    "shaped E w3 (plug c \<langle>sr, (s, (fst sd, Black)), \<langle>sl, (p, (fst pd, Red)), t\<rangle>\<rangle>)"
    using right_revolve_shaped [OF w2(2)] by blast
  show thesis
    using look_shaped [OF assms(1)] no_red_child_shaped(4) [OF s] assms(2) w1(1) w2(1) w3
    by (intro that [of w3]) (simp_all add: erase_round_right_def)
qed

lemma right_black_nephews:
  assumes "shaped E w (plug c \<langle>\<langle>sr, (s, sd), sl\<rangle>, (p, pd), t\<rangle>)" and "snd sd = Black" and "colour sl = Black" and "colour sr = Black"
  obtains w' where "erase_round_right node (Some p) w = Some (Continue (Some p) (ctx_parent c) w')"
    and "shaped E w' (plug c \<langle>\<langle>sr, (s, (fst sd, Red)), sl\<rangle>, (p, pd), t\<rangle>)"
proof -
  let ?c = "In_left p pd t # c"
  have s: "shaped E w (plug ?c \<langle>sr, (s, sd), sl\<rangle>)" using assms(1) by simp
  obtain w1 where w1: "set_color (Some s) Red w = Some w1" "shaped E w1 (plug c \<langle>\<langle>sr, (s, (fst sd, Red)), sl\<rangle>, (p, pd), t\<rangle>)"
    using set_color_shaped [OF s, of Red] by auto
  show thesis
    using look_shaped [OF assms(1)] look_shaped [OF w1(2)] no_red_child_shaped [OF s] assms(2-4) w1
    by (intro that [of w1]) (simp_all add: erase_round_right_def)
qed

lemma right_near_nephew:
  assumes "shaped E w (plug c \<langle>\<langle>sr, (s, sd), \<langle>B, (x, xd), A\<rangle>\<rangle>, (p, pd), t\<rangle>)" and "snd sd = Black" and "snd xd = Red"
    and "colour sr = Black"
  obtains w' where "erase_round_right node (Some p) w = Some (Continue node (Some p) w')"
    and "shaped E w' (plug c \<langle>\<langle>\<langle>sr, (s, (fst sd, Red)), B\<rangle>, (x, (fst xd, Black)), A\<rangle>, (p, pd), t\<rangle>)"
proof -
  let ?c = "In_left p pd t # c"
  have s: "shaped E w (plug ?c \<langle>sr, (s, sd), \<langle>B, (x, xd), A\<rangle>\<rangle>)" using assms(1) by simp
  obtain w1 where w1: "set_color (Some x) Black w = Some w1" "shaped E w1 (plug ?c \<langle>sr, (s, sd), \<langle>B, (x, (fst xd, Black)), A\<rangle>\<rangle>)"
    using set_color_shaped [of E w "In_right sr s sd # ?c" "\<langle>B, (x, xd), A\<rangle>" Black] s by auto
  obtain w2 where w2: "set_color (Some s) Red w1 = Some w2"
    "shaped E w2 (plug ?c \<langle>sr, (s, (fst sd, Red)), \<langle>B, (x, (fst xd, Black)), A\<rangle>\<rangle>)"
    using set_color_shaped [OF w1(2), of Red] by auto
  obtain w3 where w3: "left_revolve (Some s) w2 = Some w3"
    "shaped E w3 (plug ?c \<langle>\<langle>sr, (s, (fst sd, Red)), B\<rangle>, (x, (fst xd, Black)), A\<rangle>)"
    using left_revolve_shaped [OF w2(2)] by blast
  show thesis
    using look_shaped [OF assms(1)] no_red_child_shaped [OF s] assms(2-4) w1(1) w2(1) w3
    by (intro that [of w3]) (simp_all add: erase_round_right_def)
qed

lemma right_far_nephew:
  assumes "shaped E w (plug c \<langle>\<langle>sr, (s, sd), sl\<rangle>, (p, pd), t\<rangle>)" and "snd sd = Black" and "colour sr = Red"
  obtains w' where "erase_round_right node (Some p) w = Some (Break node w')"
    and "shaped E w' (plug c \<langle>paint Black sr, (s, (fst sd, snd pd)), \<langle>sl, (p, (fst pd, Black)), t\<rangle>\<rangle>)"
proof -
  let ?c = "In_left p pd t # c"
  have s: "shaped E w (plug ?c \<langle>sr, (s, sd), sl\<rangle>)" using assms(1) by simp
  have sr: "sr \<noteq> \<langle>\<rangle>" using assms(3) by auto
  obtain w1 where w1: "set_color (Some s) (snd pd) w = Some w1" "shaped E w1 (plug c \<langle>\<langle>sr, (s, (fst sd, snd pd)), sl\<rangle>, (p, pd), t\<rangle>)"
    using set_color_shaped [OF s, of "snd pd"] by auto
  obtain w2 where w2: "set_color (Some p) Black w1 = Some w2"
    "shaped E w2 (plug c \<langle>\<langle>sr, (s, (fst sd, snd pd)), sl\<rangle>, (p, (fst pd, Black)), t\<rangle>)"
    using set_color_shaped [OF w1(2), of Black] by auto
  let ?c2 = "In_left p (fst pd, Black) t # c"
  have s2: "shaped E w2 (plug ?c2 \<langle>sr, (s, (fst sd, snd pd)), sl\<rangle>)" using w2(2) by simp
  obtain w3 where w3: "set_color (root_ptr sr) Black w2 = Some w3"
    "shaped E w3 (plug c \<langle>\<langle>paint Black sr, (s, (fst sd, snd pd)), sl\<rangle>, (p, (fst pd, Black)), t\<rangle>)"
    using set_color_shaped [of E w2 "In_left s (fst sd, snd pd) sl # ?c2" sr Black] s2 sr by auto
  obtain w4 where w4: "right_revolve (Some p) w3 = Some w4"
    "shaped E w4 (plug c \<langle>paint Black sr, (s, (fst sd, snd pd)), \<langle>sl, (p, (fst pd, Black)), t\<rangle>\<rangle>)"
    using right_revolve_shaped [OF w3(2)] by blast
  show thesis
    using look_shaped [OF assms(1)] no_red_child_shaped [OF s] no_red_child_shaped(5) [OF s2] assms(2,3) w1(1) w2(1) w3(1) w4
    by (intro that [of w4]) (simp_all add: erase_round_right_def)
qed

section \<open>The loop\<close>

definition mended :: "nat set \<Rightarrow> rb \<Rightarrow> ptr \<Rightarrow> ptr \<Rightarrow> int list \<Rightarrow> bool" where
  "mended E w node parent vs \<longleftrightarrow>
     (\<exists>w' t'. erase_fixup node parent w = Some w' \<and> shaped E w' t' \<and> red_black t' \<and> vals t' = vs)"

text \<open>The subtree at the hole is one black node short of the trees that would fit there.\<close>

definition short :: "(int \<times> color) frame list \<Rightarrow> rtree \<Rightarrow> bool" where
  "short c t \<longleftrightarrow> invc (paint Black t) \<and> invc (plug c \<langle>\<rangle>) \<and> (c \<noteq> [] \<longrightarrow> colour (plug c \<langle>\<rangle>) = Black) \<and>
     (\<exists>n k t0. bal k t \<and> bal (Suc k) t0 \<and> bal n (plug c t0))"

lemma bal_unique: "bal m t \<Longrightarrow> bal n t \<Longrightarrow> m = n"
proof (induction t arbitrary: m n)
  case (Node l x r)
  obtain a d where "x = (a, d)" by (cases x)
  with Node.prems Node.IH(1) show ?case by (cases m; cases n) (auto split: if_splits)
qed simp

lemma paint_same: "colour t = col \<Longrightarrow> paint col t = t"
  by (cases t rule: invc.cases) auto

lemma plug_fits:
  assumes "bal n (plug c t0)" and "bal k t0" and "bal k t"
  shows "bal n (plug c t)"
  using bal_plug [OF assms(1)] bal_unique assms(2,3) by blast

lemma mended_stop:
  assumes "shaped E w (plug c t)" and "short c t" and "c = [] \<or> colour t = Red"
  shows "mended E w (root_ptr t) q (vals (plug c t))"
proof -
  obtain w' where w': "paint_black (root_ptr t) w = Some w'" "shaped E w' (plug c (paint Black t))"
    using paint_black_shaped [OF assms(1)] by blast
  obtain n k t0 where b: "bal k t" "bal (Suc k) t0" "bal n (plug c t0)"
    using assms(2) by (auto simp: short_def)
  have "\<exists>m. bal m (plug c (paint Black t))"
  proof (cases "c = []")
    case True
    then show ?thesis using bal_paint [OF b(1)] by simp
  next
    case False
    then have "bal (Suc k) (paint Black t)" using assms(3) bal_paint_red [OF _ b(1)] by simp
    from plug_fits [OF b(3,2) this] show ?thesis ..
  qed
  moreover have "invc (plug c (paint Black t))"
    using assms(2) by (subst invc_plug) (simp add: short_def)
  moreover have "colour (plug c (paint Black t)) = Black"
    using assms(2) colour_plug [of c "paint Black t" "\<langle>\<rangle>"] by (cases "c = []") (simp_all add: short_def)
  ultimately have "red_black (plug c (paint Black t))" by (simp add: red_black_def)
  moreover have "vals (plug c (paint Black t)) = vals (plug c t)" by (rule vals_swap) simp
  ultimately show ?thesis
    using w' erase_fixup_stop [OF assms(1,3), of q] by (auto simp: mended_def)
qed

lemma short_left:
  assumes "short (In_left p pd S # c) t"
  obtains n k m where "bal k t" and "bal (Suc k) S" and "S \<noteq> \<langle>\<rangle>" and "invc (paint Black t)" and "invc S" and "snd pd = Red \<longrightarrow> colour S = Black"
    and "snd pd = Red \<longrightarrow> ctx_colour c = Black" and "invc (plug c \<langle>\<rangle>)" and "c \<noteq> [] \<longrightarrow> colour (plug c \<langle>\<rangle>) = Black"
    and "c = [] \<longrightarrow> snd pd = Black"
    and "\<And>t'. bal (if snd pd = Red then Suc k else Suc (Suc k)) t' \<Longrightarrow> bal n (plug c t')"
proof -
  obtain n k t0 where b: "bal k t" "bal (Suc k) t0" "bal n (plug c \<langle>t0, (p, pd), S\<rangle>)"
    using assms by (auto simp: short_def)
  obtain m where m: "bal m \<langle>t0, (p, pd), S\<rangle>" "\<And>t'. bal m t' \<Longrightarrow> bal n (plug c t')"
    using bal_plug [OF b(3)] by blast
  have "m = (if snd pd = Red then Suc k else Suc (Suc k))" "bal (Suc k) S"
    using m(1) bal_unique [OF b(2)] by (auto split: if_splits nat.splits)
  moreover have "S \<noteq> \<langle>\<rangle>" using calculation(2) by auto
  moreover have "invc \<langle>\<langle>\<rangle>, (p, pd), S\<rangle>" "invc (plug c \<langle>\<rangle>)" "ctx_colour c = Red \<longrightarrow> snd pd = Black"
    using assms invc_plug [of c "\<langle>\<langle>\<rangle>, (p, pd), S\<rangle>"] by (auto simp: short_def)
  moreover have "c \<noteq> [] \<longrightarrow> colour (plug c \<langle>\<rangle>) = Black" "c = [] \<longrightarrow> snd pd = Black"
    using assms colour_plug [of c "\<langle>\<langle>\<rangle>, (p, pd), S\<rangle>" "\<langle>\<rangle>"] by (auto simp: short_def)
  moreover have "invc (paint Black t)" using assms by (simp add: short_def)
  ultimately show thesis using b(1) m(2) by (intro that [of k n]) auto
qed

lemma mended_left_far:
  assumes "shaped E w (plug (In_left p pd \<langle>sl, (s, sd), sr\<rangle> # c) t)" and "short (In_left p pd \<langle>sl, (s, sd), sr\<rangle> # c) t"
    and "colour t = Black" and "snd sd = Black" and "colour sr = Red"
  shows "mended E w (root_ptr t) (Some p) (vals (plug (In_left p pd \<langle>sl, (s, sd), sr\<rangle> # c) t))"
proof -
  obtain w1 where w1: "erase_round_left (root_ptr t) (Some p) w = Some (Break (root_ptr t) w1)"
    "shaped E w1 (plug c \<langle>\<langle>t, (p, (fst pd, Black)), sl\<rangle>, (s, (fst sd, snd pd)), paint Black sr\<rangle>)"
    using left_far_nephew [of E w c t p pd sl s sd sr "root_ptr t"] assms(1,4,5) by auto
  let ?T = "\<langle>\<langle>t, (p, (fst pd, Black)), sl\<rangle>, (s, (fst sd, snd pd)), paint Black sr\<rangle>"
  obtain w2 where w2: "paint_black (root_ptr t) w1 = Some w2" "shaped E w2 (plug c ?T)"
    using paint_black_shaped [of E w1 "In_left p (fst pd, Black) sl # In_left s (fst sd, snd pd) (paint Black sr) # c" t]
      w1(2) paint_same [OF assms(3)] by auto
  have "red_black (plug c ?T)"
  proof (rule short_left [OF assms(2)])
    fix n k
    assume k: "bal k t" "bal (Suc k) \<langle>sl, (s, sd), sr\<rangle>" "invc (paint Black t)" "invc \<langle>sl, (s, sd), sr\<rangle>"
      "snd pd = Red \<longrightarrow> ctx_colour c = Black" "invc (plug c \<langle>\<rangle>)" "c \<noteq> [] \<longrightarrow> colour (plug c \<langle>\<rangle>) = Black" "c = [] \<longrightarrow> snd pd = Black"
      "\<And>t'. bal (if snd pd = Red then Suc k else Suc (Suc k)) t' \<Longrightarrow> bal n (plug c t')"
    have "bal (Suc k) (paint Black sr)" "bal k sl"
      using k(2) assms(4) bal_paint_red [OF assms(5)] by auto
    then have "bal n (plug c ?T)" using k(1) by (intro k(9)) auto
    moreover have "invc (plug c ?T)"
      using k(3-6) assms(3,4) paint_same [OF assms(3)] invc_paint [of sr] by (subst invc_plug) auto
    moreover have "colour (plug c ?T) = Black"
      using k(7,8) colour_plug [of c ?T "\<langle>\<rangle>"] by (cases "c = []") auto
    ultimately show ?thesis by (auto simp: red_black_def)
  qed
  moreover have "vals (plug c ?T) = vals (plug (In_left p pd \<langle>sl, (s, sd), sr\<rangle> # c) t)"
    by (simp add: vals_plug)
  ultimately show ?thesis
    using erase_fixup_left [OF assms(1,3)] w1(1) w2 by (auto simp: mended_def)
qed

lemma mended_left_near:
  assumes "shaped E w (plug (In_left p pd \<langle>\<langle>A, (x, xd), B\<rangle>, (s, sd), sr\<rangle> # c) t)"
    and "short (In_left p pd \<langle>\<langle>A, (x, xd), B\<rangle>, (s, sd), sr\<rangle> # c) t"
    and "colour t = Black" and "snd sd = Black" and "snd xd = Red" and "colour sr = Black"
  shows "mended E w (root_ptr t) (Some p) (vals (plug (In_left p pd \<langle>\<langle>A, (x, xd), B\<rangle>, (s, sd), sr\<rangle> # c) t))"
proof -
  let ?S = "\<langle>A, (x, (fst xd, Black)), \<langle>B, (s, (fst sd, Red)), sr\<rangle>\<rangle>"
  let ?T = "\<langle>t, (p, pd), ?S\<rangle>"
  obtain w1 where w1: "erase_round_left (root_ptr t) (Some p) w = Some (Continue (root_ptr t) (Some p) w1)" "shaped E w1 (plug c ?T)"
    using left_near_nephew [of E w c t p pd A x xd B s sd sr "root_ptr t"] assms(1,4-6) by auto
  have "short (In_left p pd ?S # c) t"
  proof (rule short_left [OF assms(2)])
    fix n k
    assume k: "bal k t" "bal (Suc k) \<langle>\<langle>A, (x, xd), B\<rangle>, (s, sd), sr\<rangle>" "invc (paint Black t)" "invc \<langle>\<langle>A, (x, xd), B\<rangle>, (s, sd), sr\<rangle>"
      "snd pd = Red \<longrightarrow> ctx_colour c = Black" "invc (plug c \<langle>\<rangle>)" "c \<noteq> [] \<longrightarrow> colour (plug c \<langle>\<rangle>) = Black" "c = [] \<longrightarrow> snd pd = Black"
      "\<And>t'. bal (if snd pd = Red then Suc k else Suc (Suc k)) t' \<Longrightarrow> bal n (plug c t')"
    have S: "bal (Suc k) ?S" using k(2) assms(4,5) by simp
    then have "bal n (plug c \<langle>?S, (p, pd), ?S\<rangle>)" by (intro k(9)) simp
    then have "\<exists>n k t0. bal k t \<and> bal (Suc k) t0 \<and> bal n (plug (In_left p pd ?S # c) t0)"
      using k(1) S by (intro exI [of _ n] exI [of _ k] exI [of _ ?S]) simp
    moreover have "invc (plug (In_left p pd ?S # c) \<langle>\<rangle>)"
      using k(4-6) assms(5,6) invc_plug [of c "\<langle>\<langle>\<rangle>, (p, pd), ?S\<rangle>"] by (cases "snd pd") simp_all
    moreover have "colour (plug (In_left p pd ?S # c) \<langle>\<rangle>) = Black"
      using k(7,8) colour_plug [of c "\<langle>\<langle>\<rangle>, (p, pd), ?S\<rangle>" "\<langle>\<rangle>"] by (cases "c = []") auto
    ultimately show ?thesis using k(3) by (simp add: short_def)
  qed
  with mended_left_far [of E w1 p pd A x "(fst xd, Black)" "\<langle>B, (s, (fst sd, Red)), sr\<rangle>" c t] w1(2) assms(3)
  have "mended E w1 (root_ptr t) (Some p) (vals (plug c ?T))" by simp
  moreover have "vals (plug c ?T) = vals (plug (In_left p pd \<langle>\<langle>A, (x, xd), B\<rangle>, (s, sd), sr\<rangle> # c) t)"
    by (simp add: vals_plug)
  ultimately show ?thesis
    using erase_fixup_left [OF assms(1,3)] w1(1) by (auto simp: mended_def)
qed

text \<open>A black sibling: done, or the parent's tree is one black node short.\<close>

lemma mended_left_black:
  assumes "shaped E w (plug (In_left p pd S # c) t)" and "short (In_left p pd S # c) t" and "colour t = Black" and "colour S = Black"
    and up: "\<And>w'. shaped E w' (plug c \<langle>t, (p, pd), paint Red S\<rangle>) \<Longrightarrow> short c \<langle>t, (p, pd), paint Red S\<rangle> \<Longrightarrow>
      mended E w' (Some p) (ctx_parent c) (vals (plug c \<langle>t, (p, pd), paint Red S\<rangle>))"
  shows "mended E w (root_ptr t) (Some p) (vals (plug (In_left p pd S # c) t))"
proof (rule short_left [OF assms(2)])
  fix n k
  assume k: "bal k t" "bal (Suc k) S" "S \<noteq> \<langle>\<rangle>" "invc (paint Black t)" "invc S"
    "snd pd = Red \<longrightarrow> ctx_colour c = Black" "invc (plug c \<langle>\<rangle>)" "c \<noteq> [] \<longrightarrow> colour (plug c \<langle>\<rangle>) = Black" "c = [] \<longrightarrow> snd pd = Black"
    "\<And>t'. bal (if snd pd = Red then Suc k else Suc (Suc k)) t' \<Longrightarrow> bal n (plug c t')"
  obtain sl s sd sr where S: "S = \<langle>sl, (s, sd), sr\<rangle>" using k(3) by (metis tree.exhaust surj_pair)
  have sd: "snd sd = Black" using assms(4) by (simp add: S)
  consider (far) "colour sr = Red" | (near) "colour sl = Red" "colour sr = Black" | (none) "colour sl = Black" "colour sr = Black"
    by (cases "colour sl"; cases "colour sr") auto
  then show ?thesis
  proof cases
    case far
    then show ?thesis using mended_left_far [of E w p pd sl s sd sr c t] assms(1-3) sd by (simp add: S)
  next
    case near
    then obtain A x xd B where "sl = \<langle>A, (x, xd), B\<rangle>" by (cases sl rule: invc.cases) auto
    with near show ?thesis using mended_left_near [of E w p pd A x xd B s sd sr c t] assms(1-3) sd by (simp add: S)
  next
    case none
    obtain w1 where w1: "erase_round_left (root_ptr t) (Some p) w = Some (Continue (Some p) (ctx_parent c) w1)"
      "shaped E w1 (plug c \<langle>t, (p, pd), paint Red S\<rangle>)"
      using left_black_nephews [of E w c t p pd sl s sd sr "root_ptr t"] assms(1) none sd by (auto simp: S)
    have "bal n (plug c \<langle>S, (p, pd), S\<rangle>)" using k(2) by (intro k(10)) simp
    moreover have "bal (if snd pd = Red then Suc k else Suc (Suc k)) \<langle>S, (p, pd), S\<rangle>" using k(2) by simp
    moreover have "bal (if snd pd = Red then k else Suc k) \<langle>t, (p, pd), paint Red S\<rangle>"
      using k(1,2) sd by (simp add: S)
    ultimately have "\<exists>n k t0. bal k \<langle>t, (p, pd), paint Red S\<rangle> \<and> bal (Suc k) t0 \<and> bal n (plug c t0)"
      by (intro exI [of _ n] exI [of _ "if snd pd = Red then k else Suc k"] exI [of _ "\<langle>S, (p, pd), S\<rangle>"])
        (auto split: if_splits)
    moreover have "invc (paint Black \<langle>t, (p, pd), paint Red S\<rangle>)"
      using k(4,5) none paint_same [OF assms(3)] by (simp add: S)
    ultimately have "short c \<langle>t, (p, pd), paint Red S\<rangle>"
      using k(7,8) by (simp add: short_def)
    from up [OF w1(2) this] have "mended E w1 (Some p) (ctx_parent c) (vals (plug (In_left p pd S # c) t))"
      by (simp add: vals_plug)
    then show ?thesis
      using erase_fixup_left [OF assms(1,3)] w1(1) by (simp add: mended_def)
  qed
qed

lemma mended_left_red:
  assumes "shaped E w (plug (In_left p pd S # c) t)" and "short (In_left p pd S # c) t" and "colour t = Black" and "colour S = Red"
  shows "mended E w (root_ptr t) (Some p) (vals (plug (In_left p pd S # c) t))"
proof (rule short_left [OF assms(2)])
  fix n k
  assume k: "bal k t" "bal (Suc k) S" "invc (paint Black t)" "invc S" "snd pd = Red \<longrightarrow> colour S = Black"
    "invc (plug c \<langle>\<rangle>)" "c \<noteq> [] \<longrightarrow> colour (plug c \<langle>\<rangle>) = Black"
    "\<And>t'. bal (if snd pd = Red then Suc k else Suc (Suc k)) t' \<Longrightarrow> bal n (plug c t')"
  obtain sl s sd sr where S: "S = \<langle>sl, (s, sd), sr\<rangle>" using assms(4) by (cases S rule: invc.cases) auto
  have cs: "snd sd = Red" "snd pd = Black" "colour sl = Black" "colour sr = Black"
    using assms(4) k(4,5) by (auto simp: S)
  let ?c = "In_left s (fst sd, Black) sr # c"
  obtain w1 where w1: "erase_round_left (root_ptr t) (Some p) w = Some (Continue (root_ptr t) (Some p) w1)"
    "shaped E w1 (plug c \<langle>\<langle>t, (p, (fst pd, Red)), sl\<rangle>, (s, (fst sd, Black)), sr\<rangle>)"
    using left_red_sibling [of E w c t p pd sl s sd sr "root_ptr t"] assms(1) cs by (auto simp: S)
  have b: "bal (Suc k) sl" "bal (Suc k) sr" using k(2) cs by (simp_all add: S)
  have "bal n (plug c \<langle>\<langle>sl, (p, (fst pd, Red)), sl\<rangle>, (s, (fst sd, Black)), sr\<rangle>)"
    using b cs by (intro k(8)) simp
  then have "\<exists>n k t0. bal k t \<and> bal (Suc k) t0 \<and> bal n (plug (In_left p (fst pd, Red) sl # ?c) t0)"
    using k(1) b by (intro exI [of _ n] exI [of _ k] exI [of _ sl]) simp
  moreover have "invc (plug (In_left p (fst pd, Red) sl # ?c) \<langle>\<rangle>)"
    using k(4,6) cs invc_plug [of c "\<langle>\<langle>\<langle>\<rangle>, (p, (fst pd, Red)), sl\<rangle>, (s, (fst sd, Black)), sr\<rangle>"] by (simp add: S)
  moreover have "colour (plug (In_left p (fst pd, Red) sl # ?c) \<langle>\<rangle>) = Black"
    using k(7) colour_plug [of c "\<langle>\<langle>\<langle>\<rangle>, (p, (fst pd, Red)), sl\<rangle>, (s, (fst sd, Black)), sr\<rangle>" "\<langle>\<rangle>"] by (cases "c = []") auto
  ultimately have "short (In_left p (fst pd, Red) sl # ?c) t"
    using k(3) by (simp add: short_def)
  moreover have "mended E w' (Some p) (ctx_parent ?c) (vals (plug ?c \<langle>t, (p, (fst pd, Red)), paint Red sl\<rangle>))"
    if "shaped E w' (plug ?c \<langle>t, (p, (fst pd, Red)), paint Red sl\<rangle>)" "short ?c \<langle>t, (p, (fst pd, Red)), paint Red sl\<rangle>" for w'
    using mended_stop [OF that, of "ctx_parent ?c"] by simp
  ultimately have "mended E w1 (root_ptr t) (Some p) (vals (plug (In_left p (fst pd, Red) sl # ?c) t))"
    using w1(2) assms(3) cs(3) by (intro mended_left_black) simp_all
  moreover have "vals (plug (In_left p (fst pd, Red) sl # ?c) t) = vals (plug (In_left p pd S # c) t)"
    by (simp add: vals_plug S)
  ultimately show ?thesis
    using erase_fixup_left [OF assms(1,3)] w1(1) by (simp add: mended_def)
qed

lemma short_right:
  assumes "short (In_right S p pd # c) t"
  obtains n k m where "bal k t" and "bal (Suc k) S" and "S \<noteq> \<langle>\<rangle>" and "invc (paint Black t)" and "invc S" and "snd pd = Red \<longrightarrow> colour S = Black"
    and "snd pd = Red \<longrightarrow> ctx_colour c = Black" and "invc (plug c \<langle>\<rangle>)" and "c \<noteq> [] \<longrightarrow> colour (plug c \<langle>\<rangle>) = Black"
    and "c = [] \<longrightarrow> snd pd = Black"
    and "\<And>t'. bal (if snd pd = Red then Suc k else Suc (Suc k)) t' \<Longrightarrow> bal n (plug c t')"
proof -
  obtain n k t0 where b: "bal k t" "bal (Suc k) t0" "bal n (plug c \<langle>S, (p, pd), t0\<rangle>)"
    using assms by (auto simp: short_def)
  obtain m where m: "bal m \<langle>S, (p, pd), t0\<rangle>" "\<And>t'. bal m t' \<Longrightarrow> bal n (plug c t')"
    using bal_plug [OF b(3)] by blast
  have "m = (if snd pd = Red then Suc k else Suc (Suc k))" "bal (Suc k) S"
    using m(1) bal_unique [OF b(2)] by (auto split: if_splits nat.splits)
  moreover have "S \<noteq> \<langle>\<rangle>" using calculation(2) by auto
  moreover have "invc \<langle>S, (p, pd), \<langle>\<rangle>\<rangle>" "invc (plug c \<langle>\<rangle>)" "ctx_colour c = Red \<longrightarrow> snd pd = Black"
    using assms invc_plug [of c "\<langle>S, (p, pd), \<langle>\<rangle>\<rangle>"] by (auto simp: short_def)
  moreover have "c \<noteq> [] \<longrightarrow> colour (plug c \<langle>\<rangle>) = Black" "c = [] \<longrightarrow> snd pd = Black"
    using assms colour_plug [of c "\<langle>S, (p, pd), \<langle>\<rangle>\<rangle>" "\<langle>\<rangle>"] by (auto simp: short_def)
  moreover have "invc (paint Black t)" using assms by (simp add: short_def)
  ultimately show thesis using b(1) m(2) by (intro that [of k n]) auto
qed

lemma mended_right_far:
  assumes "shaped E w (plug (In_right \<langle>sr, (s, sd), sl\<rangle> p pd # c) t)" and "short (In_right \<langle>sr, (s, sd), sl\<rangle> p pd # c) t"
    and "colour t = Black" and "snd sd = Black" and "colour sr = Red"
  shows "mended E w (root_ptr t) (Some p) (vals (plug (In_right \<langle>sr, (s, sd), sl\<rangle> p pd # c) t))"
proof -
  obtain w1 where w1: "erase_round_right (root_ptr t) (Some p) w = Some (Break (root_ptr t) w1)"
    "shaped E w1 (plug c \<langle>paint Black sr, (s, (fst sd, snd pd)), \<langle>sl, (p, (fst pd, Black)), t\<rangle>\<rangle>)"
    using right_far_nephew [of E w c sr s sd sl p pd t "root_ptr t"] assms(1,4,5) by auto
  let ?T = "\<langle>paint Black sr, (s, (fst sd, snd pd)), \<langle>sl, (p, (fst pd, Black)), t\<rangle>\<rangle>"
  obtain w2 where w2: "paint_black (root_ptr t) w1 = Some w2" "shaped E w2 (plug c ?T)"
    using paint_black_shaped [of E w1 "In_right sl p (fst pd, Black) # In_right (paint Black sr) s (fst sd, snd pd) # c" t]
      w1(2) paint_same [OF assms(3)] by auto
  have "red_black (plug c ?T)"
  proof (rule short_right [OF assms(2)])
    fix n k
    assume k: "bal k t" "bal (Suc k) \<langle>sr, (s, sd), sl\<rangle>" "invc (paint Black t)" "invc \<langle>sr, (s, sd), sl\<rangle>"
      "snd pd = Red \<longrightarrow> ctx_colour c = Black" "invc (plug c \<langle>\<rangle>)" "c \<noteq> [] \<longrightarrow> colour (plug c \<langle>\<rangle>) = Black" "c = [] \<longrightarrow> snd pd = Black"
      "\<And>t'. bal (if snd pd = Red then Suc k else Suc (Suc k)) t' \<Longrightarrow> bal n (plug c t')"
    have "bal (Suc k) (paint Black sr)" "bal k sl"
      using k(2) assms(4) bal_paint_red [OF assms(5)] by auto
    then have "bal n (plug c ?T)" using k(1) by (intro k(9)) auto
    moreover have "invc (plug c ?T)"
      using k(3-6) assms(3,4) paint_same [OF assms(3)] invc_paint [of sr] by (subst invc_plug) auto
    moreover have "colour (plug c ?T) = Black"
      using k(7,8) colour_plug [of c ?T "\<langle>\<rangle>"] by (cases "c = []") auto
    ultimately show ?thesis by (auto simp: red_black_def)
  qed
  moreover have "vals (plug c ?T) = vals (plug (In_right \<langle>sr, (s, sd), sl\<rangle> p pd # c) t)"
    by (simp add: vals_plug)
  ultimately show ?thesis
    using erase_fixup_right [OF assms(1,3)] w1(1) w2 by (auto simp: mended_def)
qed

lemma mended_right_near:
  assumes "shaped E w (plug (In_right \<langle>sr, (s, sd), \<langle>B, (x, xd), A\<rangle>\<rangle> p pd # c) t)"
    and "short (In_right \<langle>sr, (s, sd), \<langle>B, (x, xd), A\<rangle>\<rangle> p pd # c) t"
    and "colour t = Black" and "snd sd = Black" and "snd xd = Red" and "colour sr = Black"
  shows "mended E w (root_ptr t) (Some p) (vals (plug (In_right \<langle>sr, (s, sd), \<langle>B, (x, xd), A\<rangle>\<rangle> p pd # c) t))"
proof -
  let ?S = "\<langle>\<langle>sr, (s, (fst sd, Red)), B\<rangle>, (x, (fst xd, Black)), A\<rangle>"
  let ?T = "\<langle>?S, (p, pd), t\<rangle>"
  obtain w1 where w1: "erase_round_right (root_ptr t) (Some p) w = Some (Continue (root_ptr t) (Some p) w1)" "shaped E w1 (plug c ?T)"
    using right_near_nephew [of E w c sr s sd B x xd A p pd t "root_ptr t"] assms(1,4-6) by auto
  have "short (In_right ?S p pd # c) t"
  proof (rule short_right [OF assms(2)])
    fix n k
    assume k: "bal k t" "bal (Suc k) \<langle>sr, (s, sd), \<langle>B, (x, xd), A\<rangle>\<rangle>" "invc (paint Black t)" "invc \<langle>sr, (s, sd), \<langle>B, (x, xd), A\<rangle>\<rangle>"
      "snd pd = Red \<longrightarrow> ctx_colour c = Black" "invc (plug c \<langle>\<rangle>)" "c \<noteq> [] \<longrightarrow> colour (plug c \<langle>\<rangle>) = Black" "c = [] \<longrightarrow> snd pd = Black"
      "\<And>t'. bal (if snd pd = Red then Suc k else Suc (Suc k)) t' \<Longrightarrow> bal n (plug c t')"
    have S: "bal (Suc k) ?S" using k(2) assms(4,5) by simp
    then have "bal n (plug c \<langle>?S, (p, pd), ?S\<rangle>)" by (intro k(9)) simp
    then have "\<exists>n k t0. bal k t \<and> bal (Suc k) t0 \<and> bal n (plug (In_right ?S p pd # c) t0)"
      using k(1) S by (intro exI [of _ n] exI [of _ k] exI [of _ ?S]) simp
    moreover have "invc (plug (In_right ?S p pd # c) \<langle>\<rangle>)"
      using k(4-6) assms(5,6) invc_plug [of c "\<langle>?S, (p, pd), \<langle>\<rangle>\<rangle>"] by (cases "snd pd") simp_all
    moreover have "colour (plug (In_right ?S p pd # c) \<langle>\<rangle>) = Black"
      using k(7,8) colour_plug [of c "\<langle>?S, (p, pd), \<langle>\<rangle>\<rangle>" "\<langle>\<rangle>"] by (cases "c = []") auto
    ultimately show ?thesis using k(3) by (simp add: short_def)
  qed
  with mended_right_far [of E w1 "\<langle>sr, (s, (fst sd, Red)), B\<rangle>" x "(fst xd, Black)" A p pd c t] w1(2) assms(3)
  have "mended E w1 (root_ptr t) (Some p) (vals (plug c ?T))" by simp
  moreover have "vals (plug c ?T) = vals (plug (In_right \<langle>sr, (s, sd), \<langle>B, (x, xd), A\<rangle>\<rangle> p pd # c) t)"
    by (simp add: vals_plug)
  ultimately show ?thesis
    using erase_fixup_right [OF assms(1,3)] w1(1) by (auto simp: mended_def)
qed

lemma mended_right_black:
  assumes "shaped E w (plug (In_right S p pd # c) t)" and "short (In_right S p pd # c) t" and "colour t = Black" and "colour S = Black"
    and up: "\<And>w'. shaped E w' (plug c \<langle>paint Red S, (p, pd), t\<rangle>) \<Longrightarrow> short c \<langle>paint Red S, (p, pd), t\<rangle> \<Longrightarrow>
      mended E w' (Some p) (ctx_parent c) (vals (plug c \<langle>paint Red S, (p, pd), t\<rangle>))"
  shows "mended E w (root_ptr t) (Some p) (vals (plug (In_right S p pd # c) t))"
proof (rule short_right [OF assms(2)])
  fix n k
  assume k: "bal k t" "bal (Suc k) S" "S \<noteq> \<langle>\<rangle>" "invc (paint Black t)" "invc S"
    "snd pd = Red \<longrightarrow> ctx_colour c = Black" "invc (plug c \<langle>\<rangle>)" "c \<noteq> [] \<longrightarrow> colour (plug c \<langle>\<rangle>) = Black" "c = [] \<longrightarrow> snd pd = Black"
    "\<And>t'. bal (if snd pd = Red then Suc k else Suc (Suc k)) t' \<Longrightarrow> bal n (plug c t')"
  obtain sl s sd sr where S: "S = \<langle>sr, (s, sd), sl\<rangle>" using k(3) by (metis tree.exhaust surj_pair)
  have sd: "snd sd = Black" using assms(4) by (simp add: S)
  consider (far) "colour sr = Red" | (near) "colour sl = Red" "colour sr = Black" | (none) "colour sl = Black" "colour sr = Black"
    by (cases "colour sl"; cases "colour sr") auto
  then show ?thesis
  proof cases
    case far
    then show ?thesis using mended_right_far [of E w sr s sd sl p pd c t] assms(1-3) sd by (simp add: S)
  next
    case near
    then obtain A x xd B where "sl = \<langle>B, (x, xd), A\<rangle>" by (cases sl rule: invc.cases) auto
    with near show ?thesis using mended_right_near [of E w sr s sd B x xd A p pd c t] assms(1-3) sd by (simp add: S)
  next
    case none
    obtain w1 where w1: "erase_round_right (root_ptr t) (Some p) w = Some (Continue (Some p) (ctx_parent c) w1)"
      "shaped E w1 (plug c \<langle>paint Red S, (p, pd), t\<rangle>)"
      using right_black_nephews [of E w c sr s sd sl p pd t "root_ptr t"] assms(1) none sd by (auto simp: S)
    have "bal n (plug c \<langle>S, (p, pd), S\<rangle>)" using k(2) by (intro k(10)) simp
    moreover have "bal (if snd pd = Red then Suc k else Suc (Suc k)) \<langle>S, (p, pd), S\<rangle>" using k(2) by simp
    moreover have "bal (if snd pd = Red then k else Suc k) \<langle>paint Red S, (p, pd), t\<rangle>"
      using k(1,2) sd by (simp add: S)
    ultimately have "\<exists>n k t0. bal k \<langle>paint Red S, (p, pd), t\<rangle> \<and> bal (Suc k) t0 \<and> bal n (plug c t0)"
      by (intro exI [of _ n] exI [of _ "if snd pd = Red then k else Suc k"] exI [of _ "\<langle>S, (p, pd), S\<rangle>"])
        (auto split: if_splits)
    moreover have "invc (paint Black \<langle>paint Red S, (p, pd), t\<rangle>)"
      using k(4,5) none paint_same [OF assms(3)] by (simp add: S)
    ultimately have "short c \<langle>paint Red S, (p, pd), t\<rangle>"
      using k(7,8) by (simp add: short_def)
    from up [OF w1(2) this] have "mended E w1 (Some p) (ctx_parent c) (vals (plug (In_right S p pd # c) t))"
      by (simp add: vals_plug)
    then show ?thesis
      using erase_fixup_right [OF assms(1,3)] w1(1) by (simp add: mended_def S)
  qed
qed

lemma mended_right_red:
  assumes "shaped E w (plug (In_right S p pd # c) t)" and "short (In_right S p pd # c) t" and "colour t = Black" and "colour S = Red"
  shows "mended E w (root_ptr t) (Some p) (vals (plug (In_right S p pd # c) t))"
proof (rule short_right [OF assms(2)])
  fix n k
  assume k: "bal k t" "bal (Suc k) S" "invc (paint Black t)" "invc S" "snd pd = Red \<longrightarrow> colour S = Black"
    "invc (plug c \<langle>\<rangle>)" "c \<noteq> [] \<longrightarrow> colour (plug c \<langle>\<rangle>) = Black"
    "\<And>t'. bal (if snd pd = Red then Suc k else Suc (Suc k)) t' \<Longrightarrow> bal n (plug c t')"
  obtain sl s sd sr where S: "S = \<langle>sr, (s, sd), sl\<rangle>" using assms(4) by (cases S rule: invc.cases) auto
  have cs: "snd sd = Red" "snd pd = Black" "colour sl = Black" "colour sr = Black"
    using assms(4) k(4,5) by (auto simp: S)
  let ?c = "In_right sr s (fst sd, Black) # c"
  obtain w1 where w1: "erase_round_right (root_ptr t) (Some p) w = Some (Continue (root_ptr t) (Some p) w1)"
    "shaped E w1 (plug c \<langle>sr, (s, (fst sd, Black)), \<langle>sl, (p, (fst pd, Red)), t\<rangle>\<rangle>)"
    using right_red_sibling [of E w c sr s sd sl p pd t "root_ptr t"] assms(1) cs by (auto simp: S)
  have b: "bal (Suc k) sl" "bal (Suc k) sr" using k(2) cs by (simp_all add: S)
  have "bal n (plug c \<langle>sr, (s, (fst sd, Black)), \<langle>sl, (p, (fst pd, Red)), sl\<rangle>\<rangle>)"
    using b cs by (intro k(8)) simp
  then have "\<exists>n k t0. bal k t \<and> bal (Suc k) t0 \<and> bal n (plug (In_right sl p (fst pd, Red) # ?c) t0)"
    using k(1) b by (intro exI [of _ n] exI [of _ k] exI [of _ sl]) simp
  moreover have "invc (plug (In_right sl p (fst pd, Red) # ?c) \<langle>\<rangle>)"
    using k(4,6) cs invc_plug [of c "\<langle>sr, (s, (fst sd, Black)), \<langle>sl, (p, (fst pd, Red)), \<langle>\<rangle>\<rangle>\<rangle>"] by (simp add: S)
  moreover have "colour (plug (In_right sl p (fst pd, Red) # ?c) \<langle>\<rangle>) = Black"
    using k(7) colour_plug [of c "\<langle>sr, (s, (fst sd, Black)), \<langle>sl, (p, (fst pd, Red)), \<langle>\<rangle>\<rangle>\<rangle>" "\<langle>\<rangle>"] by (cases "c = []") auto
  ultimately have "short (In_right sl p (fst pd, Red) # ?c) t"
    using k(3) by (simp add: short_def)
  moreover have "mended E w' (Some p) (ctx_parent ?c) (vals (plug ?c \<langle>paint Red sl, (p, (fst pd, Red)), t\<rangle>))"
    if "shaped E w' (plug ?c \<langle>paint Red sl, (p, (fst pd, Red)), t\<rangle>)" "short ?c \<langle>paint Red sl, (p, (fst pd, Red)), t\<rangle>" for w'
    using mended_stop [OF that, of "ctx_parent ?c"] by simp
  ultimately have "mended E w1 (root_ptr t) (Some p) (vals (plug (In_right sl p (fst pd, Red) # ?c) t))"
    using w1(2) assms(3) cs(3) by (intro mended_right_black) simp_all
  moreover have "vals (plug (In_right sl p (fst pd, Red) # ?c) t) = vals (plug (In_right S p pd # c) t)"
    by (simp add: vals_plug S)
  ultimately show ?thesis
    using erase_fixup_right [OF assms(1,3)] w1(1) by (simp add: mended_def S)
qed

lemma erase_fixup_mends:
  "shaped E w (plug c t) \<Longrightarrow> short c t \<Longrightarrow> mended E w (root_ptr t) (ctx_parent c) (vals (plug c t))"
proof (induction c arbitrary: t w)
  case Nil
  then show ?case by (intro mended_stop) simp_all
next
  case (Cons f c)
  show ?case
  proof (cases "colour t")
    case Red
    then show ?thesis using mended_stop [OF Cons.prems] by simp
  next
    case Black
    show ?thesis
    proof (cases f)
      case (In_left p pd S)
      show ?thesis
      proof (cases "colour S")
        case Red
        then show ?thesis using mended_left_red [of E w p pd S c t] Cons.prems Black In_left by simp
      next
        case bl: Black
        have "mended E w (root_ptr t) (Some p) (vals (plug (In_left p pd S # c) t))"
          by (rule mended_left_black) (use Cons Black In_left bl in \<open>auto dest: Cons.IH\<close>)
        then show ?thesis by (simp add: In_left)
      qed
    next
      case (In_right S p pd)
      show ?thesis
      proof (cases "colour S")
        case Red
        then show ?thesis using mended_right_red [of E w S p pd c t] Cons.prems Black In_right by simp
      next
        case bl: Black
        have "mended E w (root_ptr t) (Some p) (vals (plug (In_right S p pd # c) t))"
          by (rule mended_right_black) (use Cons Black In_right bl in \<open>auto dest: Cons.IH\<close>)
        then show ?thesis by (simp add: In_right)
      qed
    qed
  qed
qed

section \<open>Taking a node out\<close>

lemma unlink_shaped:
  assumes "shaped E w (plug c \<langle>l, (a, d), r\<rangle>)" and "l = \<langle>\<rangle> \<and> t = r \<or> r = \<langle>\<rangle> \<and> t = l"
  obtains w1 w2 where "replace_child (ctx_parent c) (Some a) (root_ptr t) w = Some w1" and "mem w1 a = mem w a"
    and "adopt_child (root_ptr t) (ctx_parent c) w1 = Some w2" and "mem w2 a = mem w a"
    and "shaped (insert a E) w2 (plug c t)"
proof -
  note s = assms(1) [unfolded shaped_plug, simplified]
  have t: "rep mkr (mem w) (Some a) t" "addrs l @ addrs r = addrs t"
    using assms(2) s by auto
  have d: "distinct (a # before addrs fst c @ addrs t @ behind addrs fst c)"
    using s t(2) [symmetric] by auto
  obtain h1 where h1: "replace_child (ctx_parent c) (Some a) (root_ptr t) w = Some (relinked w (root_ptr t) c h1)"
    "rep_ctx mkr h1 (root_ptr t) c" "dom h1 = dom (mem w)" "\<forall>x. x \<notin> set (ctx_addrs c) \<longrightarrow> h1 x = mem w x"
    using relink_rep [of w a c "root_ptr t"] s d by auto
  define w1 where "w1 = relinked w (root_ptr t) c h1"
  have m1: "mem w1 = h1" by (simp add: w1_def relinked_def)
  have t1: "rep mkr (mem w1) (Some a) t"
    unfolding m1 by (rule rep_frame [OF t(1) h1(4)]) (use d in auto)
  obtain h2 where h2: "adopt_child (root_ptr t) (ctx_parent c) w1 = Some (with_mem w1 h2)" "rep mkr h2 (ctx_parent c) t"
    "dom h2 = dom (mem w1)" "\<forall>x. x \<notin> set (addrs t) \<longrightarrow> h2 x = mem w1 x"
    using adopt_child_rep [OF t1, of "ctx_parent c"] d by auto
  have c2: "rep_ctx mkr h2 (root_ptr t) c"
    by (rule rep_ctx_frame [OF h1(2), folded m1, OF h2(4)]) (use d in auto)
  have dom: "dom h2 = insert a (set (addrs t) \<union> set (ctx_addrs c)) \<union> E"
    using s h1(3) h2(3) by (auto simp: m1 simp flip: t(2))
  have "store_ok ((rb_store w)\<lparr>cells := h2\<rparr>)"
    using s h1(3) h2(3) m1 by (intro store_ok_dom) auto
  moreover have "rb_root w1 = root_ptr (plug c t)"
    using s root_ptr_plug [of c t "\<langle>l, (a, d), r\<rangle>"] by (auto simp: w1_def relinked_def)
  moreover have "E \<inter> set (addrs t) = {}" using s by (auto simp flip: t(2))
  ultimately have "shaped (insert a E) (with_mem w1 h2) (plug c t)"
    unfolding shaped_plug using s d h2(2) c2 dom by (auto simp: w1_def relinked_def)
  moreover have "h1 a = mem w a" "h2 a = mem w a"
    using h1(4) h2(4) d m1 by auto
  ultimately show thesis
    using h1(1) h2(1) m1 by (intro that [of w1 "with_mem w1 h2"]) (simp_all add: w1_def)
qed

lemma delete_shaped:
  assumes "shaped (insert a E) w t" and "a \<notin> E"
  obtains w' where "delete_node (Some a) w = Some w'" and "shaped E w' t" 
proof -
  obtain n where n: "mem w a = Some n" using assms(1) by (auto simp: shaped_def dom_def)
  have "store_ok ((rb_store w)\<lparr>cells := (mem w)(a := None)\<rparr>)"
    using assms(1) by (intro store_ok_dom) (auto simp: shaped_def)
  then show thesis
    using n assms by (intro that [of "with_mem w ((mem w)(a := None))"]) (auto simp: delete_node_def shaped_def)
qed

text \<open>What the colours are like without the node.\<close>

lemma removed_red:
  assumes "red_black (plug c \<langle>l, (a, d), r\<rangle>)" and "l = \<langle>\<rangle> \<and> t = r \<or> r = \<langle>\<rangle> \<and> t = l" and "snd d = Red"
  shows "red_black (plug c t)"
proof -
  obtain n where n: "bal n (plug c \<langle>l, (a, d), r\<rangle>)" using assms(1) by (auto simp: red_black_def)
  have i: "invc \<langle>l, (a, d), r\<rangle>" "invc (plug c \<langle>\<rangle>)"
    using assms(1) invc_plug [of c "\<langle>l, (a, d), r\<rangle>"] by (auto simp: red_black_def)
  have "c \<noteq> []" using assms(1,3) by (auto simp: red_black_def)
  then have "colour (plug c t) = Black"
    using assms(1) colour_plug [of c t "\<langle>l, (a, d), r\<rangle>"] by (simp add: red_black_def)
  moreover have "invc (plug c t)" using i assms(2,3) by (subst invc_plug) auto
  moreover have "bal n (plug c t)" by (rule bal_swap [OF n]) (use assms(2,3) in auto)
  ultimately show ?thesis by (auto simp: red_black_def)
qed

lemma removed_black:
  assumes "red_black (plug c \<langle>l, (a, d), r\<rangle>)" and "l = \<langle>\<rangle> \<and> t = r \<or> r = \<langle>\<rangle> \<and> t = l" and "snd d = Black"
  shows "short c t"
proof -
  obtain n where n: "bal n (plug c \<langle>l, (a, d), r\<rangle>)" using assms(1) by (auto simp: red_black_def)
  obtain k where k: "bal k \<langle>l, (a, d), r\<rangle>" using bal_plug [OF n] by blast
  then obtain j where "k = Suc j" "bal j t" using assms(2,3) by (cases k) auto
  with k n have "\<exists>n k t0. bal k t \<and> bal (Suc k) t0 \<and> bal n (plug c t0)" by blast
  moreover have "invc (paint Black t)" "invc (plug c \<langle>\<rangle>)"
    using assms(1,2) invc_plug [of c "\<langle>l, (a, d), r\<rangle>"] by (auto simp: red_black_def intro: invc_paint)
  moreover have "c \<noteq> [] \<longrightarrow> colour (plug c \<langle>\<rangle>) = Black"
    using assms(1) colour_plug [of c "\<langle>\<rangle>" "\<langle>l, (a, d), r\<rangle>"] by (auto simp: red_black_def)
  ultimately show ?thesis by (simp add: short_def)
qed

text \<open>The repair, when the node that went was black, and the deletion.\<close>

lemma repair_and_delete:
  assumes "red_black (plug c \<langle>l, (b, d), r\<rangle>)" and "l = \<langle>\<rangle> \<and> t = r \<or> r = \<langle>\<rangle> \<and> t = l"
    and "shaped {a} w (plug c t)"
  obtains w' w2 t' where "(if snd d = Black then erase_fixup (root_ptr t) (ctx_parent c) w else Some w) = Some w'"
    and "delete_node (Some a) w' = Some w2" and "shaped {} w2 t'" and "red_black t'" and "vals t' = vals (plug c t)"
proof -
  have "\<exists>w' t'. (if snd d = Black then erase_fixup (root_ptr t) (ctx_parent c) w else Some w) = Some w' \<and>
    shaped {a} w' t' \<and> red_black t' \<and> vals t' = vals (plug c t)"
  proof (cases "snd d")
    case Red
    with removed_red [OF assms(1,2)] assms(3) show ?thesis by auto
  next
    case Black
    with erase_fixup_mends [OF assms(3) removed_black [OF assms(1,2)]] show ?thesis
      by (auto simp: mended_def)
  qed
  then obtain w' t' where w': "(if snd d = Black then erase_fixup (root_ptr t) (ctx_parent c) w else Some w) = Some w'"
    "shaped {a} w' t'" "red_black t'" "vals t' = vals (plug c t)" by blast
  obtain w2 where "delete_node (Some a) w' = Some w2" "shaped {} w2 t'"
    using delete_shaped [OF w'(2)] by blast
  with w' show thesis by (intro that)
qed

end
