(* ===== verification/Red_Black_Set.thy ===== *)
theory Red_Black_Set
  imports Red_Black_Erase
begin

text \<open>
  The operations of the red-black tree on a multiset of integers: erasing a node with no, one or two children,
  searching, the traversals, and the correctness of any sequence of operations.
\<close>

section \<open>Erasing a node\<close>

definition erased :: "rb option \<Rightarrow> int list \<Rightarrow> bool" where
  "erased r vs \<longleftrightarrow> (\<exists>w t. r = Some w \<and> shaped {} w t \<and> red_black t \<and> vals t = vs)"

lemma rb_erase_leaf_erased:
  assumes "shaped {} w (plug c \<langle>\<langle>\<rangle>, (a, d), \<langle>\<rangle>\<rangle>)" and "red_black (plug c \<langle>\<langle>\<rangle>, (a, d), \<langle>\<rangle>\<rangle>)"
  shows "erased (rb_erase_leaf (Some a) w) (vals (plug c \<langle>\<rangle>))"
proof (cases "c = []")
  case True
  note cell = look_shaped [OF assms(1)]
  have "dom (mem w) = {a}" "rb_root w = Some a" "store_ok (rb_store w)"
    using assms(1) True by (simp_all add: shaped_def)
  moreover from this have "store_ok ((rb_store w)\<lparr>cells := (mem w)(a := None)\<rparr>)"
    by (intro store_ok_dom) auto
  ultimately show ?thesis
    using cell True by (auto simp: erased_def rb_erase_leaf_def delete_node_def shaped_def red_black_def
        intro!: exI [of _ "\<langle>\<rangle>"])
next
  case False
  note cell = look_shaped [OF assms(1)]
  obtain w1 where w1: "replace_child (ctx_parent c) (Some a) None w = Some w1" "mem w1 a = mem w a" "shaped {a} w1 (plug c \<langle>\<rangle>)"
    using unlink_shaped [OF assms(1), of "\<langle>\<rangle>"] by (auto simp: adopt_child_def)
  obtain w2 w3 t' where w2: "(if snd d = Black then erase_fixup None (ctx_parent c) w1 else Some w1) = Some w2"
    "delete_node (Some a) w2 = Some w3" "shaped {} w3 t'" "red_black t'" "vals t' = vals (plug c \<langle>\<rangle>)"
    using repair_and_delete [OF assms(2) _ w1(3), unfolded root_ptr_simps] by blast
  have "rb_erase_leaf (Some a) w = Some w3"
    using cell w1(1,2) w2(1,2) False by (cases "snd d") (auto simp: rb_erase_leaf_def is_red_def)
  with w2(3-5) show ?thesis by (auto simp: erased_def)
qed

lemma rb_erase_single_erased:
  assumes "shaped {} w (plug c \<langle>l, (a, d), r\<rangle>)" and "red_black (plug c \<langle>l, (a, d), r\<rangle>)"
    and "l = \<langle>\<rangle> \<and> t = r \<or> r = \<langle>\<rangle> \<and> t = l" and "t \<noteq> \<langle>\<rangle>"
  shows "erased (rb_erase_single (Some a) w) (vals (plug c t))"
proof -
  note cell = look_shaped [OF assms(1)]
  obtain w1 w2 where w: "replace_child (ctx_parent c) (Some a) (root_ptr t) w = Some w1" "mem w1 a = mem w a"
    "adopt_child (root_ptr t) (ctx_parent c) w1 = Some w2" "mem w2 a = mem w a" "shaped {a} w2 (plug c t)"
    using unlink_shaped [OF assms(1,3)] by auto
  obtain w3 w4 t' where w3: "(if snd d = Black then erase_fixup (root_ptr t) (ctx_parent c) w2 else Some w2) = Some w3"
    "delete_node (Some a) w3 = Some w4" "shaped {} w4 t'" "red_black t'" "vals t' = vals (plug c t)"
    using repair_and_delete [OF assms(2,3) w(5)] by blast
  have nxt: "(if root_ptr l \<noteq> None then root_ptr l else root_ptr r) = root_ptr t"
    using assms(3,4) by auto
  have "link_parent (root_ptr t) (ctx_parent c) w1 = Some w2"
    using w(3) assms(4) by (simp add: adopt_child_def)
  then have "rb_erase_single (Some a) w = Some w4"
    using cell w(1,2,4) w3(1,2) nxt
    by (cases "root_ptr l = None"; cases "snd d") (simp_all add: rb_erase_single_def Let_def del: not_None_eq root_ptr_None)
  with w3(3-5) show ?thesis by (auto simp: erased_def)
qed

lemma leftmost_ctx:
  "rep mkr (mem w) par t \<Longrightarrow> t \<noteq> \<langle>\<rangle> \<Longrightarrow>
   \<exists>c b e r. t = plug c \<langle>\<langle>\<rangle>, (b, e), r\<rangle> \<and> leftmost (root_ptr t) w = Some (Some b) \<and> (\<forall>f \<in> set c. \<exists>b d r. f = In_left b d r)"
proof (induction t arbitrary: par)
  case (Node l x r)
  obtain a d where x: "x = (a, d)" by (cases x)
  show ?case
  proof (cases "l = \<langle>\<rangle>")
    case True
    with Node.prems show ?thesis
      by (intro exI [of _ "[]"]) (auto simp: x leftmost.simps)
  next
    case False
    with Node.prems obtain c b e r' where c: "l = plug c \<langle>\<langle>\<rangle>, (b, e), r'\<rangle>" "leftmost (root_ptr l) w = Some (Some b)"
      "\<forall>f \<in> set c. \<exists>b d r. f = In_left b d r"
      using Node.IH(1) [of "Some a"] by (auto simp: x)
    have "leftmost (root_ptr \<langle>l, x, r\<rangle>) w = Some (Some b)"
      using Node.prems False c(2) by (subst leftmost.simps) (simp add: x del: not_None_eq)
    with c show ?thesis
      by (intro exI [of _ "c @ [In_left a d r]"] exI [of _ b] exI [of _ e] exI [of _ r']) (auto simp: x plug_append)
  qed
qed simp

lemma take_place_shaped:
  assumes "mem w a = Some (mkr d (ctx_parent c) (root_ptr l) q)" and "mem w b = Some (mkr e q' None (root_ptr R))"
    and "rep mkr (mem w) (Some a) l" and "rep mkr (mem w) (Some b) R" and "rep_ctx mkr (mem w) (Some a) c"
    and "distinct (a # b # addrs l @ addrs R @ ctx_addrs c)"
    and "dom (mem w) = {a, b} \<union> set (addrs l) \<union> set (addrs R) \<union> set (ctx_addrs c)" and "store_ok (rb_store w)"
    and "l \<noteq> \<langle>\<rangle>" and "c \<noteq> [] \<longrightarrow> rb_root w = root_ptr (plug c \<langle>\<rangle>)"
  obtains w' where "take_place (Some a) (Some b) w = Some w'" and "shaped {a} w' (plug c \<langle>l, (b, (fst e, snd d)), R\<rangle>)"
proof -
  note d = assms(6)
  define w1 where "w1 = with_mem w ((mem w)(b \<mapsto> mkr e q' (root_ptr l) (root_ptr R)))"
  have l1: "rep mkr (mem w1) (Some a) l" "rep mkr (mem w1) (Some b) R" "rep_ctx mkr (mem w1) (Some a) c"
    using assms(3-5) d by (simp_all add: w1_def)
  obtain h2 where h2: "adopt_child (root_ptr l) (Some b) w1 = Some (with_mem w1 h2)" "rep mkr h2 (Some b) l"
    "dom h2 = dom (mem w1)" "\<forall>x. x \<notin> set (addrs l) \<longrightarrow> h2 x = mem w1 x"
    using adopt_child_rep [OF l1(1), of "Some b"] d by auto
  define w2 where "w2 = with_mem w1 h2"
  have m2: "mem w2 = h2" by (simp add: w2_def)
  have c2: "rep_ctx mkr (mem w2) (Some a) c"
    unfolding m2 by (rule rep_ctx_frame [OF l1(3) h2(4)]) (use d in auto)
  obtain h3 where h3: "replace_child (ctx_parent c) (Some a) (Some b) w2 = Some (relinked w2 (Some b) c h3)"
    "rep_ctx mkr h3 (Some b) c" "dom h3 = dom (mem w2)" "\<forall>x. x \<notin> set (ctx_addrs c) \<longrightarrow> h3 x = mem w2 x"
    using relink_rep [OF c2, of "Some b"] d by auto
  define w3 where "w3 = relinked w2 (Some b) c h3"
  have m3: "mem w3 = h3" by (simp add: w3_def relinked_def)
  let ?h = "h3(b \<mapsto> mkr (fst e, snd d) (ctx_parent c) (root_ptr l) (root_ptr R))"
  have at: "mem w1 a = mem w a" "mem w2 a = mem w a" "mem w3 a = mem w a" "h3 b = Some (mkr e q' (root_ptr l) (root_ptr R))"
    using d h2(4) h3(4) by (auto simp: m2 m3 w1_def)
  have ab: "a \<noteq> b" using d by auto
  have steps: "link_left (Some b) (root_ptr l) w = Some w1" "link_parent (root_ptr l) (Some b) w1 = Some w2"
    "link_parent (Some b) (ctx_parent c) w3 = Some (with_mem w3 (h3(b \<mapsto> mkr e (ctx_parent c) (root_ptr l) (root_ptr R))))"
    using assms(2,9) h2(1) at by (simp_all add: links w1_def w2_def adopt_child_def m3)
  have run: "take_place (Some a) (Some b) w = Some (with_mem w3 ?h)"
    using assms(1) at ab steps h3(1) [folded w3_def] m3
    by (simp add: take_place_def set_color_def update_def)
  have rest: "rep mkr h3 (Some b) l" "rep mkr h3 (Some b) R"
  proof -
    show "rep mkr h3 (Some b) l"
      by (rule rep_frame [OF h2(2) h3(4) [unfolded m2]]) (use d in auto)
    have "rep mkr h2 (Some b) R"
      by (rule rep_frame [OF l1(2) h2(4)]) (use d in auto)
    then show "rep mkr h3 (Some b) R"
      by (rule rep_frame [OF _ h3(4) [unfolded m2]]) (use d in auto)
  qed
  have dom: "dom ?h = dom (mem w)"
    using h3(3) h2(3) assms(7) by (auto simp: m2 w1_def)
  have "store_ok ((rb_store w)\<lparr>cells := ?h\<rparr>)"
    using dom by (intro store_ok_dom [OF assms(8)]) simp
  moreover have "rb_root w3 = root_ptr (plug c \<langle>l, (b, (fst e, snd d)), R\<rangle>)"
    using assms(10) root_ptr_plug [of c "\<langle>l, (b, (fst e, snd d)), R\<rangle>" "\<langle>\<rangle>"]
    by (auto simp: w3_def relinked_def w2_def w1_def)
  ultimately have "shaped {a} (with_mem w3 ?h) (plug c \<langle>l, (b, (fst e, snd d)), R\<rangle>)"
    unfolding shaped_plug using d rest h3(2) dom assms(7)
    by (auto simp: w3_def relinked_def w2_def w1_def)
  with run show thesis by (rule that)
qed

text \<open>The replacement leaves its place, and carries the whole right subtree.\<close>

lemma detach_shaped:
  assumes "shaped {} w (plug c \<langle>l, (a, d), plug c' \<langle>\<langle>\<rangle>, (b, e), rr\<rangle>\<rangle>)" and "c' \<noteq> []"
    and "\<forall>f \<in> set c'. \<exists>b d r. f = In_left b d r"
  obtains w' where "detach_replacement (Some a) (Some b) w = Some w'"
    and "mem w' b = Some (mkr e (ctx_parent c') None (root_ptr (plug c' rr)))"
    and "mem w' a = Some (mkr d (ctx_parent c) (root_ptr l) (root_ptr (plug c' rr)))"
    and "rep mkr (mem w') (Some a) l" and "rep mkr (mem w') (Some b) (plug c' rr)" and "rep_ctx mkr (mem w') (Some a) c"
    and "dom (mem w') = dom (mem w)" and "store_ok (rb_store w')" and "rb_root w' = rb_root w"
proof -
  define D where "D = c' @ In_right l a d # c"
  let ?r = "\<langle>\<langle>\<rangle>, (b, e), rr\<rangle> :: rtree"
  have "shaped {} w (plug D ?r)" using assms(1) by (simp add: D_def plug_append)
  note s = this [unfolded shaped_plug, simplified]
  have D: "D \<noteq> []" "ctx_parent D = ctx_parent c'"
    using assms(2) by (cases c' rule: ctx_parent.cases; simp add: D_def)+
  have d: "distinct (b # addrs rr @ ctx_addrs D)" using s by auto
  have cell: "mem w b = Some (mkr e (ctx_parent D) None (root_ptr rr))" using s by simp
  obtain h1 where h1: "adopt_child (root_ptr rr) (ctx_parent D) w = Some (with_mem w h1)" "rep mkr h1 (ctx_parent D) rr"
    "dom h1 = dom (mem w)" "\<forall>x. x \<notin> set (addrs rr) \<longrightarrow> h1 x = mem w x"
    using adopt_child_rep [of w "Some b" rr "ctx_parent D"] s by auto
  define w1 where "w1 = with_mem w h1"
  have m1: "mem w1 = h1" by (simp add: w1_def)
  have c1: "rep_ctx mkr (mem w1) (Some b) D"
    unfolding m1 by (rule rep_ctx_frame [OF _ h1(4)]) (use s d in auto)
  obtain h2 where h2: "replace_child (ctx_parent D) (Some b) (root_ptr rr) w1 = Some (relinked w1 (root_ptr rr) D h2)"
    "rep_ctx mkr h2 (root_ptr rr) D" "dom h2 = dom (mem w1)" "\<forall>x. x \<notin> set (ctx_addrs D) \<longrightarrow> h2 x = mem w1 x"
    using relink_rep [OF c1, of "root_ptr rr"] d by auto
  define w2 where "w2 = with_mem w1 h2"
  have m2: "mem w2 = h2" by (simp add: w2_def)
  obtain b1 d1 r1 c1' where f: "c' = In_left b1 d1 r1 # c1'"
    using assms(2,3) by (cases c') auto
  have link: "link_left (ctx_parent D) (root_ptr rr) w1 = Some w2"
    using h2(1) c1 D(1) by (simp add: replace_child_def D_def f relinked_def w2_def)
  have rr2: "rep mkr h2 (ctx_parent D) rr"
    by (rule rep_frame [OF h1(2) h2(4) [unfolded m1]]) (use d in auto)
  have "rep mkr h2 None (plug D rr)" using rr2 h2(2) by (simp add: rep_plug)
  then have t2: "rep mkr h2 (ctx_parent c) \<langle>l, (a, d), plug c' rr\<rangle>" "rep_ctx mkr h2 (Some a) c"
    by (simp_all add: D_def plug_append rep_plug)
  have dd: "distinct (a # b # addrs l @ addrs (plug c' rr) @ ctx_addrs c)"
    using d by (auto simp: D_def addrs_plug)
  have at: "h1 b = mem w b" "h2 b = mem w b"
    using h1(4) h2(4) d m1 by auto
  define w3 where "w3 = with_mem w2 (h2(b \<mapsto> mkr e (ctx_parent c') None (root_ptr (plug c' rr))))"
  have link3: "link_right (Some b) (root_ptr (plug c' rr)) w2 = Some w3"
    using at cell D(2) by (simp add: links w3_def m2)
  have r3: "rep mkr (mem w3) (Some a) (plug c' rr)"
    using t2(1) dd by (simp add: w3_def)
  have ne: "plug c' rr \<noteq> \<langle>\<rangle>" using assms(2) by simp
  obtain h4 where h4: "modify (root_ptr (plug c' rr)) (r_parent_update (\<lambda>_. Some b)) (rb_store w3) = Some ((rb_store w3)\<lparr>cells := h4\<rparr>)"
    "rep mkr h4 (Some b) (plug c' rr)" "dom h4 = dom (mem w3)" "\<forall>x. x \<notin> set (addrs (plug c' rr)) \<longrightarrow> h4 x = mem w3 x"
    using rb_nodes.reparent [OF r3 _ ne, of "Some b"] dd by auto
  define w4 where "w4 = with_mem w3 h4"
  have m4: "mem w4 = h4" by (simp add: w4_def)
  have link4: "link_parent (root_ptr (plug c' rr)) (Some b) w3 = Some w4"
    using h4(1) by (simp add: link_parent_def update_def w4_def)
  have a: "mem w2 a = Some (mkr d (ctx_parent c) (root_ptr l) (root_ptr (plug c' rr)))" "mem w3 a = mem w2 a" "mem w4 a = mem w2 a"
    using t2(1) dd h4(4) by (auto simp: m2 m4 w3_def)
  have run: "detach_replacement (Some a) (Some b) w = Some w4"
    using cell h1(1) [folded w1_def] at m1 link a(1,2) link3 link4 by (simp add: detach_replacement_def)
  show thesis
  proof (rule that [OF run])
    show "mem w4 b = Some (mkr e (ctx_parent c') None (root_ptr (plug c' rr)))"
      using h4(4) dd by (simp add: m4 w3_def)
    show "mem w4 a = Some (mkr d (ctx_parent c) (root_ptr l) (root_ptr (plug c' rr)))"
      using a by simp
    show "rep mkr (mem w4) (Some b) (plug c' rr)" using h4(2) by (simp add: m4)
    show "rep mkr (mem w4) (Some a) l"
      unfolding m4 by (rule rep_frame [where h = "mem w3", OF _ h4(4)]) (use t2(1) dd in \<open>auto simp: w3_def\<close>)
    show "rep_ctx mkr (mem w4) (Some a) c"
      unfolding m4 by (rule rep_ctx_frame [where h = "mem w3", OF _ h4(4)]) (use t2(2) dd in \<open>auto simp: w3_def\<close>)
    show dom: "dom (mem w4) = dom (mem w)"
      using h1(3) h2(3) h4(3) s by (auto simp: m1 m4 w3_def)
    show "store_ok (rb_store w4)"
      using store_ok_dom [of "rb_store w" h4] dom s by (simp add: m4 w4_def w3_def w2_def w1_def)
    show "rb_root w4 = rb_root w" by (simp add: w4_def w3_def w2_def w1_def)
  qed
qed

lemma red_black_relabel:
  assumes "red_black (plug c \<langle>l, (a, d), r\<rangle>)" and "snd d' = snd d"
  shows "red_black (plug c \<langle>l, (b, d'), r\<rangle>)"
proof -
  obtain n where n: "bal n (plug c \<langle>l, (a, d), r\<rangle>)" using assms(1) by (auto simp: red_black_def)
  have "bal n (plug c \<langle>l, (b, d'), r\<rangle>)" by (rule bal_swap [OF n]) (use assms(2) in simp)
  moreover have "invc (plug c \<langle>l, (b, d'), r\<rangle>)"
    using assms invc_plug [of c "\<langle>l, (a, d), r\<rangle>"] by (subst invc_plug) (simp add: red_black_def)
  moreover have "colour (plug c \<langle>l, (b, d'), r\<rangle>) = Black"
    using assms colour_plug [of c "\<langle>l, (b, d'), r\<rangle>" "\<langle>l, (a, d), r\<rangle>"]
    by (cases "c = []") (simp_all add: red_black_def)
  ultimately show ?thesis by (auto simp: red_black_def)
qed

lemma rb_erase_double_erased:
  assumes "shaped {} w (plug c \<langle>l, (a, d), r\<rangle>)" and "red_black (plug c \<langle>l, (a, d), r\<rangle>)" and "l \<noteq> \<langle>\<rangle>" and "r \<noteq> \<langle>\<rangle>"
  shows "erased (rb_erase_double (Some a) w) (map fst (before labels snd c) @ vals l @ vals r @ map fst (behind labels snd c))"
proof -
  note s = assms(1) [unfolded shaped_plug, simplified]
  obtain c' b e rr where c': "r = plug c' \<langle>\<langle>\<rangle>, (b, e), rr\<rangle>" "leftmost (root_ptr r) w = Some (Some b)"
    "\<forall>f \<in> set c'. \<exists>b d r. f = In_left b d r"
    using leftmost_ctx [of w "Some a" r] s assms(4) by blast
  define C where "C = c' @ In_right l b (fst e, snd d) # c"
  have sb: "shaped {} w (plug (c' @ In_right l a d # c) \<langle>\<langle>\<rangle>, (b, e), rr\<rangle>)"
    using assms(1) by (simp add: plug_append c'(1))
  have a: "mem w a = Some (mkr d (ctx_parent c) (root_ptr l) (root_ptr r))" using look_shaped [OF assms(1)] .
  have b: "mem w b = Some (mkr e (ctx_parent (c' @ In_right l a d # c)) None (root_ptr rr))" using look_shaped [OF sb] by simp
  have d: "distinct (a # b # addrs l @ addrs (plug c' rr) @ ctx_addrs c)"
    using s by (auto simp: c'(1) addrs_plug)
  have dom: "dom (mem w) = {a, b} \<union> set (addrs l) \<union> set (addrs (plug c' rr)) \<union> set (ctx_addrs c)"
    using s by (auto simp: c'(1) addrs_plug)
  have root: "c \<noteq> [] \<longrightarrow> rb_root w = root_ptr (plug c \<langle>\<rangle>)"
    using s root_ptr_plug [of c "\<langle>\<rangle>" "\<langle>l, (a, d), r\<rangle>"] by auto
  have "\<exists>w1 w2. (if c' = [] then Some w else detach_replacement (Some a) (Some b) w) = Some w1 \<and>
    take_place (Some a) (Some b) w1 = Some w2 \<and> shaped {a} w2 (plug c \<langle>l, (b, (fst e, snd d)), plug c' rr\<rangle>)"
  proof (cases "c' = []")
    case True
    obtain w2 where "take_place (Some a) (Some b) w = Some w2" "shaped {a} w2 (plug c \<langle>l, (b, (fst e, snd d)), rr\<rangle>)"
      using take_place_shaped [OF a, of b e "Some a" rr] s b d dom root assms(3) True by (auto simp: c'(1))
    with True show ?thesis by auto
  next
    case False
    have sw: "shaped {} w (plug c \<langle>l, (a, d), plug c' \<langle>\<langle>\<rangle>, (b, e), rr\<rangle>\<rangle>)" using assms(1) by (simp add: c'(1))
    obtain w1 where w1: "detach_replacement (Some a) (Some b) w = Some w1"
      "mem w1 b = Some (mkr e (ctx_parent c') None (root_ptr (plug c' rr)))"
      "mem w1 a = Some (mkr d (ctx_parent c) (root_ptr l) (root_ptr (plug c' rr)))"
      "rep mkr (mem w1) (Some a) l" "rep mkr (mem w1) (Some b) (plug c' rr)" "rep_ctx mkr (mem w1) (Some a) c"
      "dom (mem w1) = dom (mem w)" "store_ok (rb_store w1)" "rb_root w1 = rb_root w"
      by (rule detach_shaped [OF sw False c'(3)])
    obtain w2 where "take_place (Some a) (Some b) w1 = Some w2" "shaped {a} w2 (plug c \<langle>l, (b, (fst e, snd d)), plug c' rr\<rangle>)"
      by (rule take_place_shaped [OF w1(3,2,4,5,6) d]) (use w1 dom root assms(3) in auto)
    with w1(1) False show ?thesis by auto
  qed
  then obtain w1 w2 where w: "(if c' = [] then Some w else detach_replacement (Some a) (Some b) w) = Some w1"
    "take_place (Some a) (Some b) w1 = Some w2" "shaped {a} w2 (plug C rr)"
    by (auto simp: C_def plug_append)
  have "red_black (plug C \<langle>\<langle>\<rangle>, (b, e), rr\<rangle>)"
    using red_black_relabel [OF assms(2), of "(fst e, snd d)" b] by (simp add: C_def plug_append c'(1))
  from repair_and_delete [OF this _ w(3)] obtain w3 w4 t' where
    w3: "(if snd e = Black then erase_fixup (root_ptr rr) (ctx_parent C) w2 else Some w2) = Some w3"
      "delete_node (Some a) w3 = Some w4" "shaped {} w4 t'" "red_black t'" "vals t' = vals (plug C rr)" by auto
  have par: "ctx_parent (c' @ In_right l a d # c) = Some a \<longleftrightarrow> c' = []"
    "ctx_parent C = (if c' = [] then Some b else ctx_parent (c' @ In_right l a d # c))"
    using d by (cases c' rule: ctx_parent.cases; auto simp: C_def addrs_plug)+
  have "rb_erase_double (Some a) w = Some w4"
    unfolding rb_erase_double_def using a b c'(2) w(1,2) w3(1,2) par
    by (cases "c' = []"; cases "snd e") (simp_all add: Let_def)
  moreover have "vals (plug C rr) = map fst (before labels snd c) @ vals l @ vals r @ map fst (behind labels snd c)"
  proof -
    have "before labels snd c' = []"
      using c'(3) by (induction c') auto
    then show ?thesis by (simp add: C_def plug_append vals_plug c'(1))
  qed
  ultimately show ?thesis using w3(3-5) by (auto simp: erased_def)
qed

lemma rb_erase_node_erased:
  assumes "shaped {} w (plug c \<langle>l, (a, d), r\<rangle>)" and "red_black (plug c \<langle>l, (a, d), r\<rangle>)"
  shows "erased (rb_erase_node (Some a) w) (map fst (before labels snd c) @ vals l @ vals r @ map fst (behind labels snd c))"
proof -
  note cell = look_shaped [OF assms(1)]
  consider (leaf) "l = \<langle>\<rangle>" "r = \<langle>\<rangle>" | (single) t where "l = \<langle>\<rangle> \<and> t = r \<or> r = \<langle>\<rangle> \<and> t = l" "t \<noteq> \<langle>\<rangle>"
    | (double) "l \<noteq> \<langle>\<rangle>" "r \<noteq> \<langle>\<rangle>" by blast
  then show ?thesis
  proof cases
    case leaf
    then show ?thesis
      using cell rb_erase_leaf_erased [of w c a d] assms by (simp add: rb_erase_node_def vals_plug)
  next
    case single
    have "rb_erase_node (Some a) w = rb_erase_single (Some a) w"
      using cell single by (auto simp: rb_erase_node_def)
    with rb_erase_single_erased [OF assms single] single show ?thesis
      by (auto simp: vals_plug)
  next
    case double
    then show ?thesis
      using cell rb_erase_double_erased [OF assms] by (simp add: rb_erase_node_def)
  qed
qed

section \<open>Searching\<close>

definition compare_with :: "int \<Rightarrow> int \<times> color \<Rightarrow> turn" where
  "compare_with x d = (if fst d = x then Stay else if fst d > x then Go_left else Go_right)"

lemma compare_with_eq [simp]:
  "compare_with x d = Stay \<longleftrightarrow> fst d = x" "compare_with x d = Go_left \<longleftrightarrow> x < fst d" "compare_with x d = Go_right \<longleftrightarrow> fst d < x"
  by (auto simp: compare_with_def)

lemma compare_with_simps [simp]:
  "fst d = x \<Longrightarrow> compare_with x d = Stay" "x < fst d \<Longrightarrow> compare_with x d = Go_left" "fst d < x \<Longrightarrow> compare_with x d = Go_right"
  by (auto simp: compare_with_def)

lemma compare_with_ordered: "sorted (vals t) \<Longrightarrow> ordered_for (compare_with x) (labels t)"
  unfolding ordered_for_def vals_def sorted_map by (erule sorted_wrt_mono_rel [rotated]) auto

lemma rb_find_descend:
  "rep mkr (mem w) par t \<Longrightarrow> rb_find (root_ptr t) x w = Some (root_ptr (fst (descend (compare_with x) t c)))"
proof (induction t arbitrary: par c)
  case Leaf
  show ?case by (simp add: rb_find.simps)
next
  case (Node l y r)
  obtain a d where "y = (a, d)" by (cases y)
  with Node.prems Node.IH(1) [of "Some a" "In_left a d r # c"] Node.IH(2) [of "Some a" "In_right l a d # c"]
  show ?case by (cases "compare_with x d"; subst rb_find.simps) auto
qed

lemma found_iff:
  assumes "sorted (vals t)" and "descend (compare_with x) t [] = (t', c)"
  shows "t' = \<langle>\<rangle> \<longleftrightarrow> x \<notin> set (vals t)"
  using descend_finds [OF assms(2) compare_with_ordered [OF assms(1)]] by (auto simp: vals_def)

lemma rb_erase_law:
  assumes "rb_stands_for w M"
  shows "\<exists>w'. rb_erase x w = Some w' \<and> rb_stands_for w' (M - {#x#})"
proof -
  obtain t where t: "shaped {} w t" "red_black t" "sorted (vals t)" "mset (vals t) = M"
    using assms by (auto simp: rb_stands_for_def)
  obtain t' c where d: "descend (compare_with x) t [] = (t', c)" by fastforce
  have plug: "plug c t' = t" using descend_plug [OF d] by simp
  have find: "rb_find (rb_root w) x w = Some (root_ptr t')"
    using rb_find_descend [of w None t x "[]"] t(1) d by (simp add: shaped_def)
  show ?thesis
  proof (cases t')
    case Leaf
    then have "x \<notin># M" using found_iff [OF t(3) d] t(4) by auto
    with Leaf find assms show ?thesis by (simp add: rb_erase_def diff_single_trivial)
  next
    case (Node l y r)
    obtain a e where y: "y = (a, e)" by (cases y)
    have e: "fst e = x" using descend_stay [of "compare_with x" t "[]" l a e r c] d Node y by simp
    let ?vs = "map fst (before labels snd c) @ vals l @ vals r @ map fst (behind labels snd c)"
    have "erased (rb_erase_node (Some a) w) ?vs"
      using rb_erase_node_erased [of w c l a e r] t(1,2) plug Node y by simp
    then obtain w' u where u: "rb_erase_node (Some a) w = Some w'" "shaped {} w' u" "red_black u" "vals u = ?vs"
      by (auto simp: erased_def)
    have ls: "map fst (before labels snd c) @ (vals l @ x # vals r) @ map fst (behind labels snd c) = vals t"
      using vals_plug [of c t'] plug Node y e by simp
    have "sorted (vals u)" using t(3) by (auto simp: u(4) sorted_append simp flip: ls)
    moreover have "mset (vals u) = M - {#x#}" by (simp add: u(4) flip: ls t(4))
    moreover have "rb_erase x w = Some w'" using find u(1) Node y by (simp add: rb_erase_def)
    ultimately show ?thesis using u(2,3) by (auto simp: rb_stands_for_def)
  qed
qed

interpretation rb_tree: stored_collection rb_stands_for rb_insert rb_erase add_mset "\<lambda>x M. M - {#x#}"
  by unfold_locales (rule rb_insert_law, assumption, rule rb_erase_law, assumption)

section \<open>Going through a tree\<close>

definition rb_reads :: "rnode store \<Rightarrow> (rnode, 'b) visitor \<Rightarrow> (int \<times> color \<Rightarrow> 'b \<Rightarrow> 'b) \<Rightarrow> bool" where
  "rb_reads s cb f \<longleftrightarrow> (\<forall>a n b. cells s a = Some n \<longrightarrow> cb a (s, b) = Some (s, f (r_value n, r_color n) b))"

lemma rb_foreach_front_reads:
  "rep mkr (cells s) par t \<Longrightarrow> rb_reads s cb f \<Longrightarrow>
   rb_foreach_front cb (root_ptr t) (s, b) = Some (s, fold f (map snd (preorder t)) b)"
proof (induction t arbitrary: par b)
  case (Node l x r)
  obtain a v where "x = (a, v)" by (cases x)
  with Node.prems Node.IH(1) [of "Some a" "f v b"] Node.IH(2) [of "Some a" "fold f (map snd (preorder l)) (f v b)"]
  show ?case by (subst rb_foreach_front.simps) (auto simp: rb_reads_def)
qed (simp add: rb_foreach_front.simps)

lemma rb_foreach_middle_reads:
  "rep mkr (cells s) par t \<Longrightarrow> rb_reads s cb f \<Longrightarrow>
   rb_foreach_middle cb (root_ptr t) (s, b) = Some (s, fold f (labels t) b)"
proof (induction t arbitrary: par b)
  case (Node l x r)
  obtain a v where "x = (a, v)" by (cases x)
  with Node.prems Node.IH(1) [of "Some a" b] Node.IH(2) [of "Some a" "f v (fold f (labels l) b)"]
  show ?case by (subst rb_foreach_middle.simps) (auto simp: rb_reads_def)
qed (simp add: rb_foreach_middle.simps)

lemma rb_foreach_back_reads:
  "rep mkr (cells s) par t \<Longrightarrow> rb_reads s cb f \<Longrightarrow>
   rb_foreach_back cb (root_ptr t) (s, b) = Some (s, fold f (map snd (postorder t)) b)"
proof (induction t arbitrary: par b)
  case (Node l x r)
  obtain a v where "x = (a, v)" by (cases x)
  with Node.prems Node.IH(1) [of "Some a" b] Node.IH(2) [of "Some a" "fold f (map snd (postorder l)) b"]
  show ?case by (subst rb_foreach_back.simps) (auto simp: rb_reads_def)
qed (simp add: rb_foreach_back.simps)

lemma rb_foreach_back_free:
  "rep mkr (cells s) par t \<Longrightarrow> distinct (addrs t) \<Longrightarrow>
   rb_foreach_back (\<lambda>a (s, u). map_option (\<lambda>s. (s, u)) (free (Some a) s)) (root_ptr t) (s, u) =
     Some (s\<lparr>cells := cells s |` (- set (addrs t))\<rparr>, u)"
proof (induction t arbitrary: par s)
  case Leaf
  show ?case by (simp add: rb_foreach_back.simps restrict_map_def)
next
  case (Node l x r)
  obtain a v where x: "x = (a, v)" by (cases x)
  define s1 where "s1 = s\<lparr>cells := cells s |` (- set (addrs l))\<rparr>"
  define s2 where "s2 = s1\<lparr>cells := cells s1 |` (- set (addrs r))\<rparr>"
  have r: "rep mkr (cells s1) (Some a) r"
    by (rule rep_frame [where h = "cells s" and A = "set (addrs l)"])
      (use Node.prems in \<open>auto simp: x s1_def\<close>)
  have cell: "cells s a = Some (mkr v par (root_ptr l) (root_ptr r))" "cells s1 a = cells s a" "cells s2 a = cells s a"
    using Node.prems by (auto simp: x s1_def s2_def)
  have "s2\<lparr>cells := (cells s2)(a := None)\<rparr> = s\<lparr>cells := cells s |` (- set (addrs \<langle>l, (a, v), r\<rangle>))\<rparr>"
    by (auto simp: s1_def s2_def restrict_map_def fun_eq_iff)
  moreover have "rb_foreach_back (\<lambda>a (s, u). map_option (\<lambda>s. (s, u)) (free (Some a) s)) (root_ptr l) (s, u) = Some (s1, u)"
    using Node.IH(1) [of s "Some a"] Node.prems by (simp add: x s1_def)
  moreover have "rb_foreach_back (\<lambda>a (s, u). map_option (\<lambda>s. (s, u)) (free (Some a) s)) (root_ptr r) (s1, u) = Some (s2, u)"
    using Node.IH(2) [of s1 "Some a"] Node.prems r by (simp add: x s2_def)
  ultimately show ?case
    using cell by (subst rb_foreach_back.simps) (simp add: x)
qed

section \<open>A multiset of integers\<close>

text \<open>The height is at most twice the logarithm of the number of nodes.\<close>

lemma bal_size: "bal n t \<Longrightarrow> 2 ^ n \<le> length (vals t) + 1"
proof (induction t arbitrary: n)
  case (Node l x r)
  obtain a d where x: "x = (a, d)" by (cases x)
  show ?case
  proof (cases "snd d")
    case Red
    with Node.prems Node.IH(1) [of n] show ?thesis by (simp add: x)
  next
    case Black
    with Node.prems obtain m where "n = Suc m" "bal m l" "bal m r" by (cases n) (auto simp: x)
    with Node.IH(1) [of m] Node.IH(2) [of m] show ?thesis by (simp add: x)
  qed
qed simp

lemma bal_height: "bal n t \<Longrightarrow> invc t \<Longrightarrow> height t \<le> 2 * n + (if colour t = Red then 1 else 0)"
proof (induction t arbitrary: n)
  case (Node l x r)
  obtain a d where x: "x = (a, d)" by (cases x)
  show ?case
  proof (cases "snd d")
    case Red
    with Node.prems Node.IH(1) [of n] Node.IH(2) [of n] show ?thesis by (simp add: x)
  next
    case Black
    with Node.prems obtain m where "n = Suc m" "bal m l" "bal m r" "invc l" "invc r" by (cases n) (auto simp: x)
    with Node.IH(1) [of m] Node.IH(2) [of m] Black show ?thesis by (auto simp: x split: if_splits)
  qed
qed simp

lemma red_black_height:
  assumes "red_black t"
  shows "2 ^ height t \<le> (length (vals t) + 1)\<^sup>2"
proof -
  obtain n where n: "bal n t" "height t \<le> 2 * n"
    using assms bal_height by (fastforce simp: red_black_def)
  have "(2::nat) ^ height t \<le> (2 ^ n)\<^sup>2"
    using power_increasing [OF n(2), of "2::nat"] by (simp add: power_mult mult.commute [of 2])
  also have "\<dots> \<le> (length (vals t) + 1)\<^sup>2"
    using bal_size [OF n(1)] by (rule power_mono) simp
  finally show ?thesis .
qed

text \<open>The tree in the store, and what finding, printing, counting and destroying give.\<close>

definition rb_serves :: "rb \<Rightarrow> int multiset \<Rightarrow> bool" where
  "rb_serves w M \<longleftrightarrow>
     (\<exists>t. shaped {} w t \<and> red_black t \<and> 2 ^ height t \<le> (size M + 1)\<^sup>2) \<and>
     (\<forall>x. \<exists>p. rb_find (rb_root w) x w = Some p \<and>
        (case p of None \<Rightarrow> x \<notin># M | Some a \<Rightarrow> x \<in># M \<and> map_option r_value (mem w a) = Some x)) \<and>
     map_option (map fst) (rb_print_values Mid w) = Some (sorted_list_of_multiset M) \<and>
     rb_size w = Some (size M) \<and>
     (\<exists>s. rb_destroy w = Some s \<and> cells s = Map.empty)"

lemma rb_tree_serves:
  assumes "rb_stands_for w M"
  shows "rb_serves w M"
proof -
  obtain t where t: "shaped {} w t" "red_black t" "sorted (vals t)" "mset (vals t) = M"
    using assms by (auto simp: rb_stands_for_def)
  have size: "length (vals t) = size M" by (simp flip: t(4))
  have rep: "rep mkr (mem w) None t" "rb_root w = root_ptr t" using t(1) by (simp_all add: shaped_def)
  have find: "\<exists>p. rb_find (rb_root w) x w = Some p \<and>
      (case p of None \<Rightarrow> x \<notin># M | Some a \<Rightarrow> x \<in># M \<and> map_option r_value (mem w a) = Some x)" for x
  proof -
    obtain t' c where d: "descend (compare_with x) t [] = (t', c)" by fastforce
    have find: "rb_find (rb_root w) x w = Some (root_ptr t')"
      using rb_find_descend [of w None t x "[]"] rep d by simp
    have found: "t' = \<langle>\<rangle> \<longleftrightarrow> x \<notin># M"
      using found_iff [OF t(3) d] by (simp flip: t(4))
    show ?thesis
    proof (cases t')
      case Leaf
      with find found show ?thesis by simp
    next
      case (Node l y r)
      moreover obtain a e where y: "y = (a, e)" by (cases y)
      moreover have "fst e = x" using descend_stay [of "compare_with x" t "[]" l a e r c] d Node y by simp
      moreover have "shaped {} w (plug c t')" using descend_plug [OF d] t(1) by simp
      ultimately show ?thesis using find found look_shaped [of "{}" w c l a e r] by simp
    qed
  qed
  have "rb_reads (rb_store w) (\<lambda>a (s, out). do { n \<leftarrow> deref s (Some a); Some (s, out @ [(r_value n, r_color n)]) })
      (\<lambda>d out. out @ [d])"
    by (simp add: rb_reads_def)
  from rb_foreach_middle_reads [OF rep(1) this, of "[]"]
  have "rb_print_values Mid w = Some (labels t)"
    using rep(2) by (simp add: rb_print_values_def fold_snoc)
  then have print: "map_option (map fst) (rb_print_values Mid w) = Some (sorted_list_of_multiset M)"
    using t(3) sorted_list_of_multiset_mset [of "vals t"] by (simp add: vals_def [symmetric] sorted_sort_id t(4))
  have "rb_reads (rb_store w) (\<lambda>a (s, n). Some (s, n + 1)) (\<lambda>d n. Suc n)"
    by (simp add: rb_reads_def)
  from rb_foreach_back_reads [OF rep(1) this, of 0]
  have count: "rb_size w = Some (size M)"
    using rep(2) by (simp add: rb_size_def fold_count vals_def flip: size) (simp add: labels_def)
  have "cells (rb_store w) |` (- set (addrs t)) = Map.empty"
    using t(1) by (auto simp: shaped_def restrict_map_def fun_eq_iff domIff)
  then have "rb_destroy w = Some ((rb_store w)\<lparr>cells := Map.empty\<rparr>)"
    using rb_foreach_back_free [OF rep(1), of "()"] t(1) rep(2) by (simp add: rb_destroy_def shaped_def)
  then have destroy: "\<exists>s. rb_destroy w = Some s \<and> cells s = Map.empty" by simp
  have "shaped {} w t \<and> red_black t \<and> 2 ^ height t \<le> (size M + 1)\<^sup>2"
    using t(1,2) red_black_height [OF t(2)] by (simp add: size)
  with find print count destroy show ?thesis unfolding rb_serves_def by blast
qed

definition empty_rb :: rb where
  "empty_rb = \<lparr>rb_store = new_store, rb_root = None\<rparr>"

lemma empty_rb_stands_for: "rb_stands_for empty_rb {#}"
  by (auto simp: rb_stands_for_def shaped_def empty_rb_def new_store_def store_ok_def red_black_def intro!: exI [of _ "\<langle>\<rangle>"])

text \<open>
  C20: The red-black tree is a balanced multiset of integers.  From the null root any sequence of insertions and
  erasures by value runs without a bad dereference and without end, and leaves in the store exactly the nodes of
  a tree whose root is black, where no red node has a red child, where all paths have the same number of black
  nodes, and whose height is therefore at most twice the logarithm of the number of elements plus one.  In it
  \<^verbatim>\<open>find\<close> returns a node with the value that was sought exactly for the members of the multiset that the
  same operations build, the in-order printout is its sorted list, \<^verbatim>\<open>size\<close> is its size, and \<^verbatim>\<open>destroy\<close> frees
  every node.
\<close>

theorem red_black_tree_is_a_multiset:
  "let M = abs_ops add_mset (\<lambda>x M. M - {#x#}) ops {#}
   in \<exists>w. run_ops rb_insert rb_erase ops empty_rb = Some w \<and> rb_serves w M"
  using rb_tree.run_law [OF empty_rb_stands_for, of ops] rb_tree_serves by (force simp: Let_def)

end
