(* ===== verification/Decompress.thy ===== *)
theory Decompress
  imports Prelude
begin

text \<open>
  The decompression of \<^verbatim>\<open>practice/decompress.cpp\<close>: in \<^verbatim>\<open>[m|S]\<close> the string \<^verbatim>\<open>S\<close>, which may hold such groups
  itself, stands for \<^verbatim>\<open>m\<close> copies of it.  The deque is a list with its back at the end.  \<open>None\<close> is undefined
  behaviour: \<^verbatim>\<open>back()\<close> of an empty deque, or an access outside \<^verbatim>\<open>buf[3]\<close>.
\<close>

section \<open>The code\<close>

text \<open>The characters behind the last bracket, back to front, and the deque without them and the bracket.\<close>

function take_group :: "string \<Rightarrow> string \<Rightarrow> (string \<times> string) option" where
  "take_group deq ss = (if deq = [] then None
   else if last deq \<noteq> CHR ''['' then take_group (butlast deq) (ss @ [last deq])
   else Some (butlast deq, ss))"
  by auto
termination by (relation "measure (\<lambda>(deq, ss). length deq)") auto

declare take_group.simps [simp del]

definition is_digit :: "char \<Rightarrow> bool" where
  "is_digit c \<longleftrightarrow> 48 \<le> (of_char c :: nat) \<and> (of_char c :: nat) \<le> 57"

text \<open>\<^verbatim>\<open>atoi\<close> of the standard library, on a buffer of digits that must be terminated inside it.\<close>

definition atoi_buf :: "string \<Rightarrow> nat option" where
  "atoi_buf buf = (if CHR 0x00 \<in> set buf
     then Some (fold (\<lambda>c n. 10 * n + (of_char c - 48)) (takeWhile (\<lambda>c. c \<noteq> CHR 0x00) buf) 0) else None)"

fun scan_group :: "string \<Rightarrow> string \<Rightarrow> nat \<Rightarrow> nat \<Rightarrow> string \<Rightarrow> (nat \<times> string) option" where
  "scan_group [] buf idx m ss2 = Some (m, ss2)"
| "scan_group (c # ss) buf idx m ss2 =
     (if m > 0 then scan_group ss buf idx m (ss2 @ [c])
      else if c = CHR ''|'' then do { m \<leftarrow> atoi_buf buf; scan_group ss buf idx m ss2 }
      else if is_digit c then
        (if idx < length buf then scan_group ss (buf[idx := c]) (idx + 1) m ss2 else None)
      else scan_group ss buf idx m ss2)"

definition close_group :: "string \<Rightarrow> string option" where
  "close_group deq = do {
     (deq, ss) \<leftarrow> take_group deq [];
     (m, ss2) \<leftarrow> scan_group (rev ss) (replicate 3 CHR 0x00) 0 0 [];
     Some (deq @ concat (replicate m ss2)) }"

fun decompress_from :: "string \<Rightarrow> string \<Rightarrow> string option" where
  "decompress_from [] deq = Some deq"
| "decompress_from (c # p) deq =
     (if c = CHR 0x00 then Some deq
      else if c = CHR '']'' then do { deq \<leftarrow> close_group deq; decompress_from p deq }
      else decompress_from p (deq @ [c]))"

definition decompression :: "string \<Rightarrow> string option" where
  "decompression compress_str = decompress_from compress_str []"

section \<open>Compressed texts\<close>

datatype item = Plain char | Group nat "item list"

fun item_text :: "item \<Rightarrow> string" where
  "item_text (Plain c) = [c]"
| "item_text (Group m its) = ''['' @ to_string m @ ''|'' @ concat (map item_text its) @ '']''"

fun item_expand :: "item \<Rightarrow> string" where
  "item_expand (Plain c) = [c]"
| "item_expand (Group m its) = concat (replicate m (concat (map item_expand its)))"

fun item_ok :: "item \<Rightarrow> bool" where
  "item_ok (Plain c) \<longleftrightarrow> c \<notin> {CHR 0x00, CHR ''['', CHR '']''}"
| "item_ok (Group m its) \<longleftrightarrow> 0 < m \<and> (\<forall>it \<in> set its. item_ok it)"

fun small_counts :: "item \<Rightarrow> bool" where
  "small_counts (Plain c) \<longleftrightarrow> True"
| "small_counts (Group m its) \<longleftrightarrow> m < 100 \<and> (\<forall>it \<in> set its. small_counts it)"

definition texts :: "item list \<Rightarrow> string" where
  "texts its = concat (map item_text its)"

definition expand :: "item list \<Rightarrow> string" where
  "expand its = concat (map item_expand its)"

lemma texts_simps [simp]: "texts [] = []" "texts (it # its) = item_text it @ texts its"
  by (simp_all add: texts_def)

lemma expand_simps [simp]: "expand [] = []" "expand (it # its) = item_expand it @ expand its"
  by (simp_all add: expand_def)

lemma item_simps: "item_text (Group m its) = ''['' @ to_string m @ ''|'' @ texts its @ '']''"
  "item_expand (Group m its) = concat (replicate m (expand its))"
  by (simp_all add: texts_def expand_def)

section \<open>Correctness\<close>

lemma decompress_plain:
  "set xs \<inter> {CHR 0x00, CHR '']''} = {} \<Longrightarrow> decompress_from (xs @ p) deq = decompress_from p (deq @ xs)"
  by (induction xs arbitrary: deq) auto

lemma take_group_run:
  "CHR ''['' \<notin> set xs \<Longrightarrow> take_group (deq @ ''['' @ xs) ss = Some (deq, ss @ rev xs)"
proof (induction xs arbitrary: ss rule: rev_induct)
  case Nil
  show ?case by (subst take_group.simps) simp
next
  case (snoc x xs)
  then show ?case by (subst take_group.simps) (auto simp: butlast_append)
qed

lemma scan_rest: "m > 0 \<Longrightarrow> scan_group ss buf idx m ss2 = Some (m, ss2 @ ss)"
  by (induction ss arbitrary: ss2) auto

lemma is_digit_char [simp]: "d < 10 \<Longrightarrow> is_digit (char_of (48 + d :: nat))"
  by (simp add: is_digit_def)

lemma to_string_digits: "list_all is_digit (to_string n)"
proof (induction n rule: to_string.induct)
  case (1 n)
  then show ?case by (subst to_string.simps) simp
qed

definition digits_value :: "string \<Rightarrow> nat" where
  "digits_value ds = fold (\<lambda>c n. 10 * n + (of_char c - 48)) ds 0"

lemma to_string_value: "digits_value (to_string n) = n"
proof (induction n rule: to_string.induct)
  case (1 n)
  then show ?case by (subst to_string.simps) (simp add: digits_value_def)
qed

lemma to_string_length: "length (to_string n) \<le> 2 \<longleftrightarrow> n < 100"
proof -
  have pos: "0 < length (to_string m)" for m by (subst to_string.simps) simp
  show ?thesis
  proof (cases "n < 10")
    case True
    then show ?thesis by (subst to_string.simps) simp
  next
    case big: False
    have one: "length (to_string m) \<le> 1 \<longleftrightarrow> m < 10" for m
      using pos [of "m div 10"] by (subst to_string.simps) auto
    from big have "length (to_string n) = Suc (length (to_string (n div 10)))"
      by (subst to_string.simps) simp
    then have "length (to_string n) \<le> 2 \<longleftrightarrow> n div 10 < 10" using one [of "n div 10"] by simp
    then show ?thesis by auto
  qed
qed

lemma digit_not [simp]: "is_digit c \<Longrightarrow> c \<noteq> CHR ''|'' \<and> c \<noteq> CHR 0x00 \<and> c \<noteq> CHR ''['' \<and> c \<noteq> CHR '']''"
  by (auto simp: is_digit_def)

lemma scan_digits:
  "list_all is_digit ds \<Longrightarrow> scan_group (ds @ rest) (pre @ replicate k CHR 0x00) (length pre) 0 ss2 =
     (if length ds \<le> k then scan_group rest (pre @ ds @ replicate (k - length ds) CHR 0x00) (length pre + length ds) 0 ss2 else None)"
proof (induction ds arbitrary: pre k)
  case (Cons d ds)
  show ?case
  proof (cases k)
    case 0
    with Cons.prems show ?thesis by simp
  next
    case (Suc j)
    with Cons.prems Cons.IH [of "pre @ [d]" j] show ?thesis by simp
  qed
qed simp

lemma atoi_digits:
  assumes "list_all is_digit ds"
  shows "atoi_buf (ds @ replicate k CHR 0x00) = (if k = 0 then None else Some (digits_value ds))"
proof -
  have "CHR 0x00 \<notin> set ds" using assms by (induction ds) (auto dest: digit_not)
  moreover from this have "takeWhile (\<lambda>c. c \<noteq> CHR 0x00) (ds @ replicate k CHR 0x00) = ds"
    by (cases k) (auto simp: takeWhile_append)
  ultimately show ?thesis by (auto simp: atoi_buf_def digits_value_def)
qed

lemma scan_group_run:
  assumes "0 < m"
  shows "scan_group (to_string m @ ''|'' @ xs) (replicate 3 CHR 0x00) 0 0 [] = (if m < 100 then Some (m, xs) else None)"
proof -
  have "scan_group (to_string m @ ''|'' @ xs) (replicate 3 CHR 0x00) 0 0 [] =
    (if length (to_string m) \<le> 3
     then scan_group (''|'' @ xs) (to_string m @ replicate (3 - length (to_string m)) CHR 0x00) (length (to_string m)) 0 []
     else None)"
    using scan_digits [OF to_string_digits, of m "''|'' @ xs" "[]" 3 "[]"] by simp
  with assms to_string_length [of m] show ?thesis
    by (auto simp: atoi_digits [OF to_string_digits] to_string_value scan_rest)
qed

lemma close_group_run:
  assumes "0 < m" and "CHR ''['' \<notin> set xs"
  shows "close_group (deq @ ''['' @ to_string m @ ''|'' @ xs) = (if m < 100 then Some (deq @ concat (replicate m xs)) else None)"
proof -
  have "CHR ''['' \<notin> set (to_string m)"
    using to_string_digits [of m] by (auto simp: list_all_iff dest: digit_not)
  with assms(2) have "take_group (deq @ ''['' @ to_string m @ ''|'' @ xs) [] = Some (deq, rev (to_string m @ ''|'' @ xs))"
    using take_group_run [of "to_string m @ ''|'' @ xs" deq "[]"] by simp
  with scan_group_run [OF assms(1), of xs] show ?thesis by (simp add: close_group_def)
qed

lemma expand_ok: "item_ok it \<Longrightarrow> CHR ''['' \<notin> set (item_expand it)"
proof (induction it rule: item.induct)
  case (Group m its)
  then show ?case by (auto simp: item_simps expand_def)
qed auto

lemma decompress_item:
  "item_ok it \<Longrightarrow> decompress_from (item_text it @ p) deq =
     (if small_counts it then decompress_from p (deq @ item_expand it) else None)"
proof (induction it arbitrary: p deq rule: item.induct)
  case (Group m its)
  have ok: "\<forall>it \<in> set its. item_ok it" "0 < m" using Group.prems by auto
  have all: "\<forall>it \<in> set is. item_ok it \<and> it \<in> set its \<Longrightarrow> decompress_from (texts is @ q) d =
    (if \<forall>it \<in> set is. small_counts it then decompress_from q (d @ expand is) else None)" for "is" q d
    by (induction "is" arbitrary: d) (use Group.IH in auto)
  have plain: "set (to_string m @ ''|'') \<inter> {CHR 0x00, CHR '']''} = {}"
    using to_string_digits [of m] by (auto simp: list_all_iff dest: digit_not)
  have "CHR ''['' \<notin> set (expand its)"
    using ok(1) expand_ok by (auto simp: expand_def)
  note close = close_group_run [OF ok(2) this]
  have "decompress_from (item_text (Group m its) @ p) deq =
    decompress_from (texts its @ '']'' @ p) (deq @ ''['' @ to_string m @ ''|'')"
    using decompress_plain [OF plain, of "texts its @ '']'' @ p" "deq @ ''[''"] by (simp add: item_simps del: item_text.simps)
  with all [of its] ok close [of deq] show ?case
    by (auto simp: item_simps simp del: item_expand.simps)
qed auto

lemma decompress_items:
  "\<forall>it \<in> set its. item_ok it \<Longrightarrow> decompress_from (texts its) deq =
     (if \<forall>it \<in> set its. small_counts it then Some (deq @ expand its) else None)"
proof (induction its arbitrary: deq)
  case (Cons it its)
  with decompress_item [of it "texts its" deq] show ?case by auto
qed simp

text \<open>
  C34: Decompression expands what the grammar of the comment at the head of the file compresses.  For every text
  built from characters other than the brackets and from groups, however deeply nested, whose counts are positive,
  the result is the expansion of the text, provided every count is below 100.  A count of 100, which the comment
  allows, or more fills \<^verbatim>\<open>char buf[3]\<close>, and \<^verbatim>\<open>atoi\<close> reads behind it: undefined behaviour.
\<close>

theorem decompression_expands:
  assumes "\<forall>it \<in> set its. item_ok it"
  shows "decompression (texts its) = (if \<forall>it \<in> set its. small_counts it then Some (expand its) else None)"
  using decompress_items [OF assms] by (simp add: decompression_def)

text \<open>A nested text with a count of two digits, and one with three.\<close>

lemma decompression_expands_witness:
  "decompression (texts [Plain CHR ''H'', Group 10 [Plain CHR ''A'', Group 2 [Plain CHR ''B'']]]) =
     Some (''H'' @ concat (replicate 10 ''ABB'')) \<and>
   decompression (texts [Group 100 [Plain CHR ''A'']]) = None"
  using decompression_expands [of "[Plain CHR ''H'', Group 10 [Plain CHR ''A'', Group 2 [Plain CHR ''B'']]]"]
    decompression_expands [of "[Group 100 [Plain CHR ''A'']]"]
  by (simp add: expand_def eval_nat_numeral)

end
