(* ===== verification/Link_List.thy ===== *)
theory Link_List
  imports Tree_Store
begin

text \<open>
  The singly linked list of \<^verbatim>\<open>memory/my_link.c\<close> and \<^verbatim>\<open>my_link.h\<close>, over a store of nodes and a store of heads.
  \<open>None\<close> is undefined behaviour: a null, freed or indeterminate pointer is dereferenced, or \<^verbatim>\<open>strcpy\<close> finds no
  terminator.  Whether a \<^verbatim>\<open>malloc\<close> succeeds is an argument.
\<close>

section \<open>The code\<close>

record link_node =
  n_str :: string
  n_next :: ptr

record link_heap =
  l_heads :: "ptr store"
  l_nodes :: "link_node store"

definition head_next :: "ptr \<Rightarrow> link_heap \<Rightarrow> ptr option" where
  "head_next head w = deref (l_heads w) head"

definition set_head_next :: "ptr \<Rightarrow> ptr \<Rightarrow> link_heap \<Rightarrow> link_heap option" where
  "set_head_next head p w = map_option (\<lambda>s. w\<lparr>l_heads := s\<rparr>) (modify head (\<lambda>_. p) (l_heads w))"

definition node_next :: "ptr \<Rightarrow> link_heap \<Rightarrow> ptr option" where
  "node_next p w = map_option n_next (deref (l_nodes w) p)"

definition set_node_next :: "ptr \<Rightarrow> ptr \<Rightarrow> link_heap \<Rightarrow> link_heap option" where
  "set_node_next p q w = map_option (\<lambda>s. w\<lparr>l_nodes := s\<rparr>) (modify p (n_next_update (\<lambda>_. q)) (l_nodes w))"

definition free_node :: "ptr \<Rightarrow> link_heap \<Rightarrow> link_heap option" where
  "free_node p w = map_option (\<lambda>s. w\<lparr>l_nodes := s\<rparr>) (free p (l_nodes w))"

definition free_head :: "ptr \<Rightarrow> link_heap \<Rightarrow> link_heap option" where
  "free_head head w = map_option (\<lambda>s. w\<lparr>l_heads := s\<rparr>) (free head (l_heads w))"

definition head_init :: "bool \<Rightarrow> link_heap \<Rightarrow> ptr \<times> link_heap" where
  "head_init ok w = (if \<not> ok then (None, w)
     else (let (a, s) = alloc None (l_heads w) in (Some a, w\<lparr>l_heads := s\<rparr>)))"

text \<open>The string of a \<^verbatim>\<open>data_t\<close> ends inside its hundred bytes.\<close>

definition node_create :: "bool \<Rightarrow> string \<Rightarrow> link_heap \<Rightarrow> (ptr \<times> link_heap) option" where
  "node_create ok str w = (if \<not> ok then Some (None, w)
     else if length str < 100 then
       (let (a, s) = alloc \<lparr>n_str = str, n_next = None\<rparr> (l_nodes w) in Some (Some a, w\<lparr>l_nodes := s\<rparr>))
     else None)"

partial_function (option) isset_from :: "ptr \<Rightarrow> ptr \<Rightarrow> link_heap \<Rightarrow> int option" where
  "isset_from p pnode w = (if p = None then Some 0
     else if p = pnode then Some 1
     else do { q \<leftarrow> node_next p w; isset_from q pnode w })"

definition link_isset :: "ptr \<Rightarrow> ptr \<Rightarrow> link_heap \<Rightarrow> int option" where
  "link_isset head pnode w = (if head = None \<or> pnode = None then Some (- 1)
     else do {
       p \<leftarrow> head_next head w;
       if p = pnode then Some 1 else isset_from p pnode w })"

definition link_insert :: "ptr \<Rightarrow> ptr \<Rightarrow> ptr \<Rightarrow> link_heap \<Rightarrow> (int \<times> link_heap) option" where
  "link_insert head prevnode pnode w = (if head = None \<or> prevnode = None \<or> pnode = None then Some (- 1, w)
     else do {
       p \<leftarrow> head_next head w;
       if p = None then Some (- 1, w)
       else do {
         there \<leftarrow> link_isset head pnode w;
         if there \<noteq> 0 then Some (- 1, w)
         else do {
           prev \<leftarrow> link_isset head prevnode w;
           if prev = 0 then Some (- 1, w)
           else do {
             q \<leftarrow> node_next prevnode w;
             w \<leftarrow> set_node_next pnode q w;
             w \<leftarrow> set_node_next prevnode pnode w;
             Some (0, w) } } } })"

partial_function (option) last_node :: "ptr \<Rightarrow> link_heap \<Rightarrow> ptr option" where
  "last_node p w = do {
     q \<leftarrow> node_next p w;
     if q \<noteq> None then last_node q w else Some p }"

definition link_insert_tail :: "ptr \<Rightarrow> ptr \<Rightarrow> link_heap \<Rightarrow> (int \<times> link_heap) option" where
  "link_insert_tail head pnode w = (if head = None \<or> pnode = None then Some (- 1, w)
     else do {
       there \<leftarrow> link_isset head pnode w;
       if there \<noteq> 0 then Some (- 1, w)
       else do {
         p \<leftarrow> head_next head w;
         if p = None then do { w \<leftarrow> set_head_next head pnode w; Some (0, w) }
         else do {
           p \<leftarrow> last_node p w;
           w \<leftarrow> set_node_next p pnode w;
           Some (0, w) } } })"

definition link_insert_head :: "ptr \<Rightarrow> ptr \<Rightarrow> link_heap \<Rightarrow> (int \<times> link_heap) option" where
  "link_insert_head head pnode w = (if head = None \<or> pnode = None then Some (- 1, w)
     else do {
       there \<leftarrow> link_isset head pnode w;
       if there \<noteq> 0 then Some (- 1, w)
       else do {
         p \<leftarrow> head_next head w;
         w \<leftarrow> (if p \<noteq> None then set_node_next pnode p w else Some w);
         w \<leftarrow> set_head_next head pnode w;
         Some (0, w) } })"

partial_function (option) select_from :: "ptr \<Rightarrow> string \<Rightarrow> link_heap \<Rightarrow> ptr option" where
  "select_from p str w = (if p = None then Some None
     else do {
       n \<leftarrow> deref (l_nodes w) p;
       if n_str n = str then Some p else select_from (n_next n) str w })"

definition link_select :: "ptr \<Rightarrow> string \<Rightarrow> link_heap \<Rightarrow> ptr option" where
  "link_select head str w = (if head = None then Some None
     else do { p \<leftarrow> head_next head w; select_from p str w })"

text \<open>\<open>pparent\<close> is \<open>None\<close> as long as the variable has no value.\<close>

partial_function (option) delect_from :: "ptr \<Rightarrow> ptr option \<Rightarrow> ptr \<Rightarrow> link_heap \<Rightarrow> link_heap option" where
  "delect_from p pparent pnode w = (if p = None then Some w
     else do {
       w \<leftarrow> (if p = pnode then do {
               q \<leftarrow> node_next p w;
               par \<leftarrow> pparent;
               w \<leftarrow> set_node_next par q w;
               free_node pnode w }
             else Some w);
       q \<leftarrow> node_next p w;
       delect_from q (Some p) pnode w })"

definition link_delect :: "ptr \<Rightarrow> ptr \<Rightarrow> link_heap \<Rightarrow> (int \<times> link_heap) option" where
  "link_delect head pnode w = (if head = None \<or> pnode = None then Some (- 1, w)
     else do {
       p \<leftarrow> head_next head w;
       w \<leftarrow> delect_from p None pnode w;
       Some (0, w) })"

partial_function (option) destroy_from :: "ptr \<Rightarrow> link_heap \<Rightarrow> link_heap option" where
  "destroy_from p w = (if p = None then Some w
     else do {
       w \<leftarrow> free_node p w;
       q \<leftarrow> node_next p w;
       destroy_from q w })"

definition link_destroy :: "ptr \<Rightarrow> link_heap \<Rightarrow> (int \<times> link_heap) option" where
  "link_destroy head w = (if head = None then Some (- 1, w)
     else do {
       p \<leftarrow> head_next head w;
       w \<leftarrow> (if p = None then Some w else destroy_from p w);
       w \<leftarrow> free_head head w;
       Some (0, w) })"

text \<open>What \<^verbatim>\<open>node_print\<close> writes, line by line.\<close>

partial_function (option) lines_from :: "ptr \<Rightarrow> link_heap \<Rightarrow> string list option" where
  "lines_from p w = (if p = None then Some []
     else do {
       n \<leftarrow> deref (l_nodes w) p;
       out \<leftarrow> lines_from (n_next n) w;
       Some (n_str n # out) })"

definition node_print :: "ptr \<Rightarrow> link_heap \<Rightarrow> string list option" where
  "node_print head w = (if head = None then Some [] else do { p \<leftarrow> head_next head w; lines_from p w })"

partial_function (option) recursion_reversal :: "ptr \<Rightarrow> ptr \<Rightarrow> link_heap \<Rightarrow> link_heap option" where
  "recursion_reversal prev now w = (if prev = None \<or> now = None then Some w
     else do {
       q \<leftarrow> node_next now w;
       if q = None then set_node_next now prev w
       else do {
         w \<leftarrow> recursion_reversal now q w;
         set_node_next now prev w } })"

definition link_reversal :: "ptr \<Rightarrow> link_heap \<Rightarrow> (int \<times> link_heap) option" where
  "link_reversal head w = (if head = None then Some (- 1, w)
     else do {
       p \<leftarrow> head_next head w;
       if p = None then Some (- 1, w)
       else do {
         q \<leftarrow> node_next p w;
         if q = None then Some (- 1, w)
         else do {
           last \<leftarrow> last_node p w;
           w \<leftarrow> recursion_reversal p q w;
           p \<leftarrow> head_next head w;
           w \<leftarrow> set_node_next p None w;
           w \<leftarrow> set_head_next head last w;
           Some (0, w) } } })"

declare isset_from.simps [code] last_node.simps [code] select_from.simps [code] delect_from.simps [code]
  destroy_from.simps [code] lines_from.simps [code] recursion_reversal.simps [code]

section \<open>Lists in the store\<close>

text \<open>The nodes from \<open>p\<close> up to but not including \<open>q\<close>.\<close>

fun seg :: "(nat \<rightharpoonup> link_node) \<Rightarrow> ptr \<Rightarrow> (nat \<times> string) list \<Rightarrow> ptr \<Rightarrow> bool" where
  "seg h p [] q \<longleftrightarrow> p = q"
| "seg h p ((a, s) # xs) q \<longleftrightarrow> p = Some a \<and> (\<exists>p'. h a = Some \<lparr>n_str = s, n_next = p'\<rparr> \<and> seg h p' xs q)"

lemma seg_append: "seg h p (xs @ ys) q \<longleftrightarrow> (\<exists>m. seg h p xs m \<and> seg h m ys q)"
  by (induction h p xs q rule: seg.induct) auto

lemma seg_upd [simp]: "a \<notin> fst ` set xs \<Longrightarrow> seg (h(a := x)) p xs q = seg h p xs q"
  by (induction h p xs q rule: seg.induct) auto

definition list_at :: "link_heap \<Rightarrow> nat \<Rightarrow> (nat \<times> string) list \<Rightarrow> bool" where
  "list_at w head xs \<longleftrightarrow> (\<exists>p. cells (l_heads w) head = Some p \<and> seg (cells (l_nodes w)) p xs None) \<and> distinct (map fst xs)"

lemma node_next_Some: "cells (l_nodes w) a = Some n \<Longrightarrow> node_next (Some a) w = Some (n_next n)"
  by (simp add: node_next_def)

lemma set_node_next_Some: "cells (l_nodes w) a = Some n \<Longrightarrow>
    set_node_next (Some a) q w =
      Some (w\<lparr>l_nodes := (l_nodes w)\<lparr>cells := (cells (l_nodes w))(a \<mapsto> n\<lparr>n_next := q\<rparr>)\<rparr>\<rparr>)"
  by (simp add: set_node_next_def)

lemma set_head_next_Some: "cells (l_heads w) a = Some q \<Longrightarrow>
    set_head_next (Some a) p w = Some (w\<lparr>l_heads := (l_heads w)\<lparr>cells := (cells (l_heads w))(a \<mapsto> p)\<rparr>\<rparr>)"
  by (simp add: set_head_next_def)

lemmas link_steps = node_next_Some set_node_next_Some set_head_next_Some

lemma isset_from_seg:
  "seg (cells (l_nodes w)) p xs None \<Longrightarrow> isset_from p (Some a) w = Some (if a \<in> fst ` set xs then 1 else 0)"
proof (induction xs arbitrary: p)
  case (Cons x xs)
  obtain b t where x: "x = (b, t)" by (cases x)
  with Cons.prems obtain q where "cells (l_nodes w) b = Some \<lparr>n_str = t, n_next = q\<rparr>" "seg (cells (l_nodes w)) q xs None" "p = Some b"
    by auto
  with Cons.IH [of q] show ?case by (subst isset_from.simps) (simp add: link_steps x)
qed (simp add: isset_from.simps)

lemma link_isset_list:
  "list_at w head xs \<Longrightarrow> link_isset (Some head) (Some a) w = Some (if a \<in> fst ` set xs then 1 else 0)"
proof -
  assume "list_at w head xs"
  then obtain p where p: "cells (l_heads w) head = Some p" "seg (cells (l_nodes w)) p xs None"
    by (auto simp: list_at_def)
  have "p = Some a \<Longrightarrow> a \<in> fst ` set xs" using p(2) by (cases xs) auto
  with p(1) isset_from_seg [OF p(2), of a] show ?thesis by (simp add: link_isset_def head_next_def)
qed

lemma last_node_seg:
  "seg (cells (l_nodes w)) p xs None \<Longrightarrow> xs \<noteq> [] \<Longrightarrow> last_node p w = Some (Some (fst (last xs)))"
proof (induction xs arbitrary: p)
  case (Cons x xs)
  obtain b t where x: "x = (b, t)" by (cases x)
  with Cons.prems obtain q where q: "cells (l_nodes w) b = Some \<lparr>n_str = t, n_next = q\<rparr>" "seg (cells (l_nodes w)) q xs None" "p = Some b"
    by auto
  show ?case
  proof (cases "xs = []")
    case True
    with q show ?thesis by (subst last_node.simps) (simp add: link_steps x)
  next
    case False
    moreover from this q(2) have "q \<noteq> None" by (cases xs) auto
    ultimately show ?thesis using q Cons.IH [of q] by (subst last_node.simps) (simp add: link_steps x del: not_None_eq)
  qed
qed simp

lemma select_from_seg:
  "seg (cells (l_nodes w)) p xs None \<Longrightarrow> select_from p s w = Some (map_option fst (find (\<lambda>x. snd x = s) xs))"
proof (induction xs arbitrary: p)
  case (Cons x xs)
  obtain b t where "x = (b, t)" by (cases x)
  with Cons show ?case by (subst select_from.simps) auto
qed (simp add: select_from.simps)

lemma lines_from_seg: "seg (cells (l_nodes w)) p xs None \<Longrightarrow> lines_from p w = Some (map snd xs)"
proof (induction xs arbitrary: p)
  case (Cons x xs)
  obtain b t where "x = (b, t)" by (cases x)
  with Cons show ?case by (subst lines_from.simps) auto
qed (simp add: lines_from.simps)

lemma find_None_snd: "find (\<lambda>x. snd x = s) xs = None \<longleftrightarrow> s \<notin> set (map snd xs)"
  by (induction xs) auto

section \<open>Insertion\<close>

definition unlinked_node :: "link_heap \<Rightarrow> nat \<Rightarrow> string \<Rightarrow> (nat \<times> string) list \<Rightarrow> bool" where
  "unlinked_node w a s xs \<longleftrightarrow> cells (l_nodes w) a = Some \<lparr>n_str = s, n_next = None\<rparr> \<and> a \<notin> fst ` set xs"

lemma insert_tail_list:
  assumes "list_at w head xs" and "unlinked_node w a s xs"
  shows "\<exists>w'. link_insert_tail (Some head) (Some a) w = Some (0, w') \<and> list_at w' head (xs @ [(a, s)]) \<and>
    next_free (l_nodes w') = next_free (l_nodes w) \<and> dom (cells (l_nodes w')) = dom (cells (l_nodes w))"
proof -
  obtain p where p: "cells (l_heads w) head = Some p" "seg (cells (l_nodes w)) p xs None" "distinct (map fst xs)"
    using assms(1) by (auto simp: list_at_def)
  have isset: "link_isset (Some head) (Some a) w = Some 0"
    using link_isset_list [OF assms(1), of a] assms(2) by (simp add: unlinked_node_def)
  show ?thesis
  proof (cases xs rule: rev_cases)
    case Nil
    with p assms(2) isset show ?thesis
      by (auto simp: link_insert_tail_def head_next_def link_steps list_at_def unlinked_node_def)
  next
    case (snoc ys y)
    obtain b t where y: "y = (b, t)" by (cases y)
    obtain m where m: "seg (cells (l_nodes w)) p ys (Some b)" "cells (l_nodes w) b = Some \<lparr>n_str = t, n_next = None\<rparr>"
      using p(2) by (auto simp: snoc y seg_append)
    have "p \<noteq> None" using m(1) by (cases ys) auto
    moreover have "last_node p w = Some (Some b)"
      using last_node_seg [OF p(2)] by (simp add: snoc y)
    moreover have "b \<notin> fst ` set ys" "a \<noteq> b" "a \<notin> fst ` set ys"
      using p(3) assms(2) by (auto simp: snoc y unlinked_node_def)
    ultimately show ?thesis
      using p(1,3) m assms(2) isset
      by (auto simp: link_insert_tail_def head_next_def link_steps list_at_def unlinked_node_def snoc y seg_append)
  qed
qed

lemma insert_head_list:
  assumes "list_at w head xs" and "unlinked_node w a s xs"
  shows "\<exists>w'. link_insert_head (Some head) (Some a) w = Some (0, w') \<and> list_at w' head ((a, s) # xs) \<and>
    next_free (l_nodes w') = next_free (l_nodes w) \<and> dom (cells (l_nodes w')) = dom (cells (l_nodes w))"
proof -
  obtain p where p: "cells (l_heads w) head = Some p" "seg (cells (l_nodes w)) p xs None" "distinct (map fst xs)"
    using assms(1) by (auto simp: list_at_def)
  have isset: "link_isset (Some head) (Some a) w = Some 0"
    using link_isset_list [OF assms(1), of a] assms(2) by (simp add: unlinked_node_def)
  show ?thesis
  proof (cases "p = None")
    case True
    with p(2) have "xs = []" by (cases xs) auto
    with p isset assms(2) True show ?thesis
      by (auto simp: link_insert_head_def head_next_def link_steps list_at_def unlinked_node_def)
  next
    case False
    with p isset assms(2) show ?thesis
      by (auto simp: link_insert_head_def head_next_def link_steps list_at_def unlinked_node_def)
  qed
qed

lemma insert_after_list:
  assumes "list_at w head (xs @ (b, t) # ys)" and "unlinked_node w a s (xs @ (b, t) # ys)"
  shows "\<exists>w'. link_insert (Some head) (Some b) (Some a) w = Some (0, w') \<and> list_at w' head (xs @ (b, t) # (a, s) # ys) \<and>
    next_free (l_nodes w') = next_free (l_nodes w) \<and> dom (cells (l_nodes w')) = dom (cells (l_nodes w))"
proof -
  obtain p q where p: "cells (l_heads w) head = Some p" "seg (cells (l_nodes w)) p xs (Some b)"
    "cells (l_nodes w) b = Some \<lparr>n_str = t, n_next = q\<rparr>" "seg (cells (l_nodes w)) q ys None" "distinct (map fst (xs @ (b, t) # ys))"
    using assms(1) by (auto simp: list_at_def seg_append)
  have isset: "link_isset (Some head) (Some a) w = Some 0" "link_isset (Some head) (Some b) w = Some 1"
    using link_isset_list [OF assms(1)] assms(2) by (simp_all add: unlinked_node_def)
  have "p \<noteq> None" using p(2) by (cases xs) auto
  moreover have "b \<notin> fst ` set xs" "b \<notin> fst ` set ys" "a \<noteq> b" "a \<notin> fst ` set xs" "a \<notin> fst ` set ys"
    using p(5) assms(2) by (auto simp: unlinked_node_def)
  ultimately show ?thesis
    using p isset assms(2)
    by (auto simp: link_insert_def head_next_def link_steps list_at_def unlinked_node_def seg_append)
qed

section \<open>Reversal\<close>

lemma recursion_reversal_seg:
  assumes "seg (cells (l_nodes w)) now zs None" and "zs \<noteq> []" and "distinct (map fst zs)"
  shows "\<exists>h. recursion_reversal (Some a) now w = Some (w\<lparr>l_nodes := (l_nodes w)\<lparr>cells := h\<rparr>\<rparr>) \<and>
    seg h (Some (fst (last zs))) (rev zs) (Some a) \<and> dom h = dom (cells (l_nodes w)) \<and>
    (\<forall>x. x \<notin> fst ` set zs \<longrightarrow> h x = cells (l_nodes w) x)"
  using assms
proof (induction zs arbitrary: a now w)
  case (Cons z zs)
  obtain b t where z: "z = (b, t)" by (cases z)
  obtain q where q: "now = Some b" "cells (l_nodes w) b = Some \<lparr>n_str = t, n_next = q\<rparr>" "seg (cells (l_nodes w)) q zs None"
    using Cons.prems(1) by (auto simp: z)
  have b: "b \<notin> fst ` set zs" using Cons.prems(3) by (simp add: z)
  show ?case
  proof (cases "zs = []")
    case True
    with q show ?thesis
      by (intro exI [of _ "(cells (l_nodes w))(b \<mapsto> \<lparr>n_str = t, n_next = Some a\<rparr>)"], subst recursion_reversal.simps)
        (auto simp: link_steps z)
  next
    case False
    then have qn: "q \<noteq> None" using q(3) by (cases zs) auto
    obtain h where h: "recursion_reversal (Some b) q w = Some (w\<lparr>l_nodes := (l_nodes w)\<lparr>cells := h\<rparr>\<rparr>)"
      "seg h (Some (fst (last zs))) (rev zs) (Some b)" "dom h = dom (cells (l_nodes w))"
      "\<forall>x. x \<notin> fst ` set zs \<longrightarrow> h x = cells (l_nodes w) x"
      using Cons.IH [OF q(3) False, of b] Cons.prems(3) by (auto simp: z)
    have hb: "h b = Some \<lparr>n_str = t, n_next = q\<rparr>" using h(4) b q(2) by simp
    let ?h = "h(b \<mapsto> \<lparr>n_str = t, n_next = Some a\<rparr>)"
    have "recursion_reversal (Some a) now w = Some (w\<lparr>l_nodes := (l_nodes w)\<lparr>cells := ?h\<rparr>\<rparr>)"
      using q(1,2) qn h(1) hb by (subst recursion_reversal.simps) (simp add: link_steps del: not_None_eq)
    moreover have "seg ?h (Some (fst (last (z # zs)))) (rev (z # zs)) (Some a)"
      using h(2) b False by (simp add: z seg_append)
    moreover have "dom ?h = dom (cells (l_nodes w))" using h(3) q(2) by auto
    moreover have "\<forall>x. x \<notin> fst ` set (z # zs) \<longrightarrow> ?h x = cells (l_nodes w) x" using h(4) by (simp add: z)
    ultimately show ?thesis by blast
  qed
qed simp

lemma link_reversal_list:
  assumes "list_at w head xs"
  shows "\<exists>w'. link_reversal (Some head) w = Some (if length xs < 2 then - 1 else 0, w') \<and> list_at w' head (rev xs) \<and>
    next_free (l_nodes w') = next_free (l_nodes w) \<and> dom (cells (l_nodes w')) = dom (cells (l_nodes w))"
proof -
  obtain p where p: "cells (l_heads w) head = Some p" "seg (cells (l_nodes w)) p xs None" "distinct (map fst xs)"
    using assms by (auto simp: list_at_def)
  consider "xs = []" | x where "xs = [x]" | a s b t zs where "xs = (a, s) # (b, t) # zs"
    by (cases xs rule: list.exhaust; metis list.exhaust surj_pair)
  then show ?thesis
  proof cases
    case 1
    with p show ?thesis by (auto simp: link_reversal_def head_next_def list_at_def)
  next
    case 2
    with p show ?thesis by (cases x) (auto simp: link_reversal_def head_next_def link_steps list_at_def)
  next
    case 3
    let ?ys = "(b, t) # zs"
    have a: "p = Some a" "cells (l_nodes w) a = Some \<lparr>n_str = s, n_next = Some b\<rparr>" "seg (cells (l_nodes w)) (Some b) ?ys None"
      "a \<notin> fst ` set ?ys" "distinct (map fst ?ys)"
      using p by (auto simp: 3)
    have last: "last_node p w = Some (Some (fst (last ?ys)))"
      using last_node_seg [OF p(2)] by (simp add: 3)
    obtain h where h: "recursion_reversal (Some a) (Some b) w = Some (w\<lparr>l_nodes := (l_nodes w)\<lparr>cells := h\<rparr>\<rparr>)"
      "seg h (Some (fst (last ?ys))) (rev ?ys) (Some a)" "dom h = dom (cells (l_nodes w))"
      "\<forall>x. x \<notin> fst ` set ?ys \<longrightarrow> h x = cells (l_nodes w) x"
      using recursion_reversal_seg [OF a(3) _ a(5), of a] by auto
    have ha: "h a = Some \<lparr>n_str = s, n_next = Some b\<rparr>" using h(4) a(2,4) by simp
    let ?w = "w\<lparr>l_nodes := (l_nodes w)\<lparr>cells := h(a \<mapsto> \<lparr>n_str = s, n_next = None\<rparr>)\<rparr>,
      l_heads := (l_heads w)\<lparr>cells := (cells (l_heads w))(head \<mapsto> Some (fst (last ?ys)))\<rparr>\<rparr>"
    have run: "link_reversal (Some head) w = Some (0, ?w)"
      using p(1) a(1,2) last h(1) ha
      by (simp add: link_reversal_def head_next_def link_steps)
    have "seg (h(a \<mapsto> \<lparr>n_str = s, n_next = None\<rparr>)) (Some (fst (last ?ys))) (rev ?ys) (Some a)"
      using h(2) a(4) by (subst seg_upd) auto
    then have "list_at ?w head (rev xs)"
      using p(3) by (auto simp: list_at_def 3 seg_append rev_map [symmetric])
    moreover have "dom (h(a \<mapsto> \<lparr>n_str = s, n_next = None\<rparr>)) = dom (cells (l_nodes w))" using h(3) a(2) by auto
    ultimately show ?thesis using run by (intro exI [of _ ?w]) (simp add: 3)
  qed
qed

section \<open>Deletion\<close>

lemma destroy_from_seg: "seg (cells (l_nodes w)) p xs None \<Longrightarrow> destroy_from p w = (if xs = [] then Some w else None)"
proof (cases xs)
  case (Cons x ys)
  obtain b t where "x = (b, t)" by (cases x)
  moreover assume "seg (cells (l_nodes w)) p xs None"
  ultimately show ?thesis
    by (subst destroy_from.simps) (auto simp: Cons free_node_def node_next_def)
qed (simp add: destroy_from.simps)

lemma delect_from_member:
  "seg (cells (l_nodes w)) p xs None \<Longrightarrow> a \<in> fst ` set xs \<Longrightarrow> distinct (map fst xs) \<Longrightarrow>
   (\<forall>b. par = Some (Some b) \<longrightarrow> b \<notin> fst ` set xs \<and> b \<in> dom (cells (l_nodes w))) \<Longrightarrow> par \<noteq> Some None \<Longrightarrow>
   delect_from p par (Some a) w = None"
proof (induction xs arbitrary: p par)
  case (Cons x xs)
  obtain b t where x: "x = (b, t)" by (cases x)
  obtain q where q: "p = Some b" "cells (l_nodes w) b = Some \<lparr>n_str = t, n_next = q\<rparr>" "seg (cells (l_nodes w)) q xs None"
    using Cons.prems(1) by (auto simp: x)
  show ?case
  proof (cases "b = a")
    case True
    show ?thesis
    proof (cases par)
      case None
      with q True show ?thesis by (subst delect_from.simps) (simp add: link_steps)
    next
      case (Some pp)
      with Cons.prems(4,5) obtain c where c: "pp = Some c" "c \<noteq> b" "c \<in> dom (cells (l_nodes w))"
        by (cases pp) (auto simp: x)
      then obtain n where "cells (l_nodes w) c = Some n" by auto
      with q True c(1,2) Some show ?thesis
        by (subst delect_from.simps) (simp add: link_steps free_node_def node_next_def)
    qed
  next
    case False
    with q Cons.prems Cons.IH [of q "Some (Some b)"] show ?thesis
      by (subst delect_from.simps) (auto simp: link_steps x)
  qed
qed simp

lemma delect_from_other:
  "seg (cells (l_nodes w)) p xs None \<Longrightarrow> a \<notin> fst ` set xs \<Longrightarrow> delect_from p par (Some a) w = Some w"
proof (induction xs arbitrary: p par)
  case (Cons x xs)
  obtain b t where "x = (b, t)" by (cases x)
  with Cons show ?case by (subst delect_from.simps) (auto simp: link_steps)
qed (simp add: delect_from.simps)

section \<open>Programs on a list\<close>

text \<open>\<open>After t s\<close> puts \<open>s\<close> behind the first node with the string \<open>t\<close>.\<close>

datatype link_op = Tail string | Front string | After string string | Reverse

definition link_step :: "ptr \<Rightarrow> link_op \<Rightarrow> link_heap \<Rightarrow> link_heap option" where
  "link_step head op w = (case op of
     Tail s \<Rightarrow> do { (p, w) \<leftarrow> node_create True s w; map_option snd (link_insert_tail head p w) }
   | Front s \<Rightarrow> do { (p, w) \<leftarrow> node_create True s w; map_option snd (link_insert_head head p w) }
   | After t s \<Rightarrow> do {
       prev \<leftarrow> link_select head t w;
       (p, w) \<leftarrow> node_create True s w;
       map_option snd (link_insert head prev p w) }
   | Reverse \<Rightarrow> map_option snd (link_reversal head w))"

fun link_run :: "ptr \<Rightarrow> link_op list \<Rightarrow> link_heap \<Rightarrow> link_heap option" where
  "link_run head [] w = Some w"
| "link_run head (op # ops) w = do { w \<leftarrow> link_step head op w; link_run head ops w }"

fun put_after :: "string \<Rightarrow> string \<Rightarrow> string list \<Rightarrow> string list" where
  "put_after t s [] = []"
| "put_after t s (x # xs) = (if x = t then x # s # xs else x # put_after t s xs)"

fun link_effect :: "link_op \<Rightarrow> string list \<Rightarrow> string list" where
  "link_effect (Tail s) xs = xs @ [s]"
| "link_effect (Front s) xs = s # xs"
| "link_effect (After t s) xs = put_after t s xs"
| "link_effect Reverse xs = rev xs"

fun fits_op :: "link_op \<Rightarrow> bool" where
  "fits_op (Tail s) \<longleftrightarrow> length s < 100"
| "fits_op (Front s) \<longleftrightarrow> length s < 100"
| "fits_op (After t s) \<longleftrightarrow> length s < 100"
| "fits_op Reverse \<longleftrightarrow> True"

definition holds_list :: "link_heap \<Rightarrow> nat \<Rightarrow> string list \<Rightarrow> bool" where
  "holds_list w head ss \<longleftrightarrow> (\<exists>xs. list_at w head xs \<and> map snd xs = ss \<and> store_ok (l_nodes w))"

lemma node_create_unlinked:
  assumes "list_at w head xs" and "store_ok (l_nodes w)" and "length s < 100"
  shows "\<exists>w'. node_create True s w = Some (Some (next_free (l_nodes w)), w') \<and> list_at w' head xs \<and>
    unlinked_node w' (next_free (l_nodes w)) s xs \<and> store_ok (l_nodes w')"
proof -
  have live: "seg h p xs q \<Longrightarrow> x \<in> fst ` set xs \<Longrightarrow> \<exists>n. h x = Some n" for h p q x xs
    by (induction h p xs q rule: seg.induct) auto
  have fresh: "next_free (l_nodes w) \<notin> fst ` set xs"
  proof
    assume "next_free (l_nodes w) \<in> fst ` set xs"
    with assms(1) live obtain n where "cells (l_nodes w) (next_free (l_nodes w)) = Some n"
      unfolding list_at_def by blast
    with store_ok_fresh [OF assms(2)] show False by simp
  qed
  have "store_ok (l_nodes w\<lparr>cells := (cells (l_nodes w))(next_free (l_nodes w) \<mapsto> n),
      next_free := Suc (next_free (l_nodes w))\<rparr>)" for n
    using assms(2) by (auto simp: store_ok_def)
  with assms fresh show ?thesis
    by (auto simp: node_create_def alloc_def list_at_def unlinked_node_def)
qed

lemma holds_list_grown:
  assumes "\<exists>w'. r = Some (0, w') \<and> list_at w' head xs \<and>
      next_free (l_nodes w') = next_free (l_nodes w) \<and> dom (cells (l_nodes w')) = dom (cells (l_nodes w))"
    and "store_ok (l_nodes w)" and "map snd xs = ss"
  shows "\<exists>w'. map_option snd r = Some w' \<and> holds_list w' head ss"
proof -
  obtain w' where w': "r = Some (0, w')" "list_at w' head xs" "next_free (l_nodes w') = next_free (l_nodes w)"
    "dom (cells (l_nodes w')) = dom (cells (l_nodes w))" using assms(1) by blast
  then have "store_ok (l_nodes w')" using store_ok_same [OF assms(2)] by blast
  with w'(1,2) assms(3) show ?thesis by (auto simp: holds_list_def)
qed

lemma link_step_effect:
  assumes "holds_list w head ss" and "fits_op op"
  shows "\<exists>w'. link_step (Some head) op w = Some w' \<and> holds_list w' head (link_effect op ss)"
proof -
  obtain xs where xs: "list_at w head xs" "map snd xs = ss" "store_ok (l_nodes w)"
    using assms(1) by (auto simp: holds_list_def)
  let ?a = "next_free (l_nodes w)"
  show ?thesis
  proof (cases op)
    case (Tail s)
    obtain w1 where w1: "node_create True s w = Some (Some ?a, w1)" "list_at w1 head xs" "unlinked_node w1 ?a s xs" "store_ok (l_nodes w1)"
      using node_create_unlinked [OF xs(1,3), of s] assms(2) Tail by auto
    with holds_list_grown [OF insert_tail_list [OF w1(2,3)] w1(4)] xs(2) show ?thesis by (simp add: Tail link_step_def)
  next
    case (Front s)
    obtain w1 where w1: "node_create True s w = Some (Some ?a, w1)" "list_at w1 head xs" "unlinked_node w1 ?a s xs" "store_ok (l_nodes w1)"
      using node_create_unlinked [OF xs(1,3), of s] assms(2) Front by auto
    with holds_list_grown [OF insert_head_list [OF w1(2,3)] w1(4)] xs(2) show ?thesis by (simp add: Front link_step_def)
  next
    case (After t s)
    obtain w1 where w1: "node_create True s w = Some (Some ?a, w1)" "list_at w1 head xs" "unlinked_node w1 ?a s xs" "store_ok (l_nodes w1)"
      using node_create_unlinked [OF xs(1,3), of s] assms(2) After by auto
    have sel: "link_select (Some head) t w = Some (map_option fst (find (\<lambda>x. snd x = t) xs))"
      using xs(1) select_from_seg by (auto simp: link_select_def head_next_def list_at_def)
    show ?thesis
    proof (cases "t \<in> set ss")
      case False
      then have "find (\<lambda>x. snd x = t) xs = None" using xs(2) by (simp add: find_None_snd del: set_map)
      moreover have "put_after t s ss = ss" using False by (induction ss) auto
      ultimately show ?thesis using w1 sel xs(2) by (auto simp: After link_step_def link_insert_def holds_list_def)
    next
      case True
      then obtain ys b zs where split: "xs = ys @ (b, t) # zs" "t \<notin> snd ` set ys"
        using split_list_first [of t "map snd xs"] xs(2) by (auto simp: map_eq_append_conv map_eq_Cons_conv)
      have "find (\<lambda>x. snd x = t) (ys @ (b, t) # zs) = Some (b, t)"
        using split(2) by (induction ys) auto
      moreover have "put_after t s (map snd ys @ t # map snd zs) = map snd ys @ t # s # map snd zs"
        using split(2) by (induction ys) auto
      ultimately show ?thesis
        using holds_list_grown [OF insert_after_list [OF w1(2,3) [unfolded split(1)]] w1(4)] w1(1) sel xs(2)
        by (auto simp: After link_step_def split(1))
    qed
  next
    case Reverse
    obtain w' where w': "link_reversal (Some head) w = Some (if length xs < 2 then - 1 else 0, w')" "list_at w' head (rev xs)"
      "next_free (l_nodes w') = next_free (l_nodes w)" "dom (cells (l_nodes w')) = dom (cells (l_nodes w))"
      using link_reversal_list [OF xs(1)] by blast
    then have "store_ok (l_nodes w')" using store_ok_same [OF xs(3)] by blast
    with w'(1,2) xs(2) show ?thesis by (auto simp: Reverse link_step_def holds_list_def rev_map [symmetric])
  qed
qed

lemma link_run_effect:
  "holds_list w head ss \<Longrightarrow> list_all fits_op ops \<Longrightarrow>
   \<exists>w'. link_run (Some head) ops w = Some w' \<and> holds_list w' head (fold link_effect ops ss)"
proof (induction ops arbitrary: w ss)
  case (Cons op ops)
  then obtain w1 where "link_step (Some head) op w = Some w1" "holds_list w1 head (link_effect op ss)"
    using link_step_effect [of w head ss op] by auto
  with Cons.IH [of w1 "link_effect op ss"] Cons.prems(2) show ?case by simp
qed simp

definition no_lists :: link_heap where
  "no_lists = \<lparr>l_heads = new_store, l_nodes = new_store\<rparr>"

lemma holds_list_facts:
  assumes "holds_list w head ss"
  shows "node_print (Some head) w = Some ss"
    and "\<forall>t. map_option (\<lambda>p. p \<noteq> None) (link_select (Some head) t w) = Some (t \<in> set ss)"
    and "\<forall>a. link_delect (Some head) (Some a) w = (if link_isset (Some head) (Some a) w = Some 1 then None else Some (0, w))"
    and "(link_destroy (Some head) w = None) = (ss \<noteq> [])"
proof -
  obtain xs where xs: "list_at w head xs" "map snd xs = ss" using assms by (auto simp: holds_list_def)
  obtain p where p: "cells (l_heads w) head = Some p" "seg (cells (l_nodes w)) p xs None" "distinct (map fst xs)"
    using xs(1) by (auto simp: list_at_def)
  show "node_print (Some head) w = Some ss"
    using p lines_from_seg [OF p(2)] xs(2) by (simp add: node_print_def head_next_def)
  show "\<forall>t. map_option (\<lambda>p. p \<noteq> None) (link_select (Some head) t w) = Some (t \<in> set ss)"
    using p(1) select_from_seg [OF p(2)] xs(2) [symmetric]
    by (simp add: link_select_def head_next_def find_None_snd del: not_None_eq set_map)
  show "\<forall>a. link_delect (Some head) (Some a) w = (if link_isset (Some head) (Some a) w = Some 1 then None else Some (0, w))"
    using p(1,3) delect_from_member [OF p(2)] delect_from_other [OF p(2)] link_isset_list [OF xs(1)]
    by (auto simp: link_delect_def head_next_def)
  have "destroy_from p w = (if xs = [] then Some w else None)" by (rule destroy_from_seg [OF p(2)])
  moreover have "p = None \<longleftrightarrow> xs = []" using p(2) by (cases xs) auto
  ultimately show "(link_destroy (Some head) w = None) = (ss \<noteq> [])"
    using p(1) xs(2) by (auto simp: link_destroy_def head_next_def free_head_def)
qed

text \<open>
  C29: A program on a linked list, which inserts new nodes at the tail, at the head and behind a node and
  reverses the list, in any order and with strings of less than a hundred characters, runs to its end, and the
  list prints and selects what the same operations on a list of strings give.  Taking a node out does not work:
  \<^verbatim>\<open>link_delect\<close> of any node of the list writes through an indeterminate pointer or reads the node it has
  freed, and \<^verbatim>\<open>link_destroy\<close> of any list but the empty one reads a freed node.
\<close>

theorem link_list_programs:
  assumes "list_all fits_op ops"
  shows "let head = fst (head_init True no_lists); ss = fold link_effect ops []
    in \<exists>w. link_run head ops (snd (head_init True no_lists)) = Some w \<and>
         node_print head w = Some ss \<and>
         (\<forall>t. map_option (\<lambda>p. p \<noteq> None) (link_select head t w) = Some (t \<in> set ss)) \<and>
         (\<forall>a. link_delect head (Some a) w = (if link_isset head (Some a) w = Some 1 then None else Some (0, w))) \<and>
         (link_destroy head w = None) = (ss \<noteq> [])"
proof -
  have head: "head_init True no_lists = (Some 0, no_lists\<lparr>l_heads := snd (alloc None (l_heads no_lists))\<rparr>)"
    by (simp add: head_init_def alloc_def no_lists_def new_store_def)
  have "holds_list (snd (head_init True no_lists)) 0 []"
    unfolding head by (auto simp: holds_list_def list_at_def alloc_def no_lists_def new_store_def store_ok_def)
  from link_run_effect [OF this assms] obtain w where
    w: "link_run (Some 0) ops (snd (head_init True no_lists)) = Some w" "holds_list w 0 (fold link_effect ops [])" by blast
  with holds_list_facts [OF w(2)] head show ?thesis by (auto simp: Let_def)
qed

text \<open>The program of the file's \<^verbatim>\<open>main\<close>.\<close>

lemma link_list_programs_witness:
  "let head = fst (head_init True no_lists);
       ops = [Tail ''wyw'', Front ''huangnan'', After ''huangnan'' ''love'', Tail ''wyw111'', Front ''huangnan111'',
         After ''wyw'' ''love111'', Reverse]
   in \<exists>w. link_run head ops (snd (head_init True no_lists)) = Some w \<and>
        node_print head w = Some [''wyw111'', ''love111'', ''wyw'', ''love'', ''huangnan'', ''huangnan111''] \<and>
        link_destroy head w = None"
  using link_list_programs [of "[Tail ''wyw'', Front ''huangnan'', After ''huangnan'' ''love'', Tail ''wyw111'',
    Front ''huangnan111'', After ''wyw'' ''love111'', Reverse]"] by (auto simp: Let_def)

end
