(* ===== verification/Pool_Malloc.thy ===== *)
theory Pool_Malloc
  imports Prelude
begin

text \<open>
  The allocator of \<^verbatim>\<open>memory/my_malloc.c\<close>: a hundred blocks of a hundred bytes, and behind them in the same array
  one byte per block that says whether the block is in use.  A pointer is its offset from the start of the array.
\<close>

section \<open>The code\<close>

type_synonym pool = "u8 list"

definition pm :: nat where "pm = 10000"

function clear_from :: "nat \<Rightarrow> pool \<Rightarrow> pool" where
  "clear_from i p = (if i < 100 then clear_from (i + 1) (p[pm + i := 0]) else p)"
  by auto
termination by (relation "measure (\<lambda>(i, p). 100 - i)") auto

declare clear_from.simps [simp del]

definition pool_init :: "pool \<Rightarrow> pool" where
  "pool_init p = clear_from 0 p"

function malloc_from :: "nat \<Rightarrow> pool \<Rightarrow> nat option \<times> pool" where
  "malloc_from i p = (if i < 100 then
       if p ! (pm + i) = 0 then (Some (i * 100), p[pm + i := 1]) else malloc_from (i + 1) p
     else (None, p))"
  by auto
termination by (relation "measure (\<lambda>(i, p). 100 - i)") auto

declare malloc_from.simps [simp del]

definition my_malloc :: "nat \<Rightarrow> pool \<Rightarrow> nat option \<times> pool" where
  "my_malloc n p = (if n > 100 then (None, p) else malloc_from 0 p)"

definition my_free :: "int \<Rightarrow> pool \<Rightarrow> pool" where
  "my_free ps p = (if ps < 0 \<or> ps > 9999 then p
     else if ps mod 100 \<noteq> 0 then p
     else let k = pm + nat (ps div 100) in if p ! k = 1 then p[k := 0] else p)"

section \<open>The blocks in use\<close>

definition pool_ok :: "pool \<Rightarrow> bool" where
  "pool_ok p \<longleftrightarrow> length p = 10100 \<and> (\<forall>i < 100. p ! (pm + i) \<in> {0, 1})"

definition live :: "pool \<Rightarrow> nat set" where
  "live p = {i. i < 100 \<and> p ! (pm + i) = 1}"

lemma clear_from_nth:
  "length p = 10100 \<Longrightarrow> i \<le> 100 \<Longrightarrow> length (clear_from i p) = 10100 \<and>
   (\<forall>j < 100. clear_from i p ! (pm + j) = (if i \<le> j then 0 else p ! (pm + j)))"
proof (induction i p rule: clear_from.induct)
  case (1 i p)
  show ?case
  proof (cases "i < 100")
    case True
    then have s: "clear_from i p = clear_from (i + 1) (p[pm + i := 0])" by (subst clear_from.simps) simp
    show ?thesis unfolding s using 1 True by (auto simp: pm_def nth_list_update)
  next
    case False
    with 1 show ?thesis by (subst (1 2) clear_from.simps) auto
  qed
qed

lemma pool_init_live: "length p = 10100 \<Longrightarrow> pool_ok (pool_init p) \<and> live (pool_init p) = {}"
  using clear_from_nth [of p 0] by (auto simp: pool_ok_def live_def pool_init_def)

lemma malloc_from_spec:
  assumes "pool_ok p" and "i \<le> 100" and "{..<i} \<subseteq> live p"
  shows "malloc_from i p = (if {..<100} \<subseteq> live p then (None, p)
    else let k = Min ({..<100} - live p) in (Some (k * 100), p[pm + k := 1]))"
  using assms
proof (induction i p rule: malloc_from.induct)
  case (1 i p)
  show ?case
  proof (cases "i < 100")
    case False
    with 1 show ?thesis by (subst malloc_from.simps) auto
  next
    case i: True
    show ?thesis
    proof (cases "p ! (pm + i) = 0")
      case True
      then have notin: "i \<notin> live p" by (simp add: live_def)
      then have "Min ({..<100} - live p) = i"
        using i 1(4) by (intro Min_eqI) (auto simp: not_less [symmetric])
      with notin i True show ?thesis by (subst malloc_from.simps) auto
    next
      case False
      then have "i \<in> live p" using i 1(2) by (auto simp: live_def pool_ok_def)
      then have "{..<i + 1} \<subseteq> live p" using 1(4) by (auto simp: less_Suc_eq)
      then have "malloc_from (i + 1) p = (if {..<100} \<subseteq> live p then (None, p)
          else let k = Min ({..<100} - live p) in (Some (k * 100), p[pm + k := 1]))"
        using 1(1) [OF i False 1(2)] i by simp
      moreover have "malloc_from i p = malloc_from (i + 1) p"
        using i False by (subst malloc_from.simps) simp
      ultimately show ?thesis by (simp only:)
    qed
  qed
qed

lemma live_update: "pool_ok p \<Longrightarrow> k < 100 \<Longrightarrow> b \<in> {0, 1} \<Longrightarrow>
    pool_ok (p[pm + k := b]) \<and> live (p[pm + k := b]) = (if b = 1 then insert k (live p) else live p - {k})"
  by (auto simp: pool_ok_def live_def nth_list_update pm_def)

section \<open>Clients\<close>

text \<open>A client asks for blocks, frees pointers, and writes to blocks.\<close>

datatype pool_cmd = Malloc nat | Free int | Write nat nat u8

fun in_block :: "pool_cmd \<Rightarrow> bool" where
  "in_block (Write i k b) \<longleftrightarrow> i < 100 \<and> k < 100"
| "in_block _ \<longleftrightarrow> True"

fun pool_run :: "pool_cmd list \<Rightarrow> pool \<Rightarrow> nat option list \<times> pool" where
  "pool_run [] p = ([], p)"
| "pool_run (Malloc n # cs) p = (let (r, p) = my_malloc n p; (rs, p) = pool_run cs p in (r # rs, p))"
| "pool_run (Free q # cs) p = pool_run cs (my_free q p)"
| "pool_run (Write i k b # cs) p = pool_run cs (p[i * 100 + k := b])"

text \<open>The same on the set of the blocks in use: the lowest free block is given out.\<close>

fun block_run :: "pool_cmd list \<Rightarrow> nat set \<Rightarrow> nat option list \<times> nat set" where
  "block_run [] A = ([], A)"
| "block_run (Malloc n # cs) A = (if n > 100 \<or> {..<100} \<subseteq> A then apfst (Cons None) (block_run cs A)
     else let k = Min ({..<100} - A) in apfst (Cons (Some (k * 100))) (block_run cs (insert k A)))"
| "block_run (Free q # cs) A =
     block_run cs (if q mod 100 = 0 \<and> 0 \<le> q \<and> q < 10000 then A - {nat (q div 100)} else A)"
| "block_run (Write i k b # cs) A = block_run cs A"

lemma my_free_spec:
  assumes "pool_ok p"
  shows "pool_ok (my_free q p) \<and> live (my_free q p) = (if q mod 100 = 0 \<and> 0 \<le> q \<and> q < 10000 then live p - {nat (q div 100)} else live p)"
proof (cases "0 \<le> q \<and> q \<le> 9999 \<and> q mod 100 = 0")
  case True
  then obtain j where j: "q = j * 100" by (metis mod_eq_0_iff_dvd dvd_div_mult_self)
  define k where "k = nat j"
  have k: "q = int k * 100" "k < 100" "nat (q div 100) = k" using True j by (auto simp: k_def)
  have free: "my_free q p = (if p ! (pm + k) = 1 then p[pm + k := 0] else p)"
    using True k by (simp add: my_free_def Let_def)
  have "p ! (pm + k) \<noteq> 1 \<Longrightarrow> k \<notin> live p" by (simp add: live_def)
  then show ?thesis unfolding free using True k(2,3) live_update [OF assms k(2), of 0] assms by auto
next
  case False
  then have "my_free q p = p" by (auto simp: my_free_def)
  with False show ?thesis using assms by auto
qed

lemma pool_run_blocks:
  "pool_ok p \<Longrightarrow> list_all in_block cs \<Longrightarrow>
   \<exists>p'. pool_run cs p = (fst (block_run cs (live p)), p') \<and> pool_ok p' \<and> live p' = snd (block_run cs (live p))"
proof (induction cs arbitrary: p)
  case (Cons c cs)
  show ?case
  proof (cases c)
    case (Malloc n)
    show ?thesis
    proof (cases "n > 100 \<or> {..<100} \<subseteq> live p")
      case True
      then have "my_malloc n p = (None, p)"
        using malloc_from_spec [OF Cons.prems(1), of 0] by (auto simp: my_malloc_def)
      moreover obtain p' where "pool_run cs p = (fst (block_run cs (live p)), p')" "pool_ok p'" "live p' = snd (block_run cs (live p))"
        using Cons by auto
      ultimately show ?thesis using True by (simp add: Malloc)
    next
      case False
      let ?k = "Min ({..<100} - live p)"
      have m: "my_malloc n p = (Some (?k * 100), p[pm + ?k := 1])"
        using malloc_from_spec [OF Cons.prems(1), of 0] False by (simp add: my_malloc_def Let_def)
      have "?k \<in> {..<100} - live p" using False by (intro Min_in) auto
      then have u: "pool_ok (p[pm + ?k := 1]) \<and> live (p[pm + ?k := 1]) = insert ?k (live p)"
        using live_update [OF Cons.prems(1), of ?k 1] by auto
      then obtain p' where "pool_run cs (p[pm + ?k := 1]) = (fst (block_run cs (insert ?k (live p))), p')" "pool_ok p'"
        "live p' = snd (block_run cs (insert ?k (live p)))"
        using Cons.IH [of "p[pm + ?k := 1]"] Cons.prems(2) by (auto simp: Malloc)
      then show ?thesis using m False by (simp add: Malloc Let_def)
    qed
  next
    case (Free q)
    with Cons.IH [of "my_free q p"] my_free_spec [OF Cons.prems(1), of q] Cons.prems(2) show ?thesis by simp
  next
    case (Write i k b)
    then have "i * 100 + k < pm" using Cons.prems(2) by (simp add: pm_def)
    then have "pool_ok (p[i * 100 + k := b]) \<and> live (p[i * 100 + k := b]) = live p"
      using Cons.prems(1) by (auto simp: pool_ok_def live_def nth_list_update)
    with Cons.IH [of "p[i * 100 + k := b]"] Cons.prems(2) Write show ?thesis by simp
  qed
qed simp

text \<open>
  C30: The pool allocator refines a set of blocks.  Whatever the array held before \<^verbatim>\<open>pool_init\<close>, a client that
  asks for memory, frees any pointers and writes inside blocks gets from \<^verbatim>\<open>my_malloc\<close> the start of the lowest block
  that is not in use, or null exactly when it asks for more than a hundred bytes or all hundred blocks are in
  use; \<^verbatim>\<open>my_free\<close> releases a block when it is given its start and ignores every other pointer; and what the
  client writes does not change which blocks are in use.
\<close>

theorem pool_refines_blocks:
  assumes "length p = 10100" and "list_all in_block cs"
  shows "fst (pool_run cs (pool_init p)) = fst (block_run cs {}) \<and>
    live (snd (pool_run cs (pool_init p))) = snd (block_run cs {})"
  using pool_run_blocks [OF _ assms(2), of "pool_init p"] pool_init_live [OF assms(1)] by auto

lemma pool_refines_blocks_witness:
  "fst (pool_run [Malloc 50, Malloc 101, Malloc 1, Write 0 99 1, Free 150, Free 0, Malloc 100] (pool_init (replicate 10100 7))) =
     [Some 0, None, Some 100, Some 0]"
proof -
  let ?cs = "[Malloc 50, Malloc 101, Malloc 1, Write 0 99 1, Free 150, Free 0, Malloc 100]"
  have "Min ({..<100} - {0}) = (1 :: nat)" "Min ({..<100} - {1}) = (0 :: nat)" "Min {..<100} = (0 :: nat)"
    by (rule Min_eqI; auto)+
  moreover have "\<not> {..<100 :: nat} \<subseteq> {0}" "\<not> {..<100 :: nat} \<subseteq> {1}" by (auto simp: subset_iff intro: exI [of _ 5])
  moreover have "insert 1 {0} - {0} = {1 :: nat}" by auto
  ultimately have "fst (block_run ?cs {}) = [Some 0, None, Some 100, Some 0]" by (simp add: Let_def lessThan_empty_iff)
  moreover have "fst (pool_run ?cs (pool_init (replicate 10100 7))) = fst (block_run ?cs {})"
    by (rule pool_refines_blocks [THEN conjunct1]) simp_all
  ultimately show ?thesis by (simp only:)
qed

end
