(* ===== verification/Thread_Event.thy ===== *)
theory Thread_Event
  imports Prelude
begin

text \<open>
  The event of \<^verbatim>\<open>core/threadpool/event.h\<close>, a flag with a condition variable, and the thread object of
  \<^verbatim>\<open>core/threadpool/runnable.h\<close>.  Both critical sections of the event hold its mutex, so each is one step; a
  waiting thread gives the mutex up, and goes on when it is notified, when its time is up or for no reason, and
  has the mutex again.
\<close>

section \<open>The event\<close>

text \<open>Where a thread is in \<^verbatim>\<open>wait\<close>: outside, in \<^verbatim>\<open>wait_for\<close>, or behind it with the status it returned.\<close>

datatype waiter = Outside | In_wait_for | No_timeout | Timeout

record event =
  m_setted :: bool
  ev_waiters :: "waiter list"
  ev_sets :: nat
  ev_trues :: nat

definition new_event :: "nat \<Rightarrow> event" where
  "new_event n = \<lparr>m_setted = False, ev_waiters = replicate n Outside, ev_sets = 0, ev_trues = 0\<rparr>"

text \<open>\<open>ev_sets\<close> and \<open>ev_trues\<close> count the calls of \<^verbatim>\<open>set\<close> and the waits that return true.\<close>

definition at_waiter :: "nat \<Rightarrow> waiter \<Rightarrow> event \<Rightarrow> bool" where
  "at_waiter i p e \<longleftrightarrow> i < length (ev_waiters e) \<and> ev_waiters e ! i = p"

definition move_waiter :: "nat \<Rightarrow> waiter \<Rightarrow> event \<Rightarrow> event" where
  "move_waiter i p e = e\<lparr>ev_waiters := (ev_waiters e)[i := p]\<rparr>"

definition return_true :: "event \<Rightarrow> event" where
  "return_true e = e\<lparr>m_setted := False, ev_trues := ev_trues e + 1\<rparr>"

text \<open>\<^verbatim>\<open>notify_one\<close> wakes one of the waiting threads, if there are any.\<close>

definition event_set :: "nat option \<Rightarrow> event \<Rightarrow> event option" where
  "event_set woken e =
     (let e' = e\<lparr>m_setted := True, ev_sets := ev_sets e + 1\<rparr>
      in case woken of
           None \<Rightarrow> if In_wait_for \<in> set (ev_waiters e) then None else Some e'
         | Some i \<Rightarrow> if at_waiter i In_wait_for e then Some (move_waiter i No_timeout e') else None)"

definition event_wait :: "nat \<Rightarrow> event \<Rightarrow> event option" where
  "event_wait i e = (if \<not> at_waiter i Outside e then None
     else if m_setted e then Some (return_true e)
     else Some (move_waiter i In_wait_for e))"

definition event_resume :: "nat \<Rightarrow> event \<Rightarrow> event option" where
  "event_resume i e =
     (if at_waiter i No_timeout e then Some (move_waiter i Outside (return_true e))
      else if at_waiter i Timeout e then
        Some (move_waiter i Outside (if m_setted e then return_true e else e))
      else None)"

datatype event_action = Set "nat option" | Wait nat | Resume nat | Time_up nat | Spurious nat

fun event_step :: "event_action \<Rightarrow> event \<Rightarrow> event option" where
  "event_step (Set woken) e = event_set woken e"
| "event_step (Wait i) e = event_wait i e"
| "event_step (Resume i) e = event_resume i e"
| "event_step (Time_up i) e = (if at_waiter i In_wait_for e then Some (move_waiter i Timeout e) else None)"
| "event_step (Spurious i) e = (if at_waiter i In_wait_for e then Some (move_waiter i No_timeout e) else None)"

fun event_run :: "event_action list \<Rightarrow> event \<Rightarrow> event option" where
  "event_run [] e = Some e"
| "event_run (a # as) e = do { e \<leftarrow> event_step a e; event_run as e }"

section \<open>One waiter\<close>

fun spurious :: "event_action \<Rightarrow> bool" where
  "spurious (Spurious i) \<longleftrightarrow> True"
| "spurious _ \<longleftrightarrow> False"

definition event_ok :: "event \<Rightarrow> bool" where
  "event_ok e \<longleftrightarrow> (\<exists>p. ev_waiters e = [p] \<and> (p = No_timeout \<longrightarrow> m_setted e)) \<and>
     ev_trues e + (if m_setted e then 1 else 0) \<le> ev_sets e"

lemma event_ok_step: "event_ok e \<Longrightarrow> event_step a e = Some e' \<Longrightarrow> \<not> spurious a \<Longrightarrow> event_ok e'"
  by (cases a) (auto simp: event_ok_def event_set_def event_wait_def event_resume_def at_waiter_def move_waiter_def
      return_true_def Let_def split: if_splits option.splits)

lemma event_ok_run: "event_run as e = Some e' \<Longrightarrow> event_ok e \<Longrightarrow> \<forall>a \<in> set as. \<not> spurious a \<Longrightarrow> event_ok e'"
proof (induction as arbitrary: e)
  case (Cons a as)
  from Cons.prems(1) obtain e1 where "event_step a e = Some e1" "event_run as e1 = Some e'"
    by (auto simp: bind_Some_iff)
  with Cons event_ok_step [of e a e1] show ?case by simp
qed simp

section \<open>The thread object\<close>

record runnable =
  m_stop :: bool
  m_joinable :: bool

definition new_runnable :: runnable where
  "new_runnable = \<lparr>m_stop = False, m_joinable = False\<rparr>"

text \<open>Assigning to a joinable \<^verbatim>\<open>std::thread\<close>, and joining one that is not, end the process: \<open>None\<close>.\<close>

definition runnable_start :: "runnable \<Rightarrow> runnable option" where
  "runnable_start r = (if m_joinable r then None else Some (r\<lparr>m_joinable := True\<rparr>))"

definition runnable_finished :: "runnable \<Rightarrow> runnable" where
  "runnable_finished r = r\<lparr>m_stop := True\<rparr>"

definition runnable_destroy :: "runnable \<Rightarrow> runnable option" where
  "runnable_destroy r = (let r = r\<lparr>m_stop := True\<rparr> in if m_joinable r then Some (r\<lparr>m_joinable := False\<rparr>) else None)"

lemma runnable_needs_one_start:
  "runnable_destroy new_runnable = None"
  "runnable_start new_runnable \<bind> runnable_start = None"
  "runnable_start new_runnable \<bind> (\<lambda>r. runnable_destroy (runnable_finished r)) = Some \<lparr>m_stop = True, m_joinable = False\<rparr>"
  by (simp_all add: runnable_destroy_def runnable_start_def new_runnable_def runnable_finished_def)

section \<open>The names of the threads\<close>

text \<open>\<^verbatim>\<open>thread_pool.cpp\<close>: a \<^verbatim>\<open>thread_local\<close> string, empty in a new thread.\<close>

definition no_names :: "nat \<Rightarrow> string" where
  "no_names = (\<lambda>_. [])"

definition set_thread_name :: "nat \<Rightarrow> string \<Rightarrow> (nat \<Rightarrow> string) \<Rightarrow> nat \<Rightarrow> string" where
  "set_thread_name i name names = names(i := name)"

definition current_thread_name :: "nat \<Rightarrow> (nat \<Rightarrow> string) \<Rightarrow> string" where
  "current_thread_name i names = names i"

lemma thread_name_own: "current_thread_name i (set_thread_name j name names) = (if i = j then name else current_thread_name i names)"
  by (simp add: current_thread_name_def set_thread_name_def)

section \<open>Properties\<close>

text \<open>
  C35: With one waiting thread, and as long as the condition variable does not wake it for no reason, every wait
  that returns true consumes a call of \<^verbatim>\<open>set\<close> of its own, in every interleaving of sets, waits, wakings and
  timeouts, and while the flag is up there is a call that no wait has consumed.  \<^verbatim>\<open>wait\<close> does not look at the flag
  again after \<^verbatim>\<open>wait_for\<close>, so this fails otherwise: a spurious waking returns true though nothing was ever set,
  and with two waiting threads one set makes both waits return true, when the second one comes in before the
  first has the mutex back.
\<close>

theorem event_counts_sets:
  assumes "event_run as (new_event 1) = Some e" and "\<forall>a \<in> set as. \<not> spurious a"
  shows "ev_trues e + (if m_setted e then 1 else 0) \<le> ev_sets e \<and>
    map_option (\<lambda>e. (ev_trues e, ev_sets e)) (event_run [Wait 0, Spurious 0, Resume 0] (new_event 1)) = Some (1, 0) \<and>
    map_option (\<lambda>e. (ev_trues e, ev_sets e)) (event_run [Wait 0, Set (Some 0), Wait 1, Resume 0] (new_event 2)) = Some (2, 1)"
proof -
  have "event_ok e"
    by (rule event_ok_run [OF assms(1) _ assms(2)]) (simp add: event_ok_def new_event_def)
  then show ?thesis
    by (simp add: event_ok_def new_event_def event_wait_def event_resume_def event_set_def at_waiter_def move_waiter_def
        return_true_def numeral_2_eq_2 Let_def)
qed

lemma event_counts_sets_witness:
  "\<exists>e. event_run [Wait 0, Set (Some 0), Set None, Resume 0, Wait 0, Time_up 0, Set None, Resume 0] (new_event 1) = Some e \<and>
     ev_trues e = 2 \<and> ev_sets e = 3 \<and> ev_trues e \<le> ev_sets e"
proof -
  define e where "e = \<lparr>m_setted = False, ev_waiters = [Outside], ev_sets = 3, ev_trues = 2\<rparr>"
  have run: "event_run [Wait 0, Set (Some 0), Set None, Resume 0, Wait 0, Time_up 0, Set None, Resume 0] (new_event 1) = Some e"
    by (simp add: e_def new_event_def event_wait_def event_resume_def event_set_def at_waiter_def move_waiter_def
        return_true_def Let_def)
  from event_counts_sets [OF run] have "ev_trues e \<le> ev_sets e" by simp
  with run show ?thesis by (simp add: e_def)
qed

end
