(* ===== verification/Nn_Socket.thy ===== *)
theory Nn_Socket
  imports Prelude
begin

text \<open>
  The socket classes of \<^verbatim>\<open>core/mq/nn_socket.h\<close> and \<^verbatim>\<open>nn_socket.cpp\<close> on the nanomsg library.  The library is an
  argument: a record of its functions on a state of its own, in which \<^verbatim>\<open>nn_errno\<close> is a field of every function's
  result.
\<close>

section \<open>The library\<close>

datatype errno = EINTR | EAGAIN | ETIMEDOUT | Other_errno nat

text \<open>A call returns its \<^verbatim>\<open>int\<close> and leaves a state; a receive also the bytes it writes to the buffer.\<close>

record 'l nanomsg =
  nn_socket :: "int \<Rightarrow> int \<Rightarrow> 'l \<Rightarrow> int \<times> 'l"
  nn_close :: "int \<Rightarrow> 'l \<Rightarrow> int \<times> 'l"
  nn_send :: "int \<Rightarrow> u8 list \<Rightarrow> int \<Rightarrow> 'l \<Rightarrow> int \<times> 'l"
  nn_recv :: "int \<Rightarrow> nat \<Rightarrow> int \<Rightarrow> 'l \<Rightarrow> int \<times> u8 list \<times> 'l"
  nn_bind :: "int \<Rightarrow> string \<Rightarrow> 'l \<Rightarrow> int \<times> 'l"
  nn_connect :: "int \<Rightarrow> string \<Rightarrow> 'l \<Rightarrow> int \<times> 'l"
  nn_setsockopt :: "int \<Rightarrow> int \<Rightarrow> int \<Rightarrow> u8 list \<Rightarrow> 'l \<Rightarrow> int \<times> 'l"
  nn_getsockopt :: "int \<Rightarrow> int \<Rightarrow> int \<Rightarrow> nat \<Rightarrow> 'l \<Rightarrow> int \<times> u8 list \<times> 'l"
  nn_errno :: "'l \<Rightarrow> errno"

section \<open>Protocols and transports\<close>

datatype protocol = UNKNOW | REPLY | REQUEST | PUSH | PULL | PUBLISH | SUBSCRIBE

datatype transport = INPROC | IPC | TCP | WS

text \<open>\<open>None\<close> is the exception \<^verbatim>\<open>logic_error\<close>.\<close>

fun protocol_to_string :: "protocol \<Rightarrow> string option" where
  "protocol_to_string REPLY = Some ''reply''"
| "protocol_to_string REQUEST = Some ''request''"
| "protocol_to_string PUSH = Some ''push''"
| "protocol_to_string PULL = Some ''pull''"
| "protocol_to_string PUBLISH = Some ''publish''"
| "protocol_to_string SUBSCRIBE = Some ''subscribe''"
| "protocol_to_string UNKNOW = None"

fun to_opposite :: "protocol \<Rightarrow> protocol option" where
  "to_opposite REPLY = Some REQUEST"
| "to_opposite REQUEST = Some REPLY"
| "to_opposite PUSH = Some PULL"
| "to_opposite PULL = Some PUSH"
| "to_opposite PUBLISH = Some SUBSCRIBE"
| "to_opposite SUBSCRIBE = Some PUBLISH"
| "to_opposite UNKNOW = None"

fun transport_to_string :: "transport \<Rightarrow> string" where
  "transport_to_string INPROC = ''inproc://''"
| "transport_to_string IPC = ''ipc://''"
| "transport_to_string TCP = ''tcp://''"
| "transport_to_string WS = ''ws://''"

lemma to_opposite_involution: "to_opposite p = Some q \<Longrightarrow> to_opposite q = Some p \<and> q \<noteq> p"
  by (cases p) auto

section \<open>The socket\<close>

text \<open>The constructor does not set \<^verbatim>\<open>m_protocol\<close>: \<open>None\<close> is an indeterminate value.\<close>

record socket =
  m_sock :: int
  m_protocol :: "protocol option"
  m_buf :: "u8 list"
  m_url :: string
  m_message :: "u8 list"

text \<open>A call returns, throws a \<^verbatim>\<open>runtime_error\<close>, or is undefined.\<close>

datatype 'a outcome = Value 'a | Throws string | Undefined

definition on_error :: "'l nanomsg \<Rightarrow> string \<Rightarrow> 'l \<Rightarrow> unit outcome" where
  "on_error nn msg l = (case nn_errno nn l of EINTR \<Rightarrow> Value () | EAGAIN \<Rightarrow> Value () | _ \<Rightarrow> Throws msg)"

definition new_socket :: "'l nanomsg \<Rightarrow> int \<Rightarrow> int \<Rightarrow> nat \<Rightarrow> 'l \<Rightarrow> socket outcome \<times> 'l" where
  "new_socket nn domain p buffer_size l =
     (let (s, l) = nn_socket nn domain p l;
          sk = \<lparr>m_sock = s, m_protocol = None, m_buf = replicate buffer_size 0, m_url = [], m_message = []\<rparr>
      in if s < 0 then (case on_error nn ''nn_socoket'' l of Throws m \<Rightarrow> (Throws m, l) | _ \<Rightarrow> (Value sk, l))
         else (Value sk, l))"

definition MAX_MSG_LENGTH :: nat where "MAX_MSG_LENGTH = 16 * 1024"

definition new_server :: "'l nanomsg \<Rightarrow> int \<Rightarrow> int \<Rightarrow> 'l \<Rightarrow> socket outcome \<times> 'l" where
  "new_server nn domain p l = new_socket nn domain p MAX_MSG_LENGTH l"

definition new_client :: "'l nanomsg \<Rightarrow> int \<Rightarrow> int \<Rightarrow> 'l \<Rightarrow> socket outcome \<times> 'l" where
  "new_client nn domain p l = new_socket nn domain p MAX_MSG_LENGTH l"

definition socket_close :: "'l nanomsg \<Rightarrow> socket \<Rightarrow> 'l \<Rightarrow> unit outcome \<times> 'l" where
  "socket_close nn sk l =
     (let (rc, l) = nn_close nn (m_sock sk) l
      in (if rc \<noteq> 0 then on_error nn ''nn_close'' l else Value (), l))"

definition socket_send :: "'l nanomsg \<Rightarrow> u8 list \<Rightarrow> int \<Rightarrow> socket \<Rightarrow> 'l \<Rightarrow> int outcome \<times> 'l" where
  "socket_send nn msg flags sk l =
     (let (rc, l) = nn_send nn (m_sock sk) msg flags l
      in if rc < 0 \<or> nn_errno nn l \<noteq> EAGAIN then
           (case on_error nn ''send'' l of Throws m \<Rightarrow> (Throws m, l) | _ \<Rightarrow> (Value rc, l))
         else (Value rc, l))"

text \<open>The library writes the start of the buffer, as far as it goes.\<close>

definition socket_recv :: "'l nanomsg \<Rightarrow> int \<Rightarrow> socket \<Rightarrow> 'l \<Rightarrow> int outcome \<times> socket \<times> 'l" where
  "socket_recv nn flags sk l =
     (let (rc, bytes, l) = nn_recv nn (m_sock sk) (length (m_buf sk)) flags l;
          sk = sk\<lparr>m_buf := bytes @ drop (length bytes) (m_buf sk)\<rparr>
      in if rc < 0 then
           (case nn_errno nn l of
              Other_errno n \<Rightarrow>
                (case on_error nn ''nn_recv'' l of
                   Throws m \<Rightarrow> (Throws m, sk, l)
                 | _ \<Rightarrow> (Value rc, sk\<lparr>m_message := []\<rparr>, l))
            | _ \<Rightarrow> (Value rc, sk\<lparr>m_message := []\<rparr>, l))
         else if nat rc \<le> length (m_buf sk) then (Value rc, sk\<lparr>m_message := take (nat rc) (m_buf sk)\<rparr>, l)
         else (Undefined, sk, l))"

definition last_message :: "socket \<Rightarrow> u8 list" where
  "last_message sk = m_message sk"

definition get_protocol :: "socket \<Rightarrow> protocol outcome" where
  "get_protocol sk = (case m_protocol sk of None \<Rightarrow> Undefined | Some p \<Rightarrow> Value p)"

definition socket_setsockopt :: "'l nanomsg \<Rightarrow> int \<Rightarrow> int \<Rightarrow> u8 list \<Rightarrow> socket \<Rightarrow> 'l \<Rightarrow> unit outcome \<times> 'l" where
  "socket_setsockopt nn level option val sk l =
     (let (rc, l) = nn_setsockopt nn (m_sock sk) level option val l
      in (if rc \<noteq> 0 then on_error nn ''nn_setsockopt'' l else Value (), l))"

text \<open>
  The value of an option, and the option as an \<^verbatim>\<open>int\<close>, four bytes with the lowest first: when the call fails without
  an exception, or writes fewer bytes, the result is a variable that has no value.
\<close>

definition socket_getsockopt :: "'l nanomsg \<Rightarrow> int \<Rightarrow> int \<Rightarrow> nat \<Rightarrow> socket \<Rightarrow> 'l \<Rightarrow> u8 list outcome \<times> 'l" where
  "socket_getsockopt nn level option optvallen sk l =
     (let (rc, val, l) = nn_getsockopt nn (m_sock sk) level option optvallen l
      in if rc \<noteq> 0 then (case on_error nn ''getsockopt'' l of Throws m \<Rightarrow> (Throws m, l) | _ \<Rightarrow> (Value val, l))
         else (Value val, l))"

definition getsockopt_int :: "'l nanomsg \<Rightarrow> int \<Rightarrow> int \<Rightarrow> socket \<Rightarrow> 'l \<Rightarrow> int outcome \<times> 'l" where
  "getsockopt_int nn level option sk l =
     (let (r, l) = socket_getsockopt nn level option 4 sk l
      in case r of
           Value val \<Rightarrow> (if length val = 4 then Value (sint (word_rcat (rev val) :: u32)) else Undefined, l)
         | Throws m \<Rightarrow> (Throws m, l)
         | Undefined \<Rightarrow> (Undefined, l))"

definition server_bind :: "'l nanomsg \<Rightarrow> transport \<Rightarrow> string \<Rightarrow> socket \<Rightarrow> 'l \<Rightarrow> unit outcome \<times> socket \<times> 'l" where
  "server_bind nn t url sk l =
     (let sk = sk\<lparr>m_url := transport_to_string t @ url\<rparr>; (rc, l) = nn_bind nn (m_sock sk) (m_url sk) l
      in (if rc < 0 then on_error nn ''nn_bind'' l else Value (), sk, l))"

definition client_connect :: "'l nanomsg \<Rightarrow> transport \<Rightarrow> string \<Rightarrow> socket \<Rightarrow> 'l \<Rightarrow> unit outcome \<times> socket \<times> 'l" where
  "client_connect nn t url sk l =
     (let sk = sk\<lparr>m_url := transport_to_string t @ url\<rparr>; (rc, l) = nn_connect nn (m_sock sk) (m_url sk) l
      in (if rc < 0 then on_error nn ''nn_connect'' l else Value (), sk, l))"

section \<open>What the calls report\<close>

text \<open>\<open>send\<close> reports the error number, whatever \<^verbatim>\<open>nn_send\<close> returned.\<close>

lemma socket_send_reports:
  "nn_send nn (m_sock sk) msg flags l = (rc, l') \<Longrightarrow>
   socket_send nn msg flags sk l = (if nn_errno nn l' \<in> {EINTR, EAGAIN} then Value rc else Throws ''send'', l')"
  by (auto simp: socket_send_def on_error_def split: errno.splits)

text \<open>\<open>recv\<close> keeps the bytes of a message that fits into the buffer, and reads behind the buffer otherwise.\<close>

lemma socket_recv_reports:
  assumes "nn_recv nn (m_sock sk) (length (m_buf sk)) flags l = (rc, bytes, l')" and "0 \<le> rc"
    and "length bytes = min (nat rc) (length (m_buf sk))"
  shows "fst (socket_recv nn flags sk l) = (if nat rc \<le> length (m_buf sk) then Value rc else Undefined) \<and>
    (nat rc \<le> length (m_buf sk) \<longrightarrow> last_message (fst (snd (socket_recv nn flags sk l))) = bytes)"
  using assms by (auto simp: socket_recv_def last_message_def Let_def min_def split: if_splits)

lemma socket_recv_error:
  assumes "nn_recv nn (m_sock sk) (length (m_buf sk)) flags l = (rc, bytes, l')" and "rc < 0"
  shows "fst (socket_recv nn flags sk l) =
    (if nn_errno nn l' \<in> {EINTR, EAGAIN, ETIMEDOUT} then Value rc else Throws ''nn_recv'')"
  using assms by (auto simp: socket_recv_def on_error_def Let_def split: errno.splits)

text \<open>The protocol of a socket is never set.\<close>

lemma get_protocol_undefined:
  "fst (new_socket nn domain p n l) = Value sk \<Longrightarrow> get_protocol sk = Undefined"
  by (auto simp: new_socket_def get_protocol_def Let_def split: prod.splits if_splits outcome.splits)

end
