(* ===== verification/Lua_Bridge.thy ===== *)
theory Lua_Bridge
  imports Prelude "HOL-Library.Multiset" "HOL-Library.List_Lexorder" "HOL-Library.Char_ord"
begin

text \<open>
  The functions of \<^verbatim>\<open>core/luafunction/luafunction.cpp\<close>, which move JSON values to and from the stack of a Lua
  state.  The Lua library is an argument: a record of its functions on a state of its own, and what the reference
  manual says of them is the predicate \<open>documented\<close>.  \<open>None\<close> is undefined behaviour of the library or an error it
  raises.
\<close>

section \<open>The library\<close>

datatype lua_kind = TNIL | TBOOLEAN | TNUMBER | TSTRING | TTABLE | TOTHER

record ('n, 'l) lua =
  lua_pushnil :: "'l \<Rightarrow> 'l option"
  lua_pushboolean :: "bool \<Rightarrow> 'l \<Rightarrow> 'l option"
  lua_pushstring :: "string \<Rightarrow> 'l \<Rightarrow> 'l option"
  lua_pushinteger :: "int \<Rightarrow> 'l \<Rightarrow> 'l option"
  lua_pushnumber :: "'n \<Rightarrow> 'l \<Rightarrow> 'l option"
  lua_createtable :: "nat \<Rightarrow> nat \<Rightarrow> 'l \<Rightarrow> 'l option"
  lua_rawseti :: "int \<Rightarrow> int \<Rightarrow> 'l \<Rightarrow> 'l option"
  lua_setfield :: "int \<Rightarrow> string \<Rightarrow> 'l \<Rightarrow> 'l option"
  lua_type :: "int \<Rightarrow> 'l \<Rightarrow> lua_kind"
  lua_toboolean :: "int \<Rightarrow> 'l \<Rightarrow> int"
  luaL_checknumber :: "int \<Rightarrow> 'l \<Rightarrow> ('n \<times> 'l) option"
  luaL_checkstring :: "int \<Rightarrow> 'l \<Rightarrow> (string \<times> 'l) option"
  lua_next :: "int \<Rightarrow> 'l \<Rightarrow> (bool \<times> 'l) option"
  lua_pop :: "nat \<Rightarrow> 'l \<Rightarrow> 'l option"

section \<open>The code\<close>

text \<open>
  A value of the JSON library, whose floating-point numbers are those of Lua.  An object is a \<^verbatim>\<open>std::map\<close>: its
  fields in the order of their names.  Binary and discarded values are \<open>JOther\<close>.
\<close>

datatype 'n json = JNull | JBoolean bool | JString string | JUnsigned u64 | JInteger u64 | JFloat 'n
  | JArray "'n json list" | JObject "(string \<times> 'n json) list" | JOther

text \<open>What a function that takes a \<^verbatim>\<open>const char *\<close> sees of a string.\<close>

definition c_str :: "string \<Rightarrow> string" where
  "c_str s = takeWhile (\<lambda>c. c \<noteq> CHR 0x00) s"

fun push_json :: "('n, 'l) lua \<Rightarrow> 'n json \<Rightarrow> 'l \<Rightarrow> (nat \<times> 'l) option"
  and push_array :: "('n, 'l) lua \<Rightarrow> 'n json list \<Rightarrow> nat \<Rightarrow> nat \<Rightarrow> 'l \<Rightarrow> (nat \<times> 'l) option"
  and push_object :: "('n, 'l) lua \<Rightarrow> (string \<times> 'n json) list \<Rightarrow> nat \<Rightarrow> 'l \<Rightarrow> (nat \<times> 'l) option" where
  "push_json L JNull l = do { l \<leftarrow> lua_pushnil L l; Some (1, l) }"
| "push_json L (JBoolean b) l = do { l \<leftarrow> lua_pushboolean L b l; Some (1, l) }"
| "push_json L (JString s) l = do { l \<leftarrow> lua_pushstring L (c_str s) l; Some (1, l) }"
| "push_json L (JUnsigned w) l = do { l \<leftarrow> lua_pushinteger L (sint w) l; Some (1, l) }"
| "push_json L (JInteger w) l = do { l \<leftarrow> lua_pushinteger L (sint w) l; Some (1, l) }"
| "push_json L (JFloat x) l = do { l \<leftarrow> lua_pushnumber L x l; Some (1, l) }"
| "push_json L (JArray xs) l = do {
     l \<leftarrow> (if length xs > 0 then lua_createtable L (length xs) 0 l else Some l);
     push_array L xs 0 0 l }"
| "push_json L (JObject kvs) l = do {
     l \<leftarrow> lua_createtable L 0 (length kvs) l;
     push_object L kvs 1 l }"
| "push_json L JOther l = Some (0, l)"
| "push_array L [] idx cnt l = Some (cnt, l)"
| "push_array L (x # xs) idx cnt l = do {
     (n, l) \<leftarrow> push_json L x l;
     if n > 0 then do {
       l \<leftarrow> lua_rawseti L (- 2) (int idx + 1) l;
       push_array L xs (idx + 1) (cnt + 1) l }
     else push_array L xs (idx + 1) cnt l }"
| "push_object L [] cnt l = Some (cnt, l)"
| "push_object L ((name, x) # kvs) cnt l = do {
     (n, l) \<leftarrow> push_json L x l;
     if n > 0 then do {
       l \<leftarrow> lua_setfield L (- 2) (c_str name) l;
       push_object L kvs (cnt + 1) l }
     else push_object L kvs cnt l }"

text \<open>The assignment to a field of an object.\<close>

fun set_field :: "string \<Rightarrow> 'n json \<Rightarrow> (string \<times> 'n json) list \<Rightarrow> (string \<times> 'n json) list" where
  "set_field key v [] = [(key, v)]"
| "set_field key v ((k, x) # kvs) =
     (if key = k then (key, v) # kvs else if key < k then (key, v) # (k, x) # kvs else (k, x) # set_field key v kvs)"

text \<open>The kind of the container, at the first entry of a table, and the entry put into it.\<close>

definition choose_container :: "('n, 'l) lua \<Rightarrow> 'n json \<Rightarrow> 'l \<Rightarrow> 'n json" where
  "choose_container L obj l = (case obj of
     JNull \<Rightarrow> (case lua_type L (- 2) l of TNUMBER \<Rightarrow> JArray [] | TSTRING \<Rightarrow> JObject [] | _ \<Rightarrow> obj)
   | _ \<Rightarrow> obj)"

definition store_entry :: "('n, 'l) lua \<Rightarrow> 'n json \<Rightarrow> 'n json \<Rightarrow> 'l \<Rightarrow> ('n json \<times> 'l) option" where
  "store_entry L obj value l = (case obj of
     JArray xs \<Rightarrow> Some (JArray (xs @ [value]), l)
   | JObject kvs \<Rightarrow> do { (key, l) \<leftarrow> luaL_checkstring L (- 2) l; Some (JObject (set_field (c_str key) value kvs), l) }
   | _ \<Rightarrow> Some (obj, l))"

text \<open>One call of \<^verbatim>\<open>pop_json\<close>, or the rest of its loop over the table at an index.\<close>

partial_function (option) pop_run :: "('n, 'l) lua \<Rightarrow> bool \<Rightarrow> 'n json \<Rightarrow> int \<Rightarrow> 'l \<Rightarrow> ('n json \<times> 'l) option" where
  "pop_run L looping obj index l =
     (if looping then do {
        (more, l) \<leftarrow> lua_next L index l;
        if \<not> more then Some (obj, l)
        else do {
          (value, l) \<leftarrow> pop_run L False JNull (- 1) l;
          (obj, l) \<leftarrow> store_entry L (choose_container L obj l) value l;
          l \<leftarrow> lua_pop L 1 l;
          pop_run L True obj index l } }
      else (case lua_type L index l of
          TNIL \<Rightarrow> Some (JNull, l)
        | TBOOLEAN \<Rightarrow> Some (JInteger (of_int (lua_toboolean L index l)), l)
        | TNUMBER \<Rightarrow> do { (x, l) \<leftarrow> luaL_checknumber L index l; Some (JFloat x, l) }
        | TSTRING \<Rightarrow> do { (s, l) \<leftarrow> luaL_checkstring L index l; Some (JString (c_str s), l) }
        | TTABLE \<Rightarrow> do {
            l \<leftarrow> lua_pushnil L l;
            pop_run L True obj (if index \<ge> 0 then index else index - 1) l }
        | TOTHER \<Rightarrow> Some (JNull, l)))"

definition pop_json :: "('n, 'l) lua \<Rightarrow> 'n json \<Rightarrow> int \<Rightarrow> 'l \<Rightarrow> (lua_kind \<times> 'n json \<times> 'l) option" where
  "pop_json L obj index l = do {
     (obj', l') \<leftarrow> pop_run L False obj index l;
     Some (lua_type L index l, obj', l') }"

section \<open>What the manual says of the library\<close>

text \<open>
  A view of a Lua state: its stack, top first, and its tables with their entries in the order in which
  \<^verbatim>\<open>lua_next\<close> visits them, which is not specified and may change with every assignment.
\<close>

datatype 'n lval = LNil | LBoolean bool | LInteger int | LNumber 'n | LString string | LTable nat | LOther nat

type_synonym 'n tables = "nat \<Rightarrow> ('n lval \<times> 'n lval) list option"

record 'n lview =
  lv_stack :: "'n lval list"
  lv_tables :: "'n tables"

fun kind :: "'n lval \<Rightarrow> lua_kind" where
  "kind LNil = TNIL"
| "kind (LBoolean b) = TBOOLEAN"
| "kind (LInteger i) = TNUMBER"
| "kind (LNumber x) = TNUMBER"
| "kind (LString s) = TSTRING"
| "kind (LTable a) = TTABLE"
| "kind (LOther a) = TOTHER"

text \<open>Positive indices count from the bottom of the stack, negative ones from its top.\<close>

definition slot :: "int \<Rightarrow> 'n lval list \<Rightarrow> 'n lval option" where
  "slot i st = (if i < 0 then rd st (nat (- i - 1)) else if i > 0 then rd (rev st) (nat (i - 1)) else None)"

text \<open>The caller has to see to it that there is room on the stack: \<open>cap\<close> slots.\<close>

definition pushes :: "('l \<Rightarrow> 'n lview) \<Rightarrow> nat \<Rightarrow> ('l \<Rightarrow> 'l option) \<Rightarrow> 'n lval \<Rightarrow> bool" where
  "pushes view cap f v \<longleftrightarrow> (\<forall>l. if length (lv_stack (view l)) < cap
     then \<exists>l'. f l = Some l' \<and> view l' = (view l)\<lparr>lv_stack := v # lv_stack (view l)\<rparr> else f l = None)"

definition creates :: "('l \<Rightarrow> 'n lview) \<Rightarrow> nat \<Rightarrow> ('l \<Rightarrow> 'l option) \<Rightarrow> bool" where
  "creates view cap f \<longleftrightarrow> (\<forall>l. if length (lv_stack (view l)) < cap
     then \<exists>l' a. f l = Some l' \<and> lv_tables (view l) a = None \<and>
       view l' = \<lparr>lv_stack = LTable a # lv_stack (view l), lv_tables = (lv_tables (view l))(a \<mapsto> [])\<rparr>
     else f l = None)"

text \<open>Tables have no metatables here; assigning nil removes the entry.\<close>

definition assigns :: "('l \<Rightarrow> 'n lview) \<Rightarrow> ('l \<Rightarrow> 'l option) \<Rightarrow> 'n lval \<Rightarrow> bool" where
  "assigns view f key \<longleftrightarrow> (\<forall>l x a st t. lv_stack (view l) = x # LTable a # st \<and> lv_tables (view l) a = Some t \<and>
     distinct (map fst t) \<longrightarrow>
     (\<exists>l' t'. f l = Some l' \<and> distinct (map fst t') \<and>
        map_of t' = (map_of t)(key := if x = LNil then None else Some x) \<and>
        view l' = \<lparr>lv_stack = LTable a # st, lv_tables = (lv_tables (view l))(a \<mapsto> t')\<rparr>))"

text \<open>\<open>post\<close> are the entries of \<open>t\<close> behind the key \<open>k\<close>, all of them behind nil.\<close>

definition entries_behind :: "'n lval \<Rightarrow> ('n lval \<times> 'n lval) list \<Rightarrow> ('n lval \<times> 'n lval) list \<Rightarrow> bool" where
  "entries_behind k t post \<longleftrightarrow> (if k = LNil then post = t else \<exists>pre v. t = pre @ (k, v) # post)"

definition traverses :: "('l \<Rightarrow> 'n lview) \<Rightarrow> nat \<Rightarrow> (int \<Rightarrow> 'l \<Rightarrow> (bool \<times> 'l) option) \<Rightarrow> bool" where
  "traverses view cap f \<longleftrightarrow> (\<forall>i l k st a t post.
     lv_stack (view l) = k # st \<and> slot i (k # st) = Some (LTable a) \<and> lv_tables (view l) a = Some t \<and>
     distinct (map fst t) \<and> entries_behind k t post \<longrightarrow>
     (case post of
        [] \<Rightarrow> \<exists>l'. f i l = Some (False, l') \<and> view l' = (view l)\<lparr>lv_stack := st\<rparr>
      | (k', v) # _ \<Rightarrow> if Suc (length st) < cap
          then \<exists>l'. f i l = Some (True, l') \<and> view l' = (view l)\<lparr>lv_stack := v # k' # st\<rparr> else f i l = None))"

definition reads_stack :: "('l \<Rightarrow> 'n lview) \<Rightarrow> (int \<Rightarrow> 'n) \<Rightarrow> ('n, 'l) lua \<Rightarrow> bool" where
  "reads_stack view num L \<longleftrightarrow>
     (\<forall>i l. lua_type L i l = (case slot i (lv_stack (view l)) of None \<Rightarrow> TOTHER | Some v \<Rightarrow> kind v)) \<and>
     (\<forall>i l b. slot i (lv_stack (view l)) = Some (LBoolean b) \<longrightarrow> lua_toboolean L i l = (if b then 1 else 0)) \<and>
     (\<forall>i l x. slot i (lv_stack (view l)) = Some (LNumber x) \<longrightarrow> luaL_checknumber L i l = Some (x, l)) \<and>
     (\<forall>i l n. slot i (lv_stack (view l)) = Some (LInteger n) \<longrightarrow> luaL_checknumber L i l = Some (num n, l)) \<and>
     (\<forall>i l s. slot i (lv_stack (view l)) = Some (LString s) \<longrightarrow> luaL_checkstring L i l = Some (s, l)) \<and>
     (\<forall>l x st. lv_stack (view l) = x # st \<longrightarrow> (\<exists>l'. lua_pop L 1 l = Some l' \<and> view l' = (view l)\<lparr>lv_stack := st\<rparr>))"

definition documented :: "('l \<Rightarrow> 'n lview) \<Rightarrow> nat \<Rightarrow> (int \<Rightarrow> 'n) \<Rightarrow> ('n, 'l) lua \<Rightarrow> bool" where
  "documented view cap num L \<longleftrightarrow>
     pushes view cap (lua_pushnil L) LNil \<and> (\<forall>b. pushes view cap (lua_pushboolean L b) (LBoolean b)) \<and>
     (\<forall>s. pushes view cap (lua_pushstring L s) (LString s)) \<and> (\<forall>i. pushes view cap (lua_pushinteger L i) (LInteger i)) \<and>
     (\<forall>x. pushes view cap (lua_pushnumber L x) (LNumber x)) \<and> (\<forall>m n. creates view cap (lua_createtable L m n)) \<and>
     (\<forall>i. assigns view (lua_rawseti L (- 2) i) (LInteger i)) \<and> (\<forall>s. assigns view (lua_setfield L (- 2) s) (LString s)) \<and>
     traverses view cap (lua_next L) \<and> reads_stack view num L"

end
