(* ===== verification/Lua_Roundtrip.thy ===== *)
theory Lua_Roundtrip
  imports Lua_Bridge
begin

text \<open>
  What \<^verbatim>\<open>push_json\<close> puts on the stack of a Lua state that behaves as documented, and what \<^verbatim>\<open>pop_json\<close> makes of it.
\<close>

section \<open>JSON values and what stands for them in a Lua state\<close>

text \<open>The values for which something is pushed, and those that become an entry of a table.\<close>

fun pushed :: "'n json \<Rightarrow> bool" where
  "pushed (JArray xs) \<longleftrightarrow> xs \<noteq> []"
| "pushed JOther \<longleftrightarrow> False"
| "pushed _ \<longleftrightarrow> True"

definition kept :: "'n json \<Rightarrow> bool" where
  "kept x \<longleftrightarrow> pushed x \<and> x \<noteq> JNull"

text \<open>No array but the empty one is without a value to push, and no name holds a null character.\<close>

fun clean :: "'n json \<Rightarrow> bool" where
  "clean (JArray xs) \<longleftrightarrow> (\<forall>x \<in> set xs. clean x) \<and> (xs \<noteq> [] \<longrightarrow> (\<exists>x \<in> set xs. pushed x))"
| "clean (JObject kvs) \<longleftrightarrow> sorted_wrt (<) (map fst kvs) \<and> (\<forall>kv \<in> set kvs. CHR 0x00 \<notin> set (fst kv) \<and> clean (snd kv))"
| "clean _ \<longleftrightarrow> True"

fun depth :: "'n json \<Rightarrow> nat" where
  "depth (JArray xs) = Suc (foldr max (map depth xs) 0)"
| "depth (JObject kvs) = Suc (foldr max (map (\<lambda>kv. depth (snd kv)) kvs) 0)"
| "depth _ = 0"

lemma le_foldr_max: "x \<in> set xs \<Longrightarrow> f x \<le> foldr max (map f xs) (0::nat)"
  by (induction xs) auto

fun array_entries :: "int \<Rightarrow> 'n json list \<Rightarrow> ('n lval \<times> 'n json) list" where
  "array_entries i [] = []"
| "array_entries i (x # xs) = (LInteger (i + 1), x) # array_entries (i + 1) xs"

definition object_entries :: "(string \<times> 'n json) list \<Rightarrow> ('n lval \<times> 'n json) list" where
  "object_entries kvs = map (\<lambda>kv. (LString (c_str (fst kv)), snd kv)) kvs"

fun entries :: "'n json \<Rightarrow> ('n lval \<times> 'n json) list option" where
  "entries (JArray xs) = Some (array_entries 0 xs)"
| "entries (JObject kvs) = Some (object_entries kvs)"
| "entries _ = None"

fun leaf :: "'n json \<Rightarrow> 'n lval option" where
  "leaf JNull = Some LNil"
| "leaf (JBoolean b) = Some (LBoolean b)"
| "leaf (JString s) = Some (LString (c_str s))"
| "leaf (JUnsigned w) = Some (LInteger (sint w))"
| "leaf (JInteger w) = Some (LInteger (sint w))"
| "leaf (JFloat x) = Some (LNumber x)"
| "leaf _ = None"

text \<open>The value \<open>v\<close> is the JSON value \<open>j\<close>, with the tables \<open>h\<close>.\<close>

inductive holds :: "'n tables \<Rightarrow> 'n lval \<Rightarrow> 'n json \<Rightarrow> bool" for h where
  holds_leaf: "leaf j = Some v \<Longrightarrow> holds h v j"
| holds_table: "entries j = Some es \<Longrightarrow> h a = Some t \<Longrightarrow> distinct (map fst t) \<Longrightarrow> mset ts = mset t \<Longrightarrow>
    list_all2 (\<lambda>p q. fst p = fst q \<and> holds h (snd q) (snd p)) (filter (\<lambda>p. kept (snd p)) es) ts \<Longrightarrow> holds h (LTable a) j"

inductive_cases holds_arrayE: "holds h v (JArray xs)"
inductive_cases holds_objectE: "holds h v (JObject kvs)"

lemma holds_nil: "holds h v j \<Longrightarrow> v = LNil \<longleftrightarrow> j = JNull"
  by (erule holds.cases) (cases j; auto)+

lemma holds_mono: "holds h v j \<Longrightarrow> h \<subseteq>\<^sub>m h' \<Longrightarrow> holds h' v j"
proof (induction rule: holds.induct)
  case (holds_table j es a t ts)
  have "h' a = Some t" using holds_table.hyps(2) holds_table.prems by (force simp: map_le_def)
  moreover have "list_all2 (\<lambda>p q. fst p = fst q \<and> holds h' (snd q) (snd p)) (filter (\<lambda>p. kept (snd p)) es) ts"
    using holds_table.IH by (rule list_all2_mono) (use holds_table.prems in auto)
  ultimately show ?case by (rule holds.holds_table [OF holds_table.hyps(1) _ holds_table.hyps(3,4)])
qed (rule holds.holds_leaf)

lemma array_entries_set [simp]: "snd ` set (array_entries i xs) = set xs"
  by (induction xs arbitrary: i) auto

lemma object_entries_set [simp]: "snd ` set (object_entries kvs) = snd ` set kvs"
  by (simp add: object_entries_def image_image)

lemma array_entries_keys: "k \<in> fst ` set (array_entries i xs) \<Longrightarrow> \<exists>n > i. k = LInteger n"
  by (induction xs arbitrary: i) fastforce+

lemma array_entries_distinct: "distinct (map fst (array_entries i xs))"
  by (induction xs arbitrary: i) (auto dest!: array_entries_keys)

lemma c_str_id: "CHR 0x00 \<notin> set s \<Longrightarrow> c_str s = s"
  by (auto simp: c_str_def)

lemma object_entries_distinct:
  "clean (JObject kvs) \<Longrightarrow> distinct (map fst (object_entries kvs))"
proof -
  assume "clean (JObject kvs)"
  then have "distinct (map fst kvs)" and "map fst (object_entries kvs) = map LString (map fst kvs)"
    by (auto simp: object_entries_def c_str_id strict_sorted_iff)
  then show ?thesis by (simp add: distinct_map inj_on_def)
qed

section \<open>Pushing\<close>

fun assign :: "('n, 'l) lua \<Rightarrow> 'n lval \<Rightarrow> 'l \<Rightarrow> 'l option" where
  "assign L (LInteger i) l = lua_rawseti L (- 2) i l"
| "assign L (LString s) l = lua_setfield L (- 2) s l"
| "assign L _ l = None"

fun push_entries :: "('n, 'l) lua \<Rightarrow> ('n lval \<times> 'n json) list \<Rightarrow> nat \<Rightarrow> 'l \<Rightarrow> (nat \<times> 'l) option" where
  "push_entries L [] cnt l = Some (cnt, l)"
| "push_entries L ((k, x) # es) cnt l = do {
     (n, l) \<leftarrow> push_json L x l;
     if n > 0 then do { l \<leftarrow> assign L k l; push_entries L es (cnt + 1) l } else push_entries L es cnt l }"

lemma push_array_entries: "push_array L xs idx cnt l = push_entries L (array_entries (int idx) xs) cnt l"
  by (induction xs arbitrary: idx cnt l)
    (auto simp: add.commute intro!: Option.bind_cong split: if_splits)

lemma push_object_entries: "push_object L kvs cnt l = push_entries L (object_entries kvs) cnt l"
  by (induction kvs arbitrary: cnt l) (auto simp: object_entries_def intro!: Option.bind_cong split: if_splits)

lemma pushesD:
  "pushes view cap f v \<Longrightarrow> view l = \<lparr>lv_stack = st, lv_tables = h\<rparr> \<Longrightarrow> length st < cap \<Longrightarrow>
   \<exists>l'. f l = Some l' \<and> view l' = \<lparr>lv_stack = v # st, lv_tables = h\<rparr>"
  by (auto simp: pushes_def dest!: spec [of _ l])

lemma pushes_full: "pushes view cap f v \<Longrightarrow> cap \<le> length (lv_stack (view l)) \<Longrightarrow> f l = None"
  by (auto simp: pushes_def dest!: spec [of _ l])

lemma createsD:
  "creates view cap f \<Longrightarrow> view l = \<lparr>lv_stack = st, lv_tables = h\<rparr> \<Longrightarrow> length st < cap \<Longrightarrow>
   \<exists>l' a. f l = Some l' \<and> h a = None \<and> view l' = \<lparr>lv_stack = LTable a # st, lv_tables = h(a \<mapsto> [])\<rparr>"
  by (auto simp: creates_def dest!: spec [of _ l])

lemma assignsD:
  assumes "assigns view f k" and "view l = \<lparr>lv_stack = x # LTable a # st, lv_tables = h\<rparr>" and "h a = Some t"
    and "distinct (map fst t)"
  shows "\<exists>l' t'. f l = Some l' \<and> distinct (map fst t') \<and> map_of t' = (map_of t)(k := if x = LNil then None else Some x) \<and>
    view l' = \<lparr>lv_stack = LTable a # st, lv_tables = h(a \<mapsto> t')\<rparr>"
proof -
  have "lv_stack (view l) = x # LTable a # st \<and> lv_tables (view l) a = Some t \<and> distinct (map fst t)"
    using assms(2-) by simp
  with assms(1) have "\<exists>l' t'. f l = Some l' \<and> distinct (map fst t') \<and>
    map_of t' = (map_of t)(k := if x = LNil then None else Some x) \<and>
    view l' = \<lparr>lv_stack = LTable a # st, lv_tables = (lv_tables (view l))(a \<mapsto> t')\<rparr>"
    unfolding assigns_def by blast
  with assms(2) show ?thesis by simp
qed

lemma mset_of_maps: "distinct (map fst t) \<Longrightarrow> distinct (map fst t') \<Longrightarrow> map_of t = map_of t' \<Longrightarrow> mset t = mset t'"
proof -
  assume d: "distinct (map fst t)" "distinct (map fst t')" and m: "map_of t = map_of t'"
  have "set t = set t'" using m map_of_eq_Some_iff [OF d(1)] map_of_eq_Some_iff [OF d(2)] by auto
  with d show ?thesis using set_eq_iff_mset_eq_distinct [of t t'] by (simp add: distinct_map)
qed

definition push_ok :: "('l \<Rightarrow> 'n lview) \<Rightarrow> nat \<Rightarrow> ('n, 'l) lua \<Rightarrow> 'n json \<Rightarrow> bool" where
  "push_ok view cap L x \<longleftrightarrow> (\<forall>l st h. view l = \<lparr>lv_stack = st, lv_tables = h\<rparr> \<and> length st + depth x < cap \<longrightarrow>
     (\<exists>n l' h'. push_json L x l = Some (n, l') \<and> (0 < n \<longleftrightarrow> pushed x) \<and> h \<subseteq>\<^sub>m h' \<and>
        (if pushed x then \<exists>v. view l' = \<lparr>lv_stack = v # st, lv_tables = h'\<rparr> \<and> holds (h' |` (- dom h)) v x
         else view l' = \<lparr>lv_stack = st, lv_tables = h'\<rparr>)))"

lemma push_okD:
  "push_ok view cap L x \<Longrightarrow> view l = \<lparr>lv_stack = st, lv_tables = h\<rparr> \<Longrightarrow> length st + depth x < cap \<Longrightarrow>
   \<exists>n l' h'. push_json L x l = Some (n, l') \<and> (0 < n \<longleftrightarrow> pushed x) \<and> h \<subseteq>\<^sub>m h' \<and>
        (if pushed x then \<exists>v. view l' = \<lparr>lv_stack = v # st, lv_tables = h'\<rparr> \<and> holds (h' |` (- dom h)) v x
         else view l' = \<lparr>lv_stack = st, lv_tables = h'\<rparr>)"
  by (auto simp: push_ok_def)

lemma assign_law:
  assumes "documented view cap num L" and "(\<exists>i. k = LInteger i) \<or> (\<exists>s. k = LString s)"
  shows "assigns view (assign L k) k"
proof -
  have "assign L (LInteger i) = lua_rawseti L (- 2) i" "assign L (LString s) = lua_setfield L (- 2) s" for i s
    by auto
  with assms show ?thesis by (auto simp only: documented_def)
qed

lemma restrict_le: "dom h \<subseteq> dom h1 \<Longrightarrow> (h' |` (- dom h1)) \<subseteq>\<^sub>m (h' |` (- dom h))"
  unfolding map_le_def restrict_map_def by (auto split: if_splits simp: subset_iff)

text \<open>The loops of \<^verbatim>\<open>push_json\<close>: the entries are added to the table below the top of the stack.\<close>

lemma push_entries_ok:
  assumes doc: "documented view cap num L"
  shows "\<lbrakk> view l = \<lparr>lv_stack = LTable a # st, lv_tables = h\<rparr>; h a = Some t; distinct (map fst t);
     distinct (map fst es); fst ` set es \<inter> fst ` set t = {};
     \<forall>p \<in> set es. ((\<exists>i. fst p = LInteger i) \<or> (\<exists>s. fst p = LString s)) \<and> push_ok view cap L (snd p) \<and>
       Suc (length st) + depth (snd p) < cap \<rbrakk> \<Longrightarrow>
     \<exists>l' h' t' ts. push_entries L es cnt l = Some (cnt + length (filter (\<lambda>p. pushed (snd p)) es), l') \<and>
       view l' = \<lparr>lv_stack = LTable a # st, lv_tables = h'\<rparr> \<and> h' a = Some t' \<and> distinct (map fst t') \<and>
       mset t' = mset t + mset ts \<and> (\<forall>b \<in> dom h - {a}. h' b = h b) \<and>
       list_all2 (\<lambda>p q. fst p = fst q \<and> holds (h' |` (- dom h)) (snd q) (snd p)) (filter (\<lambda>p. kept (snd p)) es) ts"
proof (induction es arbitrary: l h t cnt)
  case Nil
  then show ?case by auto
next
  case (Cons p es)
  obtain k x where p: "p = (k, x)" by fastforce
  have key: "(\<exists>i. k = LInteger i) \<or> (\<exists>s. k = LString s)" and ok: "push_ok view cap L x"
    and len: "Suc (length st) + depth x < cap" using Cons.prems(6) by (auto simp: p)
  obtain n l1 h1 where push: "push_json L x l = Some (n, l1)" "0 < n \<longleftrightarrow> pushed x" "h \<subseteq>\<^sub>m h1"
    and res: "if pushed x then \<exists>v. view l1 = \<lparr>lv_stack = v # LTable a # st, lv_tables = h1\<rparr> \<and> holds (h1 |` (- dom h)) v x
         else view l1 = \<lparr>lv_stack = LTable a # st, lv_tables = h1\<rparr>"
    using push_okD [OF ok Cons.prems(1)] len by auto
  have h1a: "h1 a = Some t" using push(3) Cons.prems(2) by (force simp: map_le_def)
  have agree: "h1 b = h b" if "b \<in> dom h" for b using push(3) that by (auto simp: map_le_def)
  have sub: "dom h \<subseteq> dom h1" using push(3) by (rule map_le_implies_dom_le)
  show ?case
  proof (cases "pushed x")
    case False
    with res have v1: "view l1 = \<lparr>lv_stack = LTable a # st, lv_tables = h1\<rparr>" by simp
    from Cons.IH [OF v1 h1a Cons.prems(3), of cnt] Cons.prems(4-6)
    obtain l' h' t' ts where IH: "push_entries L es cnt l1 = Some (cnt + length (filter (\<lambda>p. pushed (snd p)) es), l')"
      "view l' = \<lparr>lv_stack = LTable a # st, lv_tables = h'\<rparr>" "h' a = Some t'" "distinct (map fst t')"
      "mset t' = mset t + mset ts" "\<forall>b \<in> dom h1 - {a}. h' b = h1 b"
      "list_all2 (\<lambda>p q. fst p = fst q \<and> holds (h' |` (- dom h1)) (snd q) (snd p)) (filter (\<lambda>p. kept (snd p)) es) ts"
      by (auto simp: p)
    have "(h' |` (- dom h1)) \<subseteq>\<^sub>m (h' |` (- dom h))" using sub by (rule restrict_le)
    then have "list_all2 (\<lambda>p q. fst p = fst q \<and> holds (h' |` (- dom h)) (snd q) (snd p)) (filter (\<lambda>p. kept (snd p)) es) ts"
      by (intro list_all2_mono [OF IH(7)]) (auto intro: holds_mono)
    moreover have "\<forall>b \<in> dom h - {a}. h' b = h b" using IH(6) agree sub by (metis DiffD1 DiffD2 DiffI subsetD)
    ultimately show ?thesis using False push(1,2) IH(1-5) by (auto simp: p kept_def)
  next
    case True
    with res obtain v where v1: "view l1 = \<lparr>lv_stack = v # LTable a # st, lv_tables = h1\<rparr>"
      and hv: "holds (h1 |` (- dom h)) v x" by auto
    from assignsD [OF assign_law [OF doc key] v1 h1a Cons.prems(3)] obtain l2 t2 where asg: "assign L k l1 = Some l2"
      "distinct (map fst t2)" "map_of t2 = (map_of t)(k := if v = LNil then None else Some v)"
      and v2: "view l2 = \<lparr>lv_stack = LTable a # st, lv_tables = h1(a \<mapsto> t2)\<rparr>" by blast
    define new where "new = (if kept x then [(k, v)] else [])"
    have fresh: "k \<notin> fst ` set t" using Cons.prems(5) by (auto simp: p)
    then have none: "map_of t k = None" by (simp add: map_of_eq_None_iff)
    have nil: "v = LNil \<longleftrightarrow> x = JNull" using holds_nil [OF hv] .
    have m2: "mset t2 = mset t + mset new"
    proof -
      have "map_of t2 = map_of (new @ t)"
        using asg(3) none nil True by (auto simp: new_def kept_def fun_eq_iff)
      moreover have "distinct (map fst (new @ t))" using Cons.prems(3) fresh by (auto simp: new_def)
      ultimately have "mset t2 = mset (new @ t)" using mset_of_maps asg(2) by blast
      then show ?thesis by simp
    qed
    then have "set t2 = set t \<union> set new" by (metis set_mset_mset set_mset_union)
    then have keys: "fst ` set t2 \<subseteq> insert k (fst ` set t)" by (auto simp: new_def split: if_splits)
    have h2a: "(h1(a \<mapsto> t2)) a = Some t2" by simp
    have disj: "fst ` set es \<inter> fst ` set t2 = {}"
    proof -
      have "k \<notin> fst ` set es" and "fst ` set es \<inter> fst ` set t = {}" using Cons.prems(4,5) by (auto simp: p)
      with keys show ?thesis by blast
    qed
    have d: "distinct (map fst es)" using Cons.prems(4) by simp
    have all: "\<forall>p \<in> set es. ((\<exists>i. fst p = LInteger i) \<or> (\<exists>s. fst p = LString s)) \<and> push_ok view cap L (snd p) \<and>
       Suc (length st) + depth (snd p) < cap" using Cons.prems(6) by simp
    from Cons.IH [OF v2 h2a asg(2) d disj all, of "cnt + 1"]
    obtain l' h' t' ts where IH: "push_entries L es (cnt + 1) l2 = Some (cnt + 1 + length (filter (\<lambda>p. pushed (snd p)) es), l')"
      "view l' = \<lparr>lv_stack = LTable a # st, lv_tables = h'\<rparr>" "h' a = Some t'" "distinct (map fst t')"
      "mset t' = mset t2 + mset ts" "\<forall>b \<in> dom (h1(a \<mapsto> t2)) - {a}. h' b = (h1(a \<mapsto> t2)) b"
      "list_all2 (\<lambda>p q. fst p = fst q \<and> holds (h' |` (- dom (h1(a \<mapsto> t2)))) (snd q) (snd p)) (filter (\<lambda>p. kept (snd p)) es) ts"
      by blast
    have le1: "(h' |` (- dom (h1(a \<mapsto> t2)))) \<subseteq>\<^sub>m (h' |` (- dom h))" by (rule restrict_le) (use sub in auto)
    have le2: "(h1 |` (- dom h)) \<subseteq>\<^sub>m (h' |` (- dom h))"
    proof (unfold map_le_def, intro ballI)
      fix b assume "b \<in> dom (h1 |` (- dom h))"
      then have b: "b \<notin> dom h" "b \<in> dom h1" by (auto simp: restrict_map_def split: if_splits)
      then have "b \<noteq> a" using Cons.prems(2) by auto
      with b IH(6) show "(h1 |` (- dom h)) b = (h' |` (- dom h)) b" by (auto simp: restrict_map_def)
    qed
    have "list_all2 (\<lambda>p q. fst p = fst q \<and> holds (h' |` (- dom h)) (snd q) (snd p)) (filter (\<lambda>p. kept (snd p)) es) ts"
      by (rule list_all2_mono [OF IH(7)]) (use le1 holds_mono in auto)
    moreover have "holds (h' |` (- dom h)) v x" using hv le2 by (rule holds_mono)
    ultimately have "list_all2 (\<lambda>p q. fst p = fst q \<and> holds (h' |` (- dom h)) (snd q) (snd p))
      (filter (\<lambda>p. kept (snd p)) (p # es)) (new @ ts)" by (auto simp: p new_def)
    moreover have "mset t' = mset t + mset (new @ ts)" using IH(5) m2 by simp
    moreover have "\<forall>b \<in> dom h - {a}. h' b = h b"
    proof
      fix b assume b: "b \<in> dom h - {a}"
      then have "b \<in> dom (h1(a \<mapsto> t2)) - {a}" using sub by auto
      with IH(6) have "h' b = (h1(a \<mapsto> t2)) b" by blast
      with b agree show "h' b = h b" by simp
    qed
    moreover have "push_entries L (p # es) cnt l = Some (cnt + length (filter (\<lambda>p. pushed (snd p)) (p # es)), l')"
      using True push(1,2) asg(1) IH(1) by (simp add: p)
    ultimately show ?thesis using IH(2-4) by blast
  qed
qed

lemma create_run:
  assumes doc: "documented view cap num L" and v: "view l = \<lparr>lv_stack = st, lv_tables = h\<rparr>" and len: "length st < cap"
  shows "\<exists>l' a. lua_createtable L m n l = Some l' \<and> h a = None \<and> view l' = \<lparr>lv_stack = LTable a # st, lv_tables = h(a \<mapsto> [])\<rparr>"
proof -
  have "creates view cap (lua_createtable L m n)" using doc by (simp add: documented_def)
  from createsD [of view cap _ l, OF this v len] show ?thesis .
qed

text \<open>A container: a new table, and its entries.\<close>

lemma push_container_ok:
  assumes doc: "documented view cap num L" and v: "view l = \<lparr>lv_stack = st, lv_tables = h\<rparr>"
    and es: "entries j = Some es" "distinct (map fst es)"
      "\<forall>p \<in> set es. ((\<exists>i. fst p = LInteger i) \<or> (\<exists>s. fst p = LString s)) \<and> push_ok view cap L (snd p) \<and>
       Suc (length st) + depth (snd p) < cap"
    and len: "length st < cap"
  shows "\<exists>l' h' x. lua_createtable L m n l \<bind> push_entries L es cnt =
       Some (cnt + length (filter (\<lambda>p. pushed (snd p)) es), l') \<and> h \<subseteq>\<^sub>m h' \<and>
     view l' = \<lparr>lv_stack = x # st, lv_tables = h'\<rparr> \<and> holds (h' |` (- dom h)) x j"
proof -
  from create_run [OF doc v len] obtain l1 a where create: "lua_createtable L m n l = Some l1" "h a = None"
    and v1: "view l1 = \<lparr>lv_stack = LTable a # st, lv_tables = h(a \<mapsto> [])\<rparr>" by blast
  have new: "(h(a \<mapsto> [])) a = Some []" "distinct (map fst [])" "fst ` set es \<inter> fst ` set [] = {}" by simp_all
  from push_entries_ok [OF doc v1 new(1,2) es(2) new(3) es(3), of cnt] obtain l' h' t' ts where
    push: "push_entries L es cnt l1 = Some (cnt + length (filter (\<lambda>p. pushed (snd p)) es), l')"
      "view l' = \<lparr>lv_stack = LTable a # st, lv_tables = h'\<rparr>" "h' a = Some t'" "distinct (map fst t')"
      "mset t' = mset [] + mset ts" "\<forall>b \<in> dom (h(a \<mapsto> [])) - {a}. h' b = (h(a \<mapsto> [])) b"
      "list_all2 (\<lambda>p q. fst p = fst q \<and> holds (h' |` (- dom (h(a \<mapsto> [])))) (snd q) (snd p)) (filter (\<lambda>p. kept (snd p)) es) ts"
    by blast
  have "h' |` (- dom (h(a \<mapsto> []))) \<subseteq>\<^sub>m h' |` (- dom h)" by (rule restrict_le) auto
  then have "list_all2 (\<lambda>p q. fst p = fst q \<and> holds (h' |` (- dom h)) (snd q) (snd p)) (filter (\<lambda>p. kept (snd p)) es) ts"
    by (intro list_all2_mono [OF push(7)]) (auto intro: holds_mono)
  moreover have "(h' |` (- dom h)) a = Some t'" using create(2) push(3) by (simp add: domIff)
  ultimately have "holds (h' |` (- dom h)) (LTable a) j"
    using holds_table [OF es(1) _ push(4), of _ a ts] push(5) by simp
  moreover have "h \<subseteq>\<^sub>m h'"
  proof (unfold map_le_def, rule ballI)
    fix b assume b: "b \<in> dom h"
    with create(2) have "b \<noteq> a" by auto
    with b push(6) show "h b = h' b" by auto
  qed
  ultimately show ?thesis using create(1) push(1,2) by auto
qed

lemma filter_pushed_array: "length (filter (\<lambda>p. pushed (snd p)) (array_entries i xs)) = length (filter pushed xs)"
  by (induction xs arbitrary: i) auto

lemma leaf_ok:
  assumes "documented view cap num L" and "leaf j = Some v" and "view l = \<lparr>lv_stack = st, lv_tables = h\<rparr>" and "length st < cap"
  shows "\<exists>l'. push_json L j l = Some (1, l') \<and> view l' = \<lparr>lv_stack = v # st, lv_tables = h\<rparr>"
proof -
  have "\<exists>f. pushes view cap f v \<and> push_json L j l = f l \<bind> (\<lambda>l. Some (1, l))"
    using assms(1,2) by (cases j) (auto simp: documented_def)
  then obtain f where f: "pushes view cap f v" "push_json L j l = f l \<bind> (\<lambda>l. Some (1, l))" by blast
  from pushesD [OF f(1) assms(3,4)] f(2) show ?thesis by auto
qed

lemma depth_array: "x \<in> set xs \<Longrightarrow> depth x < depth (JArray xs)"
  using le_foldr_max [of x xs depth] by simp

lemma depth_object: "kv \<in> set kvs \<Longrightarrow> depth (snd kv) < depth (JObject kvs)"
  using le_foldr_max [of kv kvs "\<lambda>kv. depth (snd kv)"] by simp

lemma leaf_push_ok:
  assumes doc: "documented view cap num L" and leaf: "leaf j = Some v"
  shows "push_ok view cap L j"
proof (unfold push_ok_def, intro allI impI)
  fix l st h
  assume "view l = \<lparr>lv_stack = st, lv_tables = h\<rparr> \<and> length st + depth j < cap"
  then have "view l = \<lparr>lv_stack = st, lv_tables = h\<rparr>" "length st < cap" by simp_all
  from leaf_ok [OF doc leaf this] obtain l' where
    "push_json L j l = Some (1, l')" "view l' = \<lparr>lv_stack = v # st, lv_tables = h\<rparr>" by blast
  moreover have "pushed j" using leaf by (cases j) auto
  moreover have "holds (h |` (- dom h)) v j" using leaf by (rule holds_leaf)
  ultimately show "\<exists>n l' h'. push_json L j l = Some (n, l') \<and> (0 < n \<longleftrightarrow> pushed j) \<and> h \<subseteq>\<^sub>m h' \<and>
      (if pushed j then \<exists>v. view l' = \<lparr>lv_stack = v # st, lv_tables = h'\<rparr> \<and> holds (h' |` (- dom h)) v j
       else view l' = \<lparr>lv_stack = st, lv_tables = h'\<rparr>)"
    by (intro exI [of _ 1] exI [of _ l'] exI [of _ h]) auto
qed

lemma push_json_ok:
  assumes doc: "documented view cap num L"
  shows "clean j \<Longrightarrow> push_ok view cap L j"
proof (induction j rule: json.induct)
  case (JArray xs)
  show ?case
  proof (unfold push_ok_def, intro allI impI)
    fix l st h
    assume v: "view l = \<lparr>lv_stack = st, lv_tables = h\<rparr> \<and> length st + depth (JArray xs) < cap"
    show "\<exists>n l' h'. push_json L (JArray xs) l = Some (n, l') \<and> (0 < n \<longleftrightarrow> pushed (JArray xs)) \<and> h \<subseteq>\<^sub>m h' \<and>
        (if pushed (JArray xs) then \<exists>v. view l' = \<lparr>lv_stack = v # st, lv_tables = h'\<rparr> \<and> holds (h' |` (- dom h)) v (JArray xs)
         else view l' = \<lparr>lv_stack = st, lv_tables = h'\<rparr>)"
    proof (cases "xs = []")
      case True
      with v show ?thesis by auto
    next
      case False
      have "\<forall>p \<in> set (array_entries 0 xs). ((\<exists>i. fst p = LInteger i) \<or> (\<exists>s. fst p = LString s)) \<and>
          push_ok view cap L (snd p) \<and> Suc (length st) + depth (snd p) < cap"
      proof
        fix p assume p: "p \<in> set (array_entries 0 xs)"
        then have x: "snd p \<in> set xs" using array_entries_set [of 0 xs] by blast
        from p have "\<exists>i. fst p = LInteger i" using array_entries_keys [of "fst p" 0 xs] by blast
        with x JArray v depth_array [OF x] show "((\<exists>i. fst p = LInteger i) \<or> (\<exists>s. fst p = LString s)) \<and>
          push_ok view cap L (snd p) \<and> Suc (length st) + depth (snd p) < cap" by auto
      qed
      from push_container_ok [OF doc _ _ array_entries_distinct this, of l h "JArray xs" "length xs" 0 0] v
      obtain l' h' x where "lua_createtable L (length xs) 0 l \<bind> push_entries L (array_entries 0 xs) 0 =
          Some (length (filter pushed xs), l')" "h \<subseteq>\<^sub>m h'" "view l' = \<lparr>lv_stack = x # st, lv_tables = h'\<rparr>"
        "holds (h' |` (- dom h)) x (JArray xs)" by (auto simp: filter_pushed_array)
      moreover from False JArray.prems have "0 < length (filter pushed xs)" by (auto simp: filter_empty_conv)
      moreover have "push_array L xs 0 0 = push_entries L (array_entries 0 xs) 0" by (rule ext) (simp add: push_array_entries)
      ultimately show ?thesis using False by auto
    qed
  qed
next
  case (JObject kvs)
  show ?case
  proof (unfold push_ok_def, intro allI impI)
    fix l st h
    assume v: "view l = \<lparr>lv_stack = st, lv_tables = h\<rparr> \<and> length st + depth (JObject kvs) < cap"
    have "\<forall>p \<in> set (object_entries kvs). ((\<exists>i. fst p = LInteger i) \<or> (\<exists>s. fst p = LString s)) \<and>
        push_ok view cap L (snd p) \<and> Suc (length st) + depth (snd p) < cap"
    proof
      fix p assume "p \<in> set (object_entries kvs)"
      then obtain kv where kv: "kv \<in> set kvs" "p = (LString (c_str (fst kv)), snd kv)" by (auto simp: object_entries_def)
      have "push_ok view cap L (snd kv)"
        by (rule JObject.IH [OF kv(1)]) (use kv(1) JObject.prems in \<open>auto simp: snds.simps\<close>)
      with kv v depth_object [OF kv(1)] show "((\<exists>i. fst p = LInteger i) \<or> (\<exists>s. fst p = LString s)) \<and>
        push_ok view cap L (snd p) \<and> Suc (length st) + depth (snd p) < cap" by auto
    qed
    from push_container_ok [OF doc _ _ object_entries_distinct [OF JObject.prems] this, of l h "JObject kvs" 0 "length kvs" 1] v
    obtain l' h' x where "lua_createtable L 0 (length kvs) l \<bind> push_entries L (object_entries kvs) 1 =
        Some (1 + length (filter (\<lambda>p. pushed (snd p)) (object_entries kvs)), l')" "h \<subseteq>\<^sub>m h'"
      "view l' = \<lparr>lv_stack = x # st, lv_tables = h'\<rparr>" "holds (h' |` (- dom h)) x (JObject kvs)" by auto
    moreover have "push_object L kvs 1 = push_entries L (object_entries kvs) 1" by (rule ext) (simp add: push_object_entries)
    ultimately show "\<exists>n l' h'. push_json L (JObject kvs) l = Some (n, l') \<and> (0 < n \<longleftrightarrow> pushed (JObject kvs)) \<and> h \<subseteq>\<^sub>m h' \<and>
        (if pushed (JObject kvs) then \<exists>v. view l' = \<lparr>lv_stack = v # st, lv_tables = h'\<rparr> \<and> holds (h' |` (- dom h)) v (JObject kvs)
         else view l' = \<lparr>lv_stack = st, lv_tables = h'\<rparr>)"
      by auto
  qed
next
  case JOther
  show ?case by (auto simp: push_ok_def)
qed (rule leaf_push_ok [OF doc], simp)+

section \<open>Popping\<close>

text \<open>
  What comes back: booleans as the integers 0 and 1, all numbers as floating-point numbers, a container without
  entries as null, arrays without their nulls and in any order.
\<close>

fun leaf_back :: "(int \<Rightarrow> 'n) \<Rightarrow> 'n json \<Rightarrow> 'n json option" where
  "leaf_back num JNull = Some JNull"
| "leaf_back num (JBoolean b) = Some (JInteger (if b then 1 else 0))"
| "leaf_back num (JString s) = Some (JString (c_str s))"
| "leaf_back num (JUnsigned w) = Some (JFloat (num (sint w)))"
| "leaf_back num (JInteger w) = Some (JFloat (num (sint w)))"
| "leaf_back num (JFloat x) = Some (JFloat x)"
| "leaf_back num _ = None"

inductive comes_back :: "(int \<Rightarrow> 'n) \<Rightarrow> 'n json \<Rightarrow> 'n json \<Rightarrow> bool" for num where
  leaf_comes_back: "leaf_back num j = Some z \<Longrightarrow> comes_back num j z"
| array_comes_back: "list_all2 (comes_back num) els zs \<Longrightarrow> mset els = mset (filter kept xs) \<Longrightarrow>
    comes_back num (JArray xs) (if zs = [] then JNull else JArray zs)"
| object_comes_back: "list_all2 (\<lambda>p q. fst p = fst q \<and> comes_back num (snd p) (snd q)) (filter (\<lambda>kv. kept (snd kv)) kvs) fs \<Longrightarrow>
    comes_back num (JObject kvs) (if fs = [] then JNull else JObject fs)"

definition pop_ok :: "('l \<Rightarrow> 'n lview) \<Rightarrow> nat \<Rightarrow> (int \<Rightarrow> 'n) \<Rightarrow> ('n, 'l) lua \<Rightarrow> 'n tables \<Rightarrow> 'n json \<Rightarrow> bool" where
  "pop_ok view cap num L h j \<longleftrightarrow> (\<forall>i l st v. view l = \<lparr>lv_stack = st, lv_tables = h\<rparr> \<and> slot i st = Some v \<and> holds h v j \<and>
     length st + 2 * depth j \<le> cap \<longrightarrow>
     (\<exists>z l'. pop_run L False JNull i l = Some (z, l') \<and> view l' = \<lparr>lv_stack = st, lv_tables = h\<rparr> \<and> comes_back num j z))"

fun key_name :: "'n lval \<Rightarrow> string" where
  "key_name (LString s) = s"
| "key_name _ = []"

text \<open>The container after some entries, an array or an object.\<close>

definition built :: "bool \<Rightarrow> ('n lval \<times> 'n json) list \<Rightarrow> 'n json" where
  "built arr zs = (if zs = [] then JNull else if arr then JArray (map snd zs)
     else JObject (fold (\<lambda>p. set_field (key_name (fst p)) (snd p)) zs []))"

definition good_key :: "bool \<Rightarrow> 'n lval \<Rightarrow> bool" where
  "good_key arr k \<longleftrightarrow> (if arr then \<exists>i. k = LInteger i else \<exists>s. k = LString s \<and> c_str s = s)"

lemma slot_simps [simp]: "slot (- 1) (x # st) = Some x" "slot (- 2) (x # y # st) = Some y"
  by (simp_all add: slot_def rd_def)

lemma slot_push: "slot i st = Some v \<Longrightarrow> slot (if i \<ge> 0 then i else i - 1) (x # st) = Some v"
proof (cases "i < 0")
  case True
  then have "nat (- (i - 1) - 1) = Suc (nat (- i - 1))" by simp
  with True show "slot i st = Some v \<Longrightarrow> ?thesis" by (auto simp: slot_def rd_def split: if_splits)
next
  case False
  then show "slot i st = Some v \<Longrightarrow> ?thesis" by (auto simp: slot_def rd_def nth_append split: if_splits)
qed

lemma store_entry_built:
  assumes doc: "documented view cap num L" and v: "lv_stack (view l) = v # k # st" and k: "good_key arr k"
  shows "store_entry L (choose_container L (built arr ys) l) z l = Some (built arr (ys @ [(k, z)]), l)"
proof -
  have kind: "lua_type L (- 2) l = kind k" using doc v by (simp add: documented_def reads_stack_def)
  show ?thesis
  proof (cases arr)
    case True
    with k kind show ?thesis by (auto simp: good_key_def built_def choose_container_def store_entry_def)
  next
    case False
    with k obtain s where s: "k = LString s" "c_str s = s" by (auto simp: good_key_def)
    have "luaL_checkstring L (- 2) l = Some (s, l)" using doc v s by (simp add: documented_def reads_stack_def)
    with False s kind show ?thesis by (auto simp: built_def choose_container_def store_entry_def)
  qed
qed

lemma next_done:
  assumes "documented view cap num L" and "view l = \<lparr>lv_stack = k # st, lv_tables = h\<rparr>"
    and "slot i (k # st) = Some (LTable a)" and "h a = Some t" and "distinct (map fst t)" and "entries_behind k t []"
  shows "\<exists>l'. lua_next L i l = Some (False, l') \<and> view l' = \<lparr>lv_stack = st, lv_tables = h\<rparr>"
proof -
  have "traverses view cap (lua_next L)" using assms(1) by (simp add: documented_def)
  from this [unfolded traverses_def, rule_format, of l k st i a t "[]"] assms(2-) show ?thesis by simp
qed

lemma next_entry:
  assumes "documented view cap num L" and "view l = \<lparr>lv_stack = k # st, lv_tables = h\<rparr>"
    and "slot i (k # st) = Some (LTable a)" and "h a = Some t" and "distinct (map fst t)"
    and "entries_behind k t ((k', v) # post)" and "Suc (length st) < cap"
  shows "\<exists>l'. lua_next L i l = Some (True, l') \<and> view l' = \<lparr>lv_stack = v # k' # st, lv_tables = h\<rparr>"
proof -
  have "traverses view cap (lua_next L)" using assms(1) by (simp add: documented_def)
  from this [unfolded traverses_def, rule_format, of l k st i a t "(k', v) # post"] assms(2-) show ?thesis by simp
qed

lemma entries_behind_next: "entries_behind k t ((k', v) # post) \<Longrightarrow> k' \<noteq> LNil \<Longrightarrow> entries_behind k' t post"
  unfolding entries_behind_def by (auto split: if_splits)

lemma pop_one:
  assumes "documented view cap num L" and "view l = \<lparr>lv_stack = x # st, lv_tables = h\<rparr>"
  shows "\<exists>l'. lua_pop L 1 l = Some l' \<and> view l' = \<lparr>lv_stack = st, lv_tables = h\<rparr>"
proof -
  have "\<forall>l x st. lv_stack (view l) = x # st \<longrightarrow> (\<exists>l'. lua_pop L 1 l = Some l' \<and> view l' = (view l)\<lparr>lv_stack := st\<rparr>)"
    using assms(1) by (simp add: documented_def reads_stack_def)
  from this [rule_format, of l x st] assms(2) show ?thesis by simp
qed

lemma pop_okD:
  "pop_ok view cap num L h j \<Longrightarrow> view l = \<lparr>lv_stack = st, lv_tables = h\<rparr> \<Longrightarrow> slot i st = Some v \<Longrightarrow> holds h v j \<Longrightarrow>
     length st + 2 * depth j \<le> cap \<Longrightarrow>
     \<exists>z l'. pop_run L False JNull i l = Some (z, l') \<and> view l' = \<lparr>lv_stack = st, lv_tables = h\<rparr> \<and> comes_back num j z"
  by (auto simp: pop_ok_def)

lemma pop_loop:
  assumes doc: "documented view cap num L" and h: "h a = Some t" "distinct (map fst t)"
    and i: "\<And>k. slot i (k # st) = Some (LTable a)"
  shows "\<lbrakk> view l = \<lparr>lv_stack = k # st, lv_tables = h\<rparr>; entries_behind k t post;
     list_all2 (\<lambda>q el. good_key arr (fst q) \<and> holds h (snd q) el) post els;
     \<forall>el \<in> set els. pop_ok view cap num L h el \<and> length st + 2 + 2 * depth el \<le> cap \<rbrakk> \<Longrightarrow>
   \<exists>zs l'. pop_run L True (built arr ys) i l = Some (built arr (ys @ zs), l') \<and>
     view l' = \<lparr>lv_stack = st, lv_tables = h\<rparr> \<and> map fst zs = map fst post \<and> list_all2 (comes_back num) els (map snd zs)"
proof (induction post arbitrary: k l ys els)
  case Nil
  from next_done [OF doc Nil.prems(1) i h Nil.prems(2)] obtain l' where
    "lua_next L i l = Some (False, l')" "view l' = \<lparr>lv_stack = st, lv_tables = h\<rparr>" by blast
  moreover have "els = []" using Nil.prems(3) by simp
  ultimately show ?case by (subst pop_run.simps) (auto intro!: exI [of _ "[]"])
next
  case (Cons q post)
  obtain k' v where q: "q = (k', v)" by fastforce
  from Cons.prems(3) obtain el els' where els: "els = el # els'" and k': "good_key arr k'" "holds h v el"
    and rest: "list_all2 (\<lambda>q el. good_key arr (fst q) \<and> holds h (snd q) el) post els'"
    by (auto simp: q list_all2_Cons1)
  have len: "length st + 2 + 2 * depth el \<le> cap" and ok: "pop_ok view cap num L h el" using Cons.prems(4) els by auto
  have "Suc (length st) < cap" using len by simp
  from next_entry [OF doc Cons.prems(1) i h Cons.prems(2) [unfolded q] this] obtain l1 where
    l1: "lua_next L i l = Some (True, l1)" "view l1 = \<lparr>lv_stack = v # k' # st, lv_tables = h\<rparr>" by blast
  have "length (v # k' # st) + 2 * depth el \<le> cap" using len by simp
  from pop_okD [OF ok l1(2) slot_simps(1) k'(2) this] obtain z l2 where
    l2: "pop_run L False JNull (- 1) l1 = Some (z, l2)" "view l2 = \<lparr>lv_stack = v # k' # st, lv_tables = h\<rparr>" "comes_back num el z"
    by blast
  have store: "store_entry L (choose_container L (built arr ys) l2) z l2 = Some (built arr (ys @ [(k', z)]), l2)"
    by (rule store_entry_built [OF doc _ k'(1)]) (simp add: l2(2))
  from pop_one [OF doc l2(2)] obtain l3 where
    l3: "lua_pop L 1 l2 = Some l3" "view l3 = \<lparr>lv_stack = k' # st, lv_tables = h\<rparr>" by blast
  have all: "\<forall>el \<in> set els'. pop_ok view cap num L h el \<and> length st + 2 + 2 * depth el \<le> cap"
    using Cons.prems(4) els by simp
  have "k' \<noteq> LNil" using k'(1) by (auto simp: good_key_def split: if_splits)
  from Cons.IH [OF l3(2) entries_behind_next [OF Cons.prems(2) [unfolded q] this] rest all, of "ys @ [(k', z)]"]
  obtain zs l' where IH: "pop_run L True (built arr (ys @ [(k', z)])) i l3 = Some (built arr ((ys @ [(k', z)]) @ zs), l')"
    "view l' = \<lparr>lv_stack = st, lv_tables = h\<rparr>" "map fst zs = map fst post" "list_all2 (comes_back num) els' (map snd zs)"
    by blast
  have "pop_run L True (built arr ys) i l = Some (built arr (ys @ (k', z) # zs), l')"
    by (subst pop_run.simps) (use l1 l2 store l3 IH in simp)
  with IH l2(3) els q show ?case by (intro exI [of _ "(k', z) # zs"]) auto
qed

lemma pop_table:
  assumes doc: "documented view cap num L" and h: "h a = Some t" "distinct (map fst t)"
    and v: "view l = \<lparr>lv_stack = st, lv_tables = h\<rparr>" "slot i st = Some (LTable a)"
    and els: "list_all2 (\<lambda>q el. good_key arr (fst q) \<and> holds h (snd q) el) t els"
      "\<forall>el \<in> set els. pop_ok view cap num L h el \<and> length st + 2 + 2 * depth el \<le> cap"
    and len: "length st < cap"
  shows "\<exists>zs l'. pop_run L False JNull i l = Some (built arr zs, l') \<and>
     view l' = \<lparr>lv_stack = st, lv_tables = h\<rparr> \<and> map fst zs = map fst t \<and> list_all2 (comes_back num) els (map snd zs)"
proof -
  have "pushes view cap (lua_pushnil L) LNil" using doc by (simp add: documented_def)
  from pushesD [of view cap _ _ l, OF this v(1) len] obtain l1 where
    l1: "lua_pushnil L l = Some l1" "view l1 = \<lparr>lv_stack = LNil # st, lv_tables = h\<rparr>" by blast
  have type: "lua_type L i l = TTABLE" using doc v by (simp add: documented_def reads_stack_def)
  define j where "j = (if i \<ge> 0 then i else i - 1)"
  have j: "slot j (k # st) = Some (LTable a)" for k unfolding j_def by (rule slot_push [OF v(2)])
  have "entries_behind LNil t t" by (simp add: entries_behind_def)
  from pop_loop [where arr = arr and ys = "[]", OF doc h j l1(2) this els] obtain zs l' where
    "pop_run L True (built arr []) j l1 = Some (built arr zs, l')" "view l' = \<lparr>lv_stack = st, lv_tables = h\<rparr>"
    "map fst zs = map fst t" "list_all2 (comes_back num) els (map snd zs)" by auto
  with l1(1) type show ?thesis
    by (subst pop_run.simps) (auto simp: j_def [symmetric] built_def [of _ "[]"])
qed

text \<open>The entries of the table in the order of the traversal, with the values they came from.\<close>

lemma traversal_order:
  assumes "list_all2 R es ts" and "mset ts = mset t"
  obtains es' where "list_all2 (\<lambda>q p. R p q) t es'" and "mset es' = mset es"
proof -
  have "list_all2 (\<lambda>q p. R p q) ts es" using assms(1) by (simp add: list_all2_conv_all_nth)
  from list_all2_reorder_left_invariance [OF this assms(2) [symmetric]] that show ?thesis by blast
qed

lemma filter_kept_array: "map snd (filter (\<lambda>p. kept (snd p)) (array_entries i xs)) = filter kept xs"
  by (induction xs arbitrary: i) auto

lemma pop_array:
  assumes doc: "documented view cap num L" and IH: "\<And>x. x \<in> set xs \<Longrightarrow> pop_ok view cap num L h x"
  shows "pop_ok view cap num L h (JArray xs)"
proof (unfold pop_ok_def, intro allI impI)
  fix i l st v
  assume "view l = \<lparr>lv_stack = st, lv_tables = h\<rparr> \<and> slot i st = Some v \<and> holds h v (JArray xs) \<and>
    length st + 2 * depth (JArray xs) \<le> cap"
  then have v: "view l = \<lparr>lv_stack = st, lv_tables = h\<rparr>" "slot i st = Some v" "holds h v (JArray xs)"
    and len: "length st + 2 * depth (JArray xs) \<le> cap" by auto
  from v(3) obtain a t ts where a: "v = LTable a" "h a = Some t" "distinct (map fst t)" "mset ts = mset t"
    and R: "list_all2 (\<lambda>p q. fst p = fst q \<and> holds h (snd q) (snd p)) (filter (\<lambda>p. kept (snd p)) (array_entries 0 xs)) ts"
    by (auto elim: holds_arrayE)
  from traversal_order [OF R a(4)] obtain es where
    es: "list_all2 (\<lambda>q p. fst p = fst q \<and> holds h (snd q) (snd p)) t es" "mset es = mset (filter (\<lambda>p. kept (snd p)) (array_entries 0 xs))" .
  have set_es: "set es \<subseteq> set (array_entries 0 xs)" using mset_eq_setD [OF es(2)] by auto
  have elems: "mset (map snd es) = mset (filter kept xs)"
    using es(2) filter_kept_array [of 0 xs] by (metis mset_map)
  have "list_all2 (\<lambda>q el. good_key True (fst q) \<and> holds h (snd q) el) t (map snd es)"
  proof (unfold list_all2_map2, rule list.rel_mono_strong [OF es(1)])
    fix p q assume p: "p \<in> set es" "fst p = fst q \<and> holds h (snd q) (snd p)"
    then have "fst p \<in> fst ` set (array_entries 0 xs)" using set_es by blast
    with p(2) show "good_key True (fst q) \<and> holds h (snd q) (snd p)"
      using array_entries_keys [of "fst p" 0 xs] by (auto simp: good_key_def)
  qed
  moreover have "pop_ok view cap num L h x \<and> length st + 2 + 2 * depth x \<le> cap" if "x \<in> set (map snd es)" for x
  proof -
    have "x \<in> set xs" using that mset_eq_setD [OF elems] by auto
    with IH depth_array [of x xs] len show ?thesis by (auto simp del: depth.simps)
  qed
  ultimately obtain zs l' where "pop_run L False JNull i l = Some (built True zs, l')"
    "view l' = \<lparr>lv_stack = st, lv_tables = h\<rparr>" "list_all2 (comes_back num) (map snd es) (map snd zs)"
    using pop_table [where arr = True, OF doc a(2,3) v(1) v(2) [unfolded a(1)], of "map snd es"] len by auto
  moreover from array_comes_back [OF this(3) elems] have "comes_back num (JArray xs) (built True zs)" by (auto simp: built_def split: if_splits)
  ultimately show "\<exists>z l'. pop_run L False JNull i l = Some (z, l') \<and> view l' = \<lparr>lv_stack = st, lv_tables = h\<rparr> \<and>
    comes_back num (JArray xs) z" by blast
qed

lemma set_field_insort: "key \<notin> fst ` set kvs \<Longrightarrow> set_field key v kvs = insort_key fst (key, v) kvs"
  by (induction kvs) auto

lemma fold_set_field:
  "distinct (map fst ps) \<Longrightarrow> fold (\<lambda>p. set_field (fst p) (snd p)) ps [] = sort_key fst (rev ps)"
proof (induction ps rule: rev_induct)
  case (snoc p ps)
  then have "fst p \<notin> fst ` set (sort_key fst (rev ps))" by auto
  with snoc show ?case by (simp add: set_field_insort)
qed simp

lemma built_object:
  assumes "distinct (map fst ps)" and "mset fs = mset ps" and "sorted (map fst fs)"
  shows "fold (\<lambda>p. set_field (fst p) (snd p)) ps [] = fs"
proof -
  have "inj_on fst (set (rev ps))" using assms(1) by (simp add: distinct_map)
  moreover have "mset (rev ps) = mset fs" using assms(2) by simp
  ultimately show ?thesis using fold_set_field [OF assms(1)] sort_key_inj_key_eq assms(3) by metis
qed

lemma pop_object:
  assumes doc: "documented view cap num L" and IH: "\<And>kv. kv \<in> set kvs \<Longrightarrow> pop_ok view cap num L h (snd kv)"
    and clean: "clean (JObject kvs)"
  shows "pop_ok view cap num L h (JObject kvs)"
proof (unfold pop_ok_def, intro allI impI)
  fix i l st v
  assume "view l = \<lparr>lv_stack = st, lv_tables = h\<rparr> \<and> slot i st = Some v \<and> holds h v (JObject kvs) \<and>
    length st + 2 * depth (JObject kvs) \<le> cap"
  then have v: "view l = \<lparr>lv_stack = st, lv_tables = h\<rparr>" "slot i st = Some v" "holds h v (JObject kvs)"
    and len: "length st + 2 * depth (JObject kvs) \<le> cap" by auto
  from v(3) obtain a t ts where a: "v = LTable a" "h a = Some t" "distinct (map fst t)" "mset ts = mset t"
    and R: "list_all2 (\<lambda>p q. fst p = fst q \<and> holds h (snd q) (snd p)) (filter (\<lambda>p. kept (snd p)) (object_entries kvs)) ts"
    by (auto elim: holds_objectE)
  define kept_kvs where "kept_kvs = filter (\<lambda>kv. kept (snd kv)) kvs"
  have names: "c_str (fst kv) = fst kv" if "kv \<in> set kvs" for kv using clean that by (auto intro!: c_str_id)
  have "filter (\<lambda>p. kept (snd p)) (object_entries kvs) = map (\<lambda>kv. (LString (fst kv), snd kv)) kept_kvs"
    using names by (auto simp: object_entries_def kept_kvs_def filter_map o_def)
  with R have "list_all2 (\<lambda>kv q. LString (fst kv) = fst q \<and> holds h (snd q) (snd kv)) kept_kvs ts"
    by (simp add: list_all2_map1)
  from traversal_order [OF this a(4)] obtain es where
    es: "list_all2 (\<lambda>q kv. LString (fst kv) = fst q \<and> holds h (snd q) (snd kv)) t es" "mset es = mset kept_kvs" .
  have set_es: "set es \<subseteq> set kvs" using mset_eq_setD [OF es(2)] by (auto simp: kept_kvs_def)
  have "list_all2 (\<lambda>q el. good_key False (fst q) \<and> holds h (snd q) el) t (map snd es)"
  proof (unfold list_all2_map2, rule list.rel_mono_strong [OF es(1)])
    fix q kv assume "kv \<in> set es" "LString (fst kv) = fst q \<and> holds h (snd q) (snd kv)"
    with names [of kv] set_es show "good_key False (fst q) \<and> holds h (snd q) (snd kv)"
      by (cases "fst q") (auto simp: good_key_def)
  qed
  moreover have "pop_ok view cap num L h x \<and> length st + 2 + 2 * depth x \<le> cap" if x: "x \<in> set (map snd es)" for x
  proof -
    obtain kv where "kv \<in> set kvs" "x = snd kv" using x set_es by auto
    with IH depth_object [of kv kvs] len show ?thesis by (auto simp del: depth.simps)
  qed
  ultimately obtain zs l' where run: "pop_run L False JNull i l = Some (built False zs, l')"
    "view l' = \<lparr>lv_stack = st, lv_tables = h\<rparr>" "map fst zs = map fst t" "list_all2 (comes_back num) (map snd es) (map snd zs)"
    using pop_table [where arr = False, OF doc a(2,3) v(1) v(2) [unfolded a(1)], of "map snd es"] len by auto
  define ps where "ps = map (\<lambda>p. (key_name (fst p), snd p)) zs"
  have "map fst t = map (\<lambda>kv. LString (fst kv)) es" using es(1)
    by (induction t es rule: list_all2_induct) auto
  with run(3) have keys: "map fst ps = map fst es" by (auto simp: ps_def o_def dest!: arg_cong [of _ _ "map key_name"])
  have "list_all2 (\<lambda>p q. fst p = fst q \<and> comes_back num (snd p) (snd q)) es ps"
    using run(4) keys by (auto simp: ps_def list_all2_conv_all_nth list_eq_iff_nth_eq)
  from list_all2_reorder_left_invariance [OF this es(2) [symmetric]] obtain fs where
    fs: "list_all2 (\<lambda>p q. fst p = fst q \<and> comes_back num (snd p) (snd q)) kept_kvs fs" "mset fs = mset ps" by blast
  have sorted: "sorted_wrt (<) (map fst kept_kvs)" using clean by (auto simp: kept_kvs_def sorted_wrt_map sorted_wrt_filter)
  have fs_keys: "map fst fs = map fst kept_kvs" using fs(1) by (induction rule: list_all2_induct) auto
  have "mset (map fst ps) = mset (map fst fs)" using fs(2) by simp
  with fs_keys sorted have "distinct (map fst ps)" "sorted (map fst fs)"
    by (metis mset_eq_imp_distinct_iff strict_sorted_iff, metis strict_sorted_iff)
  from built_object [OF this(1) fs(2) this(2)] have "fold (\<lambda>p. set_field (key_name (fst p)) (snd p)) zs [] = fs"
    by (simp add: ps_def fold_map o_def)
  moreover have "zs = [] \<longleftrightarrow> fs = []" using fs(2) by (auto simp: ps_def)
  ultimately have "built False zs = (if fs = [] then JNull else JObject fs)" by (simp add: built_def)
  moreover have "comes_back num (JObject kvs) (if fs = [] then JNull else JObject fs)"
    using fs(1) unfolding kept_kvs_def by (rule object_comes_back)
  ultimately show "\<exists>z l'. pop_run L False JNull i l = Some (z, l') \<and> view l' = \<lparr>lv_stack = st, lv_tables = h\<rparr> \<and>
    comes_back num (JObject kvs) z" using run by auto
qed

lemma pop_leaf:
  assumes doc: "documented view cap num L" and leaf: "leaf j = Some v" "leaf_back num j = Some z"
  shows "pop_ok view cap num L h j"
proof (unfold pop_ok_def, intro allI impI)
  fix i l st w
  assume a: "view l = \<lparr>lv_stack = st, lv_tables = h\<rparr> \<and> slot i st = Some w \<and> holds h w j \<and> length st + 2 * depth j \<le> cap"
  have "w = v" using a leaf(1) by (cases j) (auto elim: holds.cases)
  then have v: "slot i (lv_stack (view l)) = Some v" using a by simp
  have reads: "reads_stack view num L" using doc by (simp add: documented_def)
  from reads v have kind: "lua_type L i l = kind v" by (simp add: reads_stack_def)
  from reads v have "\<And>b. v = LBoolean b \<Longrightarrow> lua_toboolean L i l = (if b then 1 else 0)"
    "\<And>x. v = LNumber x \<Longrightarrow> luaL_checknumber L i l = Some (x, l)"
    "\<And>n. v = LInteger n \<Longrightarrow> luaL_checknumber L i l = Some (num n, l)"
    "\<And>s. v = LString s \<Longrightarrow> luaL_checkstring L i l = Some (s, l)"
    unfolding reads_stack_def by blast+
  with kind leaf have "pop_run L False JNull i l = Some (z, l)"
    by (subst pop_run.simps) (cases j; auto simp: c_str_def)
  with a leaf_comes_back [OF leaf(2)] show "\<exists>z l'. pop_run L False JNull i l = Some (z, l') \<and>
    view l' = \<lparr>lv_stack = st, lv_tables = h\<rparr> \<and> comes_back num j z" by auto
qed

lemma pop_json_ok:
  assumes doc: "documented view cap num L"
  shows "clean j \<Longrightarrow> pop_ok view cap num L h j"
proof (induction j rule: json.induct)
  case (JArray xs)
  show ?case by (rule pop_array [OF doc JArray.IH]) (use JArray.prems in auto)
next
  case (JObject kvs)
  show ?case
  proof (rule pop_object [OF doc _ JObject.prems])
    fix kv assume kv: "kv \<in> set kvs"
    show "pop_ok view cap num L h (snd kv)"
      by (rule JObject.IH [OF kv]) (use kv JObject.prems in \<open>auto simp: snds.simps\<close>)
  qed
next
  case JOther
  show ?case by (auto simp: pop_ok_def elim: holds.cases)
qed (rule pop_leaf [OF doc], simp, simp)+

section \<open>A state to run the functions on\<close>

record machine =
  m_stack :: "int lval list"
  m_tables :: "(int lval \<times> int lval) list list"

definition machine_view :: "machine \<Rightarrow> int lview" where
  "machine_view s = \<lparr>lv_stack = m_stack s, lv_tables = (\<lambda>a. if a < length (m_tables s) then Some (m_tables s ! a) else None)\<rparr>"

definition m_push :: "int lval \<Rightarrow> machine \<Rightarrow> machine option" where
  "m_push v s = (if length (m_stack s) < 20 then Some (s\<lparr>m_stack := v # m_stack s\<rparr>) else None)"

definition m_create :: "machine \<Rightarrow> machine option" where
  "m_create s = (if length (m_stack s) < 20
     then Some \<lparr>m_stack = LTable (length (m_tables s)) # m_stack s, m_tables = m_tables s @ [[]]\<rparr> else None)"

definition m_assign :: "int lval \<Rightarrow> machine \<Rightarrow> machine option" where
  "m_assign key s = (case m_stack s of
     x # LTable a # st \<Rightarrow> if a < length (m_tables s)
       then Some \<lparr>m_stack = LTable a # st, m_tables = (m_tables s)[a :=
         filter (\<lambda>p. fst p \<noteq> key) (m_tables s ! a) @ (if x = LNil then [] else [(key, x)])]\<rparr> else None
   | _ \<Rightarrow> None)"

definition m_next :: "int \<Rightarrow> machine \<Rightarrow> (bool \<times> machine) option" where
  "m_next i s = (case (m_stack s, slot i (m_stack s)) of
     (k # st, Some (LTable a)) \<Rightarrow>
       (case (if k = LNil then m_tables s ! a else tl (dropWhile (\<lambda>p. fst p \<noteq> k) (m_tables s ! a))) of
          [] \<Rightarrow> Some (False, s\<lparr>m_stack := st\<rparr>)
        | (k', v) # _ \<Rightarrow> if Suc (length st) < 20 then Some (True, s\<lparr>m_stack := v # k' # st\<rparr>) else None)
   | _ \<Rightarrow> None)"

definition machine_lua :: "(int, machine) lua" where
  "machine_lua = \<lparr>lua_pushnil = m_push LNil, lua_pushboolean = m_push \<circ> LBoolean, lua_pushstring = m_push \<circ> LString,
     lua_pushinteger = m_push \<circ> LInteger, lua_pushnumber = m_push \<circ> LNumber, lua_createtable = (\<lambda>_ _. m_create),
     lua_rawseti = (\<lambda>_ i. m_assign (LInteger i)), lua_setfield = (\<lambda>_ s. m_assign (LString s)),
     lua_type = (\<lambda>i s. case slot i (m_stack s) of None \<Rightarrow> TOTHER | Some v \<Rightarrow> kind v),
     lua_toboolean = (\<lambda>i s. if slot i (m_stack s) = Some (LBoolean True) then 1 else 0),
     luaL_checknumber = (\<lambda>i s. case slot i (m_stack s) of Some (LNumber x) \<Rightarrow> Some (x, s) | Some (LInteger n) \<Rightarrow> Some (n, s) | _ \<Rightarrow> None),
     luaL_checkstring = (\<lambda>i s. case slot i (m_stack s) of Some (LString t) \<Rightarrow> Some (t, s) | _ \<Rightarrow> None),
     lua_next = m_next, lua_pop = (\<lambda>n s. if n \<le> length (m_stack s) then Some (s\<lparr>m_stack := drop n (m_stack s)\<rparr>) else None)\<rparr>"

lemma m_push_law: "pushes machine_view 20 (m_push v) v"
  by (auto simp: pushes_def m_push_def machine_view_def)

lemma m_create_law: "creates machine_view 20 m_create"
  by (auto simp: creates_def m_create_def machine_view_def nth_append fun_eq_iff)

lemma m_assign_law: "assigns machine_view (m_assign key) key"
proof (unfold assigns_def, intro allI impI)
  fix l x a st t
  assume "lv_stack (machine_view l) = x # LTable a # st \<and> lv_tables (machine_view l) a = Some t \<and> distinct (map fst t)"
  then have l: "m_stack l = x # LTable a # st" "a < length (m_tables l)" "m_tables l ! a = t" "distinct (map fst t)"
    by (auto simp: machine_view_def split: if_splits)
  define t' where "t' = filter (\<lambda>p. fst p \<noteq> key) t @ (if x = LNil then [] else [(key, x)])"
  have "map_of (filter (\<lambda>p. fst p \<noteq> key) t) k = (if k = key then None else map_of t k)" for k
    by (induction t) auto
  then have "map_of t' = (map_of t)(key := if x = LNil then None else Some x)"
    by (auto simp: t'_def map_add_def fun_eq_iff split: option.splits)
  moreover have "distinct (map fst t')" using l(4) by (auto simp: t'_def distinct_map_filter)
  ultimately show "\<exists>l' t'. m_assign key l = Some l' \<and> distinct (map fst t') \<and>
      map_of t' = (map_of t)(key := if x = LNil then None else Some x) \<and>
      machine_view l' = \<lparr>lv_stack = LTable a # st, lv_tables = (lv_tables (machine_view l))(a \<mapsto> t')\<rparr>"
    using l by (intro exI [of _ "\<lparr>m_stack = LTable a # st, m_tables = (m_tables l)[a := t']\<rparr>"] exI [of _ t'])
      (auto simp: m_assign_def machine_view_def t'_def fun_eq_iff)
qed

lemma behind_dropWhile: "distinct (map fst (pre @ (k, v) # post)) \<Longrightarrow> dropWhile (\<lambda>p. fst p \<noteq> k) (pre @ (k, v) # post) = (k, v) # post"
  by (induction pre) auto

lemma m_next_law: "traverses machine_view 20 m_next"
proof (unfold traverses_def, intro allI impI)
  fix i l k st a t and post :: "(int lval \<times> int lval) list"
  assume "lv_stack (machine_view l) = k # st \<and> slot i (k # st) = Some (LTable a) \<and> lv_tables (machine_view l) a = Some t \<and>
    distinct (map fst t) \<and> entries_behind k t post"
  then have l: "m_stack l = k # st" "slot i (k # st) = Some (LTable a)" "m_tables l ! a = t" "distinct (map fst t)"
    "entries_behind k t post" by (auto simp: machine_view_def split: if_splits)
  have "(if k = LNil then m_tables l ! a else tl (dropWhile (\<lambda>p. fst p \<noteq> k) (m_tables l ! a))) = post"
  proof (cases "k = LNil")
    case False
    with l(5) obtain pre v where "t = pre @ (k, v) # post" by (auto simp: entries_behind_def)
    with False l(3,4) behind_dropWhile [of pre k v post] show ?thesis by simp
  qed (use l in \<open>simp add: entries_behind_def\<close>)
  with l(1,2) show "case post of [] \<Rightarrow> \<exists>l'. m_next i l = Some (False, l') \<and> machine_view l' = (machine_view l)\<lparr>lv_stack := st\<rparr>
    | (k', v) # _ \<Rightarrow> if Suc (length st) < 20
        then \<exists>l'. m_next i l = Some (True, l') \<and> machine_view l' = (machine_view l)\<lparr>lv_stack := v # k' # st\<rparr> else m_next i l = None"
    by (auto simp: m_next_def machine_view_def split: list.splits)
qed

lemma machine_documented: "documented machine_view 20 (\<lambda>i. i) machine_lua"
  by (auto simp: documented_def machine_lua_def m_push_law m_create_law m_assign_law m_next_law reads_stack_def machine_view_def)

section \<open>Properties\<close>

text \<open>
  C31: A JSON value that is pushed onto the stack of a Lua state and popped again comes back.  On a Lua state that
  behaves as its manual says, with two free slots for every level of nesting and one more, \<^verbatim>\<open>push_json\<close> puts exactly
  one value on the stack and changes no table that was there before; \<^verbatim>\<open>pop_json\<close> leaves the stack and the tables
  alone and makes the same value of it, in which booleans have become the integers 0 and 1, all numbers are
  floating-point numbers, a string ends before its first NUL, an unsigned number from 2^63 on is the negative
  number with the same bits, fields and elements that are null or cannot be pushed are missing, a container
  without entries is null, and the elements of an array have some order.
\<close>

theorem lua_json_roundtrip:
  assumes "documented view cap num L" and "clean j" and "pushed j"
    and "length (lv_stack (view l)) + 2 * depth j < cap"
  shows "\<exists>n l' v z l''. push_json L j l = Some (n, l') \<and> 0 < n \<and>
    lv_stack (view l') = v # lv_stack (view l) \<and> lv_tables (view l) \<subseteq>\<^sub>m lv_tables (view l') \<and>
    pop_json L JNull (- 1) l' = Some (kind v, z, l'') \<and> view l'' = view l' \<and> comes_back num j z"
proof -
  have v: "view l = \<lparr>lv_stack = lv_stack (view l), lv_tables = lv_tables (view l)\<rparr>" by simp
  have "length (lv_stack (view l)) + depth j < cap" using assms(4) by simp
  from push_okD [OF push_json_ok [OF assms(1,2)] v this] assms(3) obtain n l' h' v where
    push: "push_json L j l = Some (n, l')" "0 < n" "lv_tables (view l) \<subseteq>\<^sub>m h'"
      "view l' = \<lparr>lv_stack = v # lv_stack (view l), lv_tables = h'\<rparr>" "holds (h' |` (- dom (lv_tables (view l)))) v j"
    by auto
  have "holds h' v j" by (rule holds_mono [OF push(5)]) (simp add: map_le_def)
  moreover have "length (v # lv_stack (view l)) + 2 * depth j \<le> cap" using assms(4) by simp
  ultimately obtain z l'' where pop: "pop_run L False JNull (- 1) l' = Some (z, l'')" "view l'' = view l'" "comes_back num j z"
    using pop_okD [OF pop_json_ok [OF assms(1,2)] push(4) slot_simps(1)] push(4) by metis
  have "lua_type L (- 1) l' = kind v" using assms(1) push(4) by (simp add: documented_def reads_stack_def)
  with push pop show ?thesis by (auto simp: pop_json_def)
qed

text \<open>An object with an array that holds a null and an empty array, on a stack with one value.\<close>

lemma lua_json_roundtrip_witness:
  "let j = JObject [(''age'', JUnsigned 18), (''list'', JArray [JNull, JString ''a'', JArray []]), (''ok'', JBoolean True)];
       m = \<lparr>m_stack = [LNil], m_tables = []\<rparr>
   in \<exists>n l' t z l''. push_json machine_lua j m = Some (n, l') \<and> length (m_stack l') = 2 \<and>
      pop_json machine_lua JNull (- 1) l' = Some (t, z, l'') \<and> m_stack l'' = m_stack l' \<and> comes_back (\<lambda>i. i) j z"
proof -
  define j :: "int json" where
    "j = JObject [(''age'', JUnsigned 18), (''list'', JArray [JNull, JString ''a'', JArray []]), (''ok'', JBoolean True)]"
  define m where "m = \<lparr>m_stack = [LNil :: int lval], m_tables = []\<rparr>"
  have "clean j" by (simp add: j_def list_less_def)
  moreover have "pushed j" "length (lv_stack (machine_view m)) + 2 * depth j < 20"
    by (simp_all add: j_def m_def machine_view_def)
  ultimately obtain n l' v z l'' where "push_json machine_lua j m = Some (n, l')"
    "lv_stack (machine_view l') = v # lv_stack (machine_view m)"
    "pop_json machine_lua JNull (- 1) l' = Some (kind v, z, l'')" "machine_view l'' = machine_view l'" "comes_back (\<lambda>i. i) j z"
    using lua_json_roundtrip [OF machine_documented, of j m] by blast
  then show ?thesis unfolding j_def m_def by (auto simp: machine_view_def)
qed

fun nested :: "nat \<Rightarrow> 'n json" where
  "nested 0 = JNull"
| "nested (Suc n) = JArray [nested n]"

lemma push_nested_full:
  assumes doc: "documented view cap num L"
  shows "cap \<le> length (lv_stack (view l)) + n \<Longrightarrow> push_json L (nested n) l = None"
proof (induction n arbitrary: l)
  case 0
  have "pushes view cap (lua_pushnil L) LNil" using doc by (simp add: documented_def)
  from pushes_full [OF this, of l] 0 show ?case by simp
next
  case (Suc n)
  show ?case
  proof (cases "length (lv_stack (view l)) < cap")
    case True
    have "view l = \<lparr>lv_stack = lv_stack (view l), lv_tables = lv_tables (view l)\<rparr>" by simp
    from create_run [OF doc this True, of 1 0] obtain l1 a h where
      "lua_createtable L 1 0 l = Some l1" "view l1 = \<lparr>lv_stack = LTable a # lv_stack (view l), lv_tables = h\<rparr>"
      by blast
    with Suc show ?thesis by simp
  next
    case False
    have "creates view cap (lua_createtable L 1 0)" using doc by (simp add: documented_def)
    with False have "lua_createtable L 1 0 l = None" by (simp add: creates_def)
    then show ?thesis by simp
  qed
qed

text \<open>
  Where \<^verbatim>\<open>push_json\<close> and \<^verbatim>\<open>pop_json\<close> go wrong, on every Lua state that behaves as its manual says and has a
  free slot. An array none of whose elements can be pushed leaves its table on the stack although the result is 0,
  so that the caller does not know of it. Arrays that are nested as deep as there are free slots are pushed past
  the end of the stack, whose size is not checked. The unsigned numbers from \<^verbatim>\<open>2 ^ 63\<close> on come back negative.
\<close>

theorem lua_bridge_defects:
  assumes "documented view cap num L" and "length (lv_stack (view l)) < cap"
  shows "(\<exists>l' a. push_json L (JArray [JArray []]) l = Some (0, l') \<and> lv_stack (view l') = LTable a # lv_stack (view l)) \<and>
    (\<forall>n. cap \<le> length (lv_stack (view l)) + n \<longrightarrow> push_json L (nested n) l = None) \<and>
    (\<exists>l'. push_json L (JUnsigned (2 ^ 63)) l = Some (1, l') \<and>
       pop_json L JNull (- 1) l' = Some (TNUMBER, JFloat (num (- (2 ^ 63))), l'))"
proof (intro conjI allI impI)
  have v: "view l = \<lparr>lv_stack = lv_stack (view l), lv_tables = lv_tables (view l)\<rparr>" by simp
  show "\<exists>l' a. push_json L (JArray [JArray []]) l = Some (0, l') \<and> lv_stack (view l') = LTable a # lv_stack (view l)"
    using create_run [OF assms(1) v assms(2), of 1 0] by auto
  show "push_json L (nested n) l = None" if "cap \<le> length (lv_stack (view l)) + n" for n
    using push_nested_full [OF assms(1) that] .
  have big: "sint (2 ^ 63 :: u64) = - (2 ^ 63)" by simp
  from leaf_ok [OF assms(1) _ v assms(2), of "JUnsigned (2 ^ 63)"] big obtain l' where
    l': "push_json L (JUnsigned (2 ^ 63)) l = Some (1, l')"
      "view l' = \<lparr>lv_stack = LInteger (- (2 ^ 63)) # lv_stack (view l), lv_tables = lv_tables (view l)\<rparr>" by auto
  have "luaL_checknumber L (- 1) l' = Some (num (- (2 ^ 63)), l')" "lua_type L (- 1) l' = TNUMBER"
    using assms(1) l'(2) by (simp_all add: documented_def reads_stack_def)
  then have "pop_json L JNull (- 1) l' = Some (TNUMBER, JFloat (num (- (2 ^ 63))), l')"
    by (simp add: pop_json_def pop_run.simps)
  with l'(1) show "\<exists>l'. push_json L (JUnsigned (2 ^ 63)) l = Some (1, l') \<and>
    pop_json L JNull (- 1) l' = Some (TNUMBER, JFloat (num (- (2 ^ 63))), l')" by blast
qed

lemma lua_bridge_defects_witness:
  "push_json machine_lua (nested 20) \<lparr>m_stack = [], m_tables = []\<rparr> = None \<and>
   (\<exists>l'. push_json machine_lua (JArray [JArray []]) \<lparr>m_stack = [], m_tables = []\<rparr> = Some (0, l') \<and> length (m_stack l') = 1)"
proof -
  have "length (lv_stack (machine_view \<lparr>m_stack = [], m_tables = []\<rparr>)) < 20" by (simp add: machine_view_def)
  from lua_bridge_defects [OF machine_documented this] show ?thesis by (auto simp: machine_view_def)
qed

end
