(* ===== verification/Palindrome.thy ===== *)
theory Palindrome
  imports Prelude
begin

text \<open>
  The compression of \<^verbatim>\<open>practice/huiwen.cpp\<close>: a run of characters that goes up and comes down again, as \<^verbatim>\<open>BCDCB\<close>,
  becomes its first character and the number of its steps up.  The text is rewritten in its own buffer.  \<open>None\<close> is
  an access outside the buffer; \<^verbatim>\<open>char\<close> is signed.
\<close>

section \<open>The code\<close>

function find_up :: "u8 list \<Rightarrow> nat \<Rightarrow> int \<Rightarrow> (nat \<times> int) option" where
  "find_up b p1 count = do {
     c \<leftarrow> rd b p1;
     if c = 0 then Some (p1, count)
     else do {
       d \<leftarrow> rd b (p1 + 1);
       if sint c = sint d - 1 then find_up b (p1 + 1) (count + 1) else Some (p1, count) } }"
  by auto
termination by (relation "measure (\<lambda>(b, p1, count). length b - p1)") (auto simp: rd_Some_iff)

function find_down :: "u8 list \<Rightarrow> nat \<Rightarrow> int \<Rightarrow> (nat \<times> int) option" where
  "find_down b p1 count2 = do {
     c \<leftarrow> rd b p1;
     if c = 0 then Some (p1, count2)
     else do {
       d \<leftarrow> rd b (p1 + 1);
       if sint c = sint d + 1 then find_down b (p1 + 1) (count2 - 1) else Some (p1, count2) } }"
  by auto
termination by (relation "measure (\<lambda>(b, p1, count2). length b - p1)") (auto simp: rd_Some_iff)

declare find_up.simps [simp del] find_down.simps [simp del]

definition FindSubString :: "u8 list \<Rightarrow> nat \<Rightarrow> int option" where
  "FindSubString b pch = do {
     (p1, count) \<leftarrow> find_up b pch 0;
     (p1, count2) \<leftarrow> find_down b p1 count;
     Some (if count2 = 0 then count else 0) }"

definition write_at :: "u8 list \<Rightarrow> nat \<Rightarrow> u8 list \<Rightarrow> u8 list option" where
  "write_at b p xs = (if p + length xs \<le> length b then Some (take p b @ xs @ drop (p + length xs) b) else None)"

text \<open>The digits \<^verbatim>\<open>sprintf\<close> writes.\<close>

fun digits :: "nat \<Rightarrow> u8 list" where
  "digits n = (if n < 10 then [of_nat (48 + n)] else digits (n div 10) @ [of_nat (48 + n mod 10)])"

declare digits.simps [simp del]

function string_end :: "u8 list \<Rightarrow> nat \<Rightarrow> nat option" where
  "string_end b p2 = do { c \<leftarrow> rd b p2; if c = 0 then Some p2 else string_end b (p2 + 1) }"
  by auto
termination by (relation "measure (\<lambda>(b, p2). length b - p2)") (auto simp: rd_Some_iff)

declare string_end.simps [simp del]

lemma write_at_length: "write_at b p xs = Some b' \<Longrightarrow> length b' = length b"
  by (auto simp: write_at_def split: if_splits)

function modify_from :: "u8 list \<Rightarrow> nat \<Rightarrow> nat \<Rightarrow> u8 list option" where
  "modify_from b p1 p2 = do {
     c \<leftarrow> rd b p1;
     if c = 0 then Some b
     else do {
       count \<leftarrow> FindSubString b p1;
       b1 \<leftarrow> write_at b p2 [c];
       if count > 0 then do {
         b2 \<leftarrow> write_at b1 (p2 + 1) (digits (nat count) @ [0]);
         p2 \<leftarrow> string_end b2 (p2 + 1);
         modify_from b2 (p1 + nat count + nat count + 1) p2 }
       else modify_from b1 (p1 + 1) (p2 + 1) } }"
  by auto
termination
  by (relation "measure (\<lambda>(b, p1, p2). length b - p1)") (auto simp: rd_Some_iff dest!: write_at_length)

declare modify_from.simps [simp del]

definition ModifyString :: "u8 list \<Rightarrow> u8 list option" where
  "ModifyString pText = modify_from pText 0 0"

section \<open>The compressed text\<close>

text \<open>The steps up, and down, at the start of a text with its terminator.\<close>

fun up :: "u8 list \<Rightarrow> nat" where
  "up (c # d # t) = (if c \<noteq> 0 \<and> sint c = sint d - 1 then Suc (up (d # t)) else 0)"
| "up [] = 0"
| "up [c] = 0"

fun down :: "u8 list \<Rightarrow> nat" where
  "down (c # d # t) = (if c \<noteq> 0 \<and> sint c = sint d + 1 then Suc (down (d # t)) else 0)"
| "down [] = 0"
| "down [c] = 0"

definition group :: "u8 list \<Rightarrow> nat" where
  "group t = (if down (drop (up t) t) = up t then up t else 0)"

function compressed :: "u8 list \<Rightarrow> u8 list" where
  "compressed [] = []"
| "compressed (c # t) = (if c = 0 then []
     else if group (c # t) > 0 then c # digits (group (c # t)) @ compressed (drop (2 * group (c # t)) t)
     else c # compressed t)"
  by pat_completeness auto
termination by (relation "measure length") auto

function ends_in_group :: "u8 list \<Rightarrow> bool" where
  "ends_in_group [] \<longleftrightarrow> False"
| "ends_in_group (c # t) \<longleftrightarrow> c \<noteq> 0 \<and>
     (if group (c # t) > 0
      then (case drop (2 * group (c # t)) t of [] \<Rightarrow> True | d # _ \<Rightarrow> d = 0) \<or> ends_in_group (drop (2 * group (c # t)) t)
      else ends_in_group t)"
  by pat_completeness auto
termination by (relation "measure length") auto

declare compressed.simps(2) [simp del] ends_in_group.simps(2) [simp del]

section \<open>Correctness\<close>

lemma find_up_run: "0 \<in> set (drop p b) \<Longrightarrow> find_up b p n = Some (p + up (drop p b), n + int (up (drop p b)))"
proof (induction "drop p b" arbitrary: p n rule: up.induct)
  case (1 c d t)
  note rd = drop_rd [OF 1(2) [symmetric]]
  then have d: "drop (p + 1) b = d # t" by simp
  from drop_rd [OF d] rd have "rd b (p + 1) = Some d" by simp
  moreover have "0 \<in> set (d # t)" if "c \<noteq> 0" using 1(3) that by (simp add: 1(2) [symmetric])
  ultimately show ?case using rd 1(1) [OF _ d [symmetric], of "n + 1"] d
    by (subst find_up.simps) (auto simp: 1(2) [symmetric])
next
  case 2
  then show ?case by simp
next
  case (3 c)
  then show ?case using drop_rd [of p b c "[]"] by (subst find_up.simps) (auto simp: 3(1) [symmetric])
qed

lemma find_down_run: "0 \<in> set (drop p b) \<Longrightarrow> find_down b p n = Some (p + down (drop p b), n - int (down (drop p b)))"
proof (induction "drop p b" arbitrary: p n rule: down.induct)
  case (1 c d t)
  note rd = drop_rd [OF 1(2) [symmetric]]
  then have d: "drop (p + 1) b = d # t" by simp
  from drop_rd [OF d] rd have "rd b (p + 1) = Some d" by simp
  moreover have "0 \<in> set (d # t)" if "c \<noteq> 0" using 1(3) that by (simp add: 1(2) [symmetric])
  ultimately show ?case using rd 1(1) [OF _ d [symmetric], of "n - 1"] d
    by (subst find_down.simps) (auto simp: 1(2) [symmetric])
next
  case 2
  then show ?case by simp
next
  case (3 c)
  then show ?case using drop_rd [of p b c "[]"] by (subst find_down.simps) (auto simp: 3(1) [symmetric])
qed

lemma up_steps: "up t = n \<Longrightarrow> i \<le> n \<Longrightarrow> t \<noteq> [] \<Longrightarrow> i < length t \<and> sint (t ! i) = sint (t ! 0) + int i \<and> (i < n \<longrightarrow> t ! i \<noteq> 0)"
proof (induction t arbitrary: n i rule: up.induct)
  case (1 c d t)
  then show ?case by (cases i) (auto split: if_splits)
qed auto

lemma down_steps: "down t = n \<Longrightarrow> i \<le> n \<Longrightarrow> t \<noteq> [] \<Longrightarrow> i < length t \<and> sint (t ! i) = sint (t ! 0) - int i \<and> (i < n \<longrightarrow> t ! i \<noteq> 0)"
proof (induction t arbitrary: n i rule: down.induct)
  case (1 c d t)
  then show ?case by (cases i) (auto split: if_splits)
qed auto

text \<open>A group is a palindrome of characters in a row, and does not reach the terminator.\<close>

lemma group_steps:
  assumes "group t = n" and "n > 0" and "i \<le> 2 * n"
  shows "i < length t" and "t ! i \<noteq> 0" and "sint (t ! i) = sint (t ! 0) + int (if i \<le> n then i else 2 * n - i)"
proof -
  have u: "up t = n" "down (drop n t) = n" using assms(1,2) by (auto simp: group_def split: if_splits)
  then have ne: "t \<noteq> []" "drop n t \<noteq> []" using assms(2) by auto
  have d: "n + j < length t" "sint (t ! (n + j)) = sint (t ! n) - int j" "j < n \<Longrightarrow> t ! (n + j) \<noteq> 0" if "j \<le> n" for j
    using down_steps [OF u(2) that ne(2)] ne(2) by (auto simp: nth_drop)
  have up: "j < length t" "sint (t ! j) = sint (t ! 0) + int j" "j < n \<Longrightarrow> t ! j \<noteq> 0" if "j \<le> n" for j
    using up_steps [OF u(1) that ne(1)] by simp_all
  have "sint (t ! (2 * n)) = sint (t ! 0)" using d(2) [of n] up(2) [of n] by (simp add: mult_2)
  moreover have "t ! 0 \<noteq> 0" using up(3) [of 0] assms(2) by simp
  ultimately have last: "t ! (2 * n) \<noteq> 0" by (metis signed_word_eqI)
  have "i < length t \<and> t ! i \<noteq> 0 \<and> sint (t ! i) = sint (t ! 0) + int (if i \<le> n then i else 2 * n - i)"
  proof (cases "i < n")
    case True
    with up [of i] show ?thesis by simp
  next
    case False
    define j where "j = i - n"
    have i: "i = n + j" "j \<le> n" using False assms(3) by (auto simp: j_def)
    have "t ! i \<noteq> 0"
    proof (cases "j = n")
      case True
      with last i show ?thesis by (simp add: mult_2)
    next
      case False
      with d(3) [OF i(2)] i show ?thesis by simp
    qed
    moreover have "sint (t ! i) = sint (t ! 0) + int n - int j" using d(2) [OF i(2)] up(2) [of n] i by simp
    moreover have "int (if i \<le> n then i else 2 * n - i) = int n - int j" using i by simp
    ultimately show ?thesis using d(1) [OF i(2)] i by simp
  qed
  then show "i < length t" and "t ! i \<noteq> 0" and "sint (t ! i) = sint (t ! 0) + int (if i \<le> n then i else 2 * n - i)"
    by auto
qed

lemma FindSubString_run: "0 \<in> set (drop p b) \<Longrightarrow> FindSubString b p = Some (int (group (drop p b)))"
proof -
  assume t: "0 \<in> set (drop p b)"
  let ?t = "drop p b"
  have "0 \<in> set (drop (up ?t) ?t)"
  proof -
    have "?t \<noteq> []" using t by auto
    obtain k where k: "k < length ?t" "?t ! k = 0" using t by (metis in_set_conv_nth)
    have "up ?t \<le> k"
    proof (rule ccontr)
      assume "\<not> up ?t \<le> k"
      with up_steps [OF refl, of k ?t] k \<open>?t \<noteq> []\<close> show False by auto
    qed
    then have "drop (up ?t) ?t ! (k - up ?t) = 0" "k - up ?t < length (drop (up ?t) ?t)" using k by auto
    then show ?thesis by (metis nth_mem)
  qed
  then have "find_down b (p + up ?t) (int (up ?t)) =
    Some (p + up ?t + down (drop (up ?t) ?t), int (up ?t) - int (down (drop (up ?t) ?t)))"
    using find_down_run [of "p + up ?t" b] by (simp add: add.commute)
  with find_up_run [OF t, of 0] show ?thesis by (simp add: FindSubString_def group_def)
qed

lemma digits_length: "n > 0 \<Longrightarrow> length (digits n) \<le> n"
proof (induction n rule: digits.induct)
  case (1 n)
  show ?case
  proof (cases "n < 10")
    case True
    with 1(2) show ?thesis by (subst digits.simps) simp
  next
    case False
    with 1 have "length (digits (n div 10)) \<le> n div 10" by simp
    moreover have "Suc (n div 10) \<le> n" using False by simp
    ultimately show ?thesis using False by (subst digits.simps) simp
  qed
qed

lemma digit_nonzero: "d < 10 \<Longrightarrow> (of_nat (48 + d) :: u8) \<noteq> 0"
  by (subst word_of_nat_eq_0_iff) (auto dest!: dvd_imp_le)

lemma digits_nonzero: "0 \<notin> set (digits n)"
proof (induction n rule: digits.induct)
  case (1 n)
  with digit_nonzero [of n] digit_nonzero [of "n mod 10"] show ?case
    by (subst digits.simps) (simp del: of_nat_add)
qed

lemma string_end_run: "p + length xs < length b \<Longrightarrow> take (length xs + 1) (drop p b) = xs @ [0] \<Longrightarrow> 0 \<notin> set xs \<Longrightarrow>
  string_end b p = Some (p + length xs)"
proof (induction xs arbitrary: p)
  case Nil
  then have "rd b p = Some 0" by (cases "drop p b") (auto dest: drop_rd)
  then show ?case by (subst string_end.simps) simp
next
  case (Cons x xs)
  then obtain t where t: "drop p b = x # t" "take (length xs + 1) t = xs @ [0]" by (cases "drop p b") auto
  with drop_rd [OF t(1)] Cons have "string_end b (p + 1) = Some (p + 1 + length xs)" by simp
  with Cons.prems(3) drop_rd [OF t(1)] show ?case by (subst string_end.simps) simp
qed

text \<open>What the buffer holds from the output position on: the compressed text, with a terminator or the old text behind it.\<close>

definition outcome :: "u8 list \<Rightarrow> u8 list \<Rightarrow> u8 list" where
  "outcome t old = compressed t @ (let tail = drop (length (compressed t)) old
     in if ends_in_group t then 0 # drop 1 tail else tail)"

lemma group_keeps_end:
  assumes "0 \<in> set (c # t)" and "group (c # t) = n" and "n > 0"
  shows "0 \<in> set (drop (2 * n) t)"
proof -
  obtain k where k: "k < length (c # t)" "(c # t) ! k = 0" using assms(1) by (metis in_set_conv_nth)
  then have "\<not> k \<le> 2 * n" using group_steps(2) [OF assms(2,3), of k] by auto
  with k have "k - 1 - 2 * n < length (drop (2 * n) t)" "drop (2 * n) t ! (k - 1 - 2 * n) = 0" by auto
  then show ?thesis by (metis nth_mem)
qed

abbreviation text_of :: "u8 list \<Rightarrow> u8 list" where
  "text_of t \<equiv> takeWhile (\<lambda>c. c \<noteq> 0) t"

lemma text_of_group:
  assumes "group (c # t) = n" and "n > 0"
  shows "length (text_of (c # t)) = 2 * n + 1 + length (text_of (drop (2 * n) t))"
proof -
  have "\<forall>x \<in> set (take (2 * n + 1) (c # t)). x \<noteq> 0"
  proof
    fix x assume "x \<in> set (take (2 * n + 1) (c # t))"
    then obtain i where "i < 2 * n + 1" "x = (c # t) ! i" by (metis in_set_conv_nth length_take min_less_iff_conj nth_take)
    with group_steps(2) [OF assms, of i] show "x \<noteq> 0" by simp
  qed
  then have "text_of (take (2 * n + 1) (c # t) @ drop (2 * n + 1) (c # t)) =
    take (2 * n + 1) (c # t) @ text_of (drop (2 * n + 1) (c # t))" by (intro takeWhile_append2) auto
  moreover have "2 * n < length (c # t)" using group_steps(1) [OF assms, of "2 * n"] by simp
  ultimately show ?thesis by (simp only: append_take_drop_id) simp
qed

lemma compressed_length: "length (compressed t) \<le> length (text_of t)"
proof (induction t rule: compressed.induct)
  case (2 c t)
  show ?case
  proof (cases "c \<noteq> 0 \<and> group (c # t) > 0")
    case True
    with 2(1) text_of_group [OF refl, of c t] digits_length [of "group (c # t)"] show ?thesis
      by (auto simp: compressed.simps(2))
  next
    case False
    with 2(2) show ?thesis by (auto simp: compressed.simps(2))
  qed
qed simp

lemma compressed_nonzero: "0 \<notin> set (compressed t)"
proof (induction t rule: compressed.induct)
  case (2 c t)
  then show ?case using digits_nonzero by (auto simp: compressed.simps(2))
qed simp

lemma write_at_drop: "write_at b p xs = Some b' \<Longrightarrow> p + length xs \<le> q \<Longrightarrow> drop q b' = drop q b"
  by (auto simp: write_at_def split: if_splits)

lemma outcome_copy: "c \<noteq> 0 \<Longrightarrow> group (c # t) = 0 \<Longrightarrow> outcome (c # t) old = c # outcome t (drop 1 old)"
  by (simp add: outcome_def compressed.simps(2) ends_in_group.simps(2))

lemma compressed_Nil: "0 \<in> set t \<Longrightarrow> compressed t = [] \<longleftrightarrow> hd t = 0"
  by (cases t) (auto simp: compressed.simps(2))

lemma outcome_group:
  assumes "c \<noteq> 0" and "group (c # t) = n" and "n > 0" and "0 \<in> set (drop (2 * n) t)"
  shows "outcome (c # t) old = c # digits n @ outcome (drop (2 * n) t) (0 # drop (length (digits n) + 2) old)"
proof -
  let ?t = "drop (2 * n) t" and ?d = "length (digits n)"
  have ends: "ends_in_group (c # t) \<longleftrightarrow> hd ?t = 0 \<or> ends_in_group ?t"
    using assms by (auto simp: ends_in_group.simps(2) split: list.splits)
  have comp: "compressed (c # t) = c # digits n @ compressed ?t" using assms by (simp add: compressed.simps(2))
  show ?thesis
  proof (cases "hd ?t = 0")
    case True
    then have "\<not> ends_in_group ?t" by (cases ?t) (auto simp: ends_in_group.simps(2))
    moreover have "compressed ?t = []" using compressed_Nil [OF assms(4)] True by simp
    ultimately show ?thesis using True ends comp by (simp add: outcome_def Let_def)
  next
    case False
    then obtain m where m: "length (compressed ?t) = Suc m"
      using compressed_Nil [OF assms(4)] by (cases "compressed ?t") auto
    with False ends comp show ?thesis by (simp add: outcome_def Let_def ac_simps)
  qed
qed

lemma modify_from_run:
  "drop p1 b = t \<Longrightarrow> 0 \<in> set t \<Longrightarrow> p2 \<le> p1 \<Longrightarrow> modify_from b p1 p2 = Some (take p2 b @ outcome t (drop p2 b))"
proof (induction t arbitrary: b p1 p2 rule: compressed.induct)
  case (2 c t)
  note c = drop_rd [OF 2(3)]
  have len: "length b = p1 + Suc (length t)" using 2(3) by (metis length_Cons length_drop le_add_diff_inverse less_imp_le rd_Some_iff c)
  show ?case
  proof (cases "c = 0")
    case True
    with c show ?thesis by (subst modify_from.simps) (simp add: outcome_def compressed.simps(2) ends_in_group.simps(2))
  next
    case False
    let ?n = "group (c # t)"
    have find: "FindSubString b p1 = Some (int ?n)" using FindSubString_run [of p1 b] 2(3,4) by simp
    define b1 where "b1 = take p2 b @ [c] @ drop (p2 + 1) b"
    have w1: "write_at b p2 [c] = Some b1" using len 2(5) by (simp add: write_at_def b1_def)
    have l1: "length b1 = length b" using w1 by (rule write_at_length)
    show ?thesis
    proof (cases "?n > 0")
      case no: False
      have "drop (p1 + 1) b1 = t" using write_at_drop [OF w1, of "p1 + 1"] 2(5) c by simp
      from 2(2) [OF False no this _ , of "p2 + 1"] False 2(4,5)
      have "modify_from b1 (p1 + 1) (p2 + 1) = Some (take (p2 + 1) b1 @ outcome t (drop (p2 + 1) b1))" by simp
      moreover have "take (p2 + 1) b1 = take p2 b @ [c]" "drop (p2 + 1) b1 = drop (p2 + 1) b"
        using len 2(5) by (simp_all add: b1_def)
      ultimately show ?thesis using c False no find w1
        by (subst modify_from.simps) (simp add: outcome_copy)
    next
      case True
      let ?d = "digits ?n" and ?t = "drop (2 * ?n) t"
      have t0: "0 \<in> set ?t" by (rule group_keeps_end [OF 2(4) refl True])
      have dl: "length ?d \<le> ?n" by (rule digits_length [OF True])
      have tl: "2 * ?n < length t" using t0 by (metis length_drop length_pos_if_in_set zero_less_diff)
      define b2 where "b2 = take (p2 + 1) b1 @ (?d @ [0]) @ drop (p2 + 1 + length (?d @ [0])) b1"
      have w2: "write_at b1 (p2 + 1) (?d @ [0]) = Some b2"
        using len l1 2(5) dl tl by (simp add: write_at_def b2_def)
      have l2: "length b2 = length b" using write_at_length [OF w2] l1 by simp
      have t1: "take (p2 + 1) b1 = take p2 b @ [c]" using len 2(5) by (simp add: b1_def)
      have d1: "drop q b1 = drop q b" if "q \<ge> p2 + 1" for q using write_at_drop [OF w1] that by simp
      have b2: "b2 = take p2 b @ c # ?d @ 0 # drop (p2 + length ?d + 2) b"
        using t1 d1 [of "p2 + length ?d + 2"] by (simp add: b2_def)
      have p2: "length (take p2 b) = p2" using len 2(5) by simp
      have "string_end b2 (p2 + 1) = Some (p2 + 1 + length ?d)"
      proof (rule string_end_run [OF _ _ digits_nonzero])
        show "p2 + 1 + length ?d < length b2" using l2 len 2(5) dl tl by simp
        show "take (length ?d + 1) (drop (p2 + 1) b2) = ?d @ [0]" unfolding b2 using p2 by simp
      qed
      moreover have "modify_from b2 (p1 + ?n + ?n + 1) (p2 + 1 + length ?d) =
        Some (take (p2 + 1 + length ?d) b2 @ outcome ?t (drop (p2 + 1 + length ?d) b2))"
      proof (rule 2(1) [OF False True _ t0])
        have "drop (p1 + ?n + ?n + 1) b2 = drop (p1 + ?n + ?n + 1) b"
          using write_at_drop [OF w2, of "p1 + ?n + ?n + 1"] d1 2(5) dl True by simp
        also have "\<dots> = drop (2 * ?n) (drop (p1 + 1) b)" by (simp add: add.commute mult_2 add.left_commute)
        also have "drop (p1 + 1) b = t" using c by simp
        finally show "drop (p1 + ?n + ?n + 1) b2 = ?t" .
        show "p2 + 1 + length ?d \<le> p1 + ?n + ?n + 1" using 2(5) dl by simp
      qed
      moreover have "take (p2 + 1 + length ?d) b2 = take p2 b @ c # ?d"
        "drop (p2 + 1 + length ?d) b2 = 0 # drop (length ?d + 2) (drop p2 b)"
        unfolding b2 using p2 by (simp_all add: add.commute)
      ultimately show ?thesis using c False True find w1 w2 outcome_group [OF False refl True t0]
        by (subst modify_from.simps) simp
    qed
  qed
qed simp

text \<open>
  C32: The compression of a text in a buffer stays inside the buffer, ends, and puts the compressed text at the
  start, in which every maximal run that goes up \<^verbatim>\<open>n\<close> steps and comes down \<^verbatim>\<open>n\<close> steps, a palindrome, is its first
  character and the number \<^verbatim>\<open>n\<close>.  A terminator follows only when the text ends in such a run or holds none; otherwise
  the rest of the old text does.
\<close>

theorem modify_string_compresses:
  assumes "0 \<notin> set s" and t_def: "t = s @ 0 # rest"
  shows "(\<exists>b. ModifyString t = Some b \<and>
      text_of b = compressed t @ (if ends_in_group t then [] else drop (length (compressed t)) s)) \<and>
    (group t > 0 \<longrightarrow> rev (take (2 * group t + 1) t) = take (2 * group t + 1) t)"
proof (intro conjI impI)
  let ?c = "compressed t"
  have t: "text_of t = s" using assms(1) by (simp add: t_def takeWhile_append)
  have run: "ModifyString t = Some (outcome t t)"
    using modify_from_run [of 0 t t 0] by (simp add: ModifyString_def t_def)
  have "length ?c \<le> length s" using compressed_length [of t] t by simp
  then have tail: "drop (length ?c) t = drop (length ?c) s @ 0 # rest" by (simp add: t_def)
  have "0 \<notin> set (drop (length ?c) s)" using assms(1) by (meson in_set_dropD)
  then have "text_of (drop (length ?c) s @ 0 # rest) = drop (length ?c) s" by (simp add: takeWhile_append)
  moreover have "text_of (?c @ xs) = ?c @ text_of xs" for xs
    using compressed_nonzero [of t] by (auto intro!: takeWhile_append2)
  ultimately have "text_of (outcome t t) = ?c @ (if ends_in_group t then [] else drop (length ?c) s)"
    using tail by (simp add: outcome_def)
  with run show "\<exists>b. ModifyString t = Some b \<and> text_of b = ?c @ (if ends_in_group t then [] else drop (length ?c) s)" by blast
  assume g: "group t > 0"
  show "rev (take (2 * group t + 1) t) = take (2 * group t + 1) t"
  proof (rule nth_equalityI)
    fix i assume "i < length (rev (take (2 * group t + 1) t))"
    then have i: "i \<le> 2 * group t" "i < length t" by auto
    let ?j = "2 * group t - i"
    have "sint (t ! i) = sint (t ! ?j)" using group_steps(3) [OF refl g, of i] group_steps(3) [OF refl g, of ?j] i by (simp split: if_splits)
    then have "t ! i = t ! ?j" by (rule signed_word_eqI)
    moreover have "2 * group t < length t" using group_steps(1) [OF refl g, of "2 * group t"] by simp
    ultimately show "rev (take (2 * group t + 1) t) ! i = take (2 * group t + 1) t ! i" using i by (simp add: rev_nth)
  qed simp
qed

text \<open>The text \<^verbatim>\<open>ABAX\<close> becomes \<^verbatim>\<open>A1XX\<close>, and \<^verbatim>\<open>XABCBA\<close> becomes \<^verbatim>\<open>XA2\<close>.\<close>

lemma modify_string_compresses_witness:
  "(\<exists>b. ModifyString [65, 66, 65, 88, 0] = Some b \<and> text_of b = [65, 49, 88, 88]) \<and>
   (\<exists>b. ModifyString [88, 65, 66, 67, 66, 65, 0] = Some b \<and> text_of b = [88, 65, 50])"
proof -
  have d: "digits (Suc 0) = [49]" "digits (Suc (Suc 0)) = [50]" by (subst digits.simps, simp)+
  have "compressed [65, 66, 65, 88, 0] = [65, 49, 88]" "\<not> ends_in_group [65, 66, 65, 88, 0]"
    by (simp_all add: compressed.simps(2) ends_in_group.simps(2) group_def d)
  moreover have "compressed [88, 65, 66, 67, 66, 65, 0] = [88, 65, 50]" "ends_in_group [88, 65, 66, 67, 66, 65, 0]"
    by (simp_all add: compressed.simps(2) ends_in_group.simps(2) group_def d)
  ultimately show ?thesis
    using modify_string_compresses [of "[65, 66, 65, 88]" _ "[]"] modify_string_compresses [of "[88, 65, 66, 67, 66, 65]" _ "[]"]
    by auto
qed

end
