(* ===== verification/Tcp_Server.thy ===== *)
theory Tcp_Server
  imports Tcp_Transport
begin

text \<open>
  The life of a server, \<^verbatim>\<open>net/transport/tcp/server.h\<close> on \<^verbatim>\<open>session_pool.h\<close>: its address, its acceptor, the thread
  that \<^verbatim>\<open>run\<close> starts, and the destructors.  The sessions are those of \<open>Tcp_Transport\<close>.  What the library answers
  (whether a text is an address, and whether opening, binding and listening succeed) are arguments.
\<close>

section \<open>The code\<close>

text \<open>An endpoint of IP version 4 on every interface, or at an address.\<close>

datatype 'a endpoint = Any_v4 nat | Endpoint 'a nat

record 'a tcp_server =
  ts_server_addr :: "'a endpoint"
  ts_open :: bool
  ts_reuse :: bool
  ts_listening :: bool
  ts_context :: bool
  ts_pool :: server

definition new_server :: "'a tcp_server" where
  "new_server = \<lparr>ts_server_addr = Any_v4 0, ts_open = False, ts_reuse = False, ts_listening = False, ts_context = False,
     ts_pool = \<lparr>sv_sequence_id = 0, sv_objects = Map.empty, sv_accepting = None, sv_reading = {}, sv_stopped = False,
       sv_log = []\<rparr>\<rparr>"

definition set_addr :: "(string \<Rightarrow> 'a option) \<Rightarrow> nat \<Rightarrow> string \<Rightarrow> 'a tcp_server \<Rightarrow> bool \<times> 'a tcp_server" where
  "set_addr make_address port ip s =
     (if ip = [] then (True, s\<lparr>ts_server_addr := Any_v4 port\<rparr>)
      else case make_address ip of
        None \<Rightarrow> (False, s)
      | Some addr \<Rightarrow> (True, s\<lparr>ts_server_addr := Endpoint addr port\<rparr>))"

text \<open>An option cannot be set while the acceptor is closed; the error is dropped.\<close>

definition set_sockopt_reuse :: "'a tcp_server \<Rightarrow> 'a tcp_server" where
  "set_sockopt_reuse s = (if ts_open s then s\<lparr>ts_reuse := True\<rparr> else s)"

text \<open>A call returns, throws, or ends the process.\<close>

datatype 'a server_call = Returns bool "'a tcp_server" | Throws "'a tcp_server" | Terminates

definition run :: "'a tcp_server \<Rightarrow> 'a server_call" where
  "run s = (if ts_context s then Terminates else Returns True (s\<lparr>ts_context := True\<rparr>))"

definition start_server :: "bool \<Rightarrow> bool \<Rightarrow> bool \<Rightarrow> 'a tcp_server \<Rightarrow> 'a server_call" where
  "start_server opens binds listens s =
     (if \<not> ts_open s \<and> \<not> opens then Returns False s
      else
        let s = s\<lparr>ts_open := True\<rparr> in
        if \<not> binds then Throws s
        else if \<not> listens then Returns False s
        else run (s\<lparr>ts_listening := True, ts_pool := do_accept (ts_pool s)\<rparr>))"

text \<open>\<^verbatim>\<open>~server\<close> shuts down, \<^verbatim>\<open>~session_pool\<close> joins the thread.\<close>

definition destroy_server :: "'a tcp_server \<Rightarrow> 'a server_call" where
  "destroy_server s = (let s = s\<lparr>ts_pool := shutdown (ts_pool s)\<rparr> in
     if ts_context s then Returns True (s\<lparr>ts_context := False\<rparr>) else Terminates)"

text \<open>The two operations of a session that the server itself never calls.\<close>

definition stop_session :: "session \<Rightarrow> session" where
  "stop_session ss = ss\<lparr>ss_stopped := True\<rparr>"

definition connect_fail :: "session \<Rightarrow> session" where
  "connect_fail ss = ss\<lparr>ss_status := Connectfail\<rparr>"

section \<open>Any sequence of calls\<close>

datatype server_op = Op_set_addr nat string | Op_set_sockopt_reuse | Op_start bool bool bool

fun call_op :: "(string \<Rightarrow> 'a option) \<Rightarrow> server_op \<Rightarrow> 'a tcp_server \<Rightarrow> 'a server_call" where
  "call_op make_address (Op_set_addr port ip) s = (case set_addr make_address port ip s of (b, s) \<Rightarrow> Returns b s)"
| "call_op make_address Op_set_sockopt_reuse s = Returns True (set_sockopt_reuse s)"
| "call_op make_address (Op_start opens binds listens) s = start_server opens binds listens s"

text \<open>The results of the calls, an exception as \<open>None\<close>, and the last state; \<open>None\<close> is the end of the process.\<close>

fun server_ops ::
  "(string \<Rightarrow> 'a option) \<Rightarrow> server_op list \<Rightarrow> 'a tcp_server \<Rightarrow> (bool option list \<times> 'a tcp_server) option" where
  "server_ops make_address [] s = Some ([], s)"
| "server_ops make_address (op # ops) s = (case call_op make_address op s of
     Returns b s \<Rightarrow> map_option (\<lambda>(rs, s). (Some b # rs, s)) (server_ops make_address ops s)
   | Throws s \<Rightarrow> map_option (\<lambda>(rs, s). (None # rs, s)) (server_ops make_address ops s)
   | Terminates \<Rightarrow> None)"

fun started :: "server_op \<times> bool option \<Rightarrow> bool" where
  "started (Op_start opens binds listens, r) \<longleftrightarrow> r = Some True"
| "started _ \<longleftrightarrow> False"

definition waiting :: "'a tcp_server \<Rightarrow> nat" where
  "waiting s = sv_sequence_id (ts_pool s)"

definition num :: "bool \<Rightarrow> nat" where
  "num b = (if b then 1 else 0)"

lemma call_op_count:
  assumes "call_op make_address op s = Returns b s' \<or> call_op make_address op s = Throws s' \<and> r = None"
    and "call_op make_address op s = Returns b s' \<longrightarrow> r = Some b"
  shows "waiting s' = waiting s + num (started (op, r)) \<and>
    num (ts_context s') = num (ts_context s) + num (started (op, r)) \<and>
    (ts_listening s' \<longleftrightarrow> ts_listening s \<or> started (op, r))"
  using assms by (cases op)
    (auto simp: set_addr_def set_sockopt_reuse_def start_server_def run_def waiting_def do_accept_def create_object_def
      num_def Let_def split: if_splits option.splits)

lemma server_ops_count:
  "server_ops make_address ops s = Some (rs, s') \<Longrightarrow>
   waiting s' = waiting s + length (filter started (zip ops rs)) \<and>
   num (ts_context s') = num (ts_context s) + length (filter started (zip ops rs)) \<and>
   (ts_listening s' \<longleftrightarrow> ts_listening s \<or> filter started (zip ops rs) \<noteq> [])"
proof (induction ops arbitrary: s rs)
  case (Cons op ops)
  from Cons.prems obtain r s1 rs' where rs: "rs = r # rs'" "server_ops make_address ops s1 = Some (rs', s')"
    and r: "(\<exists>b. call_op make_address op s = Returns b s1 \<and> r = Some b) \<or> call_op make_address op s = Throws s1 \<and> r = None"
    by (auto split: server_call.splits)
  have "waiting s1 = waiting s + num (started (op, r)) \<and>
    num (ts_context s1) = num (ts_context s) + num (started (op, r)) \<and>
    (ts_listening s1 \<longleftrightarrow> ts_listening s \<or> started (op, r))"
    using r call_op_count [of make_address op s _ s1 r] by auto
  with Cons.IH [OF rs(2)] rs(1) show ?case by (cases "started (op, r)") (simp_all add: num_def)
qed simp

section \<open>Properties\<close>

text \<open>
  C33: A server starts at most once.  However the calls that set the address, set the option and start are mixed,
  and whatever the library answers, at most one start reports success; then the server listens, one accept has been
  made, and its destructor returns.  If no start succeeded the destructor ends the process, because it joins a
  thread that does not exist; a failing bind is an exception although \<^verbatim>\<open>start\<close> looks for an error code; and the
  option that is set before a start is lost, because the acceptor is closed.
\<close>

theorem server_starts_once:
  assumes "server_ops make_address ops new_server = Some (rs, s)"
  shows "length (filter started (zip ops rs)) \<le> 1 \<and>
    (if ts_context s
     then length (filter started (zip ops rs)) = 1 \<and> ts_listening s \<and> waiting s = 1 \<and> (\<exists>s'. destroy_server s = Returns True s')
     else filter started (zip ops rs) = [] \<and> \<not> ts_listening s \<and> waiting s = 0 \<and> destroy_server s = Terminates) \<and>
    start_server True False listens s = Throws (s\<lparr>ts_open := True\<rparr>) \<and>
    (\<not> ts_open s \<longrightarrow> set_sockopt_reuse s = s)"
proof -
  have n: "waiting s = length (filter started (zip ops rs))"
    "num (ts_context s) = length (filter started (zip ops rs))"
    "ts_listening s \<longleftrightarrow> filter started (zip ops rs) \<noteq> []"
    using server_ops_count [OF assms] by (simp_all add: new_server_def waiting_def num_def)
  then show ?thesis
    by (cases "ts_context s") (auto simp: destroy_server_def start_server_def set_sockopt_reuse_def num_def Let_def)
qed

text \<open>The port is taken at the first start; the second one succeeds, a third one fails to bind.\<close>

lemma server_starts_once_witness:
  "\<exists>s. server_ops (\<lambda>_. None :: nat option) [Op_set_sockopt_reuse, Op_set_addr 80 ''x'', Op_set_addr 80 [], Op_start True False True,
       Op_start False True True, Op_start True False True] new_server = Some ([Some True, Some False, Some True, None, Some True, None], s) \<and>
     waiting s = 1 \<and> (\<exists>s'. destroy_server s = Returns True s')"
proof -
  let ?ops = "[Op_set_sockopt_reuse, Op_set_addr 80 ''x'', Op_set_addr 80 [], Op_start True False True,
    Op_start False True True, Op_start True False True]"
  let ?rs = "[Some True, Some False, Some True, None, Some True, None]"
  obtain s where s: "server_ops (\<lambda>_. None :: nat option) ?ops new_server = Some (?rs, s)"
    by (simp add: new_server_def set_addr_def set_sockopt_reuse_def start_server_def run_def Let_def)
  have "filter started (zip ?ops ?rs) = [(Op_start False True True, Some True)]" by simp
  with server_starts_once [OF s, of True] have "waiting s = 1 \<and> (\<exists>s'. destroy_server s = Returns True s')"
    by (cases "ts_context s") simp_all
  with s show ?thesis by blast
qed

end
