(* ===== verification/Crypt_Md5.thy ===== *)
theory Crypt_Md5
  imports Prelude
begin

text \<open>
  \<^verbatim>\<open>encrypt_md5\<close> of \<^verbatim>\<open>core/crypt/crypt.cpp\<close>, built for Linux.  The digest function of OpenSSL is an argument.
\<close>

definition hex_digit :: "nat \<Rightarrow> char" where
  "hex_digit d = char_of (if d < 10 then 48 + d else 87 + d)"

text \<open>What \<^verbatim>\<open>sprintf(..., "%2.2x", b)\<close> writes.\<close>

definition sprintf_hex :: "u8 \<Rightarrow> string" where
  "sprintf_hex b = [hex_digit (unat b div 16), hex_digit (unat b mod 16), CHR 0x00]"

definition write_text :: "string \<Rightarrow> nat \<Rightarrow> string \<Rightarrow> string option" where
  "write_text buf p xs = (if p + length xs \<le> length buf then Some (take p buf @ xs @ drop (p + length xs) buf) else None)"

text \<open>The loop from \<open>i\<close> on.\<close>

fun write_digest :: "u8 list \<Rightarrow> nat \<Rightarrow> string \<Rightarrow> string option" where
  "write_digest [] i buf = Some buf"
| "write_digest (b # md5str) i buf = do {
     buf \<leftarrow> write_text buf (i * 3) (sprintf_hex b);
     write_digest md5str (i + 1) buf }"

definition encrypt_md5 :: "(u8 list \<Rightarrow> u8 list) \<Rightarrow> u8 list \<Rightarrow> string option" where
  "encrypt_md5 MD5 src = do {
     buf \<leftarrow> write_digest (take 16 (MD5 src)) 0 (replicate 512 CHR 0x00);
     Some (takeWhile (\<lambda>c. c \<noteq> CHR 0x00) buf) }"

lemma hex_digit_nonzero: "d < 16 \<Longrightarrow> hex_digit d \<noteq> CHR 0x00"
  by (cases "d < 10") (auto simp: hex_digit_def char_of_eq_iff take_bit_nat_eq_self)

lemma write_digest_run:
  "i * 3 + length ds * 3 \<le> length buf \<Longrightarrow>
   write_digest ds i buf = Some (take (i * 3) buf @ concat (map sprintf_hex ds) @ drop (i * 3 + length ds * 3) buf)"
proof (induction ds arbitrary: i buf)
  case (Cons d ds)
  let ?b = "take (i * 3) buf @ sprintf_hex d @ drop (i * 3 + 3) buf"
  have l: "length (sprintf_hex d) = 3" by (simp add: sprintf_hex_def)
  have w: "write_text buf (i * 3) (sprintf_hex d) = Some ?b" using Cons.prems l by (simp add: write_text_def)
  have "length ?b = length buf" "take ((i + 1) * 3) ?b = take (i * 3) buf @ sprintf_hex d"
    "drop ((i + 1) * 3 + length ds * 3) ?b = drop (i * 3 + length (d # ds) * 3) buf"
    using Cons.prems l by (simp_all add: algebra_simps)
  with Cons.IH [of "i + 1" ?b] Cons.prems w show ?case by (simp add: algebra_simps)
qed simp

text \<open>The offsets leave a terminator behind every byte, so that the result ends with the first one.\<close>

lemma encrypt_md5_first_byte:
  assumes "length (MD5 src) = 16"
  shows "encrypt_md5 MD5 src = Some [hex_digit (unat (hd (MD5 src)) div 16), hex_digit (unat (hd (MD5 src)) mod 16)]"
proof -
  obtain d ds where d: "MD5 src = d # ds" "length ds = 15" using assms by (cases "MD5 src") auto
  have "unat d div 16 < 16" using unsigned_less [of d, where 'a = nat] by (simp add: less_mult_imp_div_less)
  then have "hex_digit (unat d div 16) \<noteq> CHR 0x00" "hex_digit (unat d mod 16) \<noteq> CHR 0x00"
    by (simp_all add: hex_digit_nonzero)
  then show ?thesis using write_digest_run [of 0 "d # ds" "replicate 512 CHR 0x00"] d
    by (simp add: encrypt_md5_def sprintf_hex_def)
qed

end
