(* ===== verification/Maze.thy ===== *)
theory Maze
  imports Tree_Store
begin

text \<open>
  The maze of \<^verbatim>\<open>memory/design/maze.cpp\<close>: rooms, walls and doors are objects in a store, and a room points to what
  is on its four sides.  \<open>None\<close> is undefined behaviour: a side that was never set, or a room that does not exist.
\<close>

section \<open>The code\<close>

datatype direction = North | South | East | West

text \<open>A pointer to a \<^verbatim>\<open>MapSite\<close>: a room, a wall or a door.\<close>

datatype site = A_Room nat | A_Wall nat | A_Door nat

record room =
  r_sides :: "direction \<Rightarrow> site option"
  r_roomNumber :: int

record door =
  d_room1 :: ptr
  d_room2 :: ptr

record world =
  w_rooms :: "room store"
  w_doors :: "door store"
  w_walls :: "unit store"

definition new_room :: "int \<Rightarrow> world \<Rightarrow> nat \<times> world" where
  "new_room no w = (let (a, s) = alloc \<lparr>r_sides = (\<lambda>_. None), r_roomNumber = no\<rparr> (w_rooms w) in (a, w\<lparr>w_rooms := s\<rparr>))"

definition new_wall :: "world \<Rightarrow> nat \<times> world" where
  "new_wall w = (let (a, s) = alloc () (w_walls w) in (a, w\<lparr>w_walls := s\<rparr>))"

definition new_door :: "ptr \<Rightarrow> ptr \<Rightarrow> world \<Rightarrow> nat \<times> world" where
  "new_door r1 r2 w = (let (a, s) = alloc \<lparr>d_room1 = r1, d_room2 = r2\<rparr> (w_doors w) in (a, w\<lparr>w_doors := s\<rparr>))"

definition GetSide :: "nat \<Rightarrow> direction \<Rightarrow> world \<Rightarrow> site option" where
  "GetSide r d w = do { x \<leftarrow> deref (w_rooms w) (Some r); r_sides x d }"

definition SetSide :: "nat \<Rightarrow> direction \<Rightarrow> site \<Rightarrow> world \<Rightarrow> world option" where
  "SetSide r d s w = map_option (\<lambda>h. w\<lparr>w_rooms := h\<rparr>) (modify (Some r) (\<lambda>x. x\<lparr>r_sides := (r_sides x)(d \<mapsto> s)\<rparr>) (w_rooms w))"

definition Number :: "nat \<Rightarrow> world \<Rightarrow> int option" where
  "Number r w = map_option r_roomNumber (deref (w_rooms w) (Some r))"

text \<open>The exception \<^verbatim>\<open>logic_error\<close> is \<open>Some None\<close>.\<close>

definition OtherSideFrom :: "nat \<Rightarrow> ptr \<Rightarrow> world \<Rightarrow> ptr option option" where
  "OtherSideFrom a r w = do {
     x \<leftarrow> deref (w_doors w) (Some a);
     Some (if r = d_room1 x then Some (d_room2 x) else if r = d_room2 x then Some (d_room1 x) else None) }"

type_synonym maze = "int \<rightharpoonup> nat"

definition AddRoom :: "nat \<Rightarrow> maze \<Rightarrow> world \<Rightarrow> maze option" where
  "AddRoom r m w = do { no \<leftarrow> Number r w; Some (m(no \<mapsto> r)) }"

definition RoomNo :: "int \<Rightarrow> maze \<Rightarrow> nat option" where
  "RoomNo no m = m no"

definition MazeGame :: "world \<Rightarrow> (maze \<times> world) option" where
  "MazeGame w = do {
     let m = Map.empty;
     let (r1, w) = new_room 1 w;
     let (r2, w) = new_room 2 w;
     let (theDoor, w) = new_door (Some r1) (Some r2) w;
     m \<leftarrow> AddRoom r1 m w;
     m \<leftarrow> AddRoom r2 m w;
     let (x, w) = new_wall w; w \<leftarrow> SetSide r1 North (A_Wall x) w;
     w \<leftarrow> SetSide r1 East (A_Door theDoor) w;
     let (x, w) = new_wall w; w \<leftarrow> SetSide r1 South (A_Wall x) w;
     let (x, w) = new_wall w; w \<leftarrow> SetSide r1 West (A_Wall x) w;
     let (x, w) = new_wall w; w \<leftarrow> SetSide r2 North (A_Wall x) w;
     let (x, w) = new_wall w; w \<leftarrow> SetSide r2 East (A_Wall x) w;
     let (x, w) = new_wall w; w \<leftarrow> SetSide r2 South (A_Wall x) w;
     w \<leftarrow> SetSide r2 West (A_Door theDoor) w;
     Some (m, w) }"

text \<open>The same with a factory, whose virtual functions are fields.\<close>

record factory =
  MakeMaze :: "maze"
  MakeWall :: "world \<Rightarrow> nat \<times> world"
  MakeRoom :: "int \<Rightarrow> world \<Rightarrow> nat \<times> world"
  MakeDoor :: "ptr \<Rightarrow> ptr \<Rightarrow> world \<Rightarrow> nat \<times> world"

definition MazeFactory :: factory where
  "MazeFactory = \<lparr>MakeMaze = Map.empty, MakeWall = new_wall, MakeRoom = new_room, MakeDoor = new_door\<rparr>"

definition MazeGame_with :: "factory \<Rightarrow> world \<Rightarrow> (maze \<times> world) option" where
  "MazeGame_with factory w = do {
     let m = MakeMaze factory;
     let (r1, w) = MakeRoom factory 1 w;
     let (r2, w) = MakeRoom factory 2 w;
     let (theDoor, w) = MakeDoor factory (Some r1) (Some r2) w;
     m \<leftarrow> AddRoom r1 m w;
     m \<leftarrow> AddRoom r2 m w;
     let (x, w) = MakeWall factory w; w \<leftarrow> SetSide r1 North (A_Wall x) w;
     w \<leftarrow> SetSide r1 East (A_Door theDoor) w;
     let (x, w) = MakeWall factory w; w \<leftarrow> SetSide r1 South (A_Wall x) w;
     let (x, w) = MakeWall factory w; w \<leftarrow> SetSide r1 West (A_Wall x) w;
     let (x, w) = MakeWall factory w; w \<leftarrow> SetSide r2 North (A_Wall x) w;
     let (x, w) = MakeWall factory w; w \<leftarrow> SetSide r2 East (A_Wall x) w;
     let (x, w) = MakeWall factory w; w \<leftarrow> SetSide r2 South (A_Wall x) w;
     w \<leftarrow> SetSide r2 West (A_Door theDoor) w;
     Some (m, w) }"

section \<open>The maze\<close>

text \<open>The plain factory builds what the function without a factory builds.\<close>

lemma maze_factory_plain: "MazeGame_with MazeFactory w = MazeGame w"
  by (simp add: MazeGame_with_def MazeGame_def MazeFactory_def)

definition world_ok :: "world \<Rightarrow> bool" where
  "world_ok w \<longleftrightarrow> store_ok (w_rooms w) \<and> store_ok (w_doors w) \<and> store_ok (w_walls w)"

text \<open>
  The game runs to its end in any world; its maze has the rooms 1 and 2, the door in the east of the first one and
  in the west of the second one leads from each to the other and from nowhere else, and walls are on all other sides.
\<close>

lemma maze_connected:
  assumes "world_ok w"
  shows "\<exists>m w' r1 r2 a. MazeGame w = Some (m, w') \<and> dom m = {1, 2} \<and> RoomNo 1 m = Some r1 \<and> RoomNo 2 m = Some r2 \<and> r1 \<noteq> r2 \<and>
    GetSide r1 East w' = Some (A_Door a) \<and> GetSide r2 West w' = Some (A_Door a) \<and>
    (\<forall>p. OtherSideFrom a p w' = Some (if p = Some r1 then Some (Some r2) else if p = Some r2 then Some (Some r1) else None)) \<and>
    (\<forall>d. d \<noteq> East \<longrightarrow> (\<exists>x. GetSide r1 d w' = Some (A_Wall x))) \<and> (\<forall>d. d \<noteq> West \<longrightarrow> (\<exists>x. GetSide r2 d w' = Some (A_Wall x))) \<and>
    (\<forall>r \<in> dom (cells (w_rooms w)). cells (w_rooms w') r = cells (w_rooms w) r)"
proof -
  let ?r = "next_free (w_rooms w)"
  have new: "cells (w_rooms w) ?r = None" "cells (w_rooms w) (Suc ?r) = None"
    using assms by (simp_all add: world_ok_def store_ok_def)
  obtain w' where run: "MazeGame w = Some ([1 \<mapsto> ?r, 2 \<mapsto> Suc ?r], w')"
    and doors: "cells (w_doors w') (next_free (w_doors w)) = Some \<lparr>d_room1 = Some ?r, d_room2 = Some (Suc ?r)\<rparr>"
    and rooms: "cells (w_rooms w') = (cells (w_rooms w))
       (?r \<mapsto> \<lparr>r_sides = [North \<mapsto> A_Wall (next_free (w_walls w)), East \<mapsto> A_Door (next_free (w_doors w)),
          South \<mapsto> A_Wall (Suc (next_free (w_walls w))), West \<mapsto> A_Wall (Suc (Suc (next_free (w_walls w))))], r_roomNumber = 1\<rparr>,
        Suc ?r \<mapsto> \<lparr>r_sides = [North \<mapsto> A_Wall (next_free (w_walls w) + 3), East \<mapsto> A_Wall (next_free (w_walls w) + 4),
          South \<mapsto> A_Wall (next_free (w_walls w) + 5), West \<mapsto> A_Door (next_free (w_doors w))], r_roomNumber = 2\<rparr>)"
    by (simp add: MazeGame_def new_room_def new_door_def new_wall_def alloc_def AddRoom_def Number_def SetSide_def
        Let_def fun_upd_twist fun_eq_iff)
  have wall: "d \<noteq> East \<Longrightarrow> \<exists>x. GetSide ?r d w' = Some (A_Wall x)" "d \<noteq> West \<Longrightarrow> \<exists>x. GetSide (Suc ?r) d w' = Some (A_Wall x)" for d
    by (cases d; simp add: GetSide_def rooms)+
  show ?thesis
    by (rule exI [of _ "[1 \<mapsto> ?r, 2 \<mapsto> Suc ?r]"], rule exI [of _ w'], rule exI [of _ ?r], rule exI [of _ "Suc ?r"],
        rule exI [of _ "next_free (w_doors w)"])
      (use run doors rooms wall new in \<open>auto simp: RoomNo_def GetSide_def OtherSideFrom_def\<close>)
qed

end
