(* ===== verification/Cjson.thy ===== *)
theory Cjson
  imports Prelude
begin

text \<open>
  The JSON parser and printer of \<^verbatim>\<open>memory/face++_pro/parseJson/cJSON.c\<close>.  A node with its children is a value of a
  datatype.  \<open>None\<close> is undefined behaviour: an access outside the text that is parsed or outside a buffer that was
  allocated for a result, or an \<^verbatim>\<open>int\<close> that does not hold its value.  Memory is always there.  The operations
  on \<^verbatim>\<open>double\<close> are an argument.
\<close>

section \<open>Values\<close>

datatype 'd cjson = C_False | C_True | C_NULL | C_Number int 'd | C_String string
  | C_Array "'d cjson list" | C_Object "(string \<times> 'd cjson) list"

text \<open>
  \<^verbatim>\<open>n * 10.0 + digit\<close>; \<^verbatim>\<open>sign * n * pow(10.0, e)\<close>; \<^verbatim>\<open>(int) n\<close>, \<open>None\<close> if it does not fit; whether the first test of
  \<^verbatim>\<open>print_number\<close>, the one for whole numbers and the one for \<^verbatim>\<open>%e\<close> hold; and the texts of \<^verbatim>\<open>sprintf\<close>.
\<close>

record 'd doubles =
  d_zero :: 'd
  d_push :: "'d \<Rightarrow> nat \<Rightarrow> 'd"
  d_scale :: "bool \<Rightarrow> 'd \<Rightarrow> int \<Rightarrow> 'd"
  d_int :: "'d \<Rightarrow> int option"
  d_is_int :: "int \<Rightarrow> 'd \<Rightarrow> bool"
  d_whole :: "'d \<Rightarrow> bool"
  d_extreme :: "'d \<Rightarrow> bool"
  d_text_0f :: "'d \<Rightarrow> string"
  d_text_e :: "'d \<Rightarrow> string"
  d_text_f :: "'d \<Rightarrow> string"

section \<open>Reading\<close>

text \<open>A failure is the position \<^verbatim>\<open>ep\<close>; a success what was read and the position behind it.\<close>

function skip :: "string \<Rightarrow> nat \<Rightarrow> nat option" where
  "skip b p = do { c \<leftarrow> rd b p; if c \<noteq> CHR 0x00 \<and> (of_char c :: nat) \<le> 32 then skip b (p + 1) else Some p }"
  by auto
termination by (relation "measure (\<lambda>(b, p). length b - p)") (auto simp: rd_Some_iff)

definition digit_char :: "char \<Rightarrow> bool" where
  "digit_char c \<longleftrightarrow> 48 \<le> (of_char c :: nat) \<and> (of_char c :: nat) \<le> 57"

definition digit_value :: "char \<Rightarrow> nat" where
  "digit_value c = of_char c - 48"

text \<open>The digits from \<open>p\<close> on, and how many there are.\<close>

function number_digits :: "'d doubles \<Rightarrow> string \<Rightarrow> nat \<Rightarrow> 'd \<Rightarrow> nat \<Rightarrow> (nat \<times> 'd \<times> nat) option" where
  "number_digits D b p n k = do {
     c \<leftarrow> rd b p;
     if digit_char c then number_digits D b (p + 1) (d_push D n (digit_value c)) (k + 1) else Some (p, n, k) }"
  by auto
termination by (relation "measure (\<lambda>(D, b, p, n, k). length b - p)") (auto simp: rd_Some_iff)

function exponent_digits :: "string \<Rightarrow> nat \<Rightarrow> int \<Rightarrow> (nat \<times> int) option" where
  "exponent_digits b p subscale = do {
     c \<leftarrow> rd b p;
     if digit_char c then
       (let s = subscale * 10 + int (digit_value c) in if s \<le> int_max then exponent_digits b (p + 1) s else None)
     else Some (p, subscale) }"
  by auto
termination by (relation "measure (\<lambda>(b, p, s). length b - p)") (auto simp: rd_Some_iff)

declare skip.simps [simp del] number_digits.simps [simp del] exponent_digits.simps [simp del]

definition parse_number :: "'d doubles \<Rightarrow> string \<Rightarrow> nat \<Rightarrow> ('d cjson \<times> nat) option" where
  "parse_number D b num = do {
     c \<leftarrow> rd b num;
     let neg = (c = CHR ''-'');
     let num = (if neg then num + 1 else num);
     c \<leftarrow> rd b num;
     let num = (if c = CHR ''0'' then num + 1 else num);
     c \<leftarrow> rd b num;
     (num, n, k) \<leftarrow> (if digit_char c \<and> c \<noteq> CHR ''0'' then number_digits D b num (d_zero D) 0 else Some (num, d_zero D, 0));
     c \<leftarrow> rd b num;
     (num, n, k) \<leftarrow> (if c = CHR ''.'' then do {
         d \<leftarrow> rd b (num + 1);
         if digit_char d then number_digits D b (num + 1) n 0 else Some (num, n, 0) }
       else Some (num, n, 0));
     c \<leftarrow> rd b num;
     (num, subscale) \<leftarrow> (if c = CHR ''e'' \<or> c = CHR ''E'' then do {
         c \<leftarrow> rd b (num + 1);
         if c = CHR ''+'' then exponent_digits b (num + 2) 0
         else if c = CHR ''-'' then map_option (\<lambda>(p, s). (p, - s)) (exponent_digits b (num + 2) 0)
         else exponent_digits b (num + 1) 0 }
       else Some (num, 0));
     let n = d_scale D neg n (subscale - int k);
     v \<leftarrow> d_int D n;
     Some (C_Number v n, num) }"

definition hex_value :: "char \<Rightarrow> nat option" where
  "hex_value c = (let n = (of_char c :: nat) in
     if 48 \<le> n \<and> n \<le> 57 then Some (n - 48) else if 65 \<le> n \<and> n \<le> 70 then Some (n - 55)
     else if 97 \<le> n \<and> n \<le> 102 then Some (n - 87) else None)"

text \<open>\<open>k\<close> digits are still to be read; another character makes the value 0.\<close>

fun hex_digits :: "string \<Rightarrow> nat \<Rightarrow> nat \<Rightarrow> nat \<Rightarrow> nat option" where
  "hex_digits b p 0 h = Some h"
| "hex_digits b p (Suc k) h = do {
     c \<leftarrow> rd b p;
     case hex_value c of None \<Rightarrow> Some 0 | Some d \<Rightarrow> hex_digits b (p + 1) k (16 * h + d) }"

definition parse_hex4 :: "string \<Rightarrow> nat \<Rightarrow> nat option" where
  "parse_hex4 b p = hex_digits b p 4 0"

text \<open>The bytes of a code point.\<close>

definition utf8 :: "nat \<Rightarrow> string" where
  "utf8 uc = (let cont = (\<lambda>n. char_of (128 + n mod 64)) in
     if uc < 0x80 then [char_of uc]
     else if uc < 0x800 then [char_of (0xC0 + uc div 64), cont uc]
     else if uc < 0x10000 then [char_of (0xE0 + uc div 4096), cont (uc div 64), cont uc]
     else [char_of (0xF0 + uc div 262144), cont (uc div 4096), cont (uc div 64), cont uc])"

text \<open>The bytes that the escape with its letter at \<open>ptr\<close> stands for, and the position behind it.\<close>

definition unescape_unicode :: "string \<Rightarrow> nat \<Rightarrow> (string \<times> nat) option" where
  "unescape_unicode b ptr = do {
     uc \<leftarrow> parse_hex4 b (ptr + 1);
     let ptr = ptr + 4;
     if (0xDC00 \<le> uc \<and> uc \<le> 0xDFFF) \<or> uc = 0 then Some ([], ptr + 1)
     else if 0xD800 \<le> uc \<and> uc \<le> 0xDBFF then do {
       c1 \<leftarrow> rd b (ptr + 1);
       if c1 \<noteq> CHR 0x5C then Some ([], ptr + 1)
       else do {
         c2 \<leftarrow> rd b (ptr + 2);
         if c2 \<noteq> CHR ''u'' then Some ([], ptr + 1)
         else do {
           uc2 \<leftarrow> parse_hex4 b (ptr + 3);
           let ptr = ptr + 6;
           if uc2 < 0xDC00 \<or> uc2 > 0xDFFF then Some ([], ptr + 1)
           else Some (utf8 (0x10000 + ((uc mod 1024) * 1024 + uc2 mod 1024)), ptr + 1) } } }
     else Some (utf8 uc, ptr + 1) }"

definition unescape_char :: "string \<Rightarrow> nat \<Rightarrow> (string \<times> nat) option" where
  "unescape_char b ptr = do {
     c \<leftarrow> rd b ptr;
     if c = CHR ''b'' then Some ([CHR 0x08], ptr + 1)
     else if c = CHR ''f'' then Some ([CHR 0x0C], ptr + 1)
     else if c = CHR ''n'' then Some ([CHR 0x0A], ptr + 1)
     else if c = CHR ''r'' then Some ([CHR 0x0D], ptr + 1)
     else if c = CHR ''t'' then Some ([CHR 0x09], ptr + 1)
     else if c = CHR ''u'' then unescape_unicode b ptr
     else Some ([c], ptr + 1) }"

lemma unescape_char_next: "unescape_char b ptr = Some (cs, q) \<Longrightarrow> ptr < q"
  by (auto simp: unescape_char_def unescape_unicode_def Let_def bind_Some_iff split: if_splits)

text \<open>The first loop: how much room the string needs, roughly.\<close>

function string_room :: "string \<Rightarrow> nat \<Rightarrow> nat \<Rightarrow> nat option" where
  "string_room b ptr len = do {
     c \<leftarrow> rd b ptr;
     if c = CHR 0x22 \<or> c = CHR 0x00 then Some len
     else string_room b (if c = CHR 0x5C then ptr + 2 else ptr + 1) (len + 1) }"
  by auto
termination by (relation "measure (\<lambda>(b, p, len). length b - p)") (auto simp: rd_Some_iff)

text \<open>The second loop, which writes to a buffer of \<open>room\<close> bytes and ends with a terminator.\<close>

function unescape :: "string \<Rightarrow> nat \<Rightarrow> string \<Rightarrow> nat \<Rightarrow> (string \<times> nat) option" where
  "unescape b ptr out room = do {
     c \<leftarrow> rd b ptr;
     if c = CHR 0x22 \<or> c = CHR 0x00 then (if length out < room then Some (out, ptr) else None)
     else if c \<noteq> CHR 0x5C then (if length out < room then unescape b (ptr + 1) (out @ [c]) room else None)
     else do {
       (cs, q) \<leftarrow> unescape_char b (ptr + 1);
       if length out + length cs \<le> room then unescape b q (out @ cs) room else None } }"
  by auto
termination
  by (relation "measure (\<lambda>(b, p, out, room). length b - p)") (auto simp: rd_Some_iff dest!: unescape_char_next)

declare string_room.simps [simp del] unescape.simps [simp del]

definition parse_string :: "string \<Rightarrow> nat \<Rightarrow> (nat + string \<times> nat) option" where
  "parse_string b str = do {
     c \<leftarrow> rd b str;
     if c \<noteq> CHR 0x22 then Some (Inl str)
     else do {
       len \<leftarrow> string_room b (str + 1) 0;
       (out, ptr) \<leftarrow> unescape b (str + 1) [] (len + 1);
       c \<leftarrow> rd b ptr;
       Some (Inr (takeWhile (\<lambda>c. c \<noteq> CHR 0x00) out, if c = CHR 0x22 then ptr + 1 else ptr)) } }"

text \<open>\<^verbatim>\<open>strncmp\<close> with a literal.\<close>

fun starts_at :: "string \<Rightarrow> nat \<Rightarrow> string \<Rightarrow> bool option" where
  "starts_at b p [] = Some True"
| "starts_at b p (c # cs) = do { d \<leftarrow> rd b p; if d = c then starts_at b (p + 1) cs else Some False }"

text \<open>
  What is to be parsed: a value, the elements of an array behind those that are there, or the fields of an object.
\<close>

datatype 'd goal = Value | Elements "'d cjson list" | Fields "(string \<times> 'd cjson) list"

partial_function (option) parse :: "'d doubles \<Rightarrow> string \<Rightarrow> 'd goal \<Rightarrow> nat \<Rightarrow> (nat + 'd cjson \<times> nat) option" where
  "parse D b g value = (case g of
     Value \<Rightarrow> do {
       null \<leftarrow> starts_at b value ''null'';
       if null then Some (Inr (C_NULL, value + 4)) else do {
       false \<leftarrow> starts_at b value ''false'';
       if false then Some (Inr (C_False, value + 5)) else do {
       true \<leftarrow> starts_at b value ''true'';
       if true then Some (Inr (C_True, value + 4)) else do {
       c \<leftarrow> rd b value;
       if c = CHR 0x22 then do {
         r \<leftarrow> parse_string b value;
         case r of Inl e \<Rightarrow> Some (Inl e) | Inr (s, p) \<Rightarrow> Some (Inr (C_String s, p)) }
       else if c = CHR ''-'' \<or> digit_char c then map_option Inr (parse_number D b value)
       else if c = CHR ''['' then do {
         value \<leftarrow> skip b (value + 1);
         c \<leftarrow> rd b value;
         if c = CHR '']'' then Some (Inr (C_Array [], value + 1)) else parse D b (Elements []) value }
       else if c = CHR ''{'' then do {
         value \<leftarrow> skip b (value + 1);
         c \<leftarrow> rd b value;
         if c = CHR ''}'' then Some (Inr (C_Object [], value + 1)) else parse D b (Fields []) value }
       else Some (Inl value) } } } }
   | Elements xs \<Rightarrow> do {
       value \<leftarrow> skip b value;
       r \<leftarrow> parse D b Value value;
       case r of
         Inl e \<Rightarrow> Some (Inl e)
       | Inr (x, value) \<Rightarrow> do {
           value \<leftarrow> skip b value;
           c \<leftarrow> rd b value;
           if c = CHR '','' then parse D b (Elements (xs @ [x])) (value + 1)
           else if c = CHR '']'' then Some (Inr (C_Array (xs @ [x]), value + 1))
           else Some (Inl value) } }
   | Fields kvs \<Rightarrow> do {
       value \<leftarrow> skip b value;
       r \<leftarrow> parse_string b value;
       case r of
         Inl e \<Rightarrow> Some (Inl e)
       | Inr (k, value) \<Rightarrow> do {
           value \<leftarrow> skip b value;
           c \<leftarrow> rd b value;
           if c \<noteq> CHR '':'' then Some (Inl value)
           else do {
             value \<leftarrow> skip b (value + 1);
             r \<leftarrow> parse D b Value value;
             case r of
               Inl e \<Rightarrow> Some (Inl e)
             | Inr (x, value) \<Rightarrow> do {
                 value \<leftarrow> skip b value;
                 c \<leftarrow> rd b value;
                 if c = CHR '','' then parse D b (Fields (kvs @ [(k, x)])) (value + 1)
                 else if c = CHR ''}'' then Some (Inr (C_Object (kvs @ [(k, x)]), value + 1))
                 else Some (Inl value) } } } })"

text \<open>With \<^verbatim>\<open>require_null_terminated\<close> nothing but white space may follow the value.\<close>

definition cJSON_ParseWithOpts :: "'d doubles \<Rightarrow> string \<Rightarrow> bool \<Rightarrow> (nat + 'd cjson \<times> nat) option" where
  "cJSON_ParseWithOpts D b require_null_terminated = do {
     p \<leftarrow> skip b 0;
     r \<leftarrow> parse D b Value p;
     case r of
       Inl e \<Rightarrow> Some (Inl e)
     | Inr (c, q) \<Rightarrow>
         if require_null_terminated then do {
           q \<leftarrow> skip b q;
           d \<leftarrow> rd b q;
           Some (if d \<noteq> CHR 0x00 then Inl q else Inr (c, q)) }
         else Some (Inr (c, q)) }"

definition cJSON_Parse :: "'d doubles \<Rightarrow> string \<Rightarrow> (nat + 'd cjson) option" where
  "cJSON_Parse D b = map_option (map_sum id fst) (cJSON_ParseWithOpts D b False)"

section \<open>Printing\<close>

text \<open>A text is written with its terminator into a buffer of \<open>room\<close> bytes.\<close>

definition in_buffer :: "nat \<Rightarrow> string \<Rightarrow> string option" where
  "in_buffer room text = (if length text < room then Some text else None)"

definition int_text :: "int \<Rightarrow> string" where
  "int_text v = (if v < 0 then ''-'' else []) @ to_string (nat \<bar>v\<bar>)"

definition print_number :: "'d doubles \<Rightarrow> int \<Rightarrow> 'd \<Rightarrow> string option" where
  "print_number D v d = (if d_is_int D v d then in_buffer 21 (int_text v)
     else in_buffer 64 (if d_whole D d then d_text_0f D d else if d_extreme D d then d_text_e D d else d_text_f D d))"

definition short_escape :: "char \<Rightarrow> char option" where
  "short_escape c = (if c = CHR 0x5C then Some (CHR 0x5C) else if c = CHR 0x22 then Some (CHR 0x22)
     else if c = CHR 0x08 then Some (CHR ''b'') else if c = CHR 0x0C then Some (CHR ''f'')
     else if c = CHR 0x0A then Some (CHR ''n'') else if c = CHR 0x0D then Some (CHR ''r'')
     else if c = CHR 0x09 then Some (CHR ''t'') else None)"

definition hex_char :: "nat \<Rightarrow> char" where
  "hex_char d = char_of (if d < 10 then 48 + d else 87 + d)"

text \<open>A character as it is written; \<^verbatim>\<open>%04x\<close> of a value below 32.\<close>

definition escape_char :: "char \<Rightarrow> string" where
  "escape_char c = (if (of_char c :: nat) > 31 \<and> c \<noteq> CHR 0x22 \<and> c \<noteq> CHR 0x5C then [c]
     else case short_escape c of
       Some e \<Rightarrow> [CHR 0x5C, e]
     | None \<Rightarrow> CHR 0x5C # ''u00'' @ [hex_char (of_char c div 16), hex_char (of_char c mod 16)])"

fun escaped_room :: "string \<Rightarrow> nat" where
  "escaped_room [] = 0"
| "escaped_room (c # s) = (if short_escape c \<noteq> None then 2 else if (of_char c :: nat) < 32 then 6 else 1) + escaped_room s"

definition print_string_ptr :: "string \<Rightarrow> string option" where
  "print_string_ptr s = in_buffer (escaped_room s + 3) ([CHR 0x22] @ concat (map escape_char s) @ [CHR 0x22])"

fun join :: "string \<Rightarrow> string list \<Rightarrow> string" where
  "join sep [] = []"
| "join sep [e] = e"
| "join sep (e # es) = e @ sep @ join sep es"

text \<open>The buffers of \<^verbatim>\<open>print_array\<close> and \<^verbatim>\<open>print_object\<close>, and what is composed in them.\<close>

definition compose_array :: "bool \<Rightarrow> string list \<Rightarrow> string option" where
  "compose_array fmt es = (if es = [] then in_buffer 3 ''[]''
     else in_buffer (5 + sum_list (map (\<lambda>e. length e + 2 + (if fmt then 1 else 0)) es))
       (''['' @ join (if fmt then '', '' else '','') es @ '']''))"

definition tabs :: "nat \<Rightarrow> string" where
  "tabs n = replicate n (CHR 0x09)"

definition compose_object :: "bool \<Rightarrow> nat \<Rightarrow> (string \<times> string) list \<Rightarrow> string option" where
  "compose_object fmt depth es = (if es = [] then
       in_buffer (if fmt then depth + 4 else 3) (''{'' @ (if fmt then [CHR 0x0A] @ tabs (depth - 1) else []) @ ''}'')
     else let depth = depth + 1 in
       in_buffer (7 + (if fmt then depth else 0) +
           sum_list (map (\<lambda>(k, e). length e + length k + 2 + (if fmt then 2 + depth else 0)) es))
         (''{'' @ (if fmt then [CHR 0x0A] else []) @
          join (if fmt then [CHR '','', CHR 0x0A] else '','')
            (map (\<lambda>(k, e). (if fmt then tabs depth else []) @ k @ '':'' @ (if fmt then [CHR 0x09] else []) @ e) es) @
          (if fmt then [CHR 0x0A] @ tabs (depth - 1) else []) @ ''}''))"

fun print_value :: "'d doubles \<Rightarrow> bool \<Rightarrow> nat \<Rightarrow> 'd cjson \<Rightarrow> string option"
  and print_elements :: "'d doubles \<Rightarrow> bool \<Rightarrow> nat \<Rightarrow> 'd cjson list \<Rightarrow> string list option"
  and print_fields :: "'d doubles \<Rightarrow> bool \<Rightarrow> nat \<Rightarrow> (string \<times> 'd cjson) list \<Rightarrow> (string \<times> string) list option" where
  "print_value D fmt depth C_NULL = Some ''null''"
| "print_value D fmt depth C_False = Some ''false''"
| "print_value D fmt depth C_True = Some ''true''"
| "print_value D fmt depth (C_Number v d) = print_number D v d"
| "print_value D fmt depth (C_String s) = print_string_ptr s"
| "print_value D fmt depth (C_Array xs) = do { es \<leftarrow> print_elements D fmt (depth + 1) xs; compose_array fmt es }"
| "print_value D fmt depth (C_Object kvs) = do { es \<leftarrow> print_fields D fmt (depth + 1) kvs; compose_object fmt depth es }"
| "print_elements D fmt depth [] = Some []"
| "print_elements D fmt depth (x # xs) = do {
     e \<leftarrow> print_value D fmt depth x; es \<leftarrow> print_elements D fmt depth xs; Some (e # es) }"
| "print_fields D fmt depth [] = Some []"
| "print_fields D fmt depth ((k, x) # kvs) = do {
     name \<leftarrow> print_string_ptr k; e \<leftarrow> print_value D fmt depth x;
     es \<leftarrow> print_fields D fmt depth kvs; Some ((name, e) # es) }"

definition cJSON_Print :: "'d doubles \<Rightarrow> 'd cjson \<Rightarrow> string option" where
  "cJSON_Print D item = print_value D True 0 item"

definition cJSON_PrintUnformatted :: "'d doubles \<Rightarrow> 'd cjson \<Rightarrow> string option" where
  "cJSON_PrintUnformatted D item = print_value D False 0 item"

section \<open>Access\<close>

text \<open>The children of a node with their names; the elements of an array have none.\<close>

fun children :: "'d cjson \<Rightarrow> (string option \<times> 'd cjson) list" where
  "children (C_Array xs) = map (Pair None) xs"
| "children (C_Object kvs) = map (\<lambda>(k, x). (Some k, x)) kvs"
| "children _ = []"

definition c_tolower :: "char \<Rightarrow> char" where
  "c_tolower c = (let n = (of_char c :: nat) in if 65 \<le> n \<and> n \<le> 90 then char_of (n + 32) else c)"

text \<open>Whether \<^verbatim>\<open>cJSON_strcasecmp\<close> gives 0; a null pointer is only equal to itself.\<close>

definition same_name :: "string option \<Rightarrow> string option \<Rightarrow> bool" where
  "same_name s1 s2 \<longleftrightarrow> map_option (map c_tolower) s1 = map_option (map c_tolower) s2"

definition cJSON_GetArraySize :: "'d cjson \<Rightarrow> nat" where
  "cJSON_GetArraySize array = length (children array)"

definition cJSON_GetArrayItem :: "'d cjson \<Rightarrow> nat \<Rightarrow> 'd cjson option" where
  "cJSON_GetArrayItem array item = map_option snd (rd (children array) item)"

definition cJSON_GetObjectItem :: "'d cjson \<Rightarrow> string \<Rightarrow> 'd cjson option" where
  "cJSON_GetObjectItem obj s = map_option snd (find (\<lambda>c. same_name (fst c) (Some s)) (children obj))"

section \<open>Removing white space and comments\<close>

text \<open>
  \<^verbatim>\<open>cJSON_Minify\<close> in its own buffer, whose start is never behind what is still to be read; the result is the text
  up to its terminator.
\<close>

function line_end :: "string \<Rightarrow> nat \<Rightarrow> nat option" where
  "line_end b p = do { c \<leftarrow> rd b p; if c \<noteq> CHR 0x00 \<and> c \<noteq> CHR 0x0A then line_end b (p + 1) else Some p }"
  by auto
termination by (relation "measure (\<lambda>(b, p). length b - p)") (auto simp: rd_Some_iff)

function comment_end :: "string \<Rightarrow> nat \<Rightarrow> nat option" where
  "comment_end b p = do {
     c \<leftarrow> rd b p;
     if c = CHR 0x00 then Some p
     else if c \<noteq> CHR ''*'' then comment_end b (p + 1)
     else do { d \<leftarrow> rd b (p + 1); if d = CHR ''/'' then Some p else comment_end b (p + 1) } }"
  by auto
termination by (relation "measure (\<lambda>(b, p). length b - p)") (auto simp: rd_Some_iff)

text \<open>A string literal behind its first quote, with the quote at its end.\<close>

function literal :: "string \<Rightarrow> nat \<Rightarrow> string \<Rightarrow> (nat \<times> string) option" where
  "literal b p out = do {
     c \<leftarrow> rd b p;
     if c = CHR 0x00 \<or> c = CHR 0x22 then Some (p + 1, out @ [c])
     else if c = CHR 0x5C then do { d \<leftarrow> rd b (p + 1); literal b (p + 2) (out @ [c, d]) }
     else literal b (p + 1) (out @ [c]) }"
  by auto
termination by (relation "measure (\<lambda>(b, p, out). length b - p)") (auto simp: rd_Some_iff)

declare line_end.simps [simp del] comment_end.simps [simp del] literal.simps [simp del]

partial_function (option) minify :: "string \<Rightarrow> nat \<Rightarrow> string \<Rightarrow> string option" where
  "minify b json out = do {
     c \<leftarrow> rd b json;
     if c = CHR 0x00 then Some out
     else if c = CHR '' '' \<or> c = CHR 0x09 \<or> c = CHR 0x0D \<or> c = CHR 0x0A then minify b (json + 1) out
     else if c = CHR ''/'' then do {
       d \<leftarrow> rd b (json + 1);
       if d = CHR ''/'' then do { p \<leftarrow> line_end b json; minify b p out }
       else if d = CHR ''*'' then do { p \<leftarrow> comment_end b json; minify b (p + 2) out }
       else minify b (json + 1) (out @ [c]) }
     else if c = CHR 0x22 then do { (p, out) \<leftarrow> literal b (json + 1) (out @ [c]); minify b p out }
     else minify b (json + 1) (out @ [c]) }"

definition cJSON_Minify :: "string \<Rightarrow> string option" where
  "cJSON_Minify json = map_option (takeWhile (\<lambda>c. c \<noteq> CHR 0x00)) (minify json 0 [])"

end
