(* ===== verification/Cjson_Roundtrip.thy ===== *)
theory Cjson_Roundtrip
  imports Cjson "HOL-Library.Multiset"
begin

text \<open>
  The parser of \<open>Cjson\<close> reads what the printer writes, formatted or not, and the printer stays in its buffers.
\<close>

section \<open>Values that are printed exactly\<close>

text \<open>The integers of a \<^verbatim>\<open>double\<close>: calculating with them is exact.\<close>

definition exact_ints :: "'d doubles \<Rightarrow> (int \<Rightarrow> 'd) \<Rightarrow> bool" where
  "exact_ints D of_i \<longleftrightarrow> d_zero D = of_i 0 \<and>
     (\<forall>n d. 0 \<le> n \<and> 10 * n + int d \<le> 2 ^ 53 \<longrightarrow> d_push D (of_i n) d = of_i (10 * n + int d)) \<and>
     (\<forall>n. 0 \<le> n \<and> n \<le> 2 ^ 53 \<longrightarrow> d_scale D False (of_i n) 0 = of_i n) \<and>
     (\<forall>n. 0 < n \<and> n \<le> 2 ^ 53 \<longrightarrow> d_scale D True (of_i n) 0 = of_i (- n)) \<and>
     (\<forall>v. int_min \<le> v \<and> v \<le> int_max \<longrightarrow> d_int D (of_i v) = Some v \<and> d_is_int D v (of_i v))"

fun printable :: "(int \<Rightarrow> 'd) \<Rightarrow> 'd cjson \<Rightarrow> bool" where
  "printable of_i (C_Number v d) \<longleftrightarrow> int_min \<le> v \<and> v \<le> int_max \<and> d = of_i v"
| "printable of_i (C_String s) \<longleftrightarrow> CHR 0x00 \<notin> set s"
| "printable of_i (C_Array xs) \<longleftrightarrow> (\<forall>x \<in> set xs. printable of_i x)"
| "printable of_i (C_Object kvs) \<longleftrightarrow> (\<forall>kv \<in> set kvs. CHR 0x00 \<notin> set (fst kv) \<and> printable of_i (snd kv))"
| "printable of_i _ \<longleftrightarrow> True"

section \<open>White space\<close>

definition white :: "char \<Rightarrow> bool" where
  "white c \<longleftrightarrow> c = CHR '' '' \<or> c = CHR 0x09 \<or> c = CHR 0x0A \<or> c = CHR 0x0D"

lemma skip_here: "rd b p = Some c \<Longrightarrow> (of_char c :: nat) > 32 \<or> c = CHR 0x00 \<Longrightarrow> skip b p = Some p"
  by (subst skip.simps) auto

lemma white_small: "white c \<Longrightarrow> c \<noteq> CHR 0x00 \<and> (of_char c :: nat) \<le> 32"
  unfolding white_def by (elim disjE) simp_all

lemma skip_next: "rd b p = Some c \<Longrightarrow> white c \<Longrightarrow> skip b p = skip b (p + 1)"
  by (subst skip.simps) (simp add: white_small)

lemma skip_white:
  "drop p b = ws @ c # rest \<Longrightarrow> \<forall>w \<in> set ws. white w \<Longrightarrow> (of_char c :: nat) > 32 \<Longrightarrow> skip b p = Some (p + length ws)"
proof (induction ws arbitrary: p)
  case Nil
  with drop_rd [of p b c rest] show ?case by (simp add: skip_here)
next
  case (Cons w ws)
  from Cons.prems(1) have "drop p b = w # (ws @ c # rest)" by simp
  note rd = drop_rd [OF this]
  then have "skip b (p + 1) = Some (p + 1 + length ws)" using Cons by simp
  with rd Cons.prems(2) show ?case by (simp add: skip_next)
qed

section \<open>Strings\<close>

lemma char_eq_of: "c = d \<longleftrightarrow> (of_char c :: nat) = of_char d"
  by simp

lemma hex_char_value: "d < 16 \<Longrightarrow> hex_value (hex_char d) = Some d"
  by (auto simp: hex_value_def hex_char_def take_bit_nat_eq_self Let_def)

lemma hex_char_plain: "d < 16 \<Longrightarrow> hex_char d \<noteq> CHR 0x22 \<and> hex_char d \<noteq> CHR 0x00 \<and> hex_char d \<noteq> CHR 0x5C"
  by (auto simp: hex_char_def char_eq_of take_bit_nat_eq_self simp del: of_char_eq_iff)

text \<open>A character stands for itself, is escaped by a letter, or is a control character.\<close>

lemma escape_char_cases [consumes 1, case_names plain short control]:
  assumes "c \<noteq> CHR 0x00"
    and "escape_char c = [c] \<Longrightarrow> c \<noteq> CHR 0x22 \<Longrightarrow> c \<noteq> CHR 0x5C \<Longrightarrow> short_escape c = None \<Longrightarrow> (of_char c :: nat) > 31 \<Longrightarrow> P"
    and "\<And>e. escape_char c = [CHR 0x5C, e] \<Longrightarrow> short_escape c = Some e \<Longrightarrow> P"
    and "escape_char c = CHR 0x5C # ''u00'' @ [hex_char (of_char c div 16), hex_char (of_char c mod 16)] \<Longrightarrow>
      short_escape c = None \<Longrightarrow> 0 < (of_char c :: nat) \<Longrightarrow> (of_char c :: nat) < 32 \<Longrightarrow> P"
  shows P
proof (cases "(of_char c :: nat) > 31 \<and> c \<noteq> CHR 0x22 \<and> c \<noteq> CHR 0x5C")
  case True
  then have "escape_char c = [c]" "short_escape c = None" by (auto simp: escape_char_def short_escape_def)
  with True assms(2) show P by blast
next
  case False
  show P
  proof (cases "short_escape c")
    case None
    then have "c \<noteq> CHR 0x22 \<and> c \<noteq> CHR 0x5C" by (auto simp: short_escape_def)
    with False have "(of_char c :: nat) < 32" by auto
    moreover have "0 < (of_char c :: nat)" using assms(1) by (simp add: char_eq_of del: of_char_eq_iff)
    ultimately show P using assms(4) None False by (auto simp: escape_char_def)
  next
    case (Some e)
    with False assms(3) show P by (auto simp: escape_char_def)
  qed
qed

lemma length_control: "cs = CHR 0x5C # ''u00'' @ [x, y] \<Longrightarrow> length cs = 6"
  by simp

lemma short_escape_back: "short_escape c = Some e \<Longrightarrow> drop p b = e # t \<Longrightarrow> unescape_char b p = Some ([c], p + 1)"
  by (auto simp: short_escape_def unescape_char_def dest!: drop_rd split: if_splits)

lemma rd_part: "drop p b = cs @ t \<Longrightarrow> i < length cs \<Longrightarrow> rd b (p + i) = Some (cs ! i)"
proof -
  assume d: "drop p b = cs @ t" and i: "i < length cs"
  have l: "length (drop p b) = length cs + length t" by (simp add: d)
  have "b ! (p + i) = drop p b ! i" using l i by (intro nth_drop [symmetric]) simp
  moreover have "p + i < length b" using l i by simp
  ultimately show "rd b (p + i) = Some (cs ! i)" using d i by (simp add: rd_def nth_append)
qed

lemma drop_part: "drop p b = cs @ t \<Longrightarrow> drop (p + length cs) b = t"
proof -
  assume d: "drop p b = cs @ t"
  have "drop (p + length cs) b = drop (length cs) (drop p b)" by (simp add: add.commute)
  with d show "drop (p + length cs) b = t" by simp
qed

lemma hex4_here:
  assumes "drop p b = [c1, c2, c3, c4] @ t"
    and "hex_value c1 = Some d1" and "hex_value c2 = Some d2" and "hex_value c3 = Some d3" and "hex_value c4 = Some d4"
  shows "parse_hex4 b p = Some (16 * (16 * (16 * d1 + d2) + d3) + d4)"
proof -
  note part = rd_part [OF assms(1)]
  have "rd b p = Some c1" "rd b (Suc p) = Some c2" "rd b (Suc (Suc p)) = Some c3" "rd b (Suc (Suc (Suc p))) = Some c4"
    using part [of 0] part [of 1] part [of 2] part [of 3] by (simp_all add: eval_nat_numeral)
  moreover have "parse_hex4 b p = hex_digits b p (Suc (Suc (Suc (Suc 0)))) 0"
    by (simp add: parse_hex4_def eval_nat_numeral)
  ultimately show ?thesis using assms(2-) by simp
qed

lemma control_back:
  assumes d: "drop p b = (''u00'' @ [hex_char (n div 16), hex_char (n mod 16)]) @ t" and n: "0 < n" "n < 32"
  shows "unescape_char b p = Some ([char_of n], p + 5)"
proof -
  have e: "drop (p + 1) b = [CHR ''0'', CHR ''0'', hex_char (n div 16), hex_char (n mod 16)] @ t"
    using drop_part [of p b "''u''" "[CHR ''0'', CHR ''0'', hex_char (n div 16), hex_char (n mod 16)] @ t"] d by simp
  have z: "hex_value (CHR ''0'') = Some 0" by (simp add: hex_value_def)
  have "hex_value (hex_char (n div 16)) = Some (n div 16)" "hex_value (hex_char (n mod 16)) = Some (n mod 16)"
    using n by (simp_all add: hex_char_value)
  with e z have "parse_hex4 b (p + 1) = Some (16 * (16 * (16 * 0 + 0) + n div 16) + n mod 16)"
    by (intro hex4_here)
  then have "parse_hex4 b (p + 1) = Some n" by simp
  moreover have "rd b p = Some (CHR ''u'')" using rd_part [OF d, of 0] by simp
  moreover have "utf8 n = [char_of n]" using n(2) by (simp add: utf8_def)
  ultimately show ?thesis using n by (simp add: unescape_char_def unescape_unicode_def)
qed

lemma escape_step:
  assumes "c \<noteq> CHR 0x00" and d: "drop p b = escape_char c @ t" and room: "length out < room"
  shows "unescape b p out room = unescape b (p + length (escape_char c)) (out @ [c]) room"
  using assms(1)
proof (cases rule: escape_char_cases)
  case plain
  with rd_part [OF d, of 0] room assms(1) show ?thesis by (subst unescape.simps) simp
next
  case (short e)
  have "drop (p + 1) b = e # t" using drop_part [of p b "[CHR 0x5C]" "e # t"] d short(1) by simp
  then have "unescape_char b (p + 1) = Some ([c], p + 2)" using short_escape_back [OF short(2), of "p + 1"] by simp
  with rd_part [OF d, of 0] short(1) room show ?thesis by (subst unescape.simps) simp
next
  case control
  have "drop (p + 1) b = (''u00'' @ [hex_char (of_char c div 16), hex_char (of_char c mod 16)]) @ t"
    using drop_part [of p b "[CHR 0x5C]"] d control(1) by simp
  then have "unescape_char b (p + 1) = Some ([c], p + 6)"
    using control_back [of "p + 1" b "of_char c" t] control(3,4) by simp
  moreover have "rd b p = Some (CHR 0x5C)" using rd_part [OF d, of 0] control(1) by simp
  moreover note length_control [OF control(1)]
  ultimately show ?thesis using room by (subst unescape.simps) simp
qed

lemma unescape_escaped:
  "drop p b = concat (map escape_char s) @ CHR 0x22 # t \<Longrightarrow> CHR 0x00 \<notin> set s \<Longrightarrow> length out + length s < room \<Longrightarrow>
   unescape b p out room = Some (out @ s, p + length (concat (map escape_char s)))"
proof (induction s arbitrary: p out)
  case Nil
  with drop_rd [of p b "CHR 0x22" t] show ?case by (subst unescape.simps) simp
next
  case (Cons c s)
  have d: "drop p b = escape_char c @ concat (map escape_char s) @ CHR 0x22 # t" using Cons.prems(1) by simp
  have "c \<noteq> CHR 0x00" using Cons.prems(2) by auto
  with Cons.IH [OF drop_part [OF d], of "out @ [c]"] escape_step [OF _ d, of out room] Cons.prems(2,3)
  show ?case by (simp add: add.assoc)
qed

text \<open>The first loop finds room for every character.\<close>

lemma string_room_plain:
  "rd b p = Some c \<Longrightarrow> c \<noteq> CHR 0x22 \<Longrightarrow> c \<noteq> CHR 0x00 \<Longrightarrow> c \<noteq> CHR 0x5C \<Longrightarrow>
   string_room b p len = string_room b (p + 1) (len + 1)"
  by (subst string_room.simps) simp

lemma string_room_escape: "rd b p = Some (CHR 0x5C) \<Longrightarrow> string_room b p len = string_room b (p + 2) (len + 1)"
  by (subst string_room.simps) simp

lemma string_room_plains:
  "drop p b = cs @ t \<Longrightarrow> \<forall>c \<in> set cs. c \<noteq> CHR 0x22 \<and> c \<noteq> CHR 0x00 \<and> c \<noteq> CHR 0x5C \<Longrightarrow>
   string_room b p len = string_room b (p + length cs) (len + length cs)"
proof (induction cs arbitrary: p len)
  case Nil
  then show ?case by simp
next
  case (Cons c cs)
  from Cons.prems(1) have "drop p b = c # (cs @ t)" by simp
  note rd = drop_rd [OF this]
  then have "string_room b p len = string_room b (p + 1) (len + 1)"
    using Cons.prems(2) by (intro string_room_plain) auto
  with rd Cons.IH [of "p + 1" "len + 1"] Cons.prems(2) show ?case by simp
qed

lemma string_room_step:
  assumes "c \<noteq> CHR 0x00" and d: "drop p b = escape_char c @ t"
  shows "\<exists>k \<ge> 1. string_room b p len = string_room b (p + length (escape_char c)) (len + k)"
  using assms(1)
proof (cases rule: escape_char_cases)
  case plain
  with rd_part [OF d, of 0] assms(1) string_room_plain [of b p c len] show ?thesis by auto
next
  case (short e)
  with rd_part [OF d, of 0] string_room_escape [of b p len] show ?thesis by auto
next
  case control
  let ?cs = "[CHR ''0'', CHR ''0'', hex_char (of_char c div 16), hex_char (of_char c mod 16)]"
  have e: "drop (p + 2) b = ?cs @ t" using drop_part [of p b "[CHR 0x5C, CHR ''u'']" "?cs @ t"] d control(1) by simp
  have "\<forall>c \<in> set ?cs. c \<noteq> CHR 0x22 \<and> c \<noteq> CHR 0x00 \<and> c \<noteq> CHR 0x5C"
    using hex_char_plain [of "of_char c div 16"] hex_char_plain [of "of_char c mod 16"] control(4) by simp
  note plains = string_room_plains [OF e this, of "len + 1"]
  have "string_room b p len = string_room b (p + 2) (len + 1)"
    using rd_part [OF d, of 0] control(1) by (intro string_room_escape) simp
  moreover have "p + 2 + length ?cs = p + 6" "len + 1 + length ?cs = len + 5" by simp_all
  ultimately have "string_room b p len = string_room b (p + 6) (len + 5)" using plains by (simp only:)
  then have "string_room b p len = string_room b (p + length (escape_char c)) (len + 5)"
    by (simp only: length_control [OF control(1)])
  then show ?thesis by (intro exI [of _ 5]) simp
qed

lemma string_room_escaped:
  "drop p b = concat (map escape_char s) @ CHR 0x22 # t \<Longrightarrow> CHR 0x00 \<notin> set s \<Longrightarrow>
   \<exists>n \<ge> len + length s. string_room b p len = Some n"
proof (induction s arbitrary: p len)
  case Nil
  with drop_rd [of p b "CHR 0x22" t] show ?case by (subst string_room.simps) simp
next
  case (Cons c s)
  have d: "drop p b = escape_char c @ concat (map escape_char s) @ CHR 0x22 # t" using Cons.prems(1) by simp
  have "c \<noteq> CHR 0x00" using Cons.prems(2) by auto
  from string_room_step [OF this d, of len]
  obtain k where "k \<ge> 1" "string_room b p len = string_room b (p + length (escape_char c)) (len + k)" by blast
  with Cons.IH [OF drop_part [OF d], of "len + k"] Cons.prems(2) show ?case by force
qed

definition quoted :: "string \<Rightarrow> string" where
  "quoted s = [CHR 0x22] @ concat (map escape_char s) @ [CHR 0x22]"

lemma length_escape_char: "length (escape_char c) = (if short_escape c \<noteq> None then 2 else if (of_char c :: nat) < 32 then 6 else 1)"
  by (auto simp: escape_char_def short_escape_def)

lemma print_quoted: "print_string_ptr s = Some (quoted s)"
proof -
  have "length (concat (map escape_char s)) = escaped_room s" by (induction s) (simp_all add: length_escape_char)
  then show ?thesis by (simp add: print_string_ptr_def in_buffer_def quoted_def)
qed

lemma parse_quoted:
  assumes d: "drop p b = quoted s @ t" and s: "CHR 0x00 \<notin> set s"
  shows "parse_string b p = Some (Inr (s, p + length (quoted s)))"
proof -
  have d': "drop p b = CHR 0x22 # concat (map escape_char s) @ CHR 0x22 # t" using d by (simp add: quoted_def)
  note r = drop_rd [OF d']
  from r obtain n where n: "string_room b (p + 1) 0 = Some n" "n \<ge> length s"
    using string_room_escaped [of "p + 1" b s t 0] s by auto
  with r have "unescape b (p + 1) [] (n + 1) = Some (s, p + 1 + length (concat (map escape_char s)))"
    using unescape_escaped [of "p + 1" b s t "[]" "n + 1"] s by simp
  moreover have "rd b (p + 1 + length (concat (map escape_char s))) = Some (CHR 0x22)"
    using drop_rd [of _ b "CHR 0x22" t] drop_part [of "p + 1" b "concat (map escape_char s)" "CHR 0x22 # t"] r by simp
  moreover have "takeWhile (\<lambda>c. c \<noteq> CHR 0x00) s = s" using s by (auto intro: takeWhile_eq_all_conv [THEN iffD2])
  ultimately show ?thesis using r n by (simp add: parse_string_def quoted_def)
qed

section \<open>Numbers\<close>

lemma digit_char_of: "d < 10 \<Longrightarrow> digit_char (char_of (48 + d)) \<and> digit_value (char_of (48 + d)) = d"
  by (simp add: digit_char_def digit_value_def take_bit_nat_eq_self)

lemma to_string_split: "to_string n = (if n < 10 then [] else to_string (n div 10)) @ [char_of (48 + n mod 10)]"
  by (subst to_string.simps) simp

lemma to_string_digit_chars: "\<forall>c \<in> set (to_string n). digit_char c"
proof (induction n rule: to_string.induct)
  case (1 n)
  then show ?case by (subst to_string_split) (auto simp: digit_char_of)
qed

lemma to_string_hd: "0 < n \<Longrightarrow> \<exists>c t. to_string n = c # t \<and> digit_char c \<and> c \<noteq> CHR ''0''"
proof (induction n rule: to_string.induct)
  case (1 n)
  show ?case
  proof (cases "n < 10")
    case True
    have "digit_value (char_of (48 + n)) \<noteq> digit_value (CHR ''0'')" using 1 True digit_char_of [of n] by (simp add: digit_value_def)
    then have "(char_of (48 + n) :: char) \<noteq> CHR ''0''" by metis
    with True show ?thesis using digit_char_of [of n] by (subst to_string_split) simp
  next
    case False
    then have "0 < n div 10" by (simp add: div_greater_zero_iff)
    with 1 False show ?thesis by (subst to_string_split) auto
  qed
qed

lemma length_to_string: "n < 10 ^ k \<Longrightarrow> 0 < k \<Longrightarrow> length (to_string n) \<le> k"
proof (induction k arbitrary: n)
  case 0
  then show ?case by simp
next
  case (Suc k)
  show ?case
  proof (cases "n < 10")
    case True
    then show ?thesis by (subst to_string_split) simp
  next
    case False
    with Suc.prems have "n div 10 < 10 ^ k" "0 < k" by (auto intro!: Nat.gr0I simp: div_less_iff_less_mult mult.commute)
    with Suc.IH [of "n div 10"] False show ?thesis by (subst to_string_split) simp
  qed
qed

lemma number_digits_step:
  "rd b p = Some c \<Longrightarrow> digit_char c \<Longrightarrow> number_digits D b p n k = number_digits D b (p + 1) (d_push D n (digit_value c)) (k + 1)"
  by (subst number_digits.simps) simp

lemma number_digits_to_string:
  assumes D: "exact_ints D of_i"
  shows "drop p b = to_string n @ u \<Longrightarrow> n \<le> 2 ^ 53 \<Longrightarrow>
    number_digits D b p (of_i 0) 0 = number_digits D b (p + length (to_string n)) (of_i (int n)) (length (to_string n))"
proof (induction n arbitrary: u rule: to_string.induct)
  case (1 n)
  let ?c = "char_of (48 + n mod 10) :: char"
  have c: "digit_char ?c" "digit_value ?c = n mod 10" using digit_char_of [of "n mod 10"] by simp_all
  have push: "d_push D (of_i (int (n div 10))) (n mod 10) = of_i (int n)"
  proof -
    have "10 * int (n div 10) + int (n mod 10) = int n" by presburger
    moreover have "int n \<le> 2 ^ 53" using 1(3) by simp
    ultimately show ?thesis using D by (simp add: exact_ints_def)
  qed
  show ?case
  proof (cases "n < 10")
    case True
    then have "to_string n = [?c]" by (subst to_string_split) simp
    with 1(2) True push c rd_part [of p b "[?c]" u 0] number_digits_step [of b p ?c D "of_i 0" 0] show ?thesis by simp
  next
    case False
    let ?t = "to_string (n div 10)"
    have t: "to_string n = ?t @ [?c]" using False by (subst to_string_split) simp
    have d: "drop p b = ?t @ [?c] @ u" using 1(2) t by simp
    then have "number_digits D b p (of_i 0) 0 = number_digits D b (p + length ?t) (of_i (int (n div 10))) (length ?t)"
      using 1(1) [OF False d] 1(3) by simp
    also have "\<dots> = number_digits D b (p + length ?t + 1) (of_i (int n)) (length ?t + 1)"
      using number_digits_step [of b "p + length ?t" ?c D] rd_part [OF drop_part [OF d], of 0] c push by simp
    finally show ?thesis using t by simp
  qed
qed

text \<open>What may stand behind a number.\<close>

definition number_ends :: "char \<Rightarrow> bool" where
  "number_ends c \<longleftrightarrow> \<not> digit_char c \<and> c \<noteq> CHR ''.'' \<and> c \<noteq> CHR ''e'' \<and> c \<noteq> CHR ''E''"

lemma parse_digits:
  assumes D: "exact_ints D of_i" and sign: "rd b p0 = Some s" "p = (if s = CHR ''-'' then p0 + 1 else p0)"
    and d: "drop p b = to_string n @ c # t" and n: "n \<le> 2 ^ 53" and c: "number_ends c"
  shows "parse_number D b p0 = (let x = d_scale D (s = CHR ''-'') (of_i (int n)) 0 in
    map_option (\<lambda>v. (C_Number v x, p + length (to_string n))) (d_int D x))"
proof (cases "n = 0")
  case True
  have "(of_char (CHR ''0'') :: nat) = 48" by simp
  then have "char_of (48 :: nat) = CHR ''0''" by (metis char_of_char)
  then have "to_string n = ''0''" using True by (subst to_string_split) simp
  then have "rd b p = Some (CHR ''0'')" "rd b (p + 1) = Some c" "length (to_string n) = 1"
    using d rd_part [of p b "[CHR ''0'', c]" t 0] rd_part [of p b "[CHR ''0'', c]" t 1] by simp_all
  with c D True sign show ?thesis
    by (cases "s = CHR ''-''") (auto simp: parse_number_def number_ends_def exact_ints_def Let_def map_conv_bind_option comp_def)
next
  case False
  then obtain a u where a: "to_string n = a # u" "digit_char a" "a \<noteq> CHR ''0''" using to_string_hd by blast
  have a': "rd b p = Some a" using rd_part [OF d, of 0] a by simp
  let ?q = "p + length (to_string n)"
  have q: "rd b ?q = Some c" using drop_rd [OF drop_part [OF d]] by simp
  have "number_digits D b p (of_i 0) 0 = Some (?q, of_i (int n), length (to_string n))"
    using c q number_digits_to_string [OF D d n] by (subst (asm) (2) number_digits.simps) (simp add: number_ends_def)
  moreover have "d_zero D = of_i 0" using D by (simp add: exact_ints_def)
  ultimately show ?thesis using a a' q c sign
    by (cases "s = CHR ''-''") (auto simp: parse_number_def number_ends_def Let_def map_conv_bind_option comp_def)
qed

lemma parse_int_text:
  assumes D: "exact_ints D of_i" and v: "int_min \<le> v" "v \<le> int_max" and d: "drop p b = int_text v @ c # t"
    and c: "number_ends c"
  shows "parse_number D b p = Some (C_Number v (of_i v), p + length (int_text v))"
proof -
  have small: "nat \<bar>v\<bar> \<le> 2 ^ 53" using v by simp
  have int: "d_int D (of_i v) = Some v" using D v by (simp add: exact_ints_def)
  show ?thesis
  proof (cases "v < 0")
    case True
    then have d': "drop p b = CHR ''-'' # to_string (nat \<bar>v\<bar>) @ c # t" using d by (simp add: int_text_def)
    note r = drop_rd [OF d']
    have "d_scale D True (of_i (int (nat \<bar>v\<bar>))) 0 = of_i v" using D True v by (simp add: exact_ints_def)
    with parse_digits [OF D _ _ _ small c, of b p "CHR ''-''" "p + 1" t] r int True show ?thesis
      by (simp add: int_text_def)
  next
    case False
    then have d': "drop p b = to_string (nat \<bar>v\<bar>) @ c # t" using d by (simp add: int_text_def)
    obtain a s where a: "to_string (nat \<bar>v\<bar>) = a # s" by (metis list.exhaust to_string_split snoc_eq_iff_butlast)
    then have "digit_char a" using to_string_digit_chars [of "nat \<bar>v\<bar>"] by simp
    then have "a \<noteq> CHR ''-''" by (auto simp: digit_char_def)
    moreover have "rd b p = Some a" using rd_part [OF d', of 0] a by simp
    moreover have "d_scale D False (of_i (int (nat \<bar>v\<bar>))) 0 = of_i v" using D False v by (simp add: exact_ints_def)
    ultimately show ?thesis using parse_digits [OF D _ _ d' small c, of p a] int False
      by (simp add: int_text_def)
  qed
qed

lemma print_exact:
  assumes D: "exact_ints D of_i" and v: "int_min \<le> v" "v \<le> int_max"
  shows "print_number D v (of_i v) = Some (int_text v)"
proof -
  have "length (to_string (nat \<bar>v\<bar>)) \<le> 10" using v by (intro length_to_string) auto
  then have "length (int_text v) < 21" by (cases "v < 0") (simp_all add: int_text_def)
  moreover have "d_is_int D v (of_i v)" using D v by (simp add: exact_ints_def)
  ultimately show ?thesis by (simp add: print_number_def in_buffer_def)
qed

section \<open>Values\<close>

text \<open>The parser reads \<open>x\<close> from the text \<open>e\<close>, whatever stands around it.\<close>

definition reads :: "'d doubles \<Rightarrow> 'd cjson \<Rightarrow> string \<Rightarrow> bool" where
  "reads D x e \<longleftrightarrow> e \<noteq> [] \<and> (of_char (hd e) :: nat) > 32 \<and> hd e \<noteq> CHR '']'' \<and>
     (\<forall>b p c t. drop p b = e @ c # t \<longrightarrow> number_ends c \<longrightarrow> parse D b Value p = Some (Inr (x, p + length e)))"

lemma starts_at_self: "drop p b = cs @ t \<Longrightarrow> starts_at b p cs = Some True"
proof (induction cs arbitrary: p)
  case Nil
  then show ?case by simp
next
  case (Cons c cs)
  from Cons.prems have "drop p b = c # (cs @ t)" by simp
  with drop_rd [OF this] Cons.IH [of "p + 1"] show ?case by simp
qed

lemma starts_at_other: "rd b p = Some c \<Longrightarrow> c \<noteq> d \<Longrightarrow> starts_at b p (d # ds) = Some False"
  by simp

lemmas starts_at_cons = starts_at.simps(2)

declare starts_at.simps(2) [simp del] starts_at_other [simp]

lemma reads_words:
  "reads D C_NULL ''null''" "reads D C_False ''false''" "reads D C_True ''true''"
proof -
  have "parse D b Value p = Some (Inr (C_NULL, p + 4))" if "drop p b = ''null'' @ c # t" for b p c t
    using starts_at_self [OF that] by (subst parse.simps) simp
  then show "reads D C_NULL ''null''" by (auto simp: reads_def)
  have "parse D b Value p = Some (Inr (C_False, p + 5))" if d: "drop p b = ''false'' @ c # t" for b p c t
    using starts_at_self [OF d] rd_part [OF d, of 0] by (subst parse.simps) simp
  then show "reads D C_False ''false''" by (auto simp: reads_def)
  have "parse D b Value p = Some (Inr (C_True, p + 4))" if d: "drop p b = ''true'' @ c # t" for b p c t
    using starts_at_self [OF d] rd_part [OF d, of 0] by (subst parse.simps) simp
  then show "reads D C_True ''true''" by (auto simp: reads_def)
qed

lemma reads_quoted:
  assumes "CHR 0x00 \<notin> set s"
  shows "reads D (C_String s) (quoted s)"
proof -
  have "parse D b Value p = Some (Inr (C_String s, p + length (quoted s)))" if d: "drop p b = quoted s @ c # t" for b p c t
  proof -
    have "rd b p = Some (CHR 0x22)" using rd_part [OF d, of 0] by (simp add: quoted_def)
    then show ?thesis using parse_quoted [OF d assms] by (subst parse.simps) simp
  qed
  then show ?thesis by (simp add: reads_def quoted_def)
qed

lemma reads_int_text:
  assumes D: "exact_ints D of_i" and v: "int_min \<le> v" "v \<le> int_max"
  shows "reads D (C_Number v (of_i v)) (int_text v)"
proof -
  obtain a s where a: "int_text v = a # s" "a = CHR ''-'' \<or> digit_char a"
  proof (cases "v < 0")
    case False
    obtain a s where "to_string (nat \<bar>v\<bar>) = a # s" by (metis list.exhaust to_string_split snoc_eq_iff_butlast)
    with that False to_string_digit_chars [of "nat \<bar>v\<bar>"] show thesis by (simp add: int_text_def)
  qed (simp add: int_text_def that)
  then have hd: "(of_char a :: nat) > 32 \<and> (of_char a :: nat) < 58 \<and> a \<noteq> CHR 0x22" by (auto simp: digit_char_def)
  then have "a \<noteq> CHR ''n'' \<and> a \<noteq> CHR ''f'' \<and> a \<noteq> CHR ''t'' \<and> a \<noteq> CHR '']''" by auto
  moreover have "parse D b Value p = Some (Inr (C_Number v (of_i v), p + length (int_text v)))"
    if d: "drop p b = int_text v @ c # t" and c: "number_ends c" for b p c t
  proof -
    have "rd b p = Some a" using rd_part [OF d, of 0] a by simp
    then show ?thesis using parse_int_text [OF D v d c] a hd calculation by (subst parse.simps) simp
  qed
  ultimately show ?thesis using a hd by (simp add: reads_def)
qed

text \<open>A value between white space, with the character \<open>c\<close> behind it.\<close>

definition delimiter :: "char \<Rightarrow> bool" where
  "delimiter c \<longleftrightarrow> number_ends c \<and> (of_char c :: nat) > 32"

lemma delimiters [simp]: "delimiter (CHR '','')" "delimiter (CHR '']'')" "delimiter (CHR ''}'')"
  by (simp_all add: delimiter_def number_ends_def digit_char_def)

lemma white_ends: "white c \<Longrightarrow> number_ends c"
  unfolding white_def by (elim disjE) (simp_all add: number_ends_def digit_char_def)

lemma terminator_ends: "number_ends (CHR 0x00)"
  by (simp add: number_ends_def digit_char_def)

lemma number_ends_white: "\<forall>w \<in> set ws. white w \<Longrightarrow> delimiter c \<Longrightarrow> \<exists>d u. ws @ c # t = d # u \<and> number_ends d"
  by (cases ws) (simp_all add: white_ends delimiter_def)

lemma reads_parse:
  "reads D x e \<Longrightarrow> drop p b = e @ d # u \<Longrightarrow> number_ends d \<Longrightarrow> parse D b Value p = Some (Inr (x, p + length e))"
  unfolding reads_def by blast

lemma reads_head: "reads D x e \<Longrightarrow> \<exists>a s. e = a # s \<and> (of_char a :: nat) > 32 \<and> a \<noteq> CHR '']''"
  unfolding reads_def by (cases e) auto

lemma reads_at:
  assumes x: "reads D x e" and w: "\<forall>c \<in> set w. white c" "\<forall>c \<in> set w'. white c" and c: "delimiter c"
    and d: "drop p b = w @ e @ w' @ c # t"
  shows "\<exists>q. skip b p = Some (p + length w) \<and> parse D b Value (p + length w) = Some (Inr (x, q)) \<and>
    skip b q = Some (p + length (w @ e @ w')) \<and> rd b (p + length (w @ e @ w')) = Some c \<and>
    drop (p + length (w @ e @ w') + 1) b = t"
proof -
  let ?p = "p + length w" let ?q = "?p + length e" let ?r = "?q + length w'"
  have r: "p + length (w @ e @ w') = ?r" by simp
  obtain a s where e: "e = a # s" "(of_char a :: nat) > 32" using reads_head [OF x] by blast
  have "drop p b = w @ a # (s @ w' @ c # t)" using d e(1) by simp
  then have s1: "skip b p = Some ?p" using w(1) e(2) by (rule skip_white)
  have d1: "drop ?p b = e @ w' @ c # t" using d by (rule drop_part)
  obtain f u where f: "w' @ c # t = f # u" "number_ends f" using number_ends_white [OF w(2) c] by blast
  have s2: "parse D b Value ?p = Some (Inr (x, ?q))" using x d1 [unfolded f(1)] f(2) by (rule reads_parse)
  have d2: "drop ?q b = w' @ c # t" using d1 by (rule drop_part)
  have s3: "skip b ?q = Some ?r" using d2 w(2) by (rule skip_white) (use c in \<open>simp add: delimiter_def\<close>)
  have "drop ?r b = c # t" using d2 by (rule drop_part)
  then have s4: "rd b ?r = Some c \<and> drop (?r + 1) b = t" by (rule drop_rd)
  show ?thesis unfolding r using s1 s2 s3 s4 by blast
qed

lemma parse_elements:
  assumes ws: "\<forall>c \<in> set ws. white c"
  shows "list_all2 (reads D) xs es \<Longrightarrow> xs \<noteq> [] \<Longrightarrow> \<forall>c \<in> set w. white c \<Longrightarrow>
    drop p b = w @ join (CHR '','' # ws) es @ CHR '']'' # t \<Longrightarrow>
    parse D b (Elements acc) p = Some (Inr (C_Array (acc @ xs), p + length (w @ join (CHR '','' # ws) es) + 1))"
proof (induction xs arbitrary: es w acc p)
  case Nil
  then show ?case by simp
next
  case (Cons x xs)
  then obtain e es' where es: "es = e # es'" "reads D x e" "list_all2 (reads D) xs es'" by (cases es) auto
  show ?case
  proof (cases xs)
    case Nil
    with es Cons.prems have d: "drop p b = w @ e @ [] @ CHR '']'' # t" by simp
    obtain q where "skip b p = Some (p + length w)" "parse D b Value (p + length w) = Some (Inr (x, q))"
      "skip b q = Some (p + length (w @ e @ []))" "rd b (p + length (w @ e @ [])) = Some (CHR '']'')"
      using reads_at [OF es(2) Cons.prems(3) _ _ d] by auto
    with Nil es show ?thesis by (subst parse.simps) simp
  next
    case c: (Cons y ys)
    let ?u = "ws @ join (CHR '','' # ws) es' @ CHR '']'' # t"
    have "es' \<noteq> []" using es(3) c by auto
    then have j: "join (CHR '','' # ws) es = e @ CHR '','' # ws @ join (CHR '','' # ws) es'"
      using es(1) by (cases es') simp_all
    then have d: "drop p b = w @ e @ [] @ CHR '','' # ?u" using Cons.prems(4) by simp
    obtain q where q: "skip b p = Some (p + length w)" "parse D b Value (p + length w) = Some (Inr (x, q))"
      "skip b q = Some (p + length (w @ e @ []))" "rd b (p + length (w @ e @ [])) = Some (CHR '','')"
      "drop (p + length (w @ e @ []) + 1) b = ?u"
      using reads_at [OF es(2) Cons.prems(3) _ _ d] by auto
    then have "parse D b (Elements acc) p = parse D b (Elements (acc @ [x])) (p + length (w @ e @ []) + 1)"
      by (subst parse.simps) simp
    also have "\<dots> = Some (Inr (C_Array ((acc @ [x]) @ xs), p + length (w @ e @ []) + 1 + length (ws @ join (CHR '','' # ws) es') + 1))"
      using c by (intro Cons.IH [OF es(3) _ ws q(5)]) simp
    finally show ?thesis unfolding j by simp
  qed
qed

text \<open>A field as it is printed, and the one it is read from.\<close>

definition field_text :: "string \<Rightarrow> string \<Rightarrow> string \<times> string \<Rightarrow> string" where
  "field_text w1 w2 ke = w1 @ fst ke @ [CHR '':''] @ w2 @ snd ke"

definition reads_field :: "'d doubles \<Rightarrow> string \<times> 'd cjson \<Rightarrow> string \<times> string \<Rightarrow> bool" where
  "reads_field D kx ke \<longleftrightarrow> CHR 0x00 \<notin> set (fst kx) \<and> fst ke = quoted (fst kx) \<and> reads D (snd kx) (snd ke)"

lemma field_at:
  assumes x: "reads_field D (k, x) ke" and w: "\<forall>c \<in> set w. white c" "\<forall>c \<in> set w1. white c" "\<forall>c \<in> set w2. white c"
      "\<forall>c \<in> set w'. white c"
    and c: "delimiter c" and d: "drop p b = w @ field_text w1 w2 ke @ w' @ c # t"
  shows "\<exists>q1 q2 q3. skip b p = Some q1 \<and> parse_string b q1 = Some (Inr (k, q2)) \<and> skip b q2 = Some q2 \<and>
    rd b q2 = Some (CHR '':'') \<and> skip b (q2 + 1) = Some q3 \<and>
    (\<exists>q. parse D b Value q3 = Some (Inr (x, q)) \<and> skip b q = Some (p + length (w @ field_text w1 w2 ke @ w')) \<and>
      rd b (p + length (w @ field_text w1 w2 ke @ w')) = Some c \<and>
      drop (p + length (w @ field_text w1 w2 ke @ w') + 1) b = t)"
proof -
  let ?q1 = "p + length (w @ w1)" let ?q2 = "?q1 + length (quoted k)" let ?q3 = "?q2 + 1 + length w2"
  obtain e where ke: "ke = (quoted k, e)" "reads D x e" and k: "CHR 0x00 \<notin> set k"
    using x by (cases ke) (simp add: reads_field_def)
  let ?u = "w2 @ e @ w' @ c # t"
  have d0: "drop p b = (w @ w1) @ quoted k @ CHR '':'' # ?u" using d by (simp add: field_text_def ke(1))
  then have "drop p b = (w @ w1) @ CHR 0x22 # (concat (map escape_char k) @ [CHR 0x22] @ CHR '':'' # ?u)"
    by (simp add: quoted_def)
  then have s1: "skip b p = Some ?q1" by (rule skip_white) (use w in auto)
  have d1: "drop ?q1 b = quoted k @ CHR '':'' # ?u" using d0 by (rule drop_part)
  then have s2: "parse_string b ?q1 = Some (Inr (k, ?q2))" using k by (rule parse_quoted)
  have "drop ?q2 b = CHR '':'' # ?u" using d1 by (rule drop_part)
  then have s3: "rd b ?q2 = Some (CHR '':'') \<and> drop (?q2 + 1) b = ?u" by (rule drop_rd)
  then have s4: "skip b ?q2 = Some ?q2" by (intro skip_here) auto
  have r: "?q2 + 1 + length (w2 @ e @ w') = p + length (w @ field_text w1 w2 ke @ w')"
    by (simp add: field_text_def ke(1))
  from reads_at [OF ke(2) w(3,4) c conjunct2 [OF s3]] s1 s2 s3 s4 show ?thesis unfolding r by blast
qed

lemma parse_fields:
  assumes ws: "\<forall>c \<in> set ws. white c" "\<forall>c \<in> set w1. white c" "\<forall>c \<in> set w2. white c" "\<forall>c \<in> set w3. white c"
  shows "list_all2 (reads_field D) kxs es \<Longrightarrow> kxs \<noteq> [] \<Longrightarrow> \<forall>c \<in> set w. white c \<Longrightarrow>
    drop p b = w @ join (CHR '','' # ws) (map (field_text w1 w2) es) @ w3 @ CHR ''}'' # t \<Longrightarrow>
    parse D b (Fields acc) p = Some (Inr (C_Object (acc @ kxs),
      p + length (w @ join (CHR '','' # ws) (map (field_text w1 w2) es) @ w3) + 1))"
proof (induction kxs arbitrary: es w acc p)
  case Nil
  then show ?case by simp
next
  case (Cons kx kxs)
  obtain k x where kx: "kx = (k, x)" by (cases kx)
  obtain e es' where es: "es = e # es'" "reads_field D (k, x) e" "list_all2 (reads_field D) kxs es'"
    using Cons.prems(1) kx by (cases es) auto
  show ?case
  proof (cases kxs)
    case Nil
    then have j: "join (CHR '','' # ws) (map (field_text w1 w2) es) = field_text w1 w2 e" using es by simp
    have d: "drop p b = w @ field_text w1 w2 e @ w3 @ CHR ''}'' # t" using Cons.prems(4) by (simp add: j)
    from field_at [OF es(2) Cons.prems(3) ws(2,3,4) _ d] show ?thesis
      unfolding j using Nil kx by (subst parse.simps) auto
  next
    case c: (Cons y ys)
    let ?j = "join (CHR '','' # ws) (map (field_text w1 w2) es')"
    let ?u = "ws @ ?j @ w3 @ CHR ''}'' # t"
    have "es' \<noteq> []" using es(3) c by auto
    then have j: "join (CHR '','' # ws) (map (field_text w1 w2) es) = field_text w1 w2 e @ CHR '','' # ws @ ?j"
      using es(1) by (cases es') simp_all
    have d: "drop p b = w @ field_text w1 w2 e @ [] @ CHR '','' # ?u" using Cons.prems(4) by (simp add: j)
    let ?q = "p + length (w @ field_text w1 w2 e @ []) + 1"
    have "\<forall>c \<in> set []. white c" by simp
    note f = field_at [OF es(2) Cons.prems(3) ws(2,3) this delimiters(1) d]
    from f have q: "drop ?q b = ?u" by blast
    from f have "parse D b (Fields acc) p = parse D b (Fields (acc @ [(k, x)])) ?q" by (subst parse.simps) auto
    also have "parse D b (Fields (acc @ [(k, x)])) ?q =
        Some (Inr (C_Object ((acc @ [(k, x)]) @ kxs), ?q + length (ws @ ?j @ w3) + 1))"
      using c by (intro Cons.IH [OF es(3) _ ws(1) q]) simp
    finally show ?thesis unfolding j kx by simp
  qed
qed

section \<open>Printed values\<close>

lemma reads_bracket:
  assumes "rd b p = Some (CHR ''['')" and "skip b (p + 1) = Some q" and "rd b q = Some c"
  shows "parse D b Value p = (if c = CHR '']'' then Some (Inr (C_Array [], q + 1)) else parse D b (Elements []) q)"
  using assms by (subst parse.simps) (simp add: digit_char_def)

lemma reads_brace:
  assumes "rd b p = Some (CHR ''{'')" and "skip b (p + 1) = Some q" and "rd b q = Some c"
  shows "parse D b Value p = (if c = CHR ''}'' then Some (Inr (C_Object [], q + 1)) else parse D b (Fields []) q)"
  using assms by (subst parse.simps) (simp add: digit_char_def)

lemma reads_array:
  assumes xs: "list_all2 (reads D) xs es" and ws: "\<forall>c \<in> set ws. white c"
  shows "reads D (C_Array xs) (CHR ''['' # join (CHR '','' # ws) es @ '']'')"
proof -
  let ?j = "join (CHR '','' # ws) es"
  have "parse D b Value p = Some (Inr (C_Array xs, p + length (CHR ''['' # ?j @ '']'')))"
    if d: "drop p b = (CHR ''['' # ?j @ '']'') @ c # t" for b p c t
  proof -
    have d0: "drop p b = CHR ''['' # ?j @ CHR '']'' # c # t" using d by simp
    note r = drop_rd [OF d0]
    show ?thesis
    proof (cases xs)
      case Nil
      then have "drop (p + 1) b = CHR '']'' # c # t" using r xs by simp
      note r1 = drop_rd [OF this]
      then have s: "skip b (p + 1) = Some (p + 1)" by (intro skip_here) auto
      show ?thesis using reads_bracket [OF conjunct1 [OF r] s conjunct1 [OF r1], of D] Nil xs by simp
    next
      case (Cons x xs')
      then obtain e es' where e: "es = e # es'" "reads D x e" using xs by (cases es) auto
      obtain a s where a: "e = a # s" "(of_char a :: nat) > 32" "a \<noteq> CHR '']''" using reads_head [OF e(2)] by blast
      then have "\<exists>u. ?j = a # u" using e(1) by (cases es') auto
      then have r1: "rd b (p + 1) = Some a" using r drop_rd [of "p + 1" b a] by auto
      then have s: "skip b (p + 1) = Some (p + 1)" using a by (intro skip_here) auto
      have "parse D b Value p = parse D b (Elements []) (p + 1)"
        using reads_bracket [OF conjunct1 [OF r] s r1, of D] a(3) by simp
      also have "\<dots> = Some (Inr (C_Array ([] @ xs), p + 1 + length ([] @ ?j) + 1))"
        using r Cons by (intro parse_elements [OF ws xs]) auto
      finally show ?thesis by simp
    qed
  qed
  then show ?thesis by (simp add: reads_def)
qed

lemma reads_no_fields:
  assumes w: "\<forall>c \<in> set w. white c"
  shows "reads D (C_Object []) (CHR ''{'' # w @ ''}'')"
proof -
  have "parse D b Value p = Some (Inr (C_Object [], p + length (CHR ''{'' # w @ ''}'')))"
    if d: "drop p b = (CHR ''{'' # w @ ''}'') @ c # t" for b p c t
  proof -
    have d0: "drop p b = CHR ''{'' # w @ CHR ''}'' # c # t" using d by simp
    note r = drop_rd [OF d0]
    have d1: "drop (p + 1) b = w @ CHR ''}'' # c # t" using r by blast
    have s: "skip b (p + 1) = Some (p + 1 + length w)" using d1 w by (rule skip_white) simp
    have "drop (p + 1 + length w) b = CHR ''}'' # c # t" using d1 by (rule drop_part)
    note r1 = drop_rd [OF this]
    show ?thesis using reads_brace [OF conjunct1 [OF r] s conjunct1 [OF r1], of D] by simp
  qed
  then show ?thesis by (simp add: reads_def)
qed

lemma reads_object:
  assumes kxs: "list_all2 (reads_field D) kxs es" "kxs \<noteq> []"
    and ws: "\<forall>c \<in> set ws. white c" "\<forall>c \<in> set w1. white c" "\<forall>c \<in> set w2. white c" "\<forall>c \<in> set w3. white c"
      "\<forall>c \<in> set w. white c"
  shows "reads D (C_Object kxs) (CHR ''{'' # w @ join (CHR '','' # ws) (map (field_text w1 w2) es) @ w3 @ ''}'')"
proof -
  let ?j = "join (CHR '','' # ws) (map (field_text w1 w2) es)"
  have "parse D b Value p = Some (Inr (C_Object kxs, p + length (CHR ''{'' # w @ ?j @ w3 @ ''}'')))"
    if d: "drop p b = (CHR ''{'' # w @ ?j @ w3 @ ''}'') @ c # t" for b p c t
  proof -
    have d0: "drop p b = CHR ''{'' # w @ ?j @ w3 @ CHR ''}'' # c # t" using d by simp
    note r = drop_rd [OF d0]
    have d1: "drop (p + 1) b = w @ ?j @ w3 @ CHR ''}'' # c # t" using r by blast
    obtain kx kxs' e es' where e: "es = e # es'" "reads_field D kx e" using kxs by (cases kxs; cases es) auto
    have "\<exists>u. ?j = w1 @ CHR 0x22 # u" using e by (cases es') (auto simp: field_text_def reads_field_def quoted_def)
    then obtain u where j: "?j = w1 @ CHR 0x22 # u" by blast
    have d2: "drop (p + 1) b = (w @ w1) @ CHR 0x22 # (u @ w3 @ CHR ''}'' # c # t)" using d1 j by simp
    then have s: "skip b (p + 1) = Some (p + 1 + length (w @ w1))" by (rule skip_white) (use ws in auto)
    have d3: "drop (p + 1 + length (w @ w1)) b = CHR 0x22 # (u @ w3 @ CHR ''}'' # c # t)" using d2 by (rule drop_part)
    note r3 = drop_rd [OF this]
    have "parse D b Value p = parse D b (Fields []) (p + 1 + length (w @ w1))"
      using reads_brace [OF conjunct1 [OF r] s conjunct1 [OF r3], of D] by simp
    also have "\<dots> = parse D b (Fields []) (p + 1)"
      using s skip_here [OF conjunct1 [OF r3]] by (subst (1 2) parse.simps) simp
    also have "\<dots> = Some (Inr (C_Object ([] @ kxs), p + 1 + length (w @ ?j @ w3) + 1))"
      by (intro parse_fields [OF ws(1-4) kxs ws(5) d1])
    finally show ?thesis by simp
  qed
  then show ?thesis by (simp add: reads_def)
qed

text \<open>The buffers have the size of what is composed in them.\<close>

lemma length_join: "length (join sep es) \<le> sum_list (map (\<lambda>e. length e + length sep) es)"
  by (induction sep es rule: join.induct) auto

definition gap :: "bool \<Rightarrow> string \<Rightarrow> string" where
  "gap fmt w = (if fmt then w else [])"

lemma white_gap [simp]: "\<forall>c \<in> set w. white c \<Longrightarrow> \<forall>c \<in> set (gap fmt w). white c"
  by (simp add: gap_def)

lemma white_chars [simp]: "white (CHR 0x0A)" "white (CHR 0x09)" "white (CHR '' '')" "\<forall>c \<in> set (tabs n). white c"
  by (simp_all add: white_def tabs_def)

lemma length_tabs [simp]: "length (tabs n) = n"
  by (simp add: tabs_def)

lemma compose_array_text: "compose_array fmt es = Some (CHR ''['' # join (CHR '','' # gap fmt '' '') es @ '']'')"
proof -
  have "length (join (CHR '','' # gap fmt '' '') es) \<le> sum_list (map (\<lambda>e. length e + 2 + (if fmt then 1 else 0)) es)"
    by (rule order.trans [OF length_join], rule sum_list_mono) (simp add: gap_def)
  then show ?thesis by (cases "es = []") (auto simp: compose_array_def in_buffer_def gap_def)
qed

lemma compose_object_empty: "compose_object fmt depth [] = Some (CHR ''{'' # gap fmt (CHR 0x0A # tabs (depth - 1)) @ ''}'')"
  by (simp add: compose_object_def in_buffer_def gap_def) arith

lemma braces_length:
  "length t \<le> n \<Longrightarrow> length (CHR ''{'' # gap fmt [CHR 0x0A] @ t @ gap fmt (CHR 0x0A # tabs depth) @ ''}'') <
    7 + (if fmt then depth + 1 else 0) + n"
  by (simp add: gap_def)

lemma compose_object_text:
  assumes "es \<noteq> []"
  shows "compose_object fmt depth es = Some (CHR ''{'' # gap fmt [CHR 0x0A] @
    join (CHR '','' # gap fmt [CHR 0x0A]) (map (field_text (gap fmt (tabs (depth + 1))) (gap fmt [CHR 0x09])) es) @
    gap fmt (CHR 0x0A # tabs depth) @ ''}'')"
proof -
  let ?w = "gap fmt (tabs (depth + 1))" and ?v = "gap fmt [CHR 0x09]"
  let ?f = "field_text ?w ?v" and ?s = "CHR '','' # gap fmt [CHR 0x0A]"
  have f: "(\<lambda>(k, e). ?w @ k @ '':'' @ ?v @ e) = ?f" by (auto simp: field_text_def)
  have "length (join ?s (map ?f es)) \<le> sum_list (map (\<lambda>e. length e + length ?s) (map ?f es))" by (rule length_join)
  also have "\<dots> \<le> sum_list (map (\<lambda>(k, e). length e + length k + 2 + (if fmt then 2 + (depth + 1) else 0)) es)"
    unfolding map_map by (rule sum_list_mono) (auto simp: field_text_def gap_def)
  finally have "length (CHR ''{'' # gap fmt [CHR 0x0A] @ join ?s (map ?f es) @ gap fmt (CHR 0x0A # tabs depth) @ ''}'') <
      7 + (if fmt then depth + 1 else 0) +
      sum_list (map (\<lambda>(k, e). length e + length k + 2 + (if fmt then 2 + (depth + 1) else 0)) es)"
    by (rule braces_length)
  moreover have "compose_object fmt depth es = in_buffer (7 + (if fmt then depth + 1 else 0) +
      sum_list (map (\<lambda>(k, e). length e + length k + 2 + (if fmt then 2 + (depth + 1) else 0)) es))
      (CHR ''{'' # gap fmt [CHR 0x0A] @ join ?s (map (\<lambda>(k, e). ?w @ k @ '':'' @ ?v @ e) es) @
       gap fmt (CHR 0x0A # tabs depth) @ ''}'')"
    using assms by (simp add: compose_object_def gap_def)
  ultimately show ?thesis unfolding f in_buffer_def by (simp only: if_True)
qed

section \<open>The round trip\<close>

lemma print_value_reads:
  assumes D: "exact_ints D of_i"
  shows "printable of_i j \<Longrightarrow> \<exists>text. print_value D fmt depth j = Some text \<and> reads D j text"
    and "\<forall>x \<in> set xs. printable of_i x \<Longrightarrow> \<exists>es. print_elements D fmt depth xs = Some es \<and> list_all2 (reads D) xs es"
    and "\<forall>kx \<in> set kxs. CHR 0x00 \<notin> set (fst kx) \<and> printable of_i (snd kx) \<Longrightarrow>
      \<exists>es. print_fields D fmt depth kxs = Some es \<and> list_all2 (reads_field D) kxs es"
  using assms
proof (induction D fmt depth j and D fmt depth xs and D fmt depth kxs rule: print_value_print_elements_print_fields.induct)
  case (4 D fmt depth v d)
  then show ?case using print_exact [of D of_i v] reads_int_text [of D of_i v] by simp
next
  case (5 D fmt depth s)
  then show ?case by (simp add: print_quoted reads_quoted)
next
  case (6 D fmt depth xs)
  then show ?case by (auto simp: compose_array_text intro!: reads_array white_gap)
next
  case (7 D fmt depth kxs)
  then obtain es where es: "print_fields D fmt (depth + 1) kxs = Some es" "list_all2 (reads_field D) kxs es" by auto
  show ?case
  proof (cases "kxs = []")
    case True
    then show ?thesis using es by (auto simp: compose_object_empty intro!: reads_no_fields white_gap)
  next
    case False
    moreover from this es have "es \<noteq> []" by auto
    ultimately show ?thesis using es
      by (auto simp: compose_object_text intro!: reads_object white_gap)
  qed
next
  case (11 D fmt depth k x kxs)
  then obtain e where e: "print_value D fmt depth x = Some e" "reads D x e"
    by (auto simp: print_quoted)
  moreover obtain es where "print_fields D fmt depth kxs = Some es" "list_all2 (reads_field D) kxs es"
    using 11(2) [OF print_quoted e(1)] 11(3-) by auto
  moreover have "reads_field D (k, x) (quoted k, e)" using 11 e by (simp add: reads_field_def)
  ultimately show ?case by (simp add: print_quoted)
qed (auto simp: reads_words)

lemma reads_text: "reads D j t \<Longrightarrow> cJSON_Parse D (t @ CHR 0x00 # rest) = Some (Inr j)"
proof -
  assume t: "reads D j t"
  let ?b = "t @ CHR 0x00 # rest"
  obtain a s where a: "t = a # s" "(of_char a :: nat) > 32" using reads_head [OF t] by blast
  then have "skip ?b 0 = Some 0" by (intro skip_here) (auto simp: rd_def)
  moreover have "parse D ?b Value 0 = Some (Inr (j, 0 + length t))"
    by (rule reads_parse [OF t _ terminator_ends]) simp
  ultimately show ?thesis by (simp add: cJSON_Parse_def cJSON_ParseWithOpts_def)
qed

text \<open>An instance: numbers that are all integers.\<close>

definition int_doubles :: "int doubles" where
  "int_doubles = \<lparr> d_zero = 0, d_push = \<lambda>n d. 10 * n + int d,
     d_scale = \<lambda>neg n e. (if neg then - n else n) * 10 ^ nat e div 10 ^ nat (- e),
     d_int = \<lambda>n. if int_min \<le> n \<and> n \<le> int_max then Some n else None, d_is_int = (=), d_whole = \<lambda>n. True,
     d_extreme = \<lambda>n. False, d_text_0f = int_text, d_text_e = int_text, d_text_f = int_text \<rparr>"

lemma exact_int_doubles: "exact_ints int_doubles id"
  by (simp add: exact_ints_def int_doubles_def)

end
