(* ===== verification/Cjson_Minify.thy ===== *)
theory Cjson_Minify
  imports Cjson_Roundtrip
begin

text \<open>
  Removing the white space of a text that \<open>Cjson\<close> printed formatted gives the text that it prints unformatted; the
  round trip of both; and a string with which the parser leaves its buffer.
\<close>

section \<open>Pieces of text\<close>

text \<open>The piece \<open>t\<close> becomes \<open>u\<close>, wherever it stands.\<close>

definition minifies :: "string \<Rightarrow> string \<Rightarrow> bool" where
  "minifies t u \<longleftrightarrow> CHR 0x00 \<notin> set u \<and>
     (\<forall>b p r out. drop p b = t @ r \<longrightarrow> minify b p out = minify b (p + length t) (out @ u))"

lemma minifies_nil [simp]: "minifies [] []"
  by (simp add: minifies_def)

lemma minifies_append [intro]:
  assumes "minifies t u" and "minifies t' u'"
  shows "minifies (t @ t') (u @ u')"
proof -
  have "minify b p out = minify b (p + length (t @ t')) (out @ u @ u')" if d: "drop p b = (t @ t') @ r" for b p r out
  proof -
    have d1: "drop p b = t @ t' @ r" using d by simp
    then have "minify b p out = minify b (p + length t) (out @ u)" using assms(1) unfolding minifies_def by blast
    also have "\<dots> = minify b (p + length t + length t') ((out @ u) @ u')"
      using assms(2) drop_part [OF d1] unfolding minifies_def by blast
    finally show ?thesis by (simp add: add.assoc)
  qed
  then show ?thesis using assms by (auto simp: minifies_def)
qed

lemma minifies_concat: "list_all2 minifies ts us \<Longrightarrow> minifies (concat ts) (concat us)"
  by (induction ts us rule: list_all2_induct) auto

definition kept :: "char \<Rightarrow> bool" where
  "kept c \<longleftrightarrow> \<not> white c \<and> c \<noteq> CHR 0x0D \<and> c \<noteq> CHR 0x00 \<and> c \<noteq> CHR ''/'' \<and> c \<noteq> CHR 0x22"

lemma minifies_kept: "kept c \<Longrightarrow> minifies [c] [c]"
proof -
  assume c: "kept c"
  have "minify b p out = minify b (p + 1) (out @ [c])" if "drop p b = c # r" for b p r out
    using drop_rd [OF that] c by (subst minify.simps) (simp add: kept_def white_def)
  with c show ?thesis by (auto simp: minifies_def kept_def)
qed

lemma minifies_white: "white c \<Longrightarrow> minifies [c] []"
proof -
  assume c: "white c"
  have "minify b p out = minify b (p + 1) out" if "drop p b = c # r" for b p r out
    using drop_rd [OF that] c unfolding white_def by (subst minify.simps) (elim disjE; simp)
  then show ?thesis by (auto simp: minifies_def)
qed

lemma minifies_kepts: "\<forall>c \<in> set cs. kept c \<Longrightarrow> minifies cs cs"
proof (induction cs)
  case (Cons c cs)
  then show ?case using minifies_append [OF minifies_kept [of c], of cs cs] by simp
qed simp

lemma minifies_whites: "\<forall>c \<in> set cs. white c \<Longrightarrow> minifies cs []"
proof (induction cs)
  case (Cons c cs)
  then show ?case using minifies_append [OF minifies_white [of c], of cs "[]"] by simp
qed simp

section \<open>Strings\<close>

lemma literal_plains:
  "drop p b = cs @ t \<Longrightarrow> \<forall>c \<in> set cs. c \<noteq> CHR 0x22 \<and> c \<noteq> CHR 0x00 \<and> c \<noteq> CHR 0x5C \<Longrightarrow>
   literal b p out = literal b (p + length cs) (out @ cs)"
proof (induction cs arbitrary: p out)
  case (Cons c cs)
  from Cons.prems(1) have "drop p b = c # (cs @ t)" by simp
  note rd = drop_rd [OF this]
  then have "literal b p out = literal b (p + 1) (out @ [c])" using Cons.prems(2) by (subst literal.simps) auto
  with rd Cons.IH [of "p + 1" "out @ [c]"] Cons.prems(2) show ?case by simp
qed simp

lemma literal_escape:
  assumes "drop p b = CHR 0x5C # d # t"
  shows "literal b p out = literal b (p + 2) (out @ [CHR 0x5C, d])"
proof -
  note r = drop_rd [OF assms]
  then have "rd b (p + 1) = Some d" using drop_rd [of "p + 1" b d t] by blast
  with r show ?thesis by (subst literal.simps) simp
qed

lemma literal_step:
  assumes "c \<noteq> CHR 0x00" and d: "drop p b = escape_char c @ t"
  shows "literal b p out = literal b (p + length (escape_char c)) (out @ escape_char c)"
  using assms(1)
proof (cases rule: escape_char_cases)
  case plain
  with d assms(1) literal_plains [of p b "[c]" t out] show ?thesis by simp
next
  case (short e)
  with d literal_escape [of p b e t out] show ?thesis by simp
next
  case control
  let ?cs = "[CHR ''0'', CHR ''0'', hex_char (of_char c div 16), hex_char (of_char c mod 16)]"
  have d1: "drop p b = CHR 0x5C # CHR ''u'' # ?cs @ t" using d control(1) by simp
  have "drop p b = [CHR 0x5C, CHR ''u''] @ ?cs @ t" using d1 by simp
  from drop_part [OF this] have e: "drop (p + 2) b = ?cs @ t" by simp
  have "\<forall>c \<in> set ?cs. c \<noteq> CHR 0x22 \<and> c \<noteq> CHR 0x00 \<and> c \<noteq> CHR 0x5C"
    using hex_char_plain [of "of_char c div 16"] hex_char_plain [of "of_char c mod 16"] control(4) by simp
  from literal_plains [OF e this, of "out @ [CHR 0x5C, CHR ''u'']"] literal_escape [OF d1, of out]
  have "literal b p out = literal b (p + 2 + length ?cs) (out @ [CHR 0x5C, CHR ''u''] @ ?cs)" by simp
  moreover have "p + 2 + length ?cs = p + 6" by simp
  moreover have "[CHR 0x5C, CHR ''u''] @ ?cs = escape_char c" using control(1) by simp
  ultimately show ?thesis using length_control [OF control(1)] by (simp only:)
qed

lemma literal_escaped:
  "drop p b = concat (map escape_char s) @ CHR 0x22 # t \<Longrightarrow> CHR 0x00 \<notin> set s \<Longrightarrow>
   literal b p out = Some (p + length (concat (map escape_char s)) + 1, out @ concat (map escape_char s) @ [CHR 0x22])"
proof (induction s arbitrary: p out)
  case Nil
  with drop_rd [of p b "CHR 0x22" t] show ?case by (subst literal.simps) simp
next
  case (Cons c s)
  have d: "drop p b = escape_char c @ concat (map escape_char s) @ CHR 0x22 # t" using Cons.prems(1) by simp
  have "c \<noteq> CHR 0x00" using Cons.prems(2) by auto
  with Cons.IH [OF drop_part [OF d], of "out @ escape_char c"] literal_step [OF _ d, of out] Cons.prems(2)
  show ?case by (simp add: add.assoc)
qed

lemma escape_char_no_terminator:
  assumes c: "c \<noteq> CHR 0x00"
  shows "CHR 0x00 \<notin> set (escape_char c)"
  using c
proof (cases rule: escape_char_cases)
  case plain
  with c show ?thesis by simp
next
  case (short e)
  then have "e \<noteq> CHR 0x00" by (auto simp: short_escape_def split: if_splits)
  with short show ?thesis by simp
next
  case control
  then have "(of_char c :: nat) div 16 < 16" "(of_char c :: nat) mod 16 < 16" by simp_all
  then show ?thesis using control(1) hex_char_plain by (auto dest!: sym [of "CHR 0x00"])
qed

lemma minify_quote:
  assumes "rd b p = Some (CHR 0x22)" and "literal b (p + 1) (out @ [CHR 0x22]) = Some (q, out')"
  shows "minify b p out = minify b q out'"
  using assms by (subst minify.simps) simp

lemma minifies_quoted:
  assumes s: "CHR 0x00 \<notin> set s"
  shows "minifies (quoted s) (quoted s)"
proof -
  have "minify b p out = minify b (p + length (quoted s)) (out @ quoted s)" if d: "drop p b = quoted s @ r" for b p r out
  proof -
    have "drop p b = CHR 0x22 # concat (map escape_char s) @ CHR 0x22 # r" using d by (simp add: quoted_def)
    note r = drop_rd [OF this]
    have "minify b p out = minify b (p + 1 + length (concat (map escape_char s)) + 1)
        ((out @ [CHR 0x22]) @ concat (map escape_char s) @ [CHR 0x22])"
      by (rule minify_quote [OF conjunct1 [OF r] literal_escaped [OF conjunct2 [OF r] s]])
    then show ?thesis by (simp add: quoted_def)
  qed
  moreover have "\<forall>c \<in> set s. CHR 0x00 \<notin> set (escape_char c)" using s escape_char_no_terminator by metis
  then have "CHR 0x00 \<notin> set (quoted s)" by (simp add: quoted_def)
  ultimately show ?thesis unfolding minifies_def by blast
qed

section \<open>Values\<close>

lemma digit_kept: "digit_char c \<Longrightarrow> kept c"
  unfolding kept_def white_def by (auto simp: digit_char_def)

lemma minifies_int_text: "minifies (int_text v) (int_text v)"
proof (rule minifies_kepts)
  have "kept (CHR ''-'')" by (simp add: kept_def white_def)
  then show "\<forall>c \<in> set (int_text v). kept c" using to_string_digit_chars digit_kept by (auto simp: int_text_def)
qed

lemma minifies_words: "minifies ''null'' ''null''" "minifies ''false'' ''false''" "minifies ''true'' ''true''"
  by (rule minifies_kepts, simp add: kept_def white_def)+

lemma minifies_marks: "minifies ''['' ''[''" "minifies '']'' '']''" "minifies ''{'' ''{''" "minifies ''}'' ''}''"
    "minifies '','' '',''" "minifies '':'' '':''"
  by (rule minifies_kepts, simp add: kept_def white_def)+

lemma minifies_sep: "minifies t u \<Longrightarrow> \<forall>c \<in> set w. white c \<Longrightarrow> minifies (t @ w) u"
  using minifies_append [OF _ minifies_whites, of t u w] by simp

lemma minifies_lead: "minifies t u \<Longrightarrow> \<forall>c \<in> set w. white c \<Longrightarrow> minifies (w @ t) u"
  using minifies_append [OF minifies_whites, of w t u] by simp

lemma minifies_join: "minifies sep sep' \<Longrightarrow> list_all2 minifies ts us \<Longrightarrow> minifies (join sep ts) (join sep' us)"
proof (induction sep ts arbitrary: us rule: join.induct)
  case (2 sep e)
  then show ?case by (cases us) auto
next
  case (3 sep e f es)
  then obtain u v us' where "us = u # v # us'" "minifies e u" "list_all2 minifies (f # es) (v # us')"
    by (cases us; cases "tl us") auto
  with 3 show ?case by (auto simp: append_assoc [symmetric] simp del: append_assoc)
qed simp

lemma minifies_field:
  assumes "minifies k k'" and "minifies e e'" and "\<forall>c \<in> set w1. white c" and "\<forall>c \<in> set w2. white c"
  shows "minifies (field_text w1 w2 (k, e)) (field_text [] [] (k', e'))"
proof -
  have "minifies (w1 @ k @ [CHR '':''] @ w2 @ e) (k' @ [CHR '':''] @ e')"
    using assms minifies_marks(6) by (intro minifies_lead minifies_append)
  then show ?thesis by (simp add: field_text_def)
qed

lemma minifies_printed:
  shows "printable of_i j \<Longrightarrow> exact_ints D of_i \<Longrightarrow> print_value D True depth j = Some t \<Longrightarrow>
      \<exists>u. print_value D False depth j = Some u \<and> minifies t u"
    and "\<forall>x \<in> set xs. printable of_i x \<Longrightarrow> exact_ints D of_i \<Longrightarrow> print_elements D True depth xs = Some ts \<Longrightarrow>
      \<exists>us. print_elements D False depth xs = Some us \<and> list_all2 minifies ts us"
    and "\<forall>kx \<in> set kxs. CHR 0x00 \<notin> set (fst kx) \<and> printable of_i (snd kx) \<Longrightarrow> exact_ints D of_i \<Longrightarrow>
      print_fields D True depth kxs = Some ps \<Longrightarrow>
      \<exists>us. print_fields D False depth kxs = Some us \<and> list_all2 (rel_prod minifies minifies) ps us"
proof (induction D "True" depth j and D "True" depth xs and D "True" depth kxs arbitrary: t and ts and ps
    rule: print_value_print_elements_print_fields.induct)
  case (4 D depth v d)
  then have "print_number D v d = Some (int_text v)" using print_exact [of D of_i v] by simp
  with 4 show ?case using minifies_int_text by auto
next
  case (5 D depth s)
  then show ?case using minifies_quoted by (auto simp: print_quoted)
next
  case (6 D depth xs)
  then obtain ts us where ts: "print_elements D True (depth + 1) xs = Some ts" "print_elements D False (depth + 1) xs = Some us"
    "list_all2 minifies ts us" by (auto simp: bind_Some_iff)
  have "minifies ('','' @ gap True '' '') ('','' @ gap False '' '')"
    using minifies_sep [OF minifies_marks(5), of "'' ''"] by (simp add: gap_def)
  from minifies_append [OF minifies_marks(1) minifies_append [OF minifies_join [OF this ts(3)] minifies_marks(2)]]
  show ?case using 6(4) ts by (simp add: compose_array_text)
next
  case (7 D depth kxs)
  then obtain ps us where ps: "print_fields D True (depth + 1) kxs = Some ps" "print_fields D False (depth + 1) kxs = Some us"
    "list_all2 (rel_prod minifies minifies) ps us" by (auto simp: bind_Some_iff)
  show ?case
  proof (cases "ps = []")
    case True
    with ps(3) have "us = []" by simp
    moreover have "minifies (''{'' @ (CHR 0x0A # tabs (depth - 1)) @ ''}'') (''{'' @ ''}'')"
      by (intro minifies_append minifies_lead minifies_marks) simp
    ultimately show ?thesis using 7(4) ps True by (auto simp: compose_object_empty gap_def)
  next
    case False
    with ps(3) have us: "us \<noteq> []" by auto
    let ?f = "field_text (tabs (depth + 1)) [CHR 0x09]" and ?g = "field_text [] []"
    have "rel_prod minifies minifies p u \<Longrightarrow> minifies (?f p) (?g u)" for p u
      by (cases p; cases u) (auto intro!: minifies_field)
    with ps(3) have "list_all2 minifies (map ?f ps) (map ?g us)"
      by (auto simp: list_all2_map1 list_all2_map2 elim: list_all2_mono)
    moreover have "minifies ('','' @ [CHR 0x0A]) '',''" by (rule minifies_sep [OF minifies_marks(5)]) simp
    ultimately have "minifies (join ('','' @ [CHR 0x0A]) (map ?f ps)) (join '','' (map ?g us))" by (intro minifies_join)
    from minifies_lead [OF minifies_sep [OF this, of "CHR 0x0A # tabs depth"], of "[CHR 0x0A]"]
    have "minifies ([CHR 0x0A] @ join ('','' @ [CHR 0x0A]) (map ?f ps) @ (CHR 0x0A # tabs depth)) (join '','' (map ?g us))"
      by simp
    from minifies_append [OF minifies_marks(3) minifies_append [OF this minifies_marks(4)]]
    show ?thesis using 7(4) ps False us by (auto simp: compose_object_text gap_def)
  qed
next
  case (9 D depth x xs)
  then obtain e es where "print_value D True depth x = Some e" "print_elements D True depth xs = Some es" "ts = e # es"
    by (auto simp: bind_Some_iff)
  with 9 show ?case by fastforce
next
  case (11 D depth k x kxs)
  then obtain e es where e: "print_value D True depth x = Some e" "print_fields D True depth kxs = Some es"
    "ps = (quoted k, e) # es" by (auto simp: bind_Some_iff print_quoted)
  then obtain u where "print_value D False depth x = Some u" "minifies e u" using 11(1) [OF print_quoted] 11(3-) by auto
  moreover obtain us where "print_fields D False depth kxs = Some us" "list_all2 (rel_prod minifies minifies) es us"
    using 11(2) [OF print_quoted e(1)] 11(3-) e by auto
  moreover have "minifies (quoted k) (quoted k)" using 11(3) by (intro minifies_quoted) simp
  ultimately show ?case using e(3) by (simp add: print_quoted)
qed (use minifies_words in auto)

section \<open>The round trip\<close>

text \<open>
  C28: What is printed, formatted or not, is read back, whatever stands behind the terminator, and removing the white
  space of the formatted text gives the unformatted one: the numbers have to be integers of the type \<^verbatim>\<open>int\<close> and the
  strings must not contain a terminator.
\<close>

theorem cjson_roundtrip:
  assumes "exact_ints D of_i" and "printable of_i j"
  shows "\<exists>t u. cJSON_Print D j = Some t \<and> cJSON_PrintUnformatted D j = Some u \<and>
    cJSON_Minify (t @ CHR 0x00 # rest) = Some u \<and>
    cJSON_Parse D (t @ CHR 0x00 # rest) = Some (Inr j) \<and> cJSON_Parse D (u @ CHR 0x00 # rest) = Some (Inr j)"
proof -
  obtain t where t: "print_value D True 0 j = Some t" "reads D j t" using print_value_reads(1) [OF assms(1,2)] by blast
  obtain u where u: "print_value D False 0 j = Some u" "minifies t u" using minifies_printed(1) [OF assms(2,1) t(1)] by blast
  have "reads D j u" using print_value_reads(1) [OF assms(1,2), of False 0] u(1) by auto
  then have parsed: "cJSON_Parse D (u @ CHR 0x00 # rest) = Some (Inr j)" by (rule reads_text)
  have "minify (t @ CHR 0x00 # rest) 0 [] = minify (t @ CHR 0x00 # rest) (length t) u" using u(2) unfolding minifies_def by force
  also have "\<dots> = Some u" by (subst minify.simps) (simp add: rd_def)
  finally have "cJSON_Minify (t @ CHR 0x00 # rest) = Some u"
    using u(2) by (auto simp: cJSON_Minify_def minifies_def intro!: takeWhile_eq_all_conv [THEN iffD2])
  with t u(1) parsed reads_text [OF t(2)] show ?thesis by (simp add: cJSON_Print_def cJSON_PrintUnformatted_def)
qed

theorem cjson_roundtrip_witness:
  "\<exists>t u. cJSON_Print int_doubles
      (C_Object [(''a'', C_Array [C_Number (- 12) (- 12), C_String [CHR 0x0A, CHR 0x01]]), (''b'', C_Object [])]) = Some t \<and>
    cJSON_PrintUnformatted int_doubles
      (C_Object [(''a'', C_Array [C_Number (- 12) (- 12), C_String [CHR 0x0A, CHR 0x01]]), (''b'', C_Object [])]) = Some u \<and>
    cJSON_Minify (t @ CHR 0x00 # ''rest'') = Some u \<and>
    cJSON_Parse int_doubles (t @ CHR 0x00 # ''rest'') =
      Some (Inr (C_Object [(''a'', C_Array [C_Number (- 12) (- 12), C_String [CHR 0x0A, CHR 0x01]]), (''b'', C_Object [])])) \<and>
    cJSON_Parse int_doubles (u @ CHR 0x00 # ''rest'') =
      Some (Inr (C_Object [(''a'', C_Array [C_Number (- 12) (- 12), C_String [CHR 0x0A, CHR 0x01]]), (''b'', C_Object [])]))"
  by (rule cjson_roundtrip [OF exact_int_doubles]) simp

section \<open>A string that ends in its escape\<close>

text \<open>
  The second loop of \<^verbatim>\<open>parse_string\<close> goes over the quote behind \<^verbatim>\<open>\u\<close>, where the first one stopped: it then copies what stands
  behind the string, without room for it.
\<close>

lemma unescape_escape:
  "rd b p = Some (CHR 0x5C) \<Longrightarrow> unescape_char b (p + 1) = Some ([], q) \<Longrightarrow> length out \<le> room \<Longrightarrow>
   unescape b p out room = unescape b q out room"
  by (subst unescape.simps) simp

lemma overflow_reads:
  assumes "rd b 0 = Some (CHR 0x22)" "rd b 1 = Some (CHR 0x5C)" "rd b 2 = Some (CHR ''u'')" "rd b 3 = Some (CHR 0x22)"
    "rd b 7 = Some d" "rd b 8 = Some e" "rd b 9 = Some f"
    and "d \<noteq> CHR 0x22 \<and> d \<noteq> CHR 0x00 \<and> d \<noteq> CHR 0x5C" "e \<noteq> CHR 0x22 \<and> e \<noteq> CHR 0x00 \<and> e \<noteq> CHR 0x5C" "f \<noteq> CHR 0x5C"
  shows "parse_string b 0 = None"
proof -
  have "string_room b 3 1 = Some 1" using assms by (subst string_room.simps) simp
  moreover have "(1 :: nat) + 2 = 3" "(0 :: nat) + 1 = 1" by simp_all
  ultimately have room: "string_room b 1 0 = Some 1" using string_room_escape [OF assms(2), of 0] by (simp only:)
  have "parse_hex4 b 3 = Some 0" using assms(4) by (simp add: parse_hex4_def hex_value_def eval_nat_numeral)
  then have u: "unescape_char b 2 = Some ([], 7)" using assms(3) by (simp add: unescape_char_def unescape_unicode_def)
  have "unescape b 9 [d, e] 2 = None" using assms by (subst unescape.simps) simp
  then have "unescape b 8 [d] 2 = None" using assms by (subst unescape.simps) simp
  then have "unescape b 7 [] 2 = None" using assms by (subst unescape.simps) simp
  then have "unescape b 1 [] 2 = None" using unescape_escape [OF assms(2) u [folded one_add_one]] by simp
  then show ?thesis using assms(1) room by (simp add: parse_string_def numeral_2_eq_2 [symmetric])
qed

lemma parse_string_overflow:
  assumes "\<forall>c \<in> set s. c \<noteq> CHR 0x22 \<and> c \<noteq> CHR 0x00 \<and> c \<noteq> CHR 0x5C" and "5 \<le> length s"
  shows "parse_string ([CHR 0x22, CHR 0x5C, CHR ''u'', CHR 0x22] @ s @ [CHR 0x00]) 0 = None"
proof -
  obtain x y z d e s' where s: "s = x # y # z # d # e # s'"
    using assms(2) by (auto simp: eval_nat_numeral Suc_le_length_iff)
  let ?b = "[CHR 0x22, CHR 0x5C, CHR ''u'', CHR 0x22] @ s @ [CHR 0x00]"
  obtain f t where f: "s' @ [CHR 0x00] = f # t" "f \<noteq> CHR 0x5C" using assms(1) s by (cases s') auto
  have b: "?b = [CHR 0x22, CHR 0x5C, CHR ''u'', CHR 0x22, x, y, z, d, e, f] @ t" using s f by simp
  then have d0: "drop 0 ?b = [CHR 0x22, CHR 0x5C, CHR ''u'', CHR 0x22, x, y, z, d, e, f] @ t" by (simp only: drop_0)
  note part = rd_part [OF d0, unfolded add_0]
  have rds: "rd ?b 0 = Some (CHR 0x22)" "rd ?b 1 = Some (CHR 0x5C)" "rd ?b 2 = Some (CHR ''u'')" "rd ?b 3 = Some (CHR 0x22)"
    "rd ?b 7 = Some d" "rd ?b 8 = Some e" "rd ?b 9 = Some f"
    using part [of 0] part [of 1] part [of 2] part [of 3] part [of 7] part [of 8] part [of 9] by simp_all
  have de: "d \<noteq> CHR 0x22 \<and> d \<noteq> CHR 0x00 \<and> d \<noteq> CHR 0x5C" "e \<noteq> CHR 0x22 \<and> e \<noteq> CHR 0x00 \<and> e \<noteq> CHR 0x5C"
    using assms(1) s by auto
  from overflow_reads [OF rds de f(2)] show ?thesis .
qed

end
