(* ===== verification/Cjson_Text.thy ===== *)
theory Cjson_Text
  imports Cjson_Roundtrip
begin

text \<open>
  What the parser of \<open>Cjson\<close> makes of a JSON text, however it is laid out: a tree with its white space and the digits of
  its numbers, the text it stands for, its value, and the proof that the parser reads the value from the text.
\<close>

section \<open>Texts\<close>

text \<open>
  A number is a sign, the digits before and behind the point, the mark of the exponent with its sign, and its digits. An
  element has white space before and behind it; a field before and behind its name, and before and behind its value. The
  white space of an array or object counts when there is nothing in it.
\<close>

datatype tree = T_Null | T_False | T_True | T_String string
  | T_Number (minus: bool) (int_digits: string) (frac_digits: string) (exp_mark: string) (exp_digits: string)
  | T_Array string "(string \<times> tree \<times> string) list"
  | T_Object string "(string \<times> string \<times> string \<times> string \<times> tree \<times> string) list"

fun tree_text :: "tree \<Rightarrow> string"
  and elements_text :: "(string \<times> tree \<times> string) list \<Rightarrow> string"
  and fields_text :: "(string \<times> string \<times> string \<times> string \<times> tree \<times> string) list \<Rightarrow> string" where
  "tree_text T_Null = ''null''"
| "tree_text T_False = ''false''"
| "tree_text T_True = ''true''"
| "tree_text (T_String s) = quoted s"
| "tree_text (T_Number m ds fs mark es) = (if m then ''-'' else []) @ ds @ (if fs = [] then [] else CHR ''.'' # fs) @ mark @ es"
| "tree_text (T_Array w es) = CHR ''['' # (if es = [] then w else elements_text es) @ '']''"
| "tree_text (T_Object w fs) = CHR ''{'' # (if fs = [] then w else fields_text fs) @ ''}''"
| "elements_text [] = []"
| "elements_text ((w1, t, w2) # es) = w1 @ tree_text t @ w2 @ (if es = [] then [] else CHR '','' # elements_text es)"
| "fields_text [] = []"
| "fields_text ((w1, k, w2, w3, t, w4) # fs) =
     w1 @ quoted k @ w2 @ CHR '':'' # w3 @ tree_text t @ w4 @ (if fs = [] then [] else CHR '','' # fields_text fs)"

section \<open>Values\<close>

definition push_digits :: "'d doubles \<Rightarrow> string \<Rightarrow> 'd \<Rightarrow> 'd" where
  "push_digits D ds n = fold (\<lambda>c n. d_push D n (digit_value c)) ds n"

definition exponent :: "string \<Rightarrow> string \<Rightarrow> int" where
  "exponent mark es = (let n = fold (\<lambda>c n. n * 10 + int (digit_value c)) es 0 in if mark \<noteq> [] \<and> last mark = CHR ''-'' then - n else n)"

text \<open>The digits, scaled by the exponent less the digits behind the point; a single zero before the point is not read.\<close>

definition number_value :: "'d doubles \<Rightarrow> bool \<Rightarrow> string \<Rightarrow> string \<Rightarrow> string \<Rightarrow> string \<Rightarrow> 'd" where
  "number_value D m ds fs mark es =
     d_scale D m (push_digits D fs (push_digits D (if ds = ''0'' then [] else ds) (d_zero D))) (exponent mark es - int (length fs))"

fun tree_value :: "'d doubles \<Rightarrow> tree \<Rightarrow> 'd cjson"
  and elements_value :: "'d doubles \<Rightarrow> (string \<times> tree \<times> string) list \<Rightarrow> 'd cjson list"
  and fields_value :: "'d doubles \<Rightarrow> (string \<times> string \<times> string \<times> string \<times> tree \<times> string) list \<Rightarrow> (string \<times> 'd cjson) list" where
  "tree_value D T_Null = C_NULL"
| "tree_value D T_False = C_False"
| "tree_value D T_True = C_True"
| "tree_value D (T_String s) = C_String s"
| "tree_value D (T_Number m ds fs mark es) = (let x = number_value D m ds fs mark es in C_Number (the (d_int D x)) x)"
| "tree_value D (T_Array w es) = C_Array (elements_value D es)"
| "tree_value D (T_Object w fs) = C_Object (fields_value D fs)"
| "elements_value D [] = []"
| "elements_value D ((w1, t, w2) # es) = tree_value D t # elements_value D es"
| "fields_value D [] = []"
| "fields_value D ((w1, k, w2, w3, t, w4) # fs) = (k, tree_value D t) # fields_value D fs"

text \<open>
  Which trees are written as JSON wants it: white space is white, strings hold no NUL, a number has its digits and no
  leading zero. Its value must fit an \<^verbatim>\<open>int\<close>, as its exponent must; the parser converts every number.
\<close>

definition digits :: "string \<Rightarrow> bool" where
  "digits s \<longleftrightarrow> (\<forall>c \<in> set s. digit_char c)"

definition blanks :: "string \<Rightarrow> bool" where
  "blanks w \<longleftrightarrow> (\<forall>c \<in> set w. white c)"

definition number_ok :: "'d doubles \<Rightarrow> bool \<Rightarrow> string \<Rightarrow> string \<Rightarrow> string \<Rightarrow> string \<Rightarrow> bool" where
  "number_ok D m ds fs mark es \<longleftrightarrow> ds \<noteq> [] \<and> digits ds \<and> (hd ds = CHR ''0'' \<longrightarrow> ds = ''0'') \<and> digits fs \<and> digits es \<and>
     (if mark = [] then es = [] else es \<noteq> [] \<and> mark \<in> {''e'', ''E'', ''e+'', ''E+'', ''e-'', ''E-''}) \<and>
     \<bar>exponent mark es\<bar> \<le> int_max \<and> d_int D (number_value D m ds fs mark es) \<noteq> None"

fun tree_ok :: "'d doubles \<Rightarrow> tree \<Rightarrow> bool"
  and elements_ok :: "'d doubles \<Rightarrow> (string \<times> tree \<times> string) list \<Rightarrow> bool"
  and fields_ok :: "'d doubles \<Rightarrow> (string \<times> string \<times> string \<times> string \<times> tree \<times> string) list \<Rightarrow> bool" where
  "tree_ok D (T_String s) \<longleftrightarrow> CHR 0x00 \<notin> set s"
| "tree_ok D (T_Number m ds fs mark es) \<longleftrightarrow> number_ok D m ds fs mark es"
| "tree_ok D (T_Array w es) \<longleftrightarrow> blanks w \<and> elements_ok D es"
| "tree_ok D (T_Object w fs) \<longleftrightarrow> blanks w \<and> fields_ok D fs"
| "tree_ok D _ \<longleftrightarrow> True"
| "elements_ok D [] \<longleftrightarrow> True"
| "elements_ok D ((w1, t, w2) # es) \<longleftrightarrow> blanks w1 \<and> tree_ok D t \<and> blanks w2 \<and> elements_ok D es"
| "fields_ok D [] \<longleftrightarrow> True"
| "fields_ok D ((w1, k, w2, w3, t, w4) # fs) \<longleftrightarrow> blanks w1 \<and> CHR 0x00 \<notin> set k \<and> blanks w2 \<and> blanks w3 \<and> tree_ok D t \<and>
     blanks w4 \<and> fields_ok D fs"

section \<open>Reading numbers\<close>

text \<open>The parts of \<^verbatim>\<open>parse_number\<close>.\<close>

definition whole_part :: "'d doubles \<Rightarrow> string \<Rightarrow> nat \<Rightarrow> (nat \<times> 'd \<times> nat) option" where
  "whole_part D b num = do {
     c \<leftarrow> rd b num;
     let num = (if c = CHR ''0'' then num + 1 else num);
     c \<leftarrow> rd b num;
     (if digit_char c \<and> c \<noteq> CHR ''0'' then number_digits D b num (d_zero D) 0 else Some (num, d_zero D, 0)) }"

definition fraction_part :: "'d doubles \<Rightarrow> string \<Rightarrow> nat \<Rightarrow> 'd \<Rightarrow> (nat \<times> 'd \<times> nat) option" where
  "fraction_part D b num n = do {
     c \<leftarrow> rd b num;
     (if c = CHR ''.'' then do {
         d \<leftarrow> rd b (num + 1);
         if digit_char d then number_digits D b (num + 1) n 0 else Some (num, n, 0) }
       else Some (num, n, 0)) }"

definition exponent_part :: "string \<Rightarrow> nat \<Rightarrow> (nat \<times> int) option" where
  "exponent_part b num = do {
     c \<leftarrow> rd b num;
     (if c = CHR ''e'' \<or> c = CHR ''E'' then do {
         c \<leftarrow> rd b (num + 1);
         if c = CHR ''+'' then exponent_digits b (num + 2) 0
         else if c = CHR ''-'' then map_option (\<lambda>(p, s). (p, - s)) (exponent_digits b (num + 2) 0)
         else exponent_digits b (num + 1) 0 }
       else Some (num, 0)) }"

lemma parse_number_parts:
  assumes "rd b p = Some s" and "whole_part D b (if s = CHR ''-'' then p + 1 else p) = Some (p1, n1, k1)"
    and "fraction_part D b p1 n1 = Some (p2, n2, k2)" and "exponent_part b p2 = Some (p3, e)"
  shows "parse_number D b p = (let x = d_scale D (s = CHR ''-'') n2 (e - int k2) in map_option (\<lambda>v. (C_Number v x, p3)) (d_int D x))"
  using assms unfolding whole_part_def fraction_part_def exponent_part_def
  by (auto simp: parse_number_def Let_def bind_Some_iff map_conv_bind_option comp_def split: prod.splits if_splits)

lemma number_digits_all:
  "drop p b = ds @ a # t \<Longrightarrow> digits ds \<Longrightarrow> \<not> digit_char a \<Longrightarrow>
   number_digits D b p n k = Some (p + length ds, push_digits D ds n, k + length ds)"
proof (induction ds arbitrary: p n k)
  case Nil
  then show ?case using drop_rd [of p b a t] by (subst number_digits.simps) (simp add: push_digits_def)
next
  case (Cons d ds)
  then have "drop p b = d # (ds @ a # t)" by simp
  note r = drop_rd [OF this]
  with Cons show ?case using number_digits_step [of b p d D n k] by (simp add: push_digits_def digits_def)
qed

lemma exponent_grows: "0 \<le> s \<Longrightarrow> s \<le> fold (\<lambda>c n. n * 10 + int (digit_value c)) es s"
proof (induction es arbitrary: s)
  case (Cons e es)
  have "s \<le> s * 10 + int (digit_value e)" "0 \<le> s * 10 + int (digit_value e)" using Cons.prems by simp_all
  with Cons.IH show ?case by force
qed simp

lemma exponent_digits_all:
  "drop p b = es @ a # t \<Longrightarrow> digits es \<Longrightarrow> \<not> digit_char a \<Longrightarrow> 0 \<le> s \<Longrightarrow>
   fold (\<lambda>c n. n * 10 + int (digit_value c)) es s \<le> int_max \<Longrightarrow>
   exponent_digits b p s = Some (p + length es, fold (\<lambda>c n. n * 10 + int (digit_value c)) es s)"
proof (induction es arbitrary: p s)
  case Nil
  then show ?case using drop_rd [of p b a t] by (subst exponent_digits.simps) simp
next
  case (Cons e es)
  then have "drop p b = e # (es @ a # t)" by simp
  note r = drop_rd [OF this]
  let ?s = "s * 10 + int (digit_value e)"
  have s: "0 \<le> ?s" using Cons.prems(4) by simp
  then have "?s \<le> int_max" using exponent_grows [OF s, of es] Cons.prems(5) by simp
  with r s Cons show ?case by (subst exponent_digits.simps) (simp add: digits_def Let_def)
qed

lemma whole_part_read:
  assumes d: "drop p b = ds @ a # t" and ds: "ds \<noteq> []" "digits ds" "hd ds = CHR ''0'' \<longrightarrow> ds = ''0''" and a: "\<not> digit_char a"
  shows "whole_part D b p =
    Some (p + length ds, push_digits D (if ds = ''0'' then [] else ds) (d_zero D), if ds = ''0'' then 0 else length ds)"
proof (cases "ds = ''0''")
  case True
  then have "rd b p = Some (CHR ''0'')" "rd b (p + 1) = Some a"
    using d rd_part [of p b "[CHR ''0'', a]" t 0] rd_part [of p b "[CHR ''0'', a]" t 1] by simp_all
  with True a show ?thesis by (simp add: whole_part_def push_digits_def)
next
  case False
  then have h: "hd ds \<noteq> CHR ''0''" "digit_char (hd ds)" using ds by (auto simp: digits_def)
  have "rd b p = Some (hd ds)" using rd_part [OF d, of 0] ds(1) by (simp add: hd_conv_nth)
  with h False number_digits_all [OF d ds(2) a, of D "d_zero D" 0] show ?thesis by (simp add: whole_part_def)
qed

lemma fraction_part_read:
  assumes d: "drop p b = (if fs = [] then [] else CHR ''.'' # fs) @ a # t" and fs: "digits fs"
    and a: "\<not> digit_char a" "a \<noteq> CHR ''.''"
  shows "fraction_part D b p n = Some (p + length (if fs = [] then [] else CHR ''.'' # fs), push_digits D fs n, length fs)"
proof (cases "fs = []")
  case True
  with d drop_rd [of p b a t] a show ?thesis by (simp add: fraction_part_def push_digits_def)
next
  case False
  then have "drop p b = CHR ''.'' # (fs @ a # t)" using d by simp
  note r = drop_rd [OF this]
  have "rd b (p + 1) = Some (hd fs)" using r rd_part [of "p + 1" b fs "a # t" 0] False by (simp add: hd_conv_nth)
  moreover have "digit_char (hd fs)" using fs False by (simp add: digits_def)
  moreover have "number_digits D b (p + 1) n 0 = Some (p + 1 + length fs, push_digits D fs n, 0 + length fs)"
    using r fs a(1) by (intro number_digits_all) auto
  ultimately show ?thesis using r False by (simp add: fraction_part_def)
qed

lemma exponent_part_read:
  assumes d: "drop p b = mark @ es @ a # t" and es: "digits es"
    "if mark = [] then es = [] else es \<noteq> [] \<and> mark \<in> {''e'', ''E'', ''e+'', ''E+'', ''e-'', ''E-''}"
    and i: "\<bar>exponent mark es\<bar> \<le> int_max" and a: "number_ends a"
  shows "exponent_part b p = Some (p + length (mark @ es), exponent mark es)"
proof (cases "mark = []")
  case True
  with d es drop_rd [of p b a t] a show ?thesis by (simp add: exponent_part_def exponent_def number_ends_def)
next
  case False
  let ?n = "fold (\<lambda>c n. n * 10 + int (digit_value c)) es 0"
  have n: "0 \<le> ?n" using exponent_grows [of 0 es] by simp
  have n': "?n \<le> int_max" using i n by (auto simp: exponent_def Let_def split: if_splits)
  have r: "rd b (p + i) = Some ((mark @ es) ! i)" if "i < length (mark @ es)" for i
    using rd_part [of p b "mark @ es" "a # t" i] d that by simp
  have e: "exponent_digits b (p + length mark) 0 = Some (p + length mark + length es, ?n)"
    using drop_part [OF d] es(1) a n' by (intro exponent_digits_all) (auto simp: number_ends_def)
  have h: "digit_char (hd es)" "es \<noteq> []" using es False by (auto simp: digits_def)
  then have h': "hd es \<noteq> CHR ''+''" "hd es \<noteq> CHR ''-''" by (auto simp: digit_char_def)
  have "mark \<in> {''e'', ''E'', ''e+'', ''E+'', ''e-'', ''E-''}" using es(2) False by simp
  then consider m where "mark = [m]" "m \<in> {CHR ''e'', CHR ''E''}" | m where "mark = [m, CHR ''+'']" "m \<in> {CHR ''e'', CHR ''E''}"
    | m where "mark = [m, CHR ''-'']" "m \<in> {CHR ''e'', CHR ''E''}" by auto
  then show ?thesis
  proof cases
    case 1
    then have "rd b p = Some m" "rd b (p + 1) = Some (hd es)" using r [of 0] r [of 1] h(2) by (auto simp: hd_conv_nth)
    with 1 e h' show ?thesis by (auto simp: exponent_part_def exponent_def)
  next
    case 2
    then have "rd b p = Some m" "rd b (p + 1) = Some (CHR ''+'')" using r [of 0] r [of 1] by auto
    with 2 e show ?thesis by (auto simp: exponent_part_def exponent_def)
  next
    case 3
    then have "rd b p = Some m" "rd b (p + 1) = Some (CHR ''-'')" using r [of 0] r [of 1] by auto
    with 3 e show ?thesis by (auto simp: exponent_part_def exponent_def)
  qed
qed

lemma parse_number_text:
  assumes ok: "number_ok D m ds fs mark es" and c: "number_ends c"
    and d: "drop p b = tree_text (T_Number m ds fs mark es) @ c # t"
  shows "parse_number D b p = Some (tree_value D (T_Number m ds fs mark es), p + length (tree_text (T_Number m ds fs mark es)))"
proof -
  let ?f = "if fs = [] then [] else CHR ''.'' # fs"
  note ok = ok [unfolded number_ok_def]
  obtain a u where a: "mark @ es @ c # t = a # u" "\<not> digit_char a" "a \<noteq> CHR ''.''"
  proof (cases mark)
    case Nil
    with ok c show thesis by (intro that [of c t]) (auto simp: number_ends_def)
  next
    case (Cons x xs)
    then have "x = CHR ''e'' \<or> x = CHR ''E''" using ok by auto
    then show thesis using Cons by (intro that [of x "xs @ es @ c # t"]) (auto simp: digit_char_def)
  qed
  obtain a' u' where a': "?f @ a # u = a' # u'" "\<not> digit_char a'"
    using a(2) by (cases "fs = []") (auto simp: digit_char_def)
  have d0: "drop p b = (if m then ''-'' else []) @ ds @ ?f @ a # u" using d a(1) by simp
  have "digit_char (hd ds)" using ok by (cases ds) (auto simp: digits_def)
  then have h: "hd ds \<noteq> CHR ''-''" by (auto simp: digit_char_def)
  obtain s where s: "rd b p = Some s" "s = CHR ''-'' \<longleftrightarrow> m"
  proof (cases m)
    case True
    with d0 drop_rd [of p b "CHR ''-''"] show thesis by (intro that [of "CHR ''-''"]) auto
  next
    case False
    with d0 ok rd_part [of p b ds "?f @ a # u" 0] h show thesis
      by (intro that [of "hd ds"]) (auto simp: hd_conv_nth)
  qed
  let ?p1 = "if s = CHR ''-'' then p + 1 else p"
  have "?p1 = p + length (if m then ''-'' else [])" using s(2) by simp
  then have d1: "drop ?p1 b = ds @ ?f @ a # u" using drop_part [OF d0] by (simp only:)
  then have d1': "drop ?p1 b = ds @ a' # u'" unfolding a'(1) .
  let ?p2 = "?p1 + length ds"
  have d2: "drop ?p2 b = ?f @ a # u" using d1 by (rule drop_part)
  let ?p3 = "?p2 + length ?f"
  have d3: "drop ?p3 b = mark @ es @ c # t" using drop_part [OF d2] unfolding a(1) .
  have w: "whole_part D b ?p1 = Some (?p2, push_digits D (if ds = ''0'' then [] else ds) (d_zero D), if ds = ''0'' then 0 else length ds)"
    using d1' _ _ _ a'(2) by (rule whole_part_read) (use ok in auto)
  have f: "fraction_part D b ?p2 n = Some (?p3, push_digits D fs n, length fs)" for n
    using d2 _ a(2,3) by (rule fraction_part_read) (use ok in auto)
  have e: "exponent_part b ?p3 = Some (?p3 + length (mark @ es), exponent mark es)"
    using d3 _ _ _ c by (rule exponent_part_read) (use ok in auto)
  have q: "?p3 + length (mark @ es) = p + length (tree_text (T_Number m ds fs mark es))" using s(2) by simp
  have "s = CHR ''-'' \<longleftrightarrow> m" by (rule s(2))
  then show ?thesis using parse_number_parts [OF s(1) w f e] ok unfolding q by (auto simp: number_value_def Let_def)
qed

section \<open>Reading values\<close>

text \<open>The next thing behind white space that is not white.\<close>

lemma blanks_skip: "drop p b = w @ c # t \<Longrightarrow> blanks w \<Longrightarrow> (of_char c :: nat) > 32 \<Longrightarrow> skip b p = Some (p + length w)"
  unfolding blanks_def by (rule skip_white)

lemma number_reads:
  assumes ok: "number_ok D m ds fs mark es"
  shows "reads D (tree_value D (T_Number m ds fs mark es)) (tree_text (T_Number m ds fs mark es))"
proof -
  let ?t = "tree_text (T_Number m ds fs mark es)"
  obtain a s where a: "?t = a # s" "a = CHR ''-'' \<or> digit_char a"
    using ok by (cases m; cases ds) (auto simp: number_ok_def digits_def)
  then have hd: "(of_char a :: nat) > 32 \<and> (of_char a :: nat) < 58 \<and> a \<noteq> CHR 0x22" by (auto simp: digit_char_def)
  then have n: "a \<noteq> CHR ''n'' \<and> a \<noteq> CHR ''f'' \<and> a \<noteq> CHR ''t'' \<and> a \<noteq> CHR '']''" by auto
  have "parse D b Value p = Some (Inr (tree_value D (T_Number m ds fs mark es), p + length ?t))"
    if d: "drop p b = ?t @ c # t" and c: "number_ends c" for b p c t
  proof -
    have "rd b p = Some a" using rd_part [OF d, of 0] a by (simp del: tree_text.simps)
    then show ?thesis using parse_number_text [OF ok c d] a(2) hd n
      by (subst parse.simps) (simp del: tree_text.simps tree_value.simps)
  qed
  then show ?thesis using a hd n unfolding reads_def by (simp del: tree_text.simps tree_value.simps)
qed

text \<open>The elements and the fields behind those that were read, up to their closing bracket.\<close>

definition reads_elements :: "'d doubles \<Rightarrow> 'd cjson list \<Rightarrow> string \<Rightarrow> bool" where
  "reads_elements D xs e \<longleftrightarrow> (\<exists>w a s. e = w @ a # s \<and> blanks w \<and> (of_char a :: nat) > 32 \<and> a \<noteq> CHR '']'') \<and>
     (\<forall>b p acc t. drop p b = e @ CHR '']'' # t \<longrightarrow>
       parse D b (Elements acc) p = Some (Inr (C_Array (acc @ xs), p + length e + 1)))"

definition reads_fields :: "'d doubles \<Rightarrow> (string \<times> 'd cjson) list \<Rightarrow> string \<Rightarrow> bool" where
  "reads_fields D kxs e \<longleftrightarrow> (\<exists>w s. e = w @ CHR 0x22 # s \<and> blanks w) \<and>
     (\<forall>b p acc t. drop p b = e @ CHR ''}'' # t \<longrightarrow>
       parse D b (Fields acc) p = Some (Inr (C_Object (acc @ kxs), p + length e + 1)))"

lemma element_head: "reads D x e \<Longrightarrow> blanks w \<Longrightarrow> \<exists>w' a s. w @ e @ r = w' @ a # s \<and> blanks w' \<and> (of_char a :: nat) > 32 \<and> a \<noteq> CHR '']''"
  using reads_head [of D x e] by fastforce

lemma last_element:
  assumes x: "reads D x e" and w: "blanks w1" "blanks w2"
  shows "reads_elements D [x] (w1 @ e @ w2)"
proof -
  have "parse D b (Elements acc) p = Some (Inr (C_Array (acc @ [x]), p + length (w1 @ e @ w2) + 1))"
    if "drop p b = (w1 @ e @ w2) @ CHR '']'' # t" for b p acc t
  proof -
    have d: "drop p b = w1 @ e @ w2 @ CHR '']'' # t" using that by simp
    from reads_at [OF x w [unfolded blanks_def] delimiters(2) d] show ?thesis by (subst parse.simps) auto
  qed
  with element_head [OF x w(1), of w2] show ?thesis unfolding reads_elements_def by blast
qed

lemma more_elements:
  assumes x: "reads D x e" and w: "blanks w1" "blanks w2" and xs: "reads_elements D xs e'"
  shows "reads_elements D (x # xs) (w1 @ e @ w2 @ CHR '','' # e')"
proof -
  let ?e = "w1 @ e @ w2 @ CHR '','' # e'"
  have "parse D b (Elements acc) p = Some (Inr (C_Array (acc @ x # xs), p + length ?e + 1))"
    if "drop p b = ?e @ CHR '']'' # t" for b p acc t
  proof -
    have d: "drop p b = w1 @ e @ w2 @ CHR '','' # (e' @ CHR '']'' # t)" using that by simp
    let ?q = "p + length (w1 @ e @ w2) + 1"
    note r = reads_at [OF x w [unfolded blanks_def] delimiters(1) d]
    from r have "parse D b (Elements acc) p = parse D b (Elements (acc @ [x])) ?q" by (subst parse.simps) auto
    also have "\<dots> = Some (Inr (C_Array ((acc @ [x]) @ xs), ?q + length e' + 1))"
      using xs r unfolding reads_elements_def by blast
    finally show ?thesis by simp
  qed
  moreover obtain w' a s where "?e = w' @ a # s" "blanks w'" "(of_char a :: nat) > 32" "a \<noteq> CHR '']''"
    using element_head [OF x w(1), of "w2 @ CHR '','' # e'"] by auto
  ultimately show ?thesis unfolding reads_elements_def by blast
qed

text \<open>A field up to the character behind it.\<close>

lemma one_field:
  assumes x: "reads D x e" and k: "CHR 0x00 \<notin> set k" and w: "blanks w1" "blanks w2" "blanks w3" "blanks w4"
    and c: "delimiter c" and d: "drop p b = w1 @ quoted k @ w2 @ CHR '':'' # w3 @ e @ w4 @ c # t"
  shows "\<exists>q. skip b p = Some (p + length w1) \<and> parse_string b (p + length w1) = Some (Inr (k, p + length (w1 @ quoted k))) \<and>
    skip b (p + length (w1 @ quoted k)) = Some (p + length (w1 @ quoted k @ w2)) \<and>
    rd b (p + length (w1 @ quoted k @ w2)) = Some (CHR '':'') \<and>
    skip b (p + length (w1 @ quoted k @ w2) + 1) = Some (p + length (w1 @ quoted k @ w2 @ CHR '':'' # w3)) \<and>
    parse D b Value (p + length (w1 @ quoted k @ w2 @ CHR '':'' # w3)) = Some (Inr (x, q)) \<and>
    skip b q = Some (p + length (w1 @ quoted k @ w2 @ CHR '':'' # w3 @ e @ w4)) \<and>
    rd b (p + length (w1 @ quoted k @ w2 @ CHR '':'' # w3 @ e @ w4)) = Some c \<and>
    drop (p + length (w1 @ quoted k @ w2 @ CHR '':'' # w3 @ e @ w4) + 1) b = t"
proof -
  let ?p1 = "p + length w1" let ?p2 = "?p1 + length (quoted k)" let ?p3 = "?p2 + length w2"
  have l: "p + length (w1 @ quoted k) = ?p2" "p + length (w1 @ quoted k @ w2) = ?p3"
    "p + length (w1 @ quoted k @ w2 @ CHR '':'' # w3) = ?p3 + 1 + length w3"
    "p + length (w1 @ quoted k @ w2 @ CHR '':'' # w3 @ e @ w4) = ?p3 + 1 + length (w3 @ e @ w4)" by simp_all
  have d1: "drop ?p1 b = quoted k @ w2 @ CHR '':'' # w3 @ e @ w4 @ c # t" using d by (rule drop_part)
  have d2: "drop ?p2 b = w2 @ CHR '':'' # w3 @ e @ w4 @ c # t" using d1 by (rule drop_part)
  have "drop ?p3 b = CHR '':'' # w3 @ e @ w4 @ c # t" using d2 by (rule drop_part)
  note d3 = drop_rd [OF this]
  have "drop p b = w1 @ CHR 0x22 # (concat (map escape_char k) @ [CHR 0x22] @ w2 @ CHR '':'' # w3 @ e @ w4 @ c # t)"
    using d by (simp add: quoted_def)
  then have s1: "skip b p = Some ?p1" using w(1) by (rule blanks_skip) simp
  have s2: "skip b ?p2 = Some ?p3" using d2 w(2) by (rule blanks_skip) simp
  from parse_quoted [OF d1 k] s1 s2 d3 reads_at [OF x w(3,4) [unfolded blanks_def] c conjunct2 [OF d3]]
  show ?thesis unfolding l by blast
qed

lemma last_field:
  assumes x: "reads D x e" and k: "CHR 0x00 \<notin> set k" and w: "blanks w1" "blanks w2" "blanks w3" "blanks w4"
  shows "reads_fields D [(k, x)] (w1 @ quoted k @ w2 @ CHR '':'' # w3 @ e @ w4)"
proof -
  let ?e = "w1 @ quoted k @ w2 @ CHR '':'' # w3 @ e @ w4"
  have "parse D b (Fields acc) p = Some (Inr (C_Object (acc @ [(k, x)]), p + length ?e + 1))"
    if "drop p b = ?e @ CHR ''}'' # t" for b p acc t
  proof -
    have "drop p b = w1 @ quoted k @ w2 @ CHR '':'' # w3 @ e @ w4 @ CHR ''}'' # t" using that by simp
    from one_field [OF x k w delimiters(3) this] show ?thesis by (subst parse.simps) (auto simp del: length_append)
  qed
  moreover have "?e = w1 @ CHR 0x22 # (concat (map escape_char k) @ [CHR 0x22] @ w2 @ CHR '':'' # w3 @ e @ w4)" by (simp add: quoted_def)
  ultimately show ?thesis using w(1) unfolding reads_fields_def by blast
qed

lemma more_fields:
  assumes x: "reads D x e" and k: "CHR 0x00 \<notin> set k" and w: "blanks w1" "blanks w2" "blanks w3" "blanks w4"
    and kxs: "reads_fields D kxs e'"
  shows "reads_fields D ((k, x) # kxs) (w1 @ quoted k @ w2 @ CHR '':'' # w3 @ e @ w4 @ CHR '','' # e')"
proof -
  let ?f = "w1 @ quoted k @ w2 @ CHR '':'' # w3 @ e @ w4" and ?e = "w1 @ quoted k @ w2 @ CHR '':'' # w3 @ e @ w4 @ CHR '','' # e'"
  have "parse D b (Fields acc) p = Some (Inr (C_Object (acc @ (k, x) # kxs), p + length ?e + 1))"
    if "drop p b = ?e @ CHR ''}'' # t" for b p acc t
  proof -
    have "drop p b = w1 @ quoted k @ w2 @ CHR '':'' # w3 @ e @ w4 @ CHR '','' # (e' @ CHR ''}'' # t)" using that by simp
    note r = one_field [OF x k w delimiters(1) this]
    from r have "parse D b (Fields acc) p = parse D b (Fields (acc @ [(k, x)])) (p + length ?f + 1)"
      by (subst parse.simps) (auto simp del: length_append)
    also have "\<dots> = Some (Inr (C_Object ((acc @ [(k, x)]) @ kxs), p + length ?f + 1 + length e' + 1))"
      using kxs r unfolding reads_fields_def by blast
    finally show ?thesis by simp
  qed
  moreover have "?e = w1 @ CHR 0x22 # (concat (map escape_char k) @ [CHR 0x22] @ w2 @ CHR '':'' # w3 @ e @ w4 @ CHR '','' # e')"
    by (simp add: quoted_def)
  ultimately show ?thesis using w(1) unfolding reads_fields_def by blast
qed

text \<open>Arrays and objects.\<close>

lemma empty_array:
  assumes w: "blanks w"
  shows "reads D (C_Array []) (CHR ''['' # w @ '']'')"
proof -
  have "parse D b Value p = Some (Inr (C_Array [], p + length (CHR ''['' # w @ '']'')))"
    if d: "drop p b = (CHR ''['' # w @ '']'') @ c # t" for b p c t
  proof -
    have "drop p b = CHR ''['' # w @ CHR '']'' # c # t" using d by simp
    note r = drop_rd [OF this]
    have s: "skip b (p + 1) = Some (p + 1 + length w)" using conjunct2 [OF r] w by (rule blanks_skip) simp
    have "drop (p + 1 + length w) b = CHR '']'' # c # t" using conjunct2 [OF r] by (rule drop_part)
    from reads_bracket [OF conjunct1 [OF r] s conjunct1 [OF drop_rd [OF this]], of D] show ?thesis by simp
  qed
  then show ?thesis by (simp add: reads_def)
qed

lemma array_reads:
  assumes xs: "reads_elements D xs e"
  shows "reads D (C_Array xs) (CHR ''['' # e @ '']'')"
proof -
  obtain w a s where e: "e = w @ a # s" "blanks w" "(of_char a :: nat) > 32" "a \<noteq> CHR '']''"
    using xs unfolding reads_elements_def by blast
  have "parse D b Value p = Some (Inr (C_Array xs, p + length (CHR ''['' # e @ '']'')))"
    if d: "drop p b = (CHR ''['' # e @ '']'') @ c # t" for b p c t
  proof -
    have "drop p b = CHR ''['' # e @ CHR '']'' # c # t" using d by simp
    note r = drop_rd [OF this]
    have d1: "drop (p + 1) b = w @ a # s @ CHR '']'' # c # t" using r e(1) by simp
    then have s: "skip b (p + 1) = Some (p + 1 + length w)" using e(2,3) by (rule blanks_skip)
    have r1: "rd b (p + 1 + length w) = Some a" using drop_rd [OF drop_part [OF d1]] by blast
    have "parse D b Value p = parse D b (Elements []) (p + 1 + length w)"
      using reads_bracket [OF conjunct1 [OF r] s r1, of D] e(4) by simp
    also have "\<dots> = parse D b (Elements []) (p + 1)"
      using s skip_here [OF r1] e(3) by (subst (1 2) parse.simps) simp
    also have "\<dots> = Some (Inr (C_Array ([] @ xs), p + 1 + length e + 1))"
      using xs r unfolding reads_elements_def by blast
    finally show ?thesis by simp
  qed
  then show ?thesis by (simp add: reads_def)
qed

lemma object_reads:
  assumes kxs: "reads_fields D kxs e"
  shows "reads D (C_Object kxs) (CHR ''{'' # e @ ''}'')"
proof -
  obtain w s where e: "e = w @ CHR 0x22 # s" "blanks w"
    using kxs unfolding reads_fields_def by blast
  have "parse D b Value p = Some (Inr (C_Object kxs, p + length (CHR ''{'' # e @ ''}'')))"
    if d: "drop p b = (CHR ''{'' # e @ ''}'') @ c # t" for b p c t
  proof -
    have "drop p b = CHR ''{'' # e @ CHR ''}'' # c # t" using d by simp
    note r = drop_rd [OF this]
    have d1: "drop (p + 1) b = w @ CHR 0x22 # s @ CHR ''}'' # c # t" using r e(1) by simp
    then have s: "skip b (p + 1) = Some (p + 1 + length w)" using e(2) by (rule blanks_skip) simp
    have r1: "rd b (p + 1 + length w) = Some (CHR 0x22)" using drop_rd [OF drop_part [OF d1]] by blast
    have "parse D b Value p = parse D b (Fields []) (p + 1 + length w)"
      using reads_brace [OF conjunct1 [OF r] s r1, of D] by simp
    also have "\<dots> = parse D b (Fields []) (p + 1)"
      using s skip_here [OF r1] by (subst (1 2) parse.simps) simp
    also have "\<dots> = Some (Inr (C_Object ([] @ kxs), p + 1 + length e + 1))"
      using kxs r unfolding reads_fields_def by blast
    finally show ?thesis by simp
  qed
  then show ?thesis by (simp add: reads_def)
qed

section \<open>Every text is read\<close>

lemma tree_reads:
  "tree_ok D t \<Longrightarrow> reads D (tree_value D t) (tree_text t)"
  "elements_ok D es \<Longrightarrow> es \<noteq> [] \<Longrightarrow> reads_elements D (elements_value D es) (elements_text es)"
  "fields_ok D fs \<Longrightarrow> fs \<noteq> [] \<Longrightarrow> reads_fields D (fields_value D fs) (fields_text fs)"
proof (induction t and es and fs rule: tree_text_elements_text_fields_text.induct)
  case (5 m ds fs mark es)
  then have "number_ok D m ds fs mark es" by (simp only: tree_ok.simps)
  then show ?case by (rule number_reads)
next
  case (6 w es)
  then show ?case by (cases "es = []") (simp_all add: empty_array array_reads)
next
  case (7 w fs)
  then show ?case by (cases "fs = []") (simp_all add: reads_no_fields object_reads blanks_def)
next
  case (9 w1 t w2 es)
  then show ?case by (cases "es = []") (simp_all add: last_element more_elements)
next
  case (11 w1 k w2 w3 t w4 fs)
  then show ?case by (cases "fs = []") (simp_all add: last_field more_fields)
qed (simp_all add: reads_words reads_quoted)

text \<open>A whole text, with what follows it.\<close>

lemma parse_tree:
  assumes "tree_ok D t" and "blanks w" and "number_ends c"
  shows "cJSON_Parse D (w @ tree_text t @ c # rest) = Some (Inr (tree_value D t))"
proof -
  let ?b = "w @ tree_text t @ c # rest"
  have r: "reads D (tree_value D t) (tree_text t)" using assms(1) by (rule tree_reads)
  obtain a s where a: "tree_text t = a # s" "(of_char a :: nat) > 32" using reads_head [OF r] by blast
  then have "drop 0 ?b = w @ a # (s @ c # rest)" by simp
  then have "skip ?b 0 = Some (0 + length w)" using assms(2) a(2) by (rule blanks_skip)
  moreover have "parse D ?b Value (length w) = Some (Inr (tree_value D t, length w + length (tree_text t)))"
    by (rule reads_parse [OF r _ assms(3), of "length w" _ rest]) simp
  ultimately show ?thesis by (simp add: cJSON_Parse_def cJSON_ParseWithOpts_def)
qed

end
