(* ===== verification/Face_Json.thy ===== *)
theory Face_Json
  imports Cjson_Text
begin

text \<open>
  The reader of an answer of the face recognition service, \<^verbatim>\<open>parseJson\<close> of
  \<^verbatim>\<open>memory/face++_pro/parseJson/main.c\<close>: the lines it prints, without their ends.
\<close>

section \<open>Items\<close>

text \<open>A line for an item that is missing, or what is printed for the item that is there.\<close>

definition item :: "'d cjson \<Rightarrow> string \<Rightarrow> string \<Rightarrow> ('d cjson \<Rightarrow> string list) \<Rightarrow> string list" where
  "item c name err lines = (case cJSON_GetObjectItem c name of None \<Rightarrow> [err] | Some x \<Rightarrow> lines x)"

text \<open>The line of an item with its label; an item of another type prints nothing.\<close>

fun show_string :: "string \<Rightarrow> 'd cjson \<Rightarrow> string list" where
  "show_string label (C_String s) = [label @ s]"
| "show_string label _ = []"

fun show_int :: "string \<Rightarrow> 'd cjson \<Rightarrow> string list" where
  "show_int label (C_Number v d) = [label @ int_text v]"
| "show_int label _ = []"

fun show_double :: "'d doubles \<Rightarrow> string \<Rightarrow> 'd cjson \<Rightarrow> string list" where
  "show_double D label (C_Number v d) = [label @ d_text_f D d]"
| "show_double D label _ = []"

fun when_object :: "('d cjson \<Rightarrow> string list) \<Rightarrow> 'd cjson \<Rightarrow> string list" where
  "when_object lines (C_Object kvs) = lines (C_Object kvs)"
| "when_object lines _ = []"

section \<open>A face\<close>

definition age_lines :: "'d cjson \<Rightarrow> string list" where
  "age_lines c4 =
     item c4 ''range'' ''get age range error!'' (show_int ''age range : '') @
     item c4 ''value'' ''get age value error!'' (show_int ''age value : '')"

definition gender_lines :: "'d doubles \<Rightarrow> 'd cjson \<Rightarrow> string list" where
  "gender_lines D c4 =
     item c4 ''confidence'' ''get gender confidence error!'' (show_double D ''gender confidence : '') @
     item c4 ''value'' ''get gender value error!'' (show_string ''gender value : '')"

definition glass_lines :: "'d doubles \<Rightarrow> 'd cjson \<Rightarrow> string list" where
  "glass_lines D c4 =
     item c4 ''confidence'' ''get glass confidence error!'' (show_double D ''glass confidence : '') @
     item c4 ''value'' ''get gender value error!'' (show_string ''gender value : '')"

definition pose_lines :: "'d doubles \<Rightarrow> 'd cjson \<Rightarrow> string list" where
  "pose_lines D c4 =
     item c4 ''pitch_angle'' ''get pose pitch_angle error!'' (when_object (\<lambda>c5.
       item c5 ''value'' ''get pose pitch_angle value error!'' (show_double D ''pose pitch_angle : ''))) @
     item c4 ''roll_angle'' ''get pose roll_angle error!'' (when_object (\<lambda>c5.
       item c5 ''value'' ''get pose roll_angle value error!'' (show_double D ''pose roll_angle : ''))) @
     item c4 ''yaw_angle'' ''get pose yaw_angle error!'' (when_object (\<lambda>c5.
       item c5 ''value'' ''get pose roll_angle value error!'' (show_double D ''pose roll_angle : '')))"

definition race_lines :: "'d doubles \<Rightarrow> 'd cjson \<Rightarrow> string list" where
  "race_lines D c4 =
     item c4 ''confidence'' ''get race confidence error!'' (show_double D ''race confidence : '') @
     item c4 ''value'' ''get race value error!'' (show_string ''race value : '')"

definition smiling_lines :: "'d doubles \<Rightarrow> 'd cjson \<Rightarrow> string list" where
  "smiling_lines D c4 = item c4 ''value'' ''get smiling value error!'' (show_double D ''smiling value : '')"

definition attribute_lines :: "'d doubles \<Rightarrow> 'd cjson \<Rightarrow> string list" where
  "attribute_lines D c3 =
     item c3 ''age'' ''get age error!'' (when_object age_lines) @
     item c3 ''gender'' ''get gender error!'' (when_object (gender_lines D)) @
     item c3 ''glass'' ''get glass error!'' (when_object (glass_lines D)) @
     item c3 ''pose'' ''get pose error!'' (when_object (pose_lines D)) @
     item c3 ''race'' ''get race error!'' (when_object (race_lines D)) @
     item c3 ''smiling'' ''get smiling error!'' (when_object (smiling_lines D))"

text \<open>The coordinates of a point of the face, which have the name of the point in their lines.\<close>

definition point_lines :: "'d doubles \<Rightarrow> string \<Rightarrow> 'd cjson \<Rightarrow> string list" where
  "point_lines D name c4 =
     item c4 ''x'' (''get '' @ name @ '' x error!'') (show_double D (name @ '' x : '')) @
     item c4 ''y'' (''get '' @ name @ '' y error!'') (show_double D (name @ '' y : ''))"

definition position_lines :: "'d doubles \<Rightarrow> 'd cjson \<Rightarrow> string list" where
  "position_lines D c3 =
     item c3 ''center'' ''get center error!'' (when_object (point_lines D ''center'')) @
     item c3 ''eye_left'' ''get eye_left error!'' (when_object (point_lines D ''eye_left'')) @
     item c3 ''eye_right'' ''get eye_right error!'' (when_object (point_lines D ''eye_right'')) @
     item c3 ''mouth_left'' ''get mouth_left error!'' (when_object (point_lines D ''mouth_left'')) @
     item c3 ''mouth_right'' ''get mouth_right error!'' (when_object (point_lines D ''mouth_right'')) @
     item c3 ''nose'' ''get mouth_left error!'' (when_object (point_lines D ''nose'')) @
     item c3 ''height'' ''get height error!'' (show_double D ''height : '') @
     item c3 ''width'' ''get width error!'' (show_double D ''width : '')"

definition face_lines :: "'d doubles \<Rightarrow> 'd cjson \<Rightarrow> string list" where
  "face_lines D c2 =
     item c2 ''attribute'' ''get attribute error!'' (when_object (attribute_lines D)) @
     item c2 ''face_id'' ''get face_id error!'' (show_string ''face_id : '') @
     item c2 ''position'' ''get position error!'' (when_object (position_lines D))"

section \<open>The answer\<close>

text \<open>The loop over the faces from \<open>i\<close> on, of which \<open>n\<close> are left.\<close>

fun faces :: "'d doubles \<Rightarrow> 'd cjson \<Rightarrow> nat \<Rightarrow> nat \<Rightarrow> string list" where
  "faces D c1 i 0 = []"
| "faces D c1 i (Suc n) = (case cJSON_GetArrayItem c1 i of
     None \<Rightarrow> [''get c1 item error!'']
   | Some c2 \<Rightarrow> face_lines D c2 @ faces D c1 (i + 1) n)"

fun show_faces :: "'d doubles \<Rightarrow> 'd cjson \<Rightarrow> string list" where
  "show_faces D (C_Array xs) = faces D (C_Array xs) 0 (cJSON_GetArraySize (C_Array xs))"
| "show_faces D _ = []"

definition answer_lines :: "'d doubles \<Rightarrow> 'd cjson \<Rightarrow> string list" where
  "answer_lines D c =
     item c ''img_id'' ''get img_id error!'' (show_string ''img_id : '') @
     item c ''img_height'' ''get img_height error!'' (show_int ''img_height : '') @
     item c ''img_width'' ''get img_weight error!'' (show_int ''img_width : '') @
     item c ''session_id'' ''get session_id error!'' (show_string ''session_id '') @
     item c ''face'' ''get face error!'' (show_faces D)"

definition parseJson :: "'d doubles \<Rightarrow> string \<Rightarrow> (int \<times> string list) option" where
  "parseJson D jSonText = do {
     r \<leftarrow> cJSON_Parse D jSonText;
     Some (case r of Inl _ \<Rightarrow> (- 1, [''cJson_parse error!'']) | Inr c \<Rightarrow> (0, answer_lines D c)) }"

section \<open>The report\<close>

text \<open>
  What \<^verbatim>\<open>parseJson\<close> prints as a table: a row has the name of a field, the line when it is missing, and what is printed
  when it is there. A table of an \<open>Object\<close> is skipped for a value that is none; a \<open>Record\<close> takes such a value as an object
  without fields. \<open>Each\<close> repeats a table for every element of an array. The first field of a name counts, in any case.
\<close>

datatype report = Int_Line string | Double_Line string | String_Line string
  | Object "(string \<times> string \<times> report) list" | Record "(string \<times> string \<times> report) list" | Each report

definition fields :: "'d cjson \<Rightarrow> (string \<times> 'd cjson) list" where
  "fields c = (case c of C_Object kvs \<Rightarrow> kvs | _ \<Rightarrow> [])"

definition field :: "'d cjson \<Rightarrow> string \<Rightarrow> 'd cjson option" where
  "field c name = map_of (map (\<lambda>(k, x). (map c_tolower k, x)) (fields c)) (map c_tolower name)"

fun reported :: "'d doubles \<Rightarrow> report \<Rightarrow> 'd cjson \<Rightarrow> string list"
  and reported_rows :: "'d doubles \<Rightarrow> (string \<times> string \<times> report) list \<Rightarrow> 'd cjson \<Rightarrow> string list" where
  "reported D (Int_Line label) c = (case c of C_Number v d \<Rightarrow> [label @ int_text v] | _ \<Rightarrow> [])"
| "reported D (Double_Line label) c = (case c of C_Number v d \<Rightarrow> [label @ d_text_f D d] | _ \<Rightarrow> [])"
| "reported D (String_Line label) c = (case c of C_String s \<Rightarrow> [label @ s] | _ \<Rightarrow> [])"
| "reported D (Object rows) c = (case c of C_Object kvs \<Rightarrow> reported_rows D rows c | _ \<Rightarrow> [])"
| "reported D (Record rows) c = reported_rows D rows c"
| "reported D (Each r) c = (case c of C_Array xs \<Rightarrow> concat (map (reported D r) xs) | _ \<Rightarrow> [])"
| "reported_rows D [] c = []"
| "reported_rows D ((name, err, r) # rows) c =
     (case field c name of None \<Rightarrow> [err] | Some x \<Rightarrow> reported D r x) @ reported_rows D rows c"

definition age_report :: report where
  "age_report = Object
     [(''range'', ''get age range error!'', Int_Line ''age range : ''),
      (''value'', ''get age value error!'', Int_Line ''age value : '')]"

definition angle_report :: "string \<Rightarrow> string \<Rightarrow> report" where
  "angle_report err label = Object [(''value'', err, Double_Line label)]"

definition attribute_report :: report where
  "attribute_report = Object
     [(''age'', ''get age error!'', age_report),
      (''gender'', ''get gender error!'', Object
        [(''confidence'', ''get gender confidence error!'', Double_Line ''gender confidence : ''),
         (''value'', ''get gender value error!'', String_Line ''gender value : '')]),
      (''glass'', ''get glass error!'', Object
        [(''confidence'', ''get glass confidence error!'', Double_Line ''glass confidence : ''),
         (''value'', ''get gender value error!'', String_Line ''gender value : '')]),
      (''pose'', ''get pose error!'', Object
        [(''pitch_angle'', ''get pose pitch_angle error!'', angle_report ''get pose pitch_angle value error!'' ''pose pitch_angle : ''),
         (''roll_angle'', ''get pose roll_angle error!'', angle_report ''get pose roll_angle value error!'' ''pose roll_angle : ''),
         (''yaw_angle'', ''get pose yaw_angle error!'', angle_report ''get pose roll_angle value error!'' ''pose roll_angle : '')]),
      (''race'', ''get race error!'', Object
        [(''confidence'', ''get race confidence error!'', Double_Line ''race confidence : ''),
         (''value'', ''get race value error!'', String_Line ''race value : '')]),
      (''smiling'', ''get smiling error!'', Object
        [(''value'', ''get smiling value error!'', Double_Line ''smiling value : '')])]"

definition point_report :: "string \<Rightarrow> report" where
  "point_report name = Object
     [(''x'', ''get '' @ name @ '' x error!'', Double_Line (name @ '' x : '')),
      (''y'', ''get '' @ name @ '' y error!'', Double_Line (name @ '' y : ''))]"

definition position_report :: report where
  "position_report = Object
     [(''center'', ''get center error!'', point_report ''center''),
      (''eye_left'', ''get eye_left error!'', point_report ''eye_left''),
      (''eye_right'', ''get eye_right error!'', point_report ''eye_right''),
      (''mouth_left'', ''get mouth_left error!'', point_report ''mouth_left''),
      (''mouth_right'', ''get mouth_right error!'', point_report ''mouth_right''),
      (''nose'', ''get mouth_left error!'', point_report ''nose''),
      (''height'', ''get height error!'', Double_Line ''height : ''),
      (''width'', ''get width error!'', Double_Line ''width : '')]"

definition answer_report :: report where
  "answer_report = Record
     [(''img_id'', ''get img_id error!'', String_Line ''img_id : ''),
      (''img_height'', ''get img_height error!'', Int_Line ''img_height : ''),
      (''img_width'', ''get img_weight error!'', Int_Line ''img_width : ''),
      (''session_id'', ''get session_id error!'', String_Line ''session_id ''),
      (''face'', ''get face error!'', Each (Record
        [(''attribute'', ''get attribute error!'', attribute_report),
         (''face_id'', ''get face_id error!'', String_Line ''face_id : ''),
         (''position'', ''get position error!'', position_report)]))]"

section \<open>What is printed\<close>

lemma find_field: "find (\<lambda>c. same_name (fst c) (Some name)) (map (\<lambda>(k, x). (Some k, x)) kvs)
   = map_option (\<lambda>x. (Some (fst (the (find (\<lambda>kx. map c_tolower (fst kx) = map c_tolower name) kvs))), x))
       (map_of (map (\<lambda>(k, x). (map c_tolower k, x)) kvs) (map c_tolower name))"
  by (induction kvs) (auto simp: same_name_def)

lemma GetObjectItem_field: "cJSON_GetObjectItem c name = field c name"
proof (cases c)
  case (C_Array xs)
  have "find (\<lambda>c. same_name (fst c) (Some name)) (map (Pair None) xs) = None" by (simp add: find_None_iff same_name_def image_iff)
  with C_Array show ?thesis by (simp add: cJSON_GetObjectItem_def field_def fields_def)
qed (auto simp: cJSON_GetObjectItem_def field_def fields_def find_field option.map_comp comp_def map_option.identity)

lemma when_object_rows: "reported D (Object rows) = when_object (reported_rows D rows)"
proof
  show "reported D (Object rows) c = when_object (reported_rows D rows) c" for c :: "'a cjson" by (cases c) simp_all
qed

lemma reported_line:
  "reported D (Int_Line label) = show_int label"
  "reported D (Double_Line label) = show_double D label"
  "reported D (String_Line label) = show_string label"
proof -
  show "reported D (Int_Line label) = show_int label"
  proof
    show "reported D (Int_Line label) c = show_int label c" for c :: "'a cjson" by (cases c) simp_all
  qed
  show "reported D (Double_Line label) = show_double D label"
  proof
    show "reported D (Double_Line label) c = show_double D label c" for c :: "'a cjson" by (cases c) simp_all
  qed
  show "reported D (String_Line label) = show_string label"
  proof
    show "reported D (String_Line label) c = show_string label c" for c :: "'a cjson" by (cases c) simp_all
  qed
qed

lemma reported_item: "reported_rows D ((name, err, r) # rows) = (\<lambda>c. item c name err (reported D r) @ reported_rows D rows c)"
  by (simp add: fun_eq_iff item_def GetObjectItem_field)

lemma reported_record: "reported_rows D [] = (\<lambda>c. [])" "reported D (Record rows) = reported_rows D rows"
  by (simp_all add: fun_eq_iff)

lemmas reports = when_object_rows reported_line reported_item reported_record

text \<open>The loop comes to every face once, and its test for a missing one never holds.\<close>

lemma faces_all: "i + n = length xs \<Longrightarrow> faces D (C_Array xs) i n = concat (map (face_lines D) (drop i xs))"
proof (induction n arbitrary: i)
  case 0
  then show ?case by simp
next
  case (Suc n)
  then have i: "i < length xs" by simp
  then have "cJSON_GetArrayItem (C_Array xs) i = Some (xs ! i)" by (simp add: cJSON_GetArrayItem_def rd_def)
  moreover have "drop i xs = xs ! i # drop (i + 1) xs" using i Cons_nth_drop_Suc [of i xs] by simp
  ultimately show ?case using Suc by simp
qed

lemma show_faces_all: "reported D r = face_lines D \<Longrightarrow> reported D (Each r) = show_faces D"
proof
  show "reported D (Each r) c = show_faces D c" if "reported D r = face_lines D" for c :: "'a cjson"
    using that by (cases c) (simp_all add: faces_all cJSON_GetArraySize_def)
qed

lemma attribute_shown: "reported D attribute_report = when_object (attribute_lines D)"
  by (simp only: attribute_report_def age_report_def angle_report_def reports attribute_lines_def [abs_def] age_lines_def [abs_def]
      gender_lines_def [abs_def] glass_lines_def [abs_def] pose_lines_def [abs_def] race_lines_def [abs_def]
      smiling_lines_def [abs_def] append_Nil2 append_assoc)

lemma point_shown: "reported D (point_report name) = when_object (point_lines D name)"
  by (simp only: point_report_def reports point_lines_def [abs_def] append_Nil2)

lemma position_shown: "reported D position_report = when_object (position_lines D)"
  by (simp only: position_report_def point_shown reports position_lines_def [abs_def] append_Nil2)

lemma face_shown: "reported D (Record
        [(''attribute'', ''get attribute error!'', attribute_report),
         (''face_id'', ''get face_id error!'', String_Line ''face_id : ''),
         (''position'', ''get position error!'', position_report)]) = face_lines D"
  by (simp only: attribute_shown position_shown reports face_lines_def [abs_def] append_Nil2)

lemma answer_shown: "reported D answer_report = answer_lines D"
  by (simp only: answer_report_def reported_record(2) reported_item show_faces_all [OF face_shown] reported_record(1) reported_line
      answer_lines_def [abs_def] append_Nil2)

section \<open>The answer that lies beside the program\<close>

text \<open>Decimal numbers that are not rounded, as a mantissa with an exponent of ten.\<close>

definition six_places :: "nat \<Rightarrow> string" where
  "six_places n = map (\<lambda>k. char_of (48 + n div 10 ^ k mod 10)) [5, 4, 3, 2, 1, 0]"

definition decimal_text :: "int \<times> int \<Rightarrow> string" where
  "decimal_text x = (case x of (m, e) \<Rightarrow>
     let n = nat \<bar>m\<bar> * 10 ^ nat (e + 6) div 10 ^ nat (- e - 6)
     in (if m < 0 then ''-'' else []) @ to_string (n div 1000000) @ ''.'' @ six_places n)"

definition decimal_doubles :: "(int \<times> int) doubles" where
  "decimal_doubles = \<lparr> d_zero = (0, 0), d_push = \<lambda>(m, e) d. (10 * m + int d, e),
     d_scale = \<lambda>neg (m, e) k. (if neg then - m else m, e + k),
     d_int = \<lambda>(m, e). let n = \<bar>m\<bar> * 10 ^ nat e div 10 ^ nat (- e) in
       if n \<le> int_max then Some (if m < 0 then - n else n) else None,
     d_is_int = \<lambda>v (m, e). m * 10 ^ nat e = v * 10 ^ nat (- e), d_whole = \<lambda>(m, e). 10 ^ nat (- e) dvd m * 10 ^ nat e,
     d_extreme = \<lambda>x. False, d_text_0f = decimal_text, d_text_e = decimal_text, d_text_f = decimal_text \<rparr>"

text \<open>The layout of \<^verbatim>\<open>jSon.txt\<close>: a field to a line, indented by four for every level, a blank behind each comma.\<close>

definition new_line :: "nat \<Rightarrow> string" where
  "new_line n = CHR 0x0A # replicate (4 * n) (CHR '' '')"

fun laid_out :: "nat \<Rightarrow> string \<Rightarrow> (string \<times> tree) list \<Rightarrow> (string \<times> string \<times> string \<times> string \<times> tree \<times> string) list" where
  "laid_out n w [] = []"
| "laid_out n w ((k, t) # kts) =
     (w @ new_line n, k, [], '' '', t, if kts = [] then new_line (n - 1) else []) # laid_out n '' '' kts"

definition obj :: "nat \<Rightarrow> (string \<times> tree) list \<Rightarrow> tree" where
  "obj n kts = T_Object [] (laid_out n [] kts)"

definition num :: "string \<Rightarrow> string \<Rightarrow> tree" where
  "num ds fs = T_Number False ds fs [] []"

definition neg :: "string \<Rightarrow> string \<Rightarrow> tree" where
  "neg ds fs = T_Number True ds fs [] []"

definition point :: "tree \<Rightarrow> tree \<Rightarrow> tree" where
  "point x y = obj 5 [(''x'', x), (''y'', y)]"

definition jSon_txt :: tree where
  "jSon_txt = obj 1
     [(''face'', T_Array [] [(new_line 2, obj 3
        [(''attribute'', obj 4
          [(''age'', obj 5 [(''range'', num ''5'' []), (''value'', num ''10'' [])]),
           (''gender'', obj 5 [(''confidence'', num ''99'' ''9837''), (''value'', T_String ''Male'')]),
           (''glass'', obj 5 [(''confidence'', num ''99'' ''8336''), (''value'', T_String ''Normal'')]),
           (''pose'', obj 5
             [(''pitch_angle'', obj 6 [(''value'', neg ''0'' ''020992'')]),
              (''roll_angle'', obj 6 [(''value'', neg ''2'' ''65314'')]),
              (''yaw_angle'', obj 6 [(''value'', neg ''12'' ''168801'')])]),
           (''race'', obj 5 [(''confidence'', num ''87'' ''5344''), (''value'', T_String ''White'')]),
           (''smiling'', obj 5 [(''value'', num ''1'' ''43677'')])]),
         (''face_id'', T_String ''b09d8b12699817f85d2dd67dd648da24''),
         (''position'', obj 4
          [(''center'', point (num ''59'' ''895833'') (num ''28'' ''985507'')),
           (''eye_left'', point (num ''47'' ''63224'') (num ''18'' ''86'')),
           (''eye_right'', point (num ''69'' ''307812'') (num ''17'' ''928357'')),
           (''height'', num ''47'' ''342995''),
           (''mouth_left'', point (num ''50'' ''07'') (num ''40'' ''863816'')),
           (''mouth_right'', point (num ''67'' ''130729'') (num ''41'' ''631981'')),
           (''nose'', point (num ''55'' ''190104'') (num ''29'' ''932415'')),
           (''width'', num ''51'' ''041667'')]),
         (''tag'', T_String [])], new_line 1)]),
      (''img_height'', num ''207'' []),
      (''img_id'', T_String ''52088712c8406bdceb7764c5dc38f985''),
      (''img_width'', num ''192'' []),
      (''session_id'', T_String ''28343b29b3874892998af53c5a78bf18''),
      (''url'', T_Null)]"

lemma jSon_txt_ok: "tree_ok decimal_doubles jSon_txt"
  by code_simp

definition jSon_lines :: "string list" where
  "jSon_lines =
     [''img_id : 52088712c8406bdceb7764c5dc38f985'', ''img_height : 207'', ''img_width : 192'',
      ''session_id 28343b29b3874892998af53c5a78bf18'', ''age range : 5'', ''age value : 10'',
      ''gender confidence : 99.983700'', ''gender value : Male'', ''glass confidence : 99.833600'', ''gender value : Normal'',
      ''pose pitch_angle : -0.020992'', ''pose roll_angle : -2.653140'', ''pose roll_angle : -12.168801'',
      ''race confidence : 87.534400'', ''race value : White'', ''smiling value : 1.436770'',
      ''face_id : b09d8b12699817f85d2dd67dd648da24'',
      ''center x : 59.895833'', ''center y : 28.985507'', ''eye_left x : 47.632240'', ''eye_left y : 18.860000'',
      ''eye_right x : 69.307812'', ''eye_right y : 17.928357'', ''mouth_left x : 50.070000'', ''mouth_left y : 40.863816'',
      ''mouth_right x : 67.130729'', ''mouth_right y : 41.631981'', ''nose x : 55.190104'', ''nose y : 29.932415'',
      ''height : 47.342995'', ''width : 51.041667'']"

lemmas jSon_values = obj_def num_def neg_def point_def decimal_doubles_def number_value_def push_digits_def exponent_def Let_def
  digit_value_def

lemmas report_tables = answer_report_def attribute_report_def position_report_def point_report_def angle_report_def age_report_def

lemma jSon_txt_report: "reported decimal_doubles answer_report (tree_value decimal_doubles jSon_txt) = jSon_lines"
  by (simp add: jSon_txt_def jSon_values field_def fields_def c_tolower_def report_tables jSon_lines_def int_text_def
      decimal_text_def six_places_def to_string.simps char_of_eq_iff)

section \<open>Properties\<close>

text \<open>
  C40: What the reader prints for an answer is the table of the report.  For any JSON text - its fields in any order
  and number, with any white space, and numbers with fractions and exponents, as long as each of them fits an
  \<^verbatim>\<open>int\<close> when it is cut, which the parser does to all of them, and strings are escaped as the printer would and hold
  no NUL - \<^verbatim>\<open>parseJson\<close> reads no character behind the one that follows the text, returns 0 and prints, for the value
  the text stands for, the lines of the table: those of the image and the session, and for every face in its order
  the attributes, the name and the position; the row's error for a field that is missing, nothing for a field of
  another type, and for a name that occurs twice in any case the first field.  What a number is after scaling, and the
  text of \<^verbatim>\<open>%f\<close>, are those of the operations on \<^verbatim>\<open>double\<close> that are given.
\<close>

theorem answer_is_shown:
  assumes "tree_ok D t" and "blanks w" and "number_ends c"
  shows "parseJson D (w @ tree_text t @ c # rest) = Some (0, reported D answer_report (tree_value D t))"
  using parse_tree [OF assms] by (simp add: parseJson_def answer_shown)

lemma answer_is_shown_witness:
  "parseJson decimal_doubles (tree_text jSon_txt @ CHR 0x00 # ''rest'') = Some (0, jSon_lines)"
  using answer_is_shown [OF jSon_txt_ok, of "[]" "CHR 0x00" "''rest''"] terminator_ends
  by (simp add: jSon_txt_report blanks_def)

end
