(* ===== verification/Spec2Isabelle.thy ===== *)
theory Spec2Isabelle
  imports Murmur_Hash Thread_Pool Lockfree_Queue String_Util Http_Uri Http_Roundtrip Http_Session Http_Message_Defects
    Tcp_Transport Easy_Exchange
    Int_Sorts Search_Tree Red_Black_Set Decompress Link_List Pool_Malloc Thread_Event Nn_Socket
    Lua_Roundtrip Palindrome Tcp_Server Crypt_Md5 Maze Cjson_Minify Face_Json
begin

text \<open>
  A verification of the C++ sources of this repository, a collection of small systems libraries.

  \<^bold>\<open>Parts of the program and the theories that model them.\<close>

  \<^item> \<open>Prelude\<close>: machine types, checked reads of a buffer, truncating division.
  \<^item> \<open>Murmur_Hash\<close>: \<^verbatim>\<open>core/crypt/MurmurHash3.cpp\<close> and \<^verbatim>\<open>hash.cpp\<close>. The three hash functions over a
    byte buffer; every read is checked and every word operation has its width. The 32-bit hash is
    refined to an index-free recursion on the bytes, and its round and finalizer are inverted.
  \<^item> \<open>Task_Queues\<close>: the queues of \<^verbatim>\<open>core/threadpool/thread_pool.h\<close>: \<^verbatim>\<open>queue_wrap\<close>,
    \<^verbatim>\<open>stable_priority_queue\<close>, \<^verbatim>\<open>static_stable_priority_queue\<close> and their items. The locale
    \<open>task_queue\<close> is the contract of a queue towards the pool: what a push and a pop do to the list of
    items; it is interpreted on all three queues, and on the lock-free one.
  \<^item> \<open>Thread_Pool\<close>: \<^verbatim>\<open>thread_pool_base\<close>, \<^verbatim>\<open>priority_thread_pool_base\<close> and \<^verbatim>\<open>safe_thread\<close> of the same
    file. Workers and callers take steps in any order; a worker's program counter is a point of the
    loop of the constructor. Invariants and progress are proved for any queue that meets \<open>task_queue\<close>.
  \<^item> \<open>Tagged_Ptr\<close>, \<open>Lockfree_Queue\<close>: \<^verbatim>\<open>core/threadpool/lockfree\<close>. Each atomic access of
    \<^verbatim>\<open>lockfree_queue.h\<close> and \<^verbatim>\<open>freelist.h\<close> is one step of a thread on a store of nodes.
  \<^item> \<open>String_Util\<close>: \<^verbatim>\<open>core/string/string_util.cpp\<close> and \<^verbatim>\<open>net/util/string_util.cpp\<close>.
  \<^item> \<open>Http_Uri\<close>: \<^verbatim>\<open>net/app/http/uri.cpp\<close>; it calls \<open>split\<close>.
  \<^item> \<open>Http_Types\<close>, \<open>Http_Url\<close>, \<open>Http_Parser\<close>: \<^verbatim>\<open>net/app/http/parser/http_parser.c\<close>. Its enumerations and
    character tables, the URL parser, and the machine of \<^verbatim>\<open>http_parser_execute\<close>: one definition per state or
    group of states, and a loop that feeds the bytes to them. The callbacks are a record of functions over a
    user state. \<open>Http_Parser_Steps\<close> holds the effect of single states; \<open>Http_Parser_Safe\<close> the invariant of
    the parser object, with the locale \<open>tame_settings\<close> for callbacks that do not destroy it; and
    \<open>Http_Execute\<close>, with the locale \<open>tame_run\<close>, what holds after any sequence of calls.
  \<^item> \<open>Http_Message\<close>: the class of \<^verbatim>\<open>net/app/http/message.cpp\<close>, as callbacks of that parser. \<open>Http_Client\<close>: the
    requests that \<^verbatim>\<open>net/app/http/client.h\<close> writes. \<open>Http_Request_Text\<close> and \<open>Http_Roundtrip\<close> run the parser over
    the text of a request; the locale \<open>message_env\<close> states what each callback of a message does to it, and is
    interpreted on the message class. \<open>Http_Message_Defects\<close>: runs on messages that come in pieces.
  \<^item> \<open>Tcp_Transport\<close>: \<^verbatim>\<open>net/transport\<close> (sessions, their pool, the server) and the spin lock.
    \<open>Tcp_Client\<close>: the client of the same directory and \<^verbatim>\<open>net/app/easy_tcp/client.h\<close>, on the same sessions.
    \<open>Http_Session\<close>: the HTTP client on a TCP client: a request is rendered, sent, and answered by the message
    that the received pieces make up.
    \<open>Tcp_Server\<close>: the life of a server, its address, start and destructors.
  \<^item> \<open>Easy_Exchange\<close>: \<^verbatim>\<open>easy_exchange\<close> (stock table, account, command interpreter).
  \<^item> \<open>Int_Sorts\<close>: \<^verbatim>\<open>practice/heap_sort.cpp\<close> and \<^verbatim>\<open>practice/quicksort.cpp\<close>.
  \<^item> \<open>Tree_Store\<close>: nodes with child and parent pointers in a store, the tree that a store holds, and the
    contexts that lead from a subtree to the root. The locale \<open>node_layout\<close> is what the proofs need of a node
    type, \<open>stored_collection\<close> the contract of a structure with insertion and erasure; both trees interpret both.
    \<open>Search_Tree\<close>: \<^verbatim>\<open>practice/tree.h\<close>. \<open>Red_Black_Tree\<close>: \<^verbatim>\<open>practice/rbtree.h\<close>, with the rotations and
    recolourings on trees in \<open>Red_Black_Steps\<close>, the loops of \<^verbatim>\<open>insert_fixup\<close> and \<^verbatim>\<open>erase_fixup\<close> in
    \<open>Red_Black_Insert\<close> and \<open>Red_Black_Erase\<close>, and the operations in \<open>Red_Black_Set\<close>.
  \<^item> \<open>Thread_Event\<close>: \<^verbatim>\<open>core/threadpool/event.h\<close>, a flag with a condition variable and threads that wait for it, and
    \<^verbatim>\<open>runnable.h\<close>. \<open>Nn_Socket\<close>: \<^verbatim>\<open>core/mq/nn_socket.cpp\<close> on a nanomsg library that is an argument.
  \<^item> \<open>Link_List\<close>, \<open>Pool_Malloc\<close>: \<^verbatim>\<open>memory/my_link.c\<close>, a linked list in a store of nodes, and
    \<^verbatim>\<open>memory/my_malloc.c\<close>, an allocator of a hundred blocks. \<open>Decompress\<close>: \<^verbatim>\<open>practice/decompress.cpp\<close>.
  \<^item> \<open>Lua_Bridge\<close>: \<^verbatim>\<open>core/luafunction/luafunction.cpp\<close> on a Lua library that is an argument; the predicate
    \<open>documented\<close> is what its manual says. \<open>Lua_Roundtrip\<close>: what a JSON value becomes on the stack, and when it is
    popped, by induction on the value. \<open>Crypt_Md5\<close>: \<^verbatim>\<open>core/crypt/crypt.cpp\<close> on a digest function.
  \<^item> \<open>Palindrome\<close>: \<^verbatim>\<open>practice/huiwen.cpp\<close>, which rewrites a text in its buffer. \<open>Maze\<close>: \<^verbatim>\<open>memory/design/maze.cpp\<close>.
  \<^item> \<open>Cjson\<close>: the parser, the printer and the accesses of \<^verbatim>\<open>memory/face++_pro/parseJson/cJSON.c\<close>, on values whose
    children are lists; the operations on \<^verbatim>\<open>double\<close> are an argument. \<open>Cjson_Roundtrip\<close>: what the parser makes of
    printed pieces of text, and that the printer stays in its buffers; \<open>Cjson_Minify\<close>: the formatted text without
    its white space, and the round trip. \<open>Face_Json\<close>: \<^verbatim>\<open>main.c\<close> beside it, which prints the fields of an answer.

  \<^bold>\<open>Conventions.\<close> A struct or class is a record, an enumeration a datatype, a machine integer a word or
  an \<open>int\<close> with its range tested. \<open>None\<close>, \<open>Fault\<close> or an error constructor stand for undefined
  behaviour, an exception or a loop that does not end, so that a theorem with \<open>Some\<close> says that none of
  them happens. Atomic accesses are sequentially consistent. Where a theorem exhibits a defect of the
  code, the text before it says so.

  \<^bold>\<open>Fuel and bounds.\<close> \<open>run_alone\<close> is given 12 steps, which the lemmas on push and pop show to be enough
  for every queue between operations; \<open>drain\<close> one more step than there are items. A call of the parser
  gets one round per byte and one more, and a byte is re-executed at most five times, which
  \<open>http_parser_never_aborts\<close> shows to be enough. All other loops are structural, have a
  termination proof, or are \<open>partial_function\<close>s whose \<open>None\<close> is divergence.

  \<^bold>\<open>Not modelled.\<close> Logging, time, the timers and the event loop of \<^verbatim>\<open>core\<close>, which only call the system or
  have no bodies; the floating-point \<^verbatim>\<open>Tick::update\<close> of the exchange, which nothing calls; the vendored libraries
  under \<^verbatim>\<open>deps\<close>, \<^verbatim>\<open>concurrentqueue\<close>, \<^verbatim>\<open>curl\<close> and \<^verbatim>\<open>json.hpp\<close>; the operations
  of \<^verbatim>\<open>cJSON.c\<close> that change a tree in place, and its allocation hooks; trials of language features under
  \<^verbatim>\<open>practice\<close>, \<^verbatim>\<open>memory\<close> and \<^verbatim>\<open>coroutine\<close>; the tests; generated code; the programs in other languages.
\<close>

end
